(* ===== verification/Prelude.thy ===== *)
theory Prelude
  imports Main "HOL-Library.Word" "HOL-Library.AList"
begin

text \<open>
  Shared vocabulary of the development: the machine integers of the Rust sources, the
  three-valued outcome of a fallible operation (a value, an error returned with \<open>Err\<close>, or a
  panic), the checked and saturating integer operations of the Rust standard library, and hash
  maps as association lists with the lemmas that the components use.

  A \<open>HashMap\<close> is an association list: \<open>map_of\<close> is the lookup, \<open>AList.update\<close> the insertion and
  \<open>AList.delete\<close> the removal.  The iteration order of a \<open>HashMap\<close> is not specified; the list
  order is one such order, and the properties of the development only speak of lookups, of the
  set of entries or of orders that the code itself establishes.

  Plain \<open>+\<close>, \<open>-\<close> and \<open>*\<close> on the primitive types wrap around, as in the release profile that the
  deployed images are built with; the operations of \<open>U256\<close> and the \<open>checked_*\<close> calls that are
  unwrapped in the sources are written with an explicit panic.
\<close>

section \<open>Machine integers\<close>

type_synonym u8 = "8 word"
type_synonym u16 = "16 word"
type_synonym u32 = "32 word"
type_synonym u64 = "64 word"
type_synonym u128 = "128 word"
type_synonym u256 = "256 word"
type_synonym address = "160 word"
type_synonym h256 = "256 word"

named_theorems res_simps \<open>unfolding rules for the result type and its operations\<close>
named_theorems checked_simps \<open>characterisations of checked machine arithmetic\<close>

section \<open>Outcomes\<close>

text \<open>\<open>Ok\<close> and \<open>Err\<close> are Rust's \<open>Result\<close>; \<open>Panic\<close> is an aborted computation.\<close>

datatype ('e, 'a) result = Ok (the_ok: 'a) | Err 'e | Panic

type_synonym 'a res = "(string, 'a) result"

fun rbind :: "('e, 'a) result \<Rightarrow> ('a \<Rightarrow> ('e, 'b) result) \<Rightarrow> ('e, 'b) result" where
  "rbind (Ok a) f = f a"
| "rbind (Err e) f = Err e"
| "rbind Panic f = Panic"

fun rmap :: "('a \<Rightarrow> 'b) \<Rightarrow> ('e, 'a) result \<Rightarrow> ('e, 'b) result" where
  "rmap f (Ok a) = Ok (f a)"
| "rmap f (Err e) = Err e"
| "rmap f Panic = Panic"

text \<open>The \<open>ensure!\<close> macro.\<close>

definition ensure :: "bool \<Rightarrow> 'e \<Rightarrow> ('e, unit) result" where
  "ensure b e = (if b then Ok () else Err e)"

text \<open>\<open>Option::ok_or\<close> and \<open>Option::unwrap\<close>.\<close>

definition ok_or :: "'a option \<Rightarrow> 'e \<Rightarrow> ('e, 'a) result" where
  "ok_or x e = (case x of Some a \<Rightarrow> Ok a | None \<Rightarrow> Err e)"

definition unwrap :: "'a option \<Rightarrow> ('e, 'a) result" where
  "unwrap x = (case x of Some a \<Rightarrow> Ok a | None \<Rightarrow> Panic)"

fun is_ok :: "('e, 'a) result \<Rightarrow> bool" where
  "is_ok (Ok a) = True"
| "is_ok r = False"

text \<open>\<open>Iterator::try_fold\<close>: stops at the first error.\<close>

fun try_fold :: "('s \<Rightarrow> 'a \<Rightarrow> ('e, 's) result) \<Rightarrow> 's \<Rightarrow> 'a list \<Rightarrow> ('e, 's) result" where
  "try_fold f s [] = Ok s"
| "try_fold f s (x # xs) = rbind (f s x) (\<lambda>s'. try_fold f s' xs)"

text \<open>Mapping a fallible function over an iterator and collecting the results.\<close>

fun traverse :: "('a \<Rightarrow> ('e, 'b) result) \<Rightarrow> 'a list \<Rightarrow> ('e, 'b list) result" where
  "traverse f [] = Ok []"
| "traverse f (x # xs) = rbind (f x) (\<lambda>y. rmap (Cons y) (traverse f xs))"

lemma ensure_simps [simp, res_simps]:
  "ensure True e = Ok ()"
  "ensure False e = Err e"
  by (simp_all add: ensure_def)

lemma ok_or_simps [simp, res_simps]:
  "ok_or (Some a) e = Ok a"
  "ok_or None e = Err e"
  by (simp_all add: ok_or_def)

lemma unwrap_simps [simp, res_simps]:
  "unwrap (Some a) = Ok a"
  "unwrap None = Panic"
  by (simp_all add: unwrap_def)

lemma ensure_eq_Ok [simp]: "ensure b e = Ok u \<longleftrightarrow> b"
  by (simp add: ensure_def)

lemma ensure_eq_Err [simp]: "ensure b e = Err e' \<longleftrightarrow> \<not> b \<and> e = e'"
  by (auto simp: ensure_def)

lemma ensure_not_Panic [simp]: "ensure b e \<noteq> Panic" "Panic \<noteq> ensure b e"
  by (simp_all add: ensure_def)

lemma ok_or_eq_Ok [simp]: "ok_or x e = Ok a \<longleftrightarrow> x = Some a"
  by (cases x) simp_all

lemma ok_or_not_Panic [simp]: "ok_or x e \<noteq> Panic" "Panic \<noteq> ok_or x e"
  by (cases x; simp)+

lemma unwrap_eq_Ok [simp]: "unwrap x = Ok a \<longleftrightarrow> x = Some a"
  by (cases x) simp_all

lemma unwrap_eq_Panic [simp]: "unwrap x = Panic \<longleftrightarrow> x = None"
  by (cases x) simp_all

lemma unwrap_not_Err [simp]: "unwrap x \<noteq> Err e"
  by (cases x) simp_all

lemma rbind_eq_Ok [res_simps]: "rbind m f = Ok b \<longleftrightarrow> (\<exists>a. m = Ok a \<and> f a = Ok b)"
  by (cases m) simp_all

lemma rbind_eq_Panic [res_simps]:
  "rbind m f = Panic \<longleftrightarrow> m = Panic \<or> (\<exists>a. m = Ok a \<and> f a = Panic)"
  by (cases m) simp_all

lemma rbind_ensure [simp]: "rbind (ensure b e) f = (if b then f () else Err e)"
  by (simp add: ensure_def)

lemma rmap_eq_Ok [simp]: "rmap f m = Ok b \<longleftrightarrow> (\<exists>a. m = Ok a \<and> b = f a)"
  by (cases m) auto

lemma rmap_eq_Panic [simp]: "rmap f m = Panic \<longleftrightarrow> m = Panic"
  by (cases m) simp_all

lemma is_ok_iff: "is_ok r \<longleftrightarrow> (\<exists>a. r = Ok a)"
  by (cases r) simp_all

lemma try_fold_append:
  "try_fold f s (xs @ ys) = rbind (try_fold f s xs) (\<lambda>s'. try_fold f s' ys)"
proof (induction xs arbitrary: s)
  case (Cons x xs)
  then show ?case by (cases "f s x") simp_all
qed simp

lemma traverse_eq_Ok: "traverse f xs = Ok ys \<longleftrightarrow> list_all2 (\<lambda>x y. f x = Ok y) xs ys"
proof (induction xs arbitrary: ys)
  case (Cons x xs)
  then show ?case
    by (cases ys) (auto simp: rbind_eq_Ok)
qed auto

lemma traverse_Ok_set: "traverse f xs = Ok ys \<Longrightarrow> y \<in> set ys \<longleftrightarrow> (\<exists>x \<in> set xs. f x = Ok y)"
  by (induction xs arbitrary: ys) (auto simp: rbind_eq_Ok)

lemma traverse_Ok_all: "(\<And>x. x \<in> set xs \<Longrightarrow> is_ok (f x)) \<Longrightarrow> is_ok (traverse f xs)"
proof (induction xs)
  case (Cons x xs)
  then have "is_ok (f x)" "is_ok (traverse f xs)"
    by simp_all
  then show ?case
    by (auto simp: is_ok_iff)
qed simp

section \<open>Machines that may fail\<close>

text \<open>
  The contract shared by the components that consume a sequence of events: a step either
  succeeds, returning the next state, or fails with an error.  The provider promises an invariant
  that every successful step keeps and that rules out panics; the client gets both for whole
  runs.
\<close>

locale fallible_machine =
  fixes step :: "'s \<Rightarrow> 'ev \<Rightarrow> ('e, 's) result"
    and inv :: "'s \<Rightarrow> bool"
    and admissible :: "'ev \<Rightarrow> bool"
  assumes step_inv: "inv s \<Longrightarrow> admissible ev \<Longrightarrow> step s ev = Ok s' \<Longrightarrow> inv s'"
    and step_no_panic: "inv s \<Longrightarrow> admissible ev \<Longrightarrow> step s ev \<noteq> Panic"
begin

lemma run_inv:
  "inv s \<Longrightarrow> list_all admissible evs \<Longrightarrow> try_fold step s evs = Ok s' \<Longrightarrow> inv s'"
proof (induction evs arbitrary: s)
  case (Cons ev evs)
  from Cons.prems obtain t where t: "step s ev = Ok t" "try_fold step t evs = Ok s'"
    by (auto simp: rbind_eq_Ok)
  have "inv t"
    using Cons.prems t by (auto intro: step_inv)
  with Cons t show ?case by simp
qed simp

lemma run_no_panic:
  "inv s \<Longrightarrow> list_all admissible evs \<Longrightarrow> try_fold step s evs \<noteq> Panic"
proof (induction evs arbitrary: s)
  case (Cons ev evs)
  then show ?case
    by (auto simp: rbind_eq_Panic step_no_panic dest: step_inv)
qed simp

end

section \<open>Checked integer operations\<close>

definition checked_add :: "'a::len word \<Rightarrow> 'a word \<Rightarrow> 'a word option" where
  "checked_add a b = (if unat a + unat b < 2 ^ LENGTH('a) then Some (a + b) else None)"

definition checked_sub :: "'a::len word \<Rightarrow> 'a word \<Rightarrow> 'a word option" where
  "checked_sub a b = (if b \<le> a then Some (a - b) else None)"

definition checked_mul :: "'a::len word \<Rightarrow> 'a word \<Rightarrow> 'a word option" where
  "checked_mul a b = (if unat a * unat b < 2 ^ LENGTH('a) then Some (a * b) else None)"

definition checked_div :: "'a::len word \<Rightarrow> 'a word \<Rightarrow> 'a word option" where
  "checked_div a b = (if b = 0 then None else Some (a div b))"

definition saturating_add :: "'a::len word \<Rightarrow> 'a word \<Rightarrow> 'a word" where
  "saturating_add a b = (if unat a + unat b < 2 ^ LENGTH('a) then a + b else - 1)"

definition saturating_sub :: "'a::len word \<Rightarrow> 'a word \<Rightarrow> 'a word" where
  "saturating_sub a b = (if b \<le> a then a - b else 0)"

lemma unat_less: "unat w < 2 ^ LENGTH('a)" for w :: "'a::len word"
  by (rule unsigned_less)

lemma unat_not_max: "w \<noteq> - 1 \<Longrightarrow> unat w + 1 < 2 ^ LENGTH('a)" for w :: "'a::len word"
proof -
  assume "w \<noteq> - 1"
  then have "unat w \<noteq> unat (- 1 :: 'a word)"
    by (simp add: word_unat_eq_iff)
  then have "unat w \<noteq> 2 ^ LENGTH('a) - 1"
    by (simp add: unsigned_minus_1_eq_mask mask_eq_exp_minus_1)
  with unat_less [of w] show ?thesis
    by linarith
qed

lemma uint_eq_int_unat: "uint w = int (unat w)" for w :: "'a::len word"
  by simp

lemma checked_add_eq_Some [checked_simps]:
  "checked_add a b = Some c \<longleftrightarrow> unat a + unat b < 2 ^ LENGTH('a) \<and> unat c = unat a + unat b"
  for a :: "'a::len word"
  by (auto simp: checked_add_def unat_add_lem [THEN iffD1] word_unat_eq_iff)

lemma checked_add_eq_None [checked_simps]:
  "checked_add a b = None \<longleftrightarrow> 2 ^ LENGTH('a) \<le> unat a + unat b"
  for a :: "'a::len word"
  by (auto simp: checked_add_def)

lemma checked_sub_eq_Some [checked_simps]:
  "checked_sub a b = Some c \<longleftrightarrow> unat b \<le> unat a \<and> unat c = unat a - unat b"
  by (auto simp: checked_sub_def word_le_nat_alt unat_sub word_unat_eq_iff)

lemma checked_sub_eq_None [checked_simps]:
  "checked_sub a b = None \<longleftrightarrow> unat a < unat b"
  by (auto simp: checked_sub_def word_le_nat_alt)

lemma checked_mul_eq_Some [checked_simps]:
  "checked_mul a b = Some c \<longleftrightarrow> unat a * unat b < 2 ^ LENGTH('a) \<and> unat c = unat a * unat b"
  for a :: "'a::len word"
  by (auto simp: checked_mul_def unat_mult_lem [THEN iffD1] word_unat_eq_iff)

lemma checked_div_eq_Some [checked_simps]:
  "checked_div a b = Some c \<longleftrightarrow> b \<noteq> 0 \<and> c = a div b"
  by (auto simp: checked_div_def)

lemma saturating_sub_unat: "unat (saturating_sub a b) = unat a - unat b"
  by (auto simp: saturating_sub_def word_le_nat_alt unat_sub)

lemma saturating_add_unat:
  "unat (saturating_add a b) = min (unat a + unat b) (2 ^ LENGTH('a) - 1)"
  for a :: "'a::len word"
proof (cases "unat a + unat b < 2 ^ LENGTH('a)")
  case True
  then show ?thesis
    by (simp add: saturating_add_def unat_add_lem [THEN iffD1])
next
  case False
  have "unat (- 1 :: 'a word) = 2 ^ LENGTH('a) - 1"
    by (simp add: unsigned_minus_1_eq_mask mask_eq_exp_minus_1)
  with False show ?thesis
    by (simp add: saturating_add_def)
qed

lemma unat_sub_one: "0 < (w :: 'a::len word) \<Longrightarrow> unat (w - 1) = unat w - 1"
  by (metis unat_minus_one word_gt_0)

section \<open>Hash maps\<close>

abbreviation hm_get :: "('k \<times> 'v) list \<Rightarrow> 'k \<Rightarrow> 'v option" where
  "hm_get \<equiv> map_of"

text \<open>\<open>HashMap::entry(k).or_default()\<close>: the value under \<open>k\<close>, or the default.\<close>

definition hm_or_default :: "('k \<times> 'v) list \<Rightarrow> 'k \<Rightarrow> 'v \<Rightarrow> 'v" where
  "hm_or_default m k d = (case map_of m k of Some v \<Rightarrow> v | None \<Rightarrow> d)"

abbreviation hm_insert :: "'k \<Rightarrow> 'v \<Rightarrow> ('k \<times> 'v) list \<Rightarrow> ('k \<times> 'v) list" where
  "hm_insert \<equiv> AList.update"

abbreviation hm_remove :: "'k \<Rightarrow> ('k \<times> 'v) list \<Rightarrow> ('k \<times> 'v) list" where
  "hm_remove \<equiv> AList.delete"

abbreviation hm_wf :: "('k \<times> 'v) list \<Rightarrow> bool" where
  "hm_wf m \<equiv> distinct (map fst m)"

lemma hm_get_insert [simp]: "map_of (AList.update k v m) = (map_of m)(k \<mapsto> v)"
  by (rule update_conv')

lemma hm_get_remove [simp]: "map_of (AList.delete k m) = (map_of m)(k := None)"
  by (rule delete_conv')

lemma hm_wf_insert [simp]: "hm_wf m \<Longrightarrow> hm_wf (AList.update k v m)"
  by (rule distinct_update)

lemma hm_wf_remove [simp]: "hm_wf m \<Longrightarrow> hm_wf (AList.delete k m)"
  by (rule distinct_delete)

lemma hm_entry_iff: "hm_wf m \<Longrightarrow> (k, v) \<in> set m \<longleftrightarrow> map_of m k = Some v"
  by simp

text \<open>Collecting an iterator of pairs into a \<open>HashMap\<close>: later pairs replace earlier ones.\<close>

definition hm_collect :: "('k \<times> 'v) list \<Rightarrow> ('k \<times> 'v) list" where
  "hm_collect kvs = fold (\<lambda>kv m. hm_insert (fst kv) (snd kv) m) kvs []"

lemma map_of_hm_collect: "map_of (hm_collect kvs) = map_of (rev kvs)"
proof -
  have "map_of (fold (\<lambda>kv m. hm_insert (fst kv) (snd kv) m) kvs m) = map_of m ++ map_of (rev kvs)" for m
    by (induction kvs arbitrary: m) (auto simp: map_add_def fun_eq_iff split: option.split)
  from this [of "[]"] show ?thesis
    by (simp add: hm_collect_def)
qed

lemma hm_wf_collect: "hm_wf (hm_collect kvs)"
proof -
  have "hm_wf m \<Longrightarrow> hm_wf (fold (\<lambda>kv m. hm_insert (fst kv) (snd kv) m) kvs m)" for m :: "('a \<times> 'b) list"
    by (induction kvs arbitrary: m) auto
  from this [of "[]"] show ?thesis
    by (simp add: hm_collect_def)
qed

lemma map_of_hm_collect_distinct: "hm_wf kvs \<Longrightarrow> map_of (hm_collect kvs) = map_of kvs"
  by (simp add: map_of_hm_collect map_of_inject_set rev_map [symmetric])

lemma hm_or_default_simps [simp]:
  "map_of m k = Some v \<Longrightarrow> hm_or_default m k d = v"
  "map_of m k = None \<Longrightarrow> hm_or_default m k d = d"
  by (simp_all add: hm_or_default_def)

lemma hm_or_default_insert [simp]:
  "hm_or_default (hm_insert k v m) k' d = (if k' = k then v else hm_or_default m k' d)"
  by (simp add: hm_or_default_def)

lemma hm_insert_present:
  "hm_wf m \<Longrightarrow> map_of m k = Some v \<Longrightarrow> hm_insert k v' m = map (\<lambda>e. if fst e = k then (k, v') else e) m"
proof (induction m)
  case (Cons e m)
  obtain k0 v0 where e: "e = (k0, v0)"
    by fastforce
  show ?case
  proof (cases "k0 = k")
    case True
    with Cons.prems(1) e have "map (\<lambda>e. if fst e = k then (k, v') else e) m = m"
      by (intro map_idI) (auto simp: image_iff)
    with True e show ?thesis by simp
  next
    case False
    with Cons e show ?thesis by auto
  qed
qed simp

lemma traverse_filter_map:
  assumes "\<And>e. e \<in> set m \<Longrightarrow> P (g e) = P e" "\<And>e. e \<in> set m \<Longrightarrow> f (g e) = f e"
  shows "traverse f (filter P (map g m)) = traverse f (filter P m)"
  using assms by (induction m) auto

section \<open>Fallible operations on a state\<close>

text \<open>
  A method that takes \<open>&mut self\<close> and returns a result changes its object also when it fails:
  the caller may go on with the object after an error.  Such methods return the result together
  with the state they leave behind.
\<close>

type_synonym ('e, 's, 'a) fallible = "'s \<Rightarrow> ('e, 'a) result \<times> 's"
type_synonym ('s, 'a) effect = "(string, 's, 'a) fallible"

definition ebind :: "('e, 's, 'a) fallible \<Rightarrow> ('a \<Rightarrow> ('e, 's, 'b) fallible) \<Rightarrow> ('e, 's, 'b) fallible" where
  "ebind m f s =
     (case m s of
        (Ok a, s') \<Rightarrow> f a s'
      | (Err e, s') \<Rightarrow> (Err e, s')
      | (Panic, s') \<Rightarrow> (Panic, s'))"

definition elift :: "('e, 'a) result \<Rightarrow> ('e, 's, 'a) fallible" where
  "elift r s = (r, s)"

definition eget :: "('s \<Rightarrow> 'a) \<Rightarrow> ('e, 's, 'a) fallible" where
  "eget f s = (Ok (f s), s)"

definition emodify :: "('s \<Rightarrow> 's) \<Rightarrow> ('e, 's, unit) fallible" where
  "emodify f s = (Ok (), f s)"

text \<open>\<open>for x in xs { f(x)?; }\<close>\<close>

fun eloop :: "('a \<Rightarrow> ('e, 's, unit) fallible) \<Rightarrow> 'a list \<Rightarrow> ('e, 's, unit) fallible" where
  "eloop f [] = elift (Ok ())"
| "eloop f (x # xs) = ebind (f x) (\<lambda>_. eloop f xs)"

text \<open>\<open>.context(...)\<close>: the message of an error is replaced.\<close>

definition effect_context :: "string \<Rightarrow> ('s, 'a) effect \<Rightarrow> ('s, 'a) effect" where
  "effect_context msg m s = (case m s of (Err _, s) \<Rightarrow> (Err msg, s) | r \<Rightarrow> r)"

text \<open>An effect on a part of the state.\<close>

definition ezoom :: "('s \<Rightarrow> 't) \<Rightarrow> ('t \<Rightarrow> 's \<Rightarrow> 's) \<Rightarrow> ('e, 't, 'a) fallible \<Rightarrow> ('e, 's, 'a) fallible" where
  "ezoom get put m s = (case m (get s) of (r, t) \<Rightarrow> (r, put t s))"

named_theorems effect_simps \<open>evaluation of effects\<close>

lemma ebind_pair [effect_simps]:
  "m s = (Ok a, s') \<Longrightarrow> ebind m f s = f a s'"
  "m s = (Err e, s') \<Longrightarrow> ebind m f s = (Err e, s')"
  "m s = (Panic, s') \<Longrightarrow> ebind m f s = (Panic, s')"
  by (simp_all add: ebind_def)

lemma ebind_base [effect_simps]:
  "ebind (elift r) f s = (case r of Ok a \<Rightarrow> f a s | Err e \<Rightarrow> (Err e, s) | Panic \<Rightarrow> (Panic, s))"
  "ebind (eget g) h s = h (g s) s"
  "ebind (emodify k) h' s = h' () (k s)"
  by (auto simp: ebind_def elift_def eget_def emodify_def split: result.split)

lemma effect_base [effect_simps]:
  "elift r s = (r, s)" "eget g s = (Ok (g s), s)" "emodify k s = (Ok (), k s)"
  by (simp_all add: elift_def eget_def emodify_def)

text \<open>A loop whose body always succeeds on related states.\<close>

lemma eloop_Ok:
  assumes "\<And>x s. x \<in> set xs \<Longrightarrow> P s \<Longrightarrow> \<exists>s'. f x s = (Ok (), s') \<and> P s' \<and> g s' = h x (g s)" "P s"
  shows "\<exists>s'. eloop f xs s = (Ok (), s') \<and> P s' \<and> g s' = fold h xs (g s)"
  using assms
proof (induction xs arbitrary: s)
  case (Cons x xs)
  obtain s1 where s1: "f x s = (Ok (), s1)" "P s1" "g s1 = h x (g s)"
    using Cons.prems(1) [of x s] Cons.prems(2) by auto
  have "\<exists>s'. eloop f xs s1 = (Ok (), s') \<and> P s' \<and> g s' = fold h xs (g s1)"
    using Cons.prems(1) by (intro Cons.IH s1(2)) auto
  with s1 show ?case by (simp add: effect_simps)
qed (simp add: effect_simps)

section \<open>Slices\<close>

text \<open>\<open>chunks\<close>: consecutive slices of the given length, the last one possibly shorter.\<close>

function chunks :: "nat \<Rightarrow> 'a list \<Rightarrow> 'a list list" where
  "chunks n xs = (if n = 0 \<or> xs = [] then [] else take n xs # chunks n (drop n xs))"
  by auto
termination by (relation "measure (\<lambda>(n, xs). length xs)") auto

declare chunks.simps [simp del]

lemma concat_chunks: "0 < n \<Longrightarrow> concat (chunks n xs) = xs"
  by (induction n xs rule: chunks.induct) (subst chunks.simps, simp)

lemma chunks_length: "ys \<in> set (chunks n xs) \<Longrightarrow> ys \<noteq> [] \<and> length ys \<le> n"
proof (induction n xs rule: chunks.induct)
  case (1 n xs)
  then show ?case
    by (subst (asm) chunks.simps) (auto split: if_splits)
qed

lemma chunks_lengths:
  "length xs mod n = 0 \<Longrightarrow> ys \<in> set (chunks n xs) \<Longrightarrow> length ys = n"
proof (induction n xs rule: chunks.induct)
  case (1 n xs)
  have "length (drop n xs) mod n = 0"
    using 1(2) by (cases "n \<le> length xs") (simp_all add: le_mod_geq)
  moreover have "length (take n xs) = n" if "xs \<noteq> []" "n \<noteq> 0"
  proof -
    from that 1(2) have "n \<le> length xs"
      by (metis length_0_conv linorder_not_less mod_less)
    then show ?thesis by simp
  qed
  ultimately show ?case
    using 1(1,3) by (subst (asm) (2) chunks.simps) (auto split: if_splits)
qed

lemma chunks_concat:
  "0 < n \<Longrightarrow> (\<And>ys. ys \<in> set yss \<Longrightarrow> length ys = n) \<Longrightarrow> chunks n (concat yss) = yss"
proof (induction yss)
  case Nil
  then show ?case by (subst chunks.simps) simp
next
  case (Cons ys yss)
  then have "length ys = n" "chunks n (concat yss) = yss"
    by simp_all
  then show ?case
    using Cons.prems(1) by (subst chunks.simps) auto
qed

section \<open>Operations that may not return\<close>

type_synonym ('e, 's, 'a) proc = "'s \<Rightarrow> (('e, 'a) result \<times> 's) option"

definition pbind :: "('e, 's, 'a) proc \<Rightarrow> ('a \<Rightarrow> ('e, 's, 'b) proc) \<Rightarrow> ('e, 's, 'b) proc" where
  "pbind m k s =
     (case m s of
        None \<Rightarrow> None
      | Some (Ok a, s) \<Rightarrow> k a s
      | Some (Err e, s) \<Rightarrow> Some (Err e, s)
      | Some (Panic, s) \<Rightarrow> Some (Panic, s))"

definition plift :: "('e, 'a) result \<Rightarrow> ('e, 's, 'a) proc" where
  "plift r s = Some (r, s)"

definition pcompute :: "('e, 'a) result option \<Rightarrow> ('e, 's, 'a) proc" where
  "pcompute r s = map_option (\<lambda>r. (r, s)) r"

definition pget :: "('s \<Rightarrow> ('e, 'a) result) \<Rightarrow> ('e, 's, 'a) proc" where
  "pget g s = Some (g s, s)"

definition pmodify :: "('s \<Rightarrow> 's) \<Rightarrow> ('e, 's, unit) proc" where
  "pmodify g s = Some (Ok (), g s)"

fun map_err :: "('e \<Rightarrow> 'f) \<Rightarrow> ('e, 'a) result \<Rightarrow> ('f, 'a) result" where
  "map_err g (Ok a) = Ok a"
| "map_err g (Err e) = Err (g e)"
| "map_err g Panic = Panic"

definition pmap_err :: "('e \<Rightarrow> 'f) \<Rightarrow> ('e, 's, 'a) proc \<Rightarrow> ('f, 's, 'a) proc" where
  "pmap_err g m s = map_option (\<lambda>(r, s). (map_err g r, s)) (m s)"

lemma rmap_eq_Err: "rmap f m = Err e \<longleftrightarrow> m = Err e"
  by (cases m) auto

lemma rbind_eq_Err: "rbind m f = Err e \<longleftrightarrow> m = Err e \<or> (\<exists>a. m = Ok a \<and> f a = Err e)"
  by (cases m) auto

lemma pbind_eq_Some_Ok:
  "pbind m k st = Some (Ok b, st') \<longleftrightarrow> (\<exists>a st1. m st = Some (Ok a, st1) \<and> k a st1 = Some (Ok b, st'))"
  by (auto simp: pbind_def split: option.splits result.splits)

lemma pbind_eq_Some_Err:
  "pbind m k st = Some (Err e, st') \<longleftrightarrow>
     m st = Some (Err e, st') \<or> (\<exists>a st1. m st = Some (Ok a, st1) \<and> k a st1 = Some (Err e, st'))"
  by (auto simp: pbind_def split: option.splits result.splits)

lemma plift_eq_Some: "plift r st = Some (q, st') \<longleftrightarrow> r = q \<and> st' = st"
  by (auto simp: plift_def)

lemma pcompute_eq_Some: "pcompute r st = Some (q, st') \<longleftrightarrow> r = Some q \<and> st' = st"
  by (auto simp: pcompute_def)

lemma pget_eq_Some: "pget g st = Some (q, st') \<longleftrightarrow> g st = q \<and> st' = st"
  by (auto simp: pget_def)

lemma pmodify_eq_Some: "pmodify h st = Some (q, st') \<longleftrightarrow> q = Ok () \<and> st' = h st"
  by (auto simp: pmodify_def)

lemmas pstep_simps = plift_eq_Some pcompute_eq_Some pget_eq_Some pmodify_eq_Some

end
