(* ===== verification/OrderedMap.thy ===== *)
theory OrderedMap
  imports Prelude
begin

text \<open>
  The ordered maps of the standard library (\<open>BTreeMap\<close>): the interface that the event registry
  relies on, as a locale, and its implementation as an association list with strictly increasing
  keys.  The client lemmas in the locale say that a map is determined by its lookups and what a
  split followed by insertions leaves in the map; they carry the reorganisation properties of the
  event registry.
\<close>

section \<open>The interface\<close>

locale ordered_map =
  fixes lookup :: "'m \<Rightarrow> 'k::linorder \<Rightarrow> 'v option"
    and insert_entry :: "'k \<Rightarrow> 'v \<Rightarrow> 'm \<Rightarrow> 'm"
    and below :: "'k \<Rightarrow> 'm \<Rightarrow> 'm"
    and entries :: "'m \<Rightarrow> ('k \<times> 'v) list"
    and inv :: "'m \<Rightarrow> bool"
  assumes entries_sorted: "inv m \<Longrightarrow> sorted_wrt (<) (map fst (entries m))"
    and entries_lookup: "inv m \<Longrightarrow> map_of (entries m) = lookup m"
    and insert_inv: "inv m \<Longrightarrow> inv (insert_entry k v m)"
    and insert_lookup: "inv m \<Longrightarrow> lookup (insert_entry k v m) = (lookup m)(k \<mapsto> v)"
    and below_inv: "inv m \<Longrightarrow> inv (below k m)"
    and below_lookup: "inv m \<Longrightarrow> lookup (below k m) x = (if x < k then lookup m x else None)"
begin

lemma entries_distinct: "inv m \<Longrightarrow> distinct (map fst (entries m))"
  using entries_sorted strict_sorted_iff by auto

lemma entry_iff: "inv m \<Longrightarrow> (k, v) \<in> set (entries m) \<longleftrightarrow> lookup m k = Some v"
  using map_of_eq_Some_iff [OF entries_distinct, of m k v] by (simp add: entries_lookup)

lemma entries_determined:
  assumes "inv m" "inv m'" "lookup m = lookup m'"
  shows "entries m = entries m'"
proof (rule map_sorted_distinct_set_unique [of fst])
  show "inj_on fst (set (entries m) \<union> set (entries m'))"
    using assms by (auto simp: inj_on_def entry_iff)
  show "set (entries m) = set (entries m')"
    using assms by (auto simp: entry_iff)
qed (use assms entries_sorted entries_distinct strict_sorted_iff in auto)

definition insert_all :: "('k \<times> 'v) list \<Rightarrow> 'm \<Rightarrow> 'm" where
  "insert_all kvs m = fold (\<lambda>kv. insert_entry (fst kv) (snd kv)) kvs m"

lemma insert_all_inv: "inv m \<Longrightarrow> inv (insert_all kvs m)"
  unfolding insert_all_def by (induction kvs arbitrary: m) (simp_all add: insert_inv)

lemma insert_all_lookup: "inv m \<Longrightarrow> lookup (insert_all kvs m) = lookup m ++ map_of (rev kvs)"
  unfolding insert_all_def
  by (induction kvs arbitrary: m) (simp_all add: insert_inv insert_lookup map_add_upd_left map_add_assoc [symmetric])

text \<open>
  Discarding everything from a key on and inserting the entries of another map from that key on
  leaves that other map, when both agree below the key.
\<close>

lemma resync:
  assumes "inv m" "inv c" "\<And>x. x < k \<Longrightarrow> lookup m x = lookup c x"
    and "set kvs = {(x, v). lookup c x = Some v \<and> k \<le> x}"
  shows "lookup (insert_all kvs (below k m)) = lookup c"
proof
  fix x
  have uniq: "v = v'" if "(x, v) \<in> set kvs" "(x, v') \<in> set kvs" for v v'
    using that assms(4) by auto
  have "map_of (rev kvs) x = (if k \<le> x then lookup c x else None)"
  proof (cases "map_of (rev kvs) x")
    case None
    then have "x \<notin> fst ` set kvs"
      by (simp add: map_of_eq_None_iff)
    moreover have "(x, v) \<in> set kvs \<longleftrightarrow> lookup c x = Some v \<and> k \<le> x" for v
      using assms(4) by auto
    ultimately show ?thesis
      using None by (cases "lookup c x") force+
  next
    case (Some v)
    then have "(x, v) \<in> set kvs"
      using map_of_SomeD by fastforce
    then show ?thesis
      using Some assms(4) by auto
  qed
  then show "lookup (insert_all kvs (below k m)) x = lookup c x"
    using assms(1-3) by (auto simp: insert_all_lookup below_inv below_lookup map_add_def split: option.splits)
qed

end

section \<open>The implementation\<close>

fun bt_insert :: "'k::linorder \<Rightarrow> 'v \<Rightarrow> ('k \<times> 'v) list \<Rightarrow> ('k \<times> 'v) list" where
  "bt_insert k v [] = [(k, v)]"
| "bt_insert k v ((x, y) # m) =
     (if k < x then (k, v) # (x, y) # m
      else if k = x then (k, v) # m
      else (x, y) # bt_insert k v m)"

text \<open>\<open>split_off\<close> leaves the entries below the key in the map (and returns the others);
  \<open>range\<close> with an excluded upper bound iterates over the entries below it.\<close>

definition bt_split_off :: "'k::linorder \<Rightarrow> ('k \<times> 'v) list \<Rightarrow> ('k \<times> 'v) list \<times> ('k \<times> 'v) list" where
  "bt_split_off k m = (filter (\<lambda>e. fst e < k) m, filter (\<lambda>e. k \<le> fst e) m)"

definition bt_range_below :: "'k::linorder \<Rightarrow> ('k \<times> 'v) list \<Rightarrow> ('k \<times> 'v) list" where
  "bt_range_below k m = filter (\<lambda>e. fst e < k) m"

abbreviation bt_wf :: "('k::linorder \<times> 'v) list \<Rightarrow> bool" where
  "bt_wf m \<equiv> sorted_wrt (<) (map fst m)"

lemma bt_insert_keys: "fst ` set (bt_insert k v m) = insert k (fst ` set m)"
  by (induction k v m rule: bt_insert.induct) auto

lemma bt_wf_insert [simp]: "bt_wf m \<Longrightarrow> bt_wf (bt_insert k v m)"
proof (induction k v m rule: bt_insert.induct)
  case (2 k v x y m)
  then show ?case
    using bt_insert_keys [of k v m] by auto
qed simp

lemma map_of_bt_insert [simp]: "bt_wf m \<Longrightarrow> map_of (bt_insert k v m) = (map_of m)(k \<mapsto> v)"
  by (induction k v m rule: bt_insert.induct) (auto simp: fun_eq_iff)

lemma bt_wf_filter [simp]: "bt_wf m \<Longrightarrow> bt_wf (filter P m)"
  by (induction m) auto

lemma map_of_filter_keys: "map_of (filter (\<lambda>e. P (fst e)) m) x = (if P x then map_of m x else None)"
  by (induction m) auto

interpretation bt: ordered_map map_of bt_insert bt_range_below "\<lambda>m. m" bt_wf
  by unfold_locales (simp_all add: bt_range_below_def map_of_filter_keys [of "\<lambda>x. x < _"])

lemma bt_last_greatest:
  "bt_wf m \<Longrightarrow> e \<in> set m \<Longrightarrow> fst e \<le> fst (last m)"
  by (induction m) (auto simp: order.strict_implies_order)

end
