(* ===== verification/Numeric.thy ===== *)
theory Numeric
  imports Prelude
begin

text \<open>
  Numeric helpers of \<open>services-core\<close>: the rounding-up division and the checked narrowing of
  \<open>src/services-core/src/util.rs\<close>, and the conversions between arbitrary precision integers and
  256-bit integers of \<open>src/services-core/src/bigint_u256.rs\<close>, which go through byte strings.
  The byte string lemmas are shared with the decoders of auction elements.

  The lemmas show that \<open>ceiled_div\<close> is the ceiling of the quotient wherever it returns, exactly
  when it panics, and that the byte-wise conversions are the range-checked, the clamped and the
  exact embedding of integers.
\<close>

section \<open>Byte strings\<close>

text \<open>The value of a little-endian byte string, and of a big-endian one.\<close>

fun le_value :: "u8 list \<Rightarrow> nat" where
  "le_value [] = 0"
| "le_value (b # bs) = unat b + 256 * le_value bs"

definition be_value :: "u8 list \<Rightarrow> nat" where
  "be_value bs = le_value (rev bs)"

text \<open>The \<open>k\<close> low bytes of a number, least significant first, and most significant first.\<close>

fun le_bytes :: "nat \<Rightarrow> nat \<Rightarrow> u8 list" where
  "le_bytes 0 n = []"
| "le_bytes (Suc k) n = word_of_nat (n mod 256) # le_bytes k (n div 256)"

definition be_bytes :: "nat \<Rightarrow> nat \<Rightarrow> u8 list" where
  "be_bytes k n = rev (le_bytes k n)"

text \<open>All bytes of a number, without leading zero bytes.\<close>

fun bytes_le :: "nat \<Rightarrow> u8 list" where
  "bytes_le n = (if n = 0 then [] else word_of_nat (n mod 256) # bytes_le (n div 256))"

declare bytes_le.simps [simp del]

lemma unat_byte [simp]: "unat (word_of_nat (n mod 256) :: u8) = n mod 256"
  by (simp add: unat_of_nat)

lemma length_le_bytes [simp]: "length (le_bytes k n) = k"
  by (induction k arbitrary: n) simp_all

lemma length_be_bytes [simp]: "length (be_bytes k n) = k"
  by (simp add: be_bytes_def)

lemma le_value_less: "le_value bs < 256 ^ length bs"
proof (induction bs)
  case (Cons b bs)
  have "unat b < 256"
    using unat_less [of b] by simp
  with Cons show ?case
    by simp
qed simp

lemma be_value_less: "be_value bs < 256 ^ length bs"
  using le_value_less [of "rev bs"] by (simp add: be_value_def)

lemma le_value_le_bytes: "le_value (le_bytes k n) = n mod 256 ^ k"
proof (induction k arbitrary: n)
  case (Suc k)
  then show ?case
    by (simp add: mod_mult2_eq)
qed simp

lemma be_value_be_bytes: "be_value (be_bytes k n) = n mod 256 ^ k"
  by (simp add: be_value_def be_bytes_def le_value_le_bytes)

lemma le_bytes_le_value: "le_bytes (length bs) (le_value bs) = bs"
proof (induction bs)
  case (Cons b bs)
  have b: "unat b < 256"
    using unat_less [of b] by simp
  have "(unat b + 256 * le_value bs) mod 256 = unat b"
    using b by simp
  moreover have "(unat b + 256 * le_value bs) div 256 = le_value bs"
    using b by simp
  ultimately show ?case
    using Cons by simp
qed simp

lemma be_bytes_be_value: "length bs = k \<Longrightarrow> be_bytes k (be_value bs) = bs"
  using le_bytes_le_value [of "rev bs"] by (simp add: be_value_def be_bytes_def)

lemma le_value_bytes_le: "le_value (bytes_le n) = n"
proof (induction n rule: bytes_le.induct)
  case (1 n)
  then show ?case
    by (subst bytes_le.simps) simp
qed

lemma length_bytes_le: "length (bytes_le n) \<le> k \<longleftrightarrow> n < 256 ^ k"
proof (induction k arbitrary: n)
  case 0
  show ?case
    by (subst bytes_le.simps) simp
next
  case (Suc k)
  show ?case
  proof (cases "n = 0")
    case True
    then show ?thesis
      by (subst bytes_le.simps) simp
  next
    case False
    have "n div 256 < 256 ^ k \<longleftrightarrow> n < 256 ^ Suc k"
      by (simp add: div_less_iff_less_mult mult.commute)
    with False Suc [of "n div 256"] show ?thesis
      by (subst bytes_le.simps) simp
  qed
qed

section \<open>Rounding up\<close>

text \<open>\<open>CeiledDiv::ceiled_div\<close>, the same code for \<open>u128\<close> and for \<open>U256\<close>.\<close>

definition ceiled_div :: "'a::len word \<Rightarrow> 'a word \<Rightarrow> ('e, 'a word) result" where
  "ceiled_div p divisor =
     rbind (unwrap (checked_add p divisor))
       (\<lambda>s. rbind (unwrap (checked_sub s 1)) (\<lambda>t. unwrap (checked_div t divisor)))"

text \<open>\<open>CheckedConvertU128::as_u128_checked\<close>, and the panicking \<open>U256::as_u128\<close>.\<close>

definition as_u128_checked :: "u256 \<Rightarrow> u128 option" where
  "as_u128_checked x = (if x \<le> ucast (- 1 :: u128) then Some (ucast x) else None)"

definition as_u128 :: "u256 \<Rightarrow> ('e, u128) result" where
  "as_u128 x = unwrap (as_u128_checked x)"

text \<open>The arithmetic operators of \<open>U256\<close> panic on overflow and on division by zero.\<close>

definition u256_mul :: "u256 \<Rightarrow> u256 \<Rightarrow> ('e, u256) result" where
  "u256_mul a b = unwrap (checked_mul a b)"

definition u256_div :: "u256 \<Rightarrow> u256 \<Rightarrow> ('e, u256) result" where
  "u256_div a b = unwrap (checked_div a b)"

lemma unat_ucast_u128 [simp]: "unat (ucast (x :: u128) :: u256) = unat x"
  using unat_less [of x] by (simp add: unsigned_ucast_eq take_bit_nat_eq_self)

lemma ucast_u128_eq_0 [simp]: "(ucast (x :: u128) :: u256) = 0 \<longleftrightarrow> x = 0"
  by (simp add: word_unat_eq_iff)

lemma unat_u128_less: "unat (x :: u128) < 2 ^ 128"
  using unat_less [of x] by simp

lemma unat_max_u128: "unat (- 1 :: u128) = 2 ^ 128 - 1"
  by (simp add: unsigned_minus_1_eq_mask mask_eq_exp_minus_1)

lemma as_u128_checked_eq_Some:
  "as_u128_checked x = Some y \<longleftrightarrow> unat x < 2 ^ 128 \<and> unat y = unat x"
proof -
  have "x \<le> ucast (- 1 :: u128) \<longleftrightarrow> unat x < 2 ^ 128"
    unfolding word_le_nat_alt unat_ucast_u128 unat_max_u128 by auto
  moreover have "unat (ucast x :: u128) = unat x" if "unat x < 2 ^ 128"
    using that by (simp add: unsigned_ucast_eq take_bit_nat_eq_self)
  ultimately show ?thesis
    by (auto simp: as_u128_checked_def word_unat_eq_iff)
qed

lemma as_u128_eq_Ok: "as_u128 x = Ok y \<longleftrightarrow> unat x < 2 ^ 128 \<and> unat y = unat x"
  by (simp add: as_u128_def as_u128_checked_eq_Some)

lemma u256_mul_u128: "\<exists>c. u256_mul (ucast (a :: u128)) (ucast (b :: u128)) = Ok c \<and> unat c = unat a * unat b"
proof -
  have "unat a * unat b < 2 ^ 128 * 2 ^ 128"
    by (intro mult_strict_mono unat_u128_less) simp_all
  then have "unat (ucast a :: u256) * unat (ucast b :: u256) < 2 ^ LENGTH(256)"
    by (simp add: power_add [symmetric])
  then show ?thesis
    by (auto simp: u256_mul_def checked_mul_def unat_mult_lem [THEN iffD1])
qed

lemma u256_mul_u128_Ok:
  "u256_mul (ucast (a :: u128)) (ucast (b :: u128)) = Ok c \<longleftrightarrow> unat c = unat a * unat b"
  using u256_mul_u128 [of a b] by (metis result.inject(1) word_unat_eq_iff)

lemma ceiled_div_eq_Ok:
  "ceiled_div p d = Ok c \<longleftrightarrow>
     d \<noteq> 0 \<and> unat p + unat d < 2 ^ LENGTH('a) \<and> unat c = (unat p + unat d - 1) div unat d"
  for p :: "'a::len word"
proof -
  have one: "1 \<le> unat d" if "d \<noteq> 0"
    using that by (simp add: Suc_leI unat_gt_0)
  have "ceiled_div p d = Ok c \<longleftrightarrow>
      (\<exists>s t. checked_add p d = Some s \<and> checked_sub s 1 = Some t \<and> d \<noteq> 0 \<and> c = t div d)"
    by (auto simp: ceiled_div_def res_simps checked_div_eq_Some)
  also have "\<dots> \<longleftrightarrow> d \<noteq> 0 \<and> unat p + unat d < 2 ^ LENGTH('a) \<and>
      unat c = (unat p + unat d - 1) div unat d"
  proof (intro iffI; (elim exE conjE)?)
    fix s t
    assume "checked_add p d = Some s" "checked_sub s 1 = Some t" "d \<noteq> 0" "c = t div d"
    then show "d \<noteq> 0 \<and> unat p + unat d < 2 ^ LENGTH('a) \<and>
        unat c = (unat p + unat d - 1) div unat d"
      by (auto simp: checked_simps unat_div)
  next
    assume "d \<noteq> 0" "unat p + unat d < 2 ^ LENGTH('a)"
      "unat c = (unat p + unat d - 1) div unat d"
    moreover from this have "checked_add p d = Some (p + d)"
      by (simp add: checked_add_def)
    moreover from calculation have "unat (p + d) = unat p + unat d"
      by (simp add: unat_add_lem [THEN iffD1])
    moreover from calculation one have "1 \<le> p + d"
      by (simp add: word_le_nat_alt)
    moreover from calculation have "checked_sub (p + d) 1 = Some (p + d - 1)"
      by (simp add: checked_sub_def)
    moreover from calculation have "c = (p + d - 1) div d"
      by (simp add: word_unat_eq_iff unat_div unat_sub)
    ultimately show "\<exists>s t. checked_add p d = Some s \<and> checked_sub s 1 = Some t \<and> d \<noteq> 0 \<and> c = t div d"
      by blast
  qed
  finally show ?thesis .
qed

lemma ceiled_div_not_Err [simp]: "ceiled_div p d \<noteq> Err e"
  by (auto simp: ceiled_div_def unwrap_def split: option.splits)

lemma ceil_div_bounds:
  fixes p d :: nat
  assumes "0 < d"
  shows "p \<le> (p + d - 1) div d * d" and "\<And>c. p \<le> c * d \<Longrightarrow> (p + d - 1) div d \<le> c"
proof -
  have "(p + d - 1) div d * d + (p + d - 1) mod d = p + d - 1"
    by simp
  moreover have "(p + d - 1) mod d < d"
    using assms by simp
  ultimately show "p \<le> (p + d - 1) div d * d"
    by linarith
next
  fix c assume "p \<le> c * d"
  then have "p + d - 1 < (c + 1) * d"
    using assms by (simp add: algebra_simps)
  then show "(p + d - 1) div d \<le> c"
    by (metis Suc_eq_plus1 less_Suc_eq_le less_mult_imp_div_less)
qed

section \<open>Arbitrary precision integers\<close>

datatype sign = Minus | NoSign | Plus

definition to_bytes_le :: "int \<Rightarrow> sign \<times> u8 list" where
  "to_bytes_le n =
     (if n = 0 then (NoSign, [0]) else if 0 < n then (Plus, bytes_le (nat n))
      else (Minus, bytes_le (nat (- n))))"

definition from_little_endian :: "u8 list \<Rightarrow> u256" where
  "from_little_endian bs = word_of_nat (le_value bs)"

definition bigint_to_u256 :: "int \<Rightarrow> u256 option" where
  "bigint_to_u256 n =
     (case to_bytes_le n of
        (NoSign, _) \<Rightarrow> Some 0
      | (Plus, bytes) \<Rightarrow> if length bytes \<le> 256 div 8 then Some (from_little_endian bytes) else None
      | _ \<Rightarrow> None)"

definition bigint_to_u256_saturating :: "int \<Rightarrow> u256" where
  "bigint_to_u256_saturating n =
     (case to_bytes_le n of
        (NoSign, _) \<Rightarrow> 0
      | (Minus, _) \<Rightarrow> 0
      | (Plus, bytes) \<Rightarrow> if length bytes \<le> 256 div 8 then from_little_endian bytes else - 1)"

definition u256_to_biguint :: "u256 \<Rightarrow> nat" where
  "u256_to_biguint n = le_value (le_bytes (256 div 8) (unat n))"

definition u256_to_bigint :: "u256 \<Rightarrow> int" where
  "u256_to_bigint n = int (u256_to_biguint n)"

lemma u256_to_bigint_eq [simp]: "u256_to_bigint n = uint n"
proof -
  have "unat n mod 256 ^ (256 div 8) = unat n"
    using unat_less [of n] by simp
  then show ?thesis
    by (simp only: u256_to_bigint_def u256_to_biguint_def le_value_le_bytes of_nat_unat)
qed

lemma length_bytes_le_32: "length (bytes_le n) \<le> 32 \<longleftrightarrow> n < 2 ^ 256"
  by (simp add: length_bytes_le)

lemma bigint_to_u256_eq:
  "bigint_to_u256 n = (if 0 \<le> n \<and> n < 2 ^ 256 then Some (word_of_int n) else None)"
proof -
  have "nat n < 2 ^ 256 \<longleftrightarrow> n < 2 ^ 256" if "0 < n"
    using that by (simp add: nat_less_iff)
  then show ?thesis
    by (auto simp: bigint_to_u256_def to_bytes_le_def from_little_endian_def le_value_bytes_le
          length_bytes_le_32)
qed

lemma bigint_to_u256_saturating_eq:
  "bigint_to_u256_saturating n = word_of_int (max 0 (min n (2 ^ 256 - 1)))"
proof -
  have "nat n < 2 ^ 256 \<longleftrightarrow> n < 2 ^ 256" if "0 < n"
    using that by (simp add: nat_less_iff)
  moreover have "(- 1 :: u256) = word_of_int (2 ^ 256 - 1)"
    by simp
  ultimately show ?thesis
    by (auto simp: bigint_to_u256_saturating_def to_bytes_le_def from_little_endian_def
          le_value_bytes_le length_bytes_le_32 min_def)
qed

end
