(* ===== verification/Models.thy ===== *)
theory Models
  imports Numeric
begin

text \<open>
  The data model of \<open>services-core\<close> (\<open>src/services-core/src/models\<close>): batch identifiers and their
  position in time (\<open>batch_id.rs\<close>, \<open>time.rs\<close>), orders and the computation of the amounts that are
  left of them (\<open>order.rs\<close>), account states (\<open>account_state.rs\<close>), solutions and the fee they earn
  (\<open>solution.rs\<close>) and the textual form of token identifiers (\<open>tokens.rs\<close>).

  Points in time are nanoseconds since the Unix epoch (an \<open>int\<close>, negative before it) and
  durations are nanoseconds (a \<open>nat\<close>); the platform dependent range of \<open>SystemTime\<close> is not
  modelled.
\<close>

section \<open>Batch identifiers\<close>

type_synonym batch_id = u64
type_synonym system_time = int
type_synonym duration = nat

definition from_secs :: "nat \<Rightarrow> duration" where
  "from_secs s = s * 1000000000"

definition BATCH_DURATION :: duration where
  "BATCH_DURATION = from_secs 300"

definition SOLVING_WINDOW :: duration where
  "SOLVING_WINDOW = from_secs 240"

text \<open>\<open>SystemTime::duration_since\<close>: an error when the argument is later.\<close>

definition duration_since :: "system_time \<Rightarrow> system_time \<Rightarrow> duration res" where
  "duration_since t earlier =
     (if earlier \<le> t then Ok (nat (t - earlier)) else Err ''second time provided was later than self'')"

definition as_timestamp :: "system_time \<Rightarrow> u64 res" where
  "as_timestamp t = rmap (\<lambda>d. word_of_nat (d div 1000000000)) (duration_since t 0)"

definition time_from_timestamp :: "u64 \<Rightarrow> system_time" where
  "time_from_timestamp ts = int (from_secs (unat ts))"

definition batch_from_timestamp :: "u64 \<Rightarrow> batch_id" where
  "batch_from_timestamp ts = ts div 300"

definition batch_current :: "system_time \<Rightarrow> batch_id res" where
  "batch_current now = rmap batch_from_timestamp (as_timestamp now)"

definition batch_next :: "batch_id \<Rightarrow> batch_id res" where
  "batch_next b = unwrap (checked_add b 1)"

definition batch_prev :: "batch_id \<Rightarrow> batch_id res" where
  "batch_prev b = unwrap (checked_sub b 1)"

definition currently_being_solved :: "system_time \<Rightarrow> batch_id res" where
  "currently_being_solved now = rbind (batch_current now) batch_prev"

definition batch_as_timestamp :: "batch_id \<Rightarrow> u64" where
  "batch_as_timestamp b = b * 300"

definition order_collection_start_time :: "batch_id \<Rightarrow> system_time" where
  "order_collection_start_time b = time_from_timestamp (batch_as_timestamp b)"

definition solve_start_time :: "batch_id \<Rightarrow> system_time" where
  "solve_start_time b = order_collection_start_time b + int BATCH_DURATION"

definition solve_end_time :: "batch_id \<Rightarrow> system_time" where
  "solve_end_time b = solve_start_time b + int SOLVING_WINDOW"

definition batch_from_u32 :: "u32 \<Rightarrow> batch_id" where
  "batch_from_u32 v = ucast v"

definition batch_into_u32 :: "batch_id \<Rightarrow> u32" where
  "batch_into_u32 b = ucast b"

text \<open>The block parameter of the node interface.\<close>

datatype block_number = Earliest | Latest | Pending | Number u64

section \<open>Orders\<close>

record order =
  oid :: u16
  account_id :: address
  buy_token :: u16
  sell_token :: u16
  numerator :: u128
  denominator :: u128
  remaining_sell_amount :: u128
  valid_from :: u32
  valid_until :: u32

definition compute_remaining_amounts :: "u128 \<Rightarrow> u128 \<Rightarrow> u128 \<Rightarrow> ('e, u128 \<times> u128) result" where
  "compute_remaining_amounts numer denom remaining =
     (if remaining \<le> denom then
        (if 0 < denom then
           rbind (u256_mul (ucast remaining) (ucast numer)) (\<lambda>top.
           rbind (ceiled_div top (ucast denom)) (\<lambda>q.
           rmap (\<lambda>buy_amount. (buy_amount, remaining)) (as_u128 q)))
         else Ok (0, remaining))
      else Panic)"

definition compute_remaining_buy_sell_amounts :: "order \<Rightarrow> ('e, u128 \<times> u128) result" where
  "compute_remaining_buy_sell_amounts ord =
     compute_remaining_amounts (numerator ord) (denominator ord) (remaining_sell_amount ord)"

section \<open>Account states\<close>

type_synonym account_state = "((address \<times> u16) \<times> u256) list"

definition read_balance :: "account_state \<Rightarrow> u16 \<Rightarrow> address \<Rightarrow> u256" where
  "read_balance st token_id account =
     (case hm_get st (account, token_id) of Some b \<Rightarrow> b | None \<Rightarrow> 0)"

definition user_token_pairs :: "account_state \<Rightarrow> (address \<times> u16) list" where
  "user_token_pairs st = map fst st"

section \<open>Solutions\<close>

record executed_order =
  ex_account_id :: address
  ex_order_id :: u16
  sell_amount :: u128
  buy_amount :: u128

record solution =
  prices :: "(u16 \<times> u128) list"
  executed_orders :: "executed_order list"

record economic_viability_info =
  num_executed_orders :: nat
  info_earned_fee :: u256

definition trivial :: solution where
  "trivial = \<lparr>prices = [], executed_orders = []\<rparr>"

definition is_non_trivial :: "solution \<Rightarrow> bool" where
  "is_non_trivial s = list_ex (\<lambda>ord. 0 < sell_amount ord) (executed_orders s)"

text \<open>Division of \<open>BigInt\<close>s truncates towards zero.\<close>

definition bigint_div :: "int \<Rightarrow> int \<Rightarrow> int" where
  "bigint_div a b = sgn a * sgn b * (\<bar>a\<bar> div \<bar>b\<bar>)"

definition token_imbalance :: "executed_order list \<Rightarrow> int" where
  "token_imbalance os =
     fold (\<lambda>ord acc. acc + uint (sell_amount ord) - uint (buy_amount ord)) os 0"

definition earned_fee :: "solution \<Rightarrow> u256" where
  "earned_fee s = bigint_to_u256_saturating (bigint_div (token_imbalance (executed_orders s)) 2)"

definition economic_viability_info_of :: "solution \<Rightarrow> economic_viability_info" where
  "economic_viability_info_of s =
     \<lparr>num_executed_orders = length (executed_orders s), info_earned_fee = earned_fee s\<rparr>"

section \<open>Token identifiers\<close>

text \<open>Decimal output and input of numbers, as \<open>format!\<close> and \<open>str::parse\<close> do it.\<close>

fun show_nat :: "nat \<Rightarrow> string" where
  "show_nat n = (if n < 10 then [char_of (48 + n)] else show_nat (n div 10) @ [char_of (48 + n mod 10)])"

declare show_nat.simps [simp del]

definition pad4 :: "string \<Rightarrow> string" where
  "pad4 s = replicate (4 - length s) (CHR ''0'') @ s"

definition digit_of :: "char \<Rightarrow> nat option" where
  "digit_of c = (let k = of_char c in if 48 \<le> k \<and> k < 58 then Some (k - 48) else None)"

fun parse_digits :: "nat \<Rightarrow> string \<Rightarrow> nat option" where
  "parse_digits acc [] = Some acc"
| "parse_digits acc (c # cs) =
     (case digit_of c of None \<Rightarrow> None | Some d \<Rightarrow> parse_digits (10 * acc + d) cs)"

definition parse_u16 :: "string \<Rightarrow> u16 option" where
  "parse_u16 s =
     (let ds = (case s of c # cs \<Rightarrow> if c = CHR ''+'' then cs else s | [] \<Rightarrow> [])
      in if ds = [] then None
         else case parse_digits 0 ds of
             None \<Rightarrow> None
           | Some n \<Rightarrow> if n < 2 ^ 16 then Some (word_of_nat n) else None)"

definition token_id_serialize :: "u16 \<Rightarrow> string" where
  "token_id_serialize t = CHR ''T'' # pad4 (show_nat (unat t))"

definition token_id_deserialize :: "string \<Rightarrow> u16 res" where
  "token_id_deserialize key =
     (if \<not> (key \<noteq> [] \<and> hd key = CHR ''T'') \<or> length key \<noteq> 5
      then Err ''Token ID must be of the form 'Txxxx' ''
      else ok_or (parse_u16 (tl key)) ''invalid digit found in string'')"


section \<open>Batches partition time\<close>

lemmas batch_time_defs =
  order_collection_start_time_def solve_start_time_def solve_end_time_def time_from_timestamp_def
  batch_as_timestamp_def BATCH_DURATION_def SOLVING_WINDOW_def from_secs_def

lemma batch_current_eq:
  assumes "0 \<le> t" and "t < 2 ^ 64 * 1000000000"
  shows "batch_current t = Ok (word_of_nat (nat t div 1000000000 div 300))"
proof -
  have "nat t div 1000000000 < 2 ^ 64"
    using assms by (simp add: div_less_iff_less_mult nat_less_iff)
  then have "unat (word_of_nat (nat t div 1000000000) :: u64) = nat t div 1000000000"
    by (simp add: unat_of_nat)
  then show ?thesis
    using assms(1)
    by (simp add: batch_current_def as_timestamp_def duration_since_def batch_from_timestamp_def
        word_unat_eq_iff unat_div unat_of_nat div_le_dividend)
qed

lemma batch_current_neg: "t < 0 \<Longrightarrow> \<not> is_ok (batch_current t) \<and> batch_current t \<noteq> Panic"
  by (simp add: batch_current_def as_timestamp_def duration_since_def)

lemma unat_batch_timestamp:
  assumes "unat b * 300 < 2 ^ 64"
  shows "unat (batch_as_timestamp b) = unat b * 300"
  using assms by (simp add: batch_as_timestamp_def unat_mult_lem [THEN iffD1])

lemma batch_prev_Ok: "0 < unat b \<Longrightarrow> batch_prev b = Ok (b - 1)"
  by (simp add: batch_prev_def checked_sub_def word_le_nat_alt)

lemma currently_being_solved_eq:
  assumes "300 * 1000000000 \<le> t" and "t < 2 ^ 64 * 1000000000"
  shows "currently_being_solved t = Ok (word_of_nat (nat t div 1000000000 div 300 - 1))"
proof -
  let ?n = "nat t div 1000000000 div 300"
  have n: "1 \<le> ?n" "?n < 2 ^ 64"
    using assms by (auto simp: div_mult2_eq [symmetric] div_less_iff_less_mult nat_less_iff
        less_eq_div_iff_mult_less_eq)
  then have u: "unat (word_of_nat ?n :: u64) = ?n"
    by (simp add: unat_of_nat)
  have "word_of_nat ?n - 1 = (word_of_nat (?n - 1) :: u64)"
    using n(1) by (simp add: of_nat_diff)
  with n u assms show ?thesis
    by (simp add: currently_being_solved_def batch_current_eq batch_prev_Ok)
qed

text \<open>
  The batch that is being solved at a time \<open>t\<close> (from the first batch on, and before the end of
  the 64-bit range of seconds) exists, its solving phase has begun and the phase of the next
  batch has not: \<open>solve_start_time b \<le> t < solve_start_time b + BATCH_DURATION\<close>.
\<close>

lemma currently_being_solved_interval:
  assumes "int BATCH_DURATION \<le> t" and "t < 2 ^ 64 * 1000000000"
  shows "\<exists>b. currently_being_solved t = Ok b \<and> solve_start_time b \<le> t \<and>
           t < solve_start_time b + int BATCH_DURATION"
proof -
  let ?s = "nat t div 1000000000"
  let ?n = "?s div 300"
  have t: "300 * 1000000000 \<le> t"
    using assms(1) by (simp add: BATCH_DURATION_def from_secs_def)
  have s: "?s < 2 ^ 64"
    using assms(2) t by (simp add: div_less_iff_less_mult nat_less_iff)
  have n: "1 \<le> ?n"
    using t by (simp add: div_mult2_eq [symmetric] less_eq_div_iff_mult_less_eq)
  have small: "?n - 1 < 2 ^ 64" "(?n - 1) * 300 < 2 ^ 64"
    using s n by (auto simp: div_less_iff_less_mult)
  define b :: u64 where "b = word_of_nat (?n - 1)"
  have ub: "unat b = ?n - 1"
    using small by (simp add: b_def unat_of_nat)
  have start: "solve_start_time b = int (?n * 300) * 1000000000"
    using small n ub
    by (simp add: batch_time_defs unat_batch_timestamp [unfolded batch_as_timestamp_def] of_nat_diff algebra_simps)
  have "int ?n * 300 \<le> int ?s" "int ?s < int ?n * 300 + 300"
    by linarith+
  moreover have "int ?s * 1000000000 \<le> t" "t < int ?s * 1000000000 + 1000000000"
    using t by (auto simp: zdiv_int)
  ultimately have "solve_start_time b \<le> t" "t < solve_start_time b + int BATCH_DURATION"
    unfolding start BATCH_DURATION_def from_secs_def of_nat_mult of_nat_numeral
    by linarith+
  with t assms show ?thesis
    by (auto simp: currently_being_solved_eq b_def)
qed

lemma currently_being_solved_interval_witness:
  "\<exists>b. currently_being_solved 1500000000000 = Ok b \<and> solve_start_time b \<le> 1500000000000 \<and>
     1500000000000 < solve_start_time b + int BATCH_DURATION"
  by (rule currently_being_solved_interval) (simp_all add: BATCH_DURATION_def from_secs_def)

section \<open>Remaining amounts\<close>

lemma ceil_le_of_le:
  fixes r d n :: nat
  assumes "r \<le> d" "0 < d"
  shows "(r * n + d - 1) div d \<le> n"
  by (rule ceil_div_bounds(2)) (use assms in \<open>simp_all add: mult.commute mult_le_mono\<close>)

lemma compute_remaining_amounts_Ok:
  assumes "remaining \<le> denom"
  shows "\<exists>buy. compute_remaining_amounts numer denom remaining = Ok (buy, remaining) \<and>
     unat remaining * unat numer \<le> unat buy * unat denom \<and>
     (\<forall>b. unat remaining * unat numer \<le> b * unat denom \<longrightarrow> unat buy \<le> b) \<and>
     unat buy \<le> unat numer"
proof (cases "0 < denom")
  case False
  then show ?thesis
    using assms by (auto simp: compute_remaining_amounts_def word_le_nat_alt word_less_nat_alt)
next
  case True
  have le: "unat remaining \<le> unat denom" and pos: "0 < unat denom"
    using assms True by (simp_all add: word_le_nat_alt word_less_nat_alt)
  have r: "unat remaining \<le> 2 ^ 128 - 1" and n: "unat numer \<le> 2 ^ 128 - 1"
    and d: "unat denom \<le> 2 ^ 128 - 1"
    using unat_less [of remaining] unat_less [of numer] unat_less [of denom] by simp_all
  obtain top where top: "u256_mul (ucast remaining) (ucast numer) = (Ok top :: ('a, u256) result)"
    "unat top = unat remaining * unat numer"
    using u256_mul_u128 by blast
  let ?q = "(unat remaining * unat numer + unat denom - 1) div unat denom"
  have "unat remaining * unat numer \<le> (2 ^ 128 - 1) * (2 ^ 128 - 1)"
    using r n by (rule mult_le_mono)
  then have bound: "unat top + unat (ucast denom :: u256) < 2 ^ LENGTH(256)"
    using d top(2) by simp
  have q: "?q \<le> unat numer"
    using le pos by (rule ceil_le_of_le)
  have q256: "unat (word_of_nat ?q :: u256) = ?q" and q128: "unat (word_of_nat ?q :: u128) = ?q"
    using q n by (simp_all add: unat_of_nat)
  have "ceiled_div top (ucast denom) = (Ok (word_of_nat ?q) :: ('a, u256) result)"
    using bound top(2) q256 pos by (auto simp: ceiled_div_eq_Ok)
  moreover have "as_u128 (word_of_nat ?q) = (Ok (word_of_nat ?q) :: ('a, u128) result)"
    using q n q256 q128 by (simp add: as_u128_eq_Ok)
  ultimately have "compute_remaining_amounts numer denom remaining =
      (Ok (word_of_nat ?q, remaining) :: ('a, u128 \<times> u128) result)"
    using assms True top by (simp add: compute_remaining_amounts_def)
  then show ?thesis
    using ceil_div_bounds [of "unat denom" "unat remaining * unat numer"] pos q q128 by auto
qed

text \<open>
  The amounts that are left of an order never make the conversion panic as long as the
  remaining amount is within the limit of the order; the sell amount is the remaining amount and
  the buy amount is the smallest one that still honours the limit price (and zero for an order
  with a zero denominator), and it never exceeds the numerator.
\<close>

theorem compute_remaining_amounts_correct:
  assumes "remaining \<le> denom"
  shows "\<exists>buy. compute_remaining_amounts numer denom remaining = Ok (buy, remaining) \<and>
     unat remaining * unat numer \<le> unat buy * unat denom \<and>
     (\<forall>b. unat remaining * unat numer \<le> b * unat denom \<longrightarrow> unat buy \<le> b) \<and>
     unat buy \<le> unat numer"
  by (rule compute_remaining_amounts_Ok [OF assms])

lemma compute_remaining_amounts_correct_witness:
  "\<exists>buy. compute_remaining_amounts 1000 1500 1486 = (Ok (buy, 1486) :: (unit, u128 \<times> u128) result) \<and>
     unat (1486 :: u128) * unat (1000 :: u128) \<le> unat buy * unat (1500 :: u128) \<and>
     (\<forall>b. unat (1486 :: u128) * unat (1000 :: u128) \<le> b * unat (1500 :: u128) \<longrightarrow> unat buy \<le> b) \<and>
     unat buy \<le> unat (1000 :: u128)"
  by (rule compute_remaining_amounts_correct) simp

section \<open>Earned fees\<close>

lemma token_imbalance_eq:
  "token_imbalance os =
     (\<Sum>ord\<leftarrow>os. uint (sell_amount ord)) - (\<Sum>ord\<leftarrow>os. uint (buy_amount ord))"
proof -
  have "fold (\<lambda>ord acc. acc + uint (sell_amount ord) - uint (buy_amount ord)) os z =
      z + (\<Sum>ord\<leftarrow>os. uint (sell_amount ord)) - (\<Sum>ord\<leftarrow>os. uint (buy_amount ord))" for z
    by (induction os arbitrary: z) simp_all
  then show ?thesis
    by (simp add: token_imbalance_def)
qed

lemma clamp_bigint_half:
  assumes "0 \<le> m"
  shows "max 0 (min (bigint_div i 2) m) = max 0 (min (i div 2) m)"
proof (cases "0 \<le> i")
  case True
  then have "bigint_div i 2 = i div 2"
    by (cases "i = 0") (simp_all add: bigint_div_def)
  then show ?thesis
    by simp
next
  case False
  then have "bigint_div i 2 \<le> 0" "i div 2 \<le> 0"
    by (simp_all add: bigint_div_def)
  then show ?thesis
    using assms by simp
qed

lemma uint_clamp: "uint (word_of_int (max 0 (min x (2 ^ 256 - 1))) :: u256) = max 0 (min x (2 ^ 256 - 1))"
proof -
  have "0 \<le> max 0 (min x (2 ^ 256 - 1))" "max 0 (min x (2 ^ 256 - 1)) < (2 :: int) ^ LENGTH(256)"
    by simp_all
  then show ?thesis
    by (simp only: uint_word_of_int mod_pos_pos_trivial)
qed

text \<open>
  The earned fee is half of the surplus of all sold over all bought amounts, rounded down; it
  is zero when more is bought than sold and saturates at the largest 256-bit integer.
\<close>

lemma earned_fee_eq:
  "uint (earned_fee s) =
     max 0 (min (((\<Sum>ord\<leftarrow>executed_orders s. uint (sell_amount ord)) -
                  (\<Sum>ord\<leftarrow>executed_orders s. uint (buy_amount ord))) div 2) (2 ^ 256 - 1))"
proof -
  let ?i = "token_imbalance (executed_orders s)"
  have "earned_fee s = word_of_int (max 0 (min (bigint_div ?i 2) (2 ^ 256 - 1)))"
    unfolding earned_fee_def by (rule bigint_to_u256_saturating_eq)
  also have "max 0 (min (bigint_div ?i 2) (2 ^ 256 - 1)) = max 0 (min (?i div 2) (2 ^ 256 - 1))"
    by (rule clamp_bigint_half) simp
  finally have "uint (earned_fee s) = max 0 (min (?i div 2) (2 ^ 256 - 1))"
    by (simp only: uint_clamp)
  then show ?thesis
    by (simp only: token_imbalance_eq)
qed

section \<open>Token identifiers as text\<close>

lemma digit_of_char [simp]: "d < 10 \<Longrightarrow> digit_of (char_of (48 + d)) = Some d"
  by (simp add: digit_of_def)

lemma parse_digits_append:
  "parse_digits acc (xs @ ys) =
     (case parse_digits acc xs of None \<Rightarrow> None | Some a \<Rightarrow> parse_digits a ys)"
  by (induction xs arbitrary: acc) (simp_all split: option.split)

lemma parse_digits_zeros: "parse_digits 0 (replicate k (CHR ''0'') @ s) = parse_digits 0 s"
  by (induction k) (simp_all add: digit_of_def)

lemma parse_show_nat: "parse_digits 0 (show_nat n) = Some n"
proof (induction n rule: show_nat.induct)
  case (1 n)
  then show ?case
    by (subst show_nat.simps) (auto simp: parse_digits_append)
qed

lemma length_show_nat: "0 < k \<Longrightarrow> length (show_nat n) \<le> k \<longleftrightarrow> n < 10 ^ k"
proof (induction k arbitrary: n)
  case (Suc k)
  show ?case
  proof (cases "n < 10")
    case True
    then have "n < 10 ^ Suc k"
      by (simp add: less_le_trans [of n 10])
    with True show ?thesis
      by (subst show_nat.simps) simp
  next
    case False
    then have "k = 0 \<Longrightarrow> \<not> n < 10 ^ Suc k" and ne: "n div 10 \<noteq> 0"
      by auto
    have "n div 10 < 10 ^ k \<longleftrightarrow> n < 10 ^ Suc k"
      by (simp add: div_less_iff_less_mult mult.commute)
    moreover have "length (show_nat n) = Suc (length (show_nat (n div 10)))"
      using False by (subst show_nat.simps) simp
    moreover have "length (show_nat (n div 10)) \<noteq> 0"
      by (subst show_nat.simps) simp
    ultimately show ?thesis
      using Suc.IH [of "n div 10"] False by (cases k) simp_all
  qed
qed simp

lemma show_nat_digits: "c \<in> set (show_nat n) \<Longrightarrow> c \<noteq> CHR ''+''"
proof (induction n rule: show_nat.induct)
  case (1 n)
  have "char_of (48 + d) \<noteq> CHR ''+''" if "d < 10" for d :: nat
  proof
    assume "char_of (48 + d) = CHR ''+''"
    then have "of_char (char_of (48 + d) :: char) = (43 :: nat)"
      by simp
    with that show False
      by simp
  qed
  then have "char_of (48 + n mod 10) \<noteq> CHR ''+''" and "n < 10 \<Longrightarrow> char_of (48 + n) \<noteq> CHR ''+''"
    by simp_all
  with 1 show ?case
    by (cases "n < 10") (auto simp: show_nat.simps [of n])
qed

lemma parse_u16_pad4: "parse_u16 (pad4 (show_nat (unat t))) = Some t" for t :: u16
proof -
  have ne: "pad4 (show_nat (unat t)) \<noteq> []"
    unfolding pad4_def by (subst show_nat.simps) simp
  then obtain c cs where c: "pad4 (show_nat (unat t)) = c # cs"
    by (cases "pad4 (show_nat (unat t))") auto
  then have "c \<in> set (pad4 (show_nat (unat t)))"
    by simp
  then have "c \<noteq> CHR ''+''"
    by (auto simp: pad4_def dest: show_nat_digits)
  moreover have "parse_digits 0 (c # cs) = Some (unat t)"
    by (simp only: c [symmetric] pad4_def parse_digits_zeros parse_show_nat)
  ultimately show ?thesis
    using unat_less [of t] c by (simp add: parse_u16_def)
qed

text \<open>
  Reading back a written token identifier gives the identifier for the four digit identifiers;
  a five digit identifier is written with six characters and is always rejected on reading.
\<close>

theorem token_id_roundtrip:
  "token_id_deserialize (token_id_serialize t) =
     (if unat t < 10000 then Ok t else Err ''Token ID must be of the form 'Txxxx' '')"
proof -
  have "length (show_nat (unat t)) \<le> 4 \<longleftrightarrow> unat t < 10000"
    using length_show_nat [of 4 "unat t"] by simp
  then have "length (token_id_serialize t) = 5 \<longleftrightarrow> unat t < 10000"
    by (auto simp: token_id_serialize_def pad4_def)
  moreover have "hd (token_id_serialize t) = CHR ''T''" "token_id_serialize t \<noteq> []"
    "tl (token_id_serialize t) = pad4 (show_nat (unat t))"
    by (simp_all add: token_id_serialize_def)
  ultimately show ?thesis
    by (simp add: token_id_deserialize_def parse_u16_pad4)
qed

end
