(* ===== verification/Balance.thy ===== *)
theory Balance
  imports Models
begin

text \<open>
  The balance of one token of one user as reconstructed from the events of the exchange contract
  (\<open>src/services-core/src/orderbook/streamed/balance.rs\<close>).  A balance keeps at most one pending
  deposit, withdraw request and trading result (\<open>flux\<close>); each becomes effective in the batch after
  the one it is dated to.

  The specification is a ledger that remembers every dated credit and debit: \<open>balance_refines_ledger\<close>
  shows that the folded representation of the code always reports what the ledger does, for every
  batch from the current one on.  Further lemmas show which operations can fail, that no
  operation panics and that a reverted trade leaves no trace in the reported balance.

  Where an operation fails after it has changed the receiver, the change is not modelled: the
  only caller, \<open>State::apply_event\<close>, consumes the whole state and drops it on an error.
\<close>

record flux =
  flux_batch_id :: u32
  flux_amount :: int

record balance =
  bal_balance :: int
  bal_deposit :: flux
  bal_withdraw :: flux
  bal_proceeds :: flux

definition default_flux :: flux where
  "default_flux = \<lparr>flux_batch_id = 0, flux_amount = 0\<rparr>"

definition default_balance :: balance where
  "default_balance =
     \<lparr>bal_balance = 0, bal_deposit = default_flux, bal_withdraw = default_flux,
      bal_proceeds = default_flux\<rparr>"

text \<open>\<open>Flux::amount\<close> and \<open>Flux::amount_and_zero\<close>.\<close>

definition flux_amount_at :: "flux \<Rightarrow> u32 \<Rightarrow> int option" where
  "flux_amount_at f b = (if flux_batch_id f < b then Some (flux_amount f) else None)"

definition flux_amount_and_zero :: "flux \<Rightarrow> u32 \<Rightarrow> int \<times> flux" where
  "flux_amount_and_zero f b =
     (if flux_batch_id f < b then (flux_amount f, f\<lparr>flux_amount := 0\<rparr>) else (0, f))"

definition apply_existing_deposit_and_proceeds :: "u32 \<Rightarrow> balance \<Rightarrow> balance" where
  "apply_existing_deposit_and_proceeds b bal =
     (let (d, dep) = flux_amount_and_zero (bal_deposit bal) b;
          (p, pro) = flux_amount_and_zero (bal_proceeds bal) b
      in bal\<lparr>bal_balance := bal_balance bal + d + p, bal_deposit := dep, bal_proceeds := pro\<rparr>)"

definition balance_with_deposit_and_proceeds :: "balance \<Rightarrow> u32 \<Rightarrow> int" where
  "balance_with_deposit_and_proceeds bal b =
     bal_balance bal
     + (case flux_amount_at (bal_deposit bal) b of Some d \<Rightarrow> d | None \<Rightarrow> 0)
     + (case flux_amount_at (bal_proceeds bal) b of Some p \<Rightarrow> p | None \<Rightarrow> 0)"

definition balance_deposit :: "u256 \<Rightarrow> u32 \<Rightarrow> balance \<Rightarrow> balance" where
  "balance_deposit amount b bal =
     (let bal' = apply_existing_deposit_and_proceeds b bal
      in bal'\<lparr>bal_deposit := \<lparr>flux_batch_id = b,
           flux_amount = flux_amount (bal_deposit bal') + u256_to_bigint amount\<rparr>\<rparr>)"

definition balance_withdraw_request :: "u256 \<Rightarrow> u32 \<Rightarrow> u32 \<Rightarrow> balance \<Rightarrow> balance res" where
  "balance_withdraw_request amount b current bal =
     rbind (ensure (current \<le> flux_batch_id (bal_withdraw bal) \<or> flux_amount (bal_withdraw bal) = 0)
              ''new withdraw request before clearing of previous withdraw request'') (\<lambda>_.
     Ok (bal\<lparr>bal_withdraw := \<lparr>flux_batch_id = b, flux_amount = u256_to_bigint amount\<rparr>\<rparr>))"

definition balance_withdraw :: "u256 \<Rightarrow> u32 \<Rightarrow> balance \<Rightarrow> balance res" where
  "balance_withdraw amount b bal =
     (let amount' = u256_to_bigint amount;
          (requested, request) = flux_amount_and_zero (bal_withdraw bal) b
      in rbind (ensure (amount' \<le> requested) ''withdraw does not match withdraw request'') (\<lambda>_.
         let bal' = apply_existing_deposit_and_proceeds b (bal\<lparr>bal_withdraw := request\<rparr>)
         in Ok (bal'\<lparr>bal_balance := bal_balance bal' - amount'\<rparr>)))"

definition get_balance_at_beginning_of_batch :: "balance \<Rightarrow> u32 \<Rightarrow> int" where
  "get_balance_at_beginning_of_batch bal b =
     (let total = balance_with_deposit_and_proceeds bal b
      in case flux_amount_at (bal_withdraw bal) b of
           Some amount \<Rightarrow> if amount < total then total - amount else 0
         | None \<Rightarrow> total)"

definition sell_buy_internal :: "int \<Rightarrow> u32 \<Rightarrow> balance \<Rightarrow> balance res" where
  "sell_buy_internal amount b bal =
     rbind (ensure (flux_batch_id (bal_proceeds bal) \<le> b) ''trade for past batch'') (\<lambda>_.
     let bal' = apply_existing_deposit_and_proceeds b bal
     in Ok (bal'\<lparr>bal_proceeds := \<lparr>flux_batch_id = b,
              flux_amount = flux_amount (bal_proceeds bal') + amount\<rparr>\<rparr>))"

definition revert_sell_buy_internal :: "int \<Rightarrow> u32 \<Rightarrow> balance \<Rightarrow> balance res" where
  "revert_sell_buy_internal amount b bal =
     rbind (ensure (flux_batch_id (bal_proceeds bal) = b) ''reverting non existent trade'') (\<lambda>_.
     Ok (bal\<lparr>bal_proceeds := (bal_proceeds bal)
           \<lparr>flux_amount := flux_amount (bal_proceeds bal) - amount\<rparr>\<rparr>))"

definition balance_sell :: "u128 \<Rightarrow> u32 \<Rightarrow> balance \<Rightarrow> balance res" where
  "balance_sell amount b = sell_buy_internal (- uint amount) b"

definition balance_buy :: "u128 \<Rightarrow> u32 \<Rightarrow> balance \<Rightarrow> balance res" where
  "balance_buy amount b = sell_buy_internal (uint amount) b"

definition balance_revert_sell :: "u128 \<Rightarrow> u32 \<Rightarrow> balance \<Rightarrow> balance res" where
  "balance_revert_sell amount b = revert_sell_buy_internal (- uint amount) b"

definition balance_revert_buy :: "u128 \<Rightarrow> u32 \<Rightarrow> balance \<Rightarrow> balance res" where
  "balance_revert_buy amount b = revert_sell_buy_internal (uint amount) b"

definition balance_solution_submission :: "u256 \<Rightarrow> u32 \<Rightarrow> balance \<Rightarrow> balance res" where
  "balance_solution_submission fee b = sell_buy_internal (u256_to_bigint fee) b"

definition balance_revert_solution_submission :: "u256 \<Rightarrow> u32 \<Rightarrow> balance \<Rightarrow> balance res" where
  "balance_revert_solution_submission fee b = revert_sell_buy_internal (u256_to_bigint fee) b"

section \<open>The ledger\<close>

text \<open>
  The operations on a balance as data, and the ledger they mean: dated entries, what has been
  withdrawn, and the latest withdraw request.
\<close>

datatype balance_op =
    Deposit u256
  | WithdrawRequest u256 u32
  | Withdraw u256
  | Sell u128
  | Buy u128
  | RevertSell u128
  | RevertBuy u128
  | SolutionSubmission u256
  | RevertSolutionSubmission u256

text \<open>An operation takes place in a batch \<open>b\<close>; only a withdraw request carries a batch of its own.\<close>

fun run_op :: "balance_op \<Rightarrow> u32 \<Rightarrow> balance \<Rightarrow> balance res" where
  "run_op (Deposit a) b bal = Ok (balance_deposit a b bal)"
| "run_op (WithdrawRequest a wb) b bal = balance_withdraw_request a wb b bal"
| "run_op (Withdraw a) b bal = balance_withdraw a b bal"
| "run_op (Sell a) b bal = balance_sell a b bal"
| "run_op (Buy a) b bal = balance_buy a b bal"
| "run_op (RevertSell a) b bal = balance_revert_sell a b bal"
| "run_op (RevertBuy a) b bal = balance_revert_buy a b bal"
| "run_op (SolutionSubmission a) b bal = balance_solution_submission a b bal"
| "run_op (RevertSolutionSubmission a) b bal = balance_revert_solution_submission a b bal"

record ledger =
  entries :: "(u32 \<times> int) list"
  withdrawn :: int
  request :: flux

definition empty_ledger :: ledger where
  "empty_ledger = \<lparr>entries = [], withdrawn = 0, request = default_flux\<rparr>"

definition enter :: "u32 \<Rightarrow> int \<Rightarrow> ledger \<Rightarrow> ledger" where
  "enter b a l = l\<lparr>entries := (b, a) # entries l\<rparr>"

fun ledger_step :: "balance_op \<Rightarrow> u32 \<Rightarrow> ledger \<Rightarrow> ledger" where
  "ledger_step (Deposit a) b l = enter b (uint a) l"
| "ledger_step (WithdrawRequest a wb) b l = l\<lparr>request := \<lparr>flux_batch_id = wb, flux_amount = uint a\<rparr>\<rparr>"
| "ledger_step (Withdraw a) b l =
     l\<lparr>withdrawn := withdrawn l + uint a,
       request := (if flux_batch_id (request l) < b then (request l)\<lparr>flux_amount := 0\<rparr> else request l)\<rparr>"
| "ledger_step (Sell a) b l = enter b (- uint a) l"
| "ledger_step (Buy a) b l = enter b (uint a) l"
| "ledger_step (RevertSell a) b l = enter b (uint a) l"
| "ledger_step (RevertBuy a) b l = enter b (- uint a) l"
| "ledger_step (SolutionSubmission a) b l = enter b (uint a) l"
| "ledger_step (RevertSolutionSubmission a) b l = enter b (- uint a) l"

text \<open>What the ledger is worth at the beginning of batch \<open>b\<close>.\<close>

definition ledger_credit :: "ledger \<Rightarrow> u32 \<Rightarrow> int" where
  "ledger_credit l b = (\<Sum>e\<leftarrow>entries l. if fst e < b then snd e else 0) - withdrawn l"

definition ledger_balance :: "ledger \<Rightarrow> u32 \<Rightarrow> int" where
  "ledger_balance l b =
     (let c = ledger_credit l b
      in if flux_batch_id (request l) < b
         then (if flux_amount (request l) < c then c - flux_amount (request l) else 0) else c)"

text \<open>Runs: a list of dated operations whose dates do not decrease.\<close>

definition dated_op :: "(u32 \<times> balance) \<Rightarrow> (u32 \<times> balance_op) \<Rightarrow> (u32 \<times> balance) res" where
  "dated_op s ev =
     rbind (ensure (fst s \<le> fst ev) ''event in the past'') (\<lambda>_.
     rmap (Pair (fst ev)) (run_op (snd ev) (fst ev) (snd s)))"

fun ledger_run :: "(u32 \<times> balance_op) list \<Rightarrow> ledger \<Rightarrow> ledger" where
  "ledger_run [] l = l"
| "ledger_run ((b, bop) # evs) l = ledger_run evs (ledger_step bop b l)"

section \<open>The code implements the ledger\<close>

lemmas flux_defs = flux_amount_at_def flux_amount_and_zero_def
lemmas balance_trade_defs =
  balance_sell_def balance_buy_def balance_revert_sell_def
  balance_revert_buy_def balance_solution_submission_def balance_revert_solution_submission_def
lemmas balance_op_defs =
  balance_deposit_def balance_withdraw_request_def balance_withdraw_def sell_buy_internal_def
  revert_sell_buy_internal_def balance_trade_defs

text \<open>Folding pending fluxes into the balance is invisible from the current batch on.\<close>

lemma total_apply_existing:
  "b \<le> q \<Longrightarrow> balance_with_deposit_and_proceeds (apply_existing_deposit_and_proceeds b bal) q =
     balance_with_deposit_and_proceeds bal q"
  by (auto simp: balance_with_deposit_and_proceeds_def apply_existing_deposit_and_proceeds_def flux_defs)

lemma apply_existing_fields [simp]:
  "flux_batch_id (bal_deposit (apply_existing_deposit_and_proceeds b bal)) = flux_batch_id (bal_deposit bal)"
  "flux_batch_id (bal_proceeds (apply_existing_deposit_and_proceeds b bal)) = flux_batch_id (bal_proceeds bal)"
  "bal_withdraw (apply_existing_deposit_and_proceeds b bal) = bal_withdraw bal"
  by (auto simp: apply_existing_deposit_and_proceeds_def flux_defs)

lemma apply_existing_zero:
  "flux_batch_id (bal_deposit bal) < b \<Longrightarrow>
     flux_amount (bal_deposit (apply_existing_deposit_and_proceeds b bal)) = 0"
  "flux_batch_id (bal_proceeds bal) < b \<Longrightarrow>
     flux_amount (bal_proceeds (apply_existing_deposit_and_proceeds b bal)) = 0"
  by (auto simp: apply_existing_deposit_and_proceeds_def flux_defs)

text \<open>Dates never run ahead of the current batch.\<close>

definition balance_dated :: "u32 \<Rightarrow> balance \<Rightarrow> bool" where
  "balance_dated now bal \<longleftrightarrow>
     flux_batch_id (bal_deposit bal) \<le> now \<and> flux_batch_id (bal_proceeds bal) \<le> now"

lemma balance_dated_mono: "balance_dated now bal \<Longrightarrow> now \<le> b \<Longrightarrow> balance_dated b bal"
  by (auto simp: balance_dated_def)

lemma balance_dated_default [simp]: "balance_dated now default_balance"
  by (simp add: balance_dated_def default_balance_def default_flux_def)


lemma total_set_deposit:
  assumes "flux_batch_id (bal_deposit bal) \<le> b" "b \<le> q"
    and "flux_batch_id (bal_deposit bal) < b \<Longrightarrow> flux_amount (bal_deposit bal) = 0"
  shows "balance_with_deposit_and_proceeds
       (bal\<lparr>bal_deposit := \<lparr>flux_batch_id = b, flux_amount = flux_amount (bal_deposit bal) + a\<rparr>\<rparr>) q =
     balance_with_deposit_and_proceeds bal q + (if b < q then a else 0)"
  using assms
  by (cases "flux_batch_id (bal_deposit bal) = b")
    (auto simp: balance_with_deposit_and_proceeds_def flux_defs)

lemma total_set_proceeds:
  assumes "flux_batch_id (bal_proceeds bal) \<le> b" "b \<le> q"
    and "flux_batch_id (bal_proceeds bal) < b \<Longrightarrow> flux_amount (bal_proceeds bal) = 0"
  shows "balance_with_deposit_and_proceeds
       (bal\<lparr>bal_proceeds := \<lparr>flux_batch_id = b, flux_amount = flux_amount (bal_proceeds bal) + a\<rparr>\<rparr>) q =
     balance_with_deposit_and_proceeds bal q + (if b < q then a else 0)"
  using assms
  by (cases "flux_batch_id (bal_proceeds bal) = b")
    (auto simp: balance_with_deposit_and_proceeds_def flux_defs)

lemma total_deposit:
  assumes "flux_batch_id (bal_deposit bal) \<le> b" "b \<le> q"
  shows "balance_with_deposit_and_proceeds (balance_deposit a b bal) q =
     balance_with_deposit_and_proceeds bal q + (if b < q then uint a else 0)"
  unfolding balance_deposit_def Let_def u256_to_bigint_eq
  by (subst total_set_deposit) (use assms in \<open>auto simp: apply_existing_zero total_apply_existing\<close>)

lemma total_sell_buy:
  assumes "sell_buy_internal a b bal = Ok bal'" "b \<le> q"
  shows "balance_with_deposit_and_proceeds bal' q =
     balance_with_deposit_and_proceeds bal q + (if b < q then a else 0)"
proof -
  let ?x = "apply_existing_deposit_and_proceeds b bal"
  have dated: "flux_batch_id (bal_proceeds bal) \<le> b"
    and bal': "bal' = ?x\<lparr>bal_proceeds := \<lparr>flux_batch_id = b, flux_amount = flux_amount (bal_proceeds ?x) + a\<rparr>\<rparr>"
    using assms(1) by (auto simp: sell_buy_internal_def Let_def split: if_splits)
  show ?thesis
    unfolding bal'
    by (subst total_set_proceeds)
      (use dated assms(2) in \<open>auto simp: apply_existing_zero total_apply_existing\<close>)
qed

lemma total_revert_sell_buy:
  assumes "revert_sell_buy_internal a b bal = Ok bal'"
  shows "balance_with_deposit_and_proceeds bal' q =
     balance_with_deposit_and_proceeds bal q - (if b < q then a else 0)"
  using assms
  by (auto simp: revert_sell_buy_internal_def balance_with_deposit_and_proceeds_def flux_defs
      split: if_splits)

lemma total_withdraw:
  assumes "balance_withdraw a b bal = Ok bal'" "b \<le> q"
  shows "balance_with_deposit_and_proceeds bal' q = balance_with_deposit_and_proceeds bal q - uint a"
proof -
  have "balance_with_deposit_and_proceeds (x\<lparr>bal_balance := bal_balance x - c\<rparr>) q =
      balance_with_deposit_and_proceeds x q - c" for x c
    by (simp add: balance_with_deposit_and_proceeds_def)
  moreover have "balance_with_deposit_and_proceeds (bal\<lparr>bal_withdraw := r\<rparr>) q =
      balance_with_deposit_and_proceeds bal q" for r
    by (simp add: balance_with_deposit_and_proceeds_def)
  ultimately show ?thesis
    using assms
    by (auto simp: balance_withdraw_def Let_def total_apply_existing split: prod.splits if_splits)
qed

lemma withdraw_request_after:
  "balance_withdraw a b bal = Ok bal' \<Longrightarrow>
     bal_withdraw bal' = snd (flux_amount_and_zero (bal_withdraw bal) b)"
  by (auto simp: balance_withdraw_def Let_def split: prod.splits if_splits)

lemma sell_buy_fields:
  "sell_buy_internal a b bal = Ok bal' \<Longrightarrow> bal_withdraw bal' = bal_withdraw bal \<and>
     flux_batch_id (bal_deposit bal') = flux_batch_id (bal_deposit bal) \<and>
     flux_batch_id (bal_proceeds bal') = b"
  by (auto simp: sell_buy_internal_def Let_def split: if_splits)

lemma revert_sell_buy_fields:
  "revert_sell_buy_internal a b bal = Ok bal' \<Longrightarrow> bal_withdraw bal' = bal_withdraw bal \<and>
     flux_batch_id (bal_deposit bal') = flux_batch_id (bal_deposit bal) \<and>
     flux_batch_id (bal_proceeds bal') = b \<and> flux_batch_id (bal_proceeds bal) = b"
  by (auto simp: revert_sell_buy_internal_def split: if_splits)

lemma withdraw_fields:
  "balance_withdraw a b bal = Ok bal' \<Longrightarrow>
     flux_batch_id (bal_deposit bal') = flux_batch_id (bal_deposit bal) \<and>
     flux_batch_id (bal_proceeds bal') = flux_batch_id (bal_proceeds bal)"
  by (auto simp: balance_withdraw_def Let_def split: prod.splits if_splits)

lemmas balance_fields = sell_buy_fields revert_sell_buy_fields withdraw_fields

lemma run_op_dated:
  assumes "run_op bop b bal = Ok bal'" "balance_dated now bal" "now \<le> b"
  shows "balance_dated b bal'"
  using assms
  by (cases bop) (auto simp: balance_dated_def balance_op_defs Let_def
      split: if_splits prod.splits)

text \<open>The simulation: equal totals from the current batch on, and the same withdraw request.\<close>

definition balance_sim :: "u32 \<Rightarrow> balance \<Rightarrow> ledger \<Rightarrow> bool" where
  "balance_sim now bal l \<longleftrightarrow>
     balance_dated now bal \<and> bal_withdraw bal = request l \<and>
     (\<forall>q\<ge>now. balance_with_deposit_and_proceeds bal q = ledger_credit l q)"

lemma ledger_credit_enter [simp]:
  "ledger_credit (enter b a l) q = ledger_credit l q + (if b < q then a else 0)"
  by (simp add: ledger_credit_def enter_def)

lemma request_enter [simp]: "request (enter b a l) = request l"
  by (simp add: enter_def)

lemma ledger_credit_withdraw [simp]:
  "ledger_credit (l\<lparr>withdrawn := w, request := r\<rparr>) q = ledger_credit l q + withdrawn l - w"
  "ledger_credit (l\<lparr>request := r\<rparr>) q = ledger_credit l q"
  "ledger_credit (l\<lparr>withdrawn := w\<rparr>) q = ledger_credit l q + withdrawn l - w"
  by (simp_all add: ledger_credit_def)

lemma balance_sim_step:
  assumes "balance_sim now bal l" "now \<le> b" "run_op bop b bal = Ok bal'"
  shows "balance_sim b bal' (ledger_step bop b l)"
proof -
  have dated: "balance_dated b bal'"
    using assms run_op_dated by (auto simp: balance_sim_def)
  have total: "\<And>q. b \<le> q \<Longrightarrow> balance_with_deposit_and_proceeds bal q = ledger_credit l q"
    using assms by (auto simp: balance_sim_def)
  have dep: "flux_batch_id (bal_deposit bal) \<le> b"
    using assms by (auto simp: balance_sim_def balance_dated_def)
  have req: "bal_withdraw bal = request l"
    using assms by (auto simp: balance_sim_def)
  have "bal_withdraw bal' = request (ledger_step bop b l)"
    using assms(3) req
    by (cases bop)
      (auto simp: balance_deposit_def balance_withdraw_request_def balance_trade_defs Let_def
        flux_amount_and_zero_def withdraw_request_after dest: balance_fields split: if_splits)
  moreover have "balance_with_deposit_and_proceeds bal' q = ledger_credit (ledger_step bop b l) q"
    if "b \<le> q" for q
  proof (cases bop)
    case (Deposit a)
    with assms(3) total that dep show ?thesis by (auto simp: total_deposit)
  next
    case (WithdrawRequest a wb)
    with assms(3) total that show ?thesis
      by (auto simp: balance_withdraw_request_def balance_with_deposit_and_proceeds_def split: if_splits)
  next
    case (Withdraw a)
    with assms(3) total that show ?thesis by (simp add: total_withdraw)
  qed (use assms(3) total that in \<open>simp_all add: balance_trade_defs total_sell_buy total_revert_sell_buy\<close>)
  ultimately show ?thesis
    using dated by (auto simp: balance_sim_def)
qed

lemma balance_sim_observe:
  "balance_sim now bal l \<Longrightarrow> now \<le> q \<Longrightarrow> get_balance_at_beginning_of_batch bal q = ledger_balance l q"
  by (simp add: balance_sim_def get_balance_at_beginning_of_batch_def ledger_balance_def
      flux_amount_at_def Let_def)

lemma dated_op_eq_Ok:
  "dated_op s ev = Ok s' \<longleftrightarrow> fst s \<le> fst ev \<and> fst s' = fst ev \<and> run_op (snd ev) (fst ev) (snd s) = Ok (snd s')"
  by (cases s') (auto simp: dated_op_def)

lemma balance_sim_run:
  assumes "balance_sim now bal l" "try_fold dated_op (now, bal) evs = Ok (now', bal')"
  shows "balance_sim now' bal' (ledger_run evs l)"
  using assms
proof (induction evs arbitrary: now bal l)
  case (Cons ev evs)
  obtain b bop where ev: "ev = (b, bop)"
    by fastforce
  with Cons.prems obtain bal1 where 1: "now \<le> b" "run_op bop b bal = Ok bal1"
      "try_fold dated_op (b, bal1) evs = Ok (now', bal')"
    by (auto simp: rbind_eq_Ok dated_op_eq_Ok)
  show ?case
    using Cons.IH [OF balance_sim_step [OF Cons.prems(1) 1(1,2)] 1(3)] by (simp add: ev)
qed simp

lemma balance_sim_default: "balance_sim 0 default_balance empty_ledger"
  by (simp add: balance_sim_def default_balance_def empty_ledger_def default_flux_def
      balance_dated_def balance_with_deposit_and_proceeds_def flux_defs ledger_credit_def)


text \<open>The operations as a machine on dated balances.\<close>

lemma run_op_not_Panic: "run_op bop b bal \<noteq> Panic"
  by (cases bop) (auto simp: balance_op_defs Let_def split: prod.splits if_splits)

interpretation balance_machine: fallible_machine dated_op "\<lambda>s. balance_dated (fst s) (snd s)" "\<lambda>_. True"
proof
  show "balance_dated (fst s') (snd s')"
    if "balance_dated (fst s) (snd s)" "dated_op s ev = Ok s'" for s ev s'
    using that by (auto simp: dated_op_eq_Ok intro: run_op_dated)
  show "dated_op s ev \<noteq> Panic" for s ev
    by (simp add: dated_op_def run_op_not_Panic)
qed

text \<open>
  C17: for every sequence of operations in batches that do not decrease, starting from an empty
  balance, the reported balance at the beginning of any batch from the last one on is the sum of
  all entries dated before that batch, less what was withdrawn and less the withdraw request that
  is active then (never below zero because of the request).
\<close>

theorem balance_refines_ledger:
  assumes "try_fold dated_op (0, default_balance) evs = Ok (now, bal)" and "now \<le> q"
  shows "get_balance_at_beginning_of_batch bal q = ledger_balance (ledger_run evs empty_ledger) q"
  using balance_sim_run [OF balance_sim_default assms(1)] assms(2) by (rule balance_sim_observe)

lemma balance_refines_ledger_witness:
  "get_balance_at_beginning_of_batch
     (snd (the_ok (try_fold dated_op (0, default_balance)
        [(1, Deposit 100), (2, Sell 30), (2, Buy 5), (2, RevertBuy 2), (3, WithdrawRequest 50 4), (5, Withdraw 40)]))) 6 =
   ledger_balance (ledger_run
        [(1, Deposit 100), (2, Sell 30), (2, Buy 5), (2, RevertBuy 2), (3, WithdrawRequest 50 4), (5, Withdraw 40)] empty_ledger) 6"
proof -
  let ?evs = "[(1, Deposit 100), (2, Sell 30), (2, Buy 5), (2, RevertBuy 2), (3, WithdrawRequest 50 4), (5, Withdraw 40)]"
  have run: "try_fold dated_op (0, default_balance) ?evs =
     Ok (5, \<lparr>bal_balance = 33, bal_deposit = \<lparr>flux_batch_id = 1, flux_amount = 0\<rparr>,
            bal_withdraw = \<lparr>flux_batch_id = 4, flux_amount = 0\<rparr>,
            bal_proceeds = \<lparr>flux_batch_id = 2, flux_amount = 0\<rparr>\<rparr>)"
    by (simp add: dated_op_def balance_op_defs apply_existing_deposit_and_proceeds_def flux_defs
        default_balance_def default_flux_def)
  show ?thesis
    unfolding run result.sel snd_conv by (rule balance_refines_ledger [OF run]) simp
qed

text \<open>
  On a balance whose dates do not run ahead of the current batch, deposits, trades and
  solution fees always succeed; a withdraw request fails exactly when an earlier request is
  active, a withdrawal exactly when it exceeds the active request, and a reversion exactly when no
  trade of the same batch was recorded.
\<close>

theorem run_op_succeeds_iff:
  assumes "balance_dated now bal" and "now \<le> b"
  shows "is_ok (run_op bop b bal) \<longleftrightarrow>
    (case bop of
       WithdrawRequest a wb \<Rightarrow> b \<le> flux_batch_id (bal_withdraw bal) \<or> flux_amount (bal_withdraw bal) = 0
     | Withdraw a \<Rightarrow>
         uint a \<le> (if flux_batch_id (bal_withdraw bal) < b then flux_amount (bal_withdraw bal) else 0)
     | RevertSell a \<Rightarrow> flux_batch_id (bal_proceeds bal) = b
     | RevertBuy a \<Rightarrow> flux_batch_id (bal_proceeds bal) = b
     | RevertSolutionSubmission a \<Rightarrow> flux_batch_id (bal_proceeds bal) = b
     | _ \<Rightarrow> True)"
  using assms
  by (cases bop) (auto simp: balance_op_defs balance_dated_def flux_defs Let_def)

lemma run_op_succeeds_iff_witness:
  "is_ok (run_op (Withdraw 0) 1 default_balance) \<longleftrightarrow>
     (case Withdraw 0 of
       WithdrawRequest a wb \<Rightarrow> 1 \<le> flux_batch_id (bal_withdraw default_balance) \<or> flux_amount (bal_withdraw default_balance) = 0
     | Withdraw a \<Rightarrow>
         uint a \<le> (if flux_batch_id (bal_withdraw default_balance) < 1 then flux_amount (bal_withdraw default_balance) else 0)
     | RevertSell a \<Rightarrow> flux_batch_id (bal_proceeds default_balance) = 1
     | RevertBuy a \<Rightarrow> flux_batch_id (bal_proceeds default_balance) = 1
     | RevertSolutionSubmission a \<Rightarrow> flux_batch_id (bal_proceeds default_balance) = 1
     | _ \<Rightarrow> True)"
  by (rule run_op_succeeds_iff [of 0]) simp_all

section \<open>Reverting a trade\<close>

lemma get_balance_cong:
  "balance_with_deposit_and_proceeds bal' q = balance_with_deposit_and_proceeds bal q \<Longrightarrow>
     bal_withdraw bal' = bal_withdraw bal \<Longrightarrow>
     get_balance_at_beginning_of_batch bal' q = get_balance_at_beginning_of_batch bal q"
  by (simp add: get_balance_at_beginning_of_batch_def)

lemma sell_buy_revert:
  assumes "sell_buy_internal a b bal = Ok bal1"
  shows "\<exists>bal2. revert_sell_buy_internal a b bal1 = Ok bal2 \<and>
     flux_batch_id (bal_proceeds bal2) = b \<and>
     (\<forall>q\<ge>b. get_balance_at_beginning_of_batch bal2 q = get_balance_at_beginning_of_batch bal q)"
proof -
  from sell_buy_fields [OF assms] obtain bal2 where 2: "revert_sell_buy_internal a b bal1 = Ok bal2"
    by (auto simp: revert_sell_buy_internal_def)
  have "get_balance_at_beginning_of_batch bal2 q = get_balance_at_beginning_of_batch bal q"
    if "b \<le> q" for q
    by (rule get_balance_cong)
      (use total_sell_buy [OF assms that] total_revert_sell_buy [OF 2]
         sell_buy_fields [OF assms] revert_sell_buy_fields [OF 2] in simp_all)
  with 2 revert_sell_buy_fields [OF 2] show ?thesis by auto
qed

end
