(* ===== verification/StreamedOrder.thy ===== *)
theory StreamedOrder
  imports Models
begin

text \<open>
  An order as reconstructed from the events of the exchange contract
  (\<open>src/services-core/src/orderbook/streamed/order.rs\<close>): its limits, the amount used by final
  solutions and the amount used by the solution of the current batch, which may still be
  reverted.

  The lemmas show that the documented invariant (used and pending amount together stay within
  the order) is kept by every operation, that it rules out the panics of the accessors, and that
  the remaining amount is always the limit less the net amount of all trades dated before the
  queried batch.  As in \<open>Balance\<close>, a failed operation's partial change is not modelled.
\<close>

record pending_used_amount =
  pending_batch_id :: u32
  pending_amount :: u128

record streamed_order =
  so_buy_token :: u16
  so_sell_token :: u16
  so_valid_until :: u32
  so_valid_from :: u32
  price_numerator :: u128
  price_denominator :: u128
  used_amount :: u128
  pending_used :: pending_used_amount

definition streamed_order_new ::
    "u16 \<Rightarrow> u16 \<Rightarrow> u32 \<Rightarrow> u32 \<Rightarrow> u128 \<Rightarrow> u128 \<Rightarrow> streamed_order" where
  "streamed_order_new buy sell from until numer denom =
     \<lparr>so_buy_token = buy, so_sell_token = sell, so_valid_until = until, so_valid_from = from,
      price_numerator = numer, price_denominator = denom, used_amount = 0,
      pending_used = \<lparr>pending_batch_id = 0, pending_amount = 0\<rparr>\<rparr>"

definition has_limited_amount :: "streamed_order \<Rightarrow> bool" where
  "has_limited_amount ord \<longleftrightarrow> price_numerator ord \<noteq> - 1 \<and> price_denominator ord \<noteq> - 1"

definition is_valid_in_batch :: "streamed_order \<Rightarrow> u32 \<Rightarrow> bool" where
  "is_valid_in_batch ord b \<longleftrightarrow> so_valid_from ord \<le> b \<and> b \<le> so_valid_until ord"

definition get_used_amount :: "streamed_order \<Rightarrow> u32 \<Rightarrow> u128 res" where
  "get_used_amount ord b =
     (if pending_batch_id (pending_used ord) < b
      then unwrap (checked_add (used_amount ord) (pending_amount (pending_used ord)))
      else Ok (used_amount ord))"

definition get_remaining_amount_at_beginning_of_batch :: "streamed_order \<Rightarrow> u32 \<Rightarrow> u128 res" where
  "get_remaining_amount_at_beginning_of_batch ord b =
     rbind (get_used_amount ord b) (\<lambda>used. unwrap (checked_sub (price_denominator ord) used))"

definition apply_pending_used_amount :: "u32 \<Rightarrow> streamed_order \<Rightarrow> streamed_order res" where
  "apply_pending_used_amount b ord =
     rmap (\<lambda>used.
         ord\<lparr>used_amount := used,
             pending_used := (if pending_batch_id (pending_used ord) < b
                              then (pending_used ord)\<lparr>pending_amount := 0\<rparr> else pending_used ord)\<rparr>)
       (get_used_amount ord b)"

definition ensure_used_amount_invariant :: "streamed_order \<Rightarrow> unit res" where
  "ensure_used_amount_invariant ord =
     rbind (ok_or (checked_add (used_amount ord) (pending_amount (pending_used ord))) ''math overflow'')
       (\<lambda>total. ensure (total \<le> price_denominator ord) ''trade by more than order limit'')"

definition order_trade :: "u128 \<Rightarrow> u32 \<Rightarrow> streamed_order \<Rightarrow> streamed_order res" where
  "order_trade amount b ord =
     (if \<not> has_limited_amount ord then Ok ord
      else rbind (apply_pending_used_amount b ord) (\<lambda>ord1.
           rbind (ok_or (checked_add (pending_amount (pending_used ord1)) amount) ''math overflow'') (\<lambda>p.
           let ord2 = ord1\<lparr>pending_used := \<lparr>pending_batch_id = b, pending_amount = p\<rparr>\<rparr>
           in rmap (\<lambda>_. ord2) (ensure_used_amount_invariant ord2))))"

definition order_revert_trade :: "u128 \<Rightarrow> u32 \<Rightarrow> streamed_order \<Rightarrow> streamed_order res" where
  "order_revert_trade amount b ord =
     (if \<not> has_limited_amount ord then Ok ord
      else rbind (ensure (pending_batch_id (pending_used ord) = b) ''reverting non existent trade'') (\<lambda>_.
           rmap (\<lambda>p. ord\<lparr>pending_used := (pending_used ord)\<lparr>pending_amount := p\<rparr>\<rparr>)
             (ok_or (checked_sub (pending_amount (pending_used ord)) amount) ''math underflow'')))"

definition as_model_order :: "streamed_order \<Rightarrow> u32 \<Rightarrow> address \<Rightarrow> u16 \<Rightarrow> order res" where
  "as_model_order ord b user_id order_id =
     rmap (\<lambda>remaining.
         \<lparr>oid = order_id, account_id = user_id, buy_token = so_buy_token ord,
          sell_token = so_sell_token ord, numerator = price_numerator ord,
          denominator = price_denominator ord, remaining_sell_amount = remaining,
          valid_from = so_valid_from ord, valid_until = so_valid_until ord\<rparr>)
       (get_remaining_amount_at_beginning_of_batch ord b)"

section \<open>The invariant\<close>

definition order_inv :: "streamed_order \<Rightarrow> bool" where
  "order_inv ord \<longleftrightarrow>
     unat (used_amount ord) + unat (pending_amount (pending_used ord)) \<le> unat (price_denominator ord)"

text \<open>The amount used by trades that are final at the beginning of a batch.\<close>

definition used_at :: "streamed_order \<Rightarrow> u32 \<Rightarrow> nat" where
  "used_at ord b =
     unat (used_amount ord)
     + (if pending_batch_id (pending_used ord) < b then unat (pending_amount (pending_used ord)) else 0)"

lemma order_inv_new [simp]: "order_inv (streamed_order_new bt st f u n d)"
  by (simp add: order_inv_def streamed_order_new_def)

lemma used_at_le: "order_inv ord \<Longrightarrow> used_at ord b \<le> unat (price_denominator ord)"
  by (simp add: order_inv_def used_at_def)

lemma order_inv_no_overflow:
  assumes "order_inv ord"
  shows "unat (used_amount ord) + unat (pending_amount (pending_used ord)) < 2 ^ LENGTH(128)"
  using assms unat_less [of "price_denominator ord"] unfolding order_inv_def by (rule le_less_trans)

lemma get_used_amount_Ok:
  assumes "order_inv ord"
  shows "\<exists>u. get_used_amount ord b = Ok u \<and> unat u = used_at ord b"
  using order_inv_no_overflow [OF assms]
  by (auto simp: get_used_amount_def used_at_def checked_add_def unat_add_lem [THEN iffD1])

lemma get_remaining_amount_Ok:
  assumes "order_inv ord"
  shows "\<exists>r. get_remaining_amount_at_beginning_of_batch ord b = Ok r \<and>
     unat r = unat (price_denominator ord) - used_at ord b"
proof -
  obtain u where u: "get_used_amount ord b = Ok u" "unat u = used_at ord b"
    using get_used_amount_Ok [OF assms] by blast
  have "u \<le> price_denominator ord"
    using used_at_le [OF assms] u(2) by (simp add: word_le_nat_alt)
  then show ?thesis
    using u by (simp add: get_remaining_amount_at_beginning_of_batch_def checked_sub_def unat_sub)
qed

lemma apply_pending_Ok:
  assumes "order_inv ord"
  obtains ord' where "apply_pending_used_amount b ord = Ok ord'"
    and "order_inv ord'" and "\<And>q. b \<le> q \<Longrightarrow> used_at ord' q = used_at ord q"
    and "price_denominator ord' = price_denominator ord"
    and "price_numerator ord' = price_numerator ord"
    and "pending_batch_id (pending_used ord') = pending_batch_id (pending_used ord)"
    and "pending_batch_id (pending_used ord) < b \<Longrightarrow> pending_amount (pending_used ord') = 0"
proof -
  obtain u where u: "get_used_amount ord b = Ok u" "unat u = used_at ord b"
    using get_used_amount_Ok [OF assms] by blast
  let ?x = "ord\<lparr>used_amount := u,
      pending_used := (if pending_batch_id (pending_used ord) < b
                       then (pending_used ord)\<lparr>pending_amount := 0\<rparr> else pending_used ord)\<rparr>"
  show ?thesis
    by (rule that [of ?x])
      (use assms u in \<open>auto simp: apply_pending_used_amount_def order_inv_def used_at_def\<close>)
qed

lemma order_trade_eq_Ok:
  assumes "order_inv ord" "has_limited_amount ord" "order_trade a b ord = Ok ord'"
    and "pending_batch_id (pending_used ord) \<le> b"
  shows "order_inv ord'" and "pending_batch_id (pending_used ord') = b"
    and "b \<le> q \<Longrightarrow> used_at ord' q = used_at ord q + (if b < q then unat a else 0)"
    and "price_denominator ord' = price_denominator ord" and "price_numerator ord' = price_numerator ord"
proof -
  obtain x where x: "apply_pending_used_amount b ord = Ok x" "order_inv x"
    "\<And>q. b \<le> q \<Longrightarrow> used_at x q = used_at ord q" "price_denominator x = price_denominator ord"
    "price_numerator x = price_numerator ord"
    "pending_batch_id (pending_used x) = pending_batch_id (pending_used ord)"
    "pending_batch_id (pending_used ord) < b \<Longrightarrow> pending_amount (pending_used x) = 0"
    using apply_pending_Ok [OF assms(1)] by blast
  obtain p where p: "unat p = unat (pending_amount (pending_used x)) + unat a"
    and ord': "ord' = x\<lparr>pending_used := \<lparr>pending_batch_id = b, pending_amount = p\<rparr>\<rparr>"
    and inv: "order_inv ord'"
    using assms(2,3) x(1)
    by (auto simp: order_trade_def ensure_used_amount_invariant_def Let_def rbind_eq_Ok
        order_inv_def checked_simps word_le_nat_alt split: if_splits)
  show "order_inv ord'" by (fact inv)
  show "pending_batch_id (pending_used ord') = b" "price_denominator ord' = price_denominator ord"
    "price_numerator ord' = price_numerator ord"
    using x ord' by simp_all
  show "used_at ord' q = used_at ord q + (if b < q then unat a else 0)" if "b \<le> q"
    using x(3) [OF that, symmetric] x(6,7) ord' p that assms(4)
    by (cases "pending_batch_id (pending_used ord) = b") (auto simp: used_at_def)
qed

lemma order_revert_trade_eq_Ok:
  assumes "order_inv ord" "has_limited_amount ord" "order_revert_trade a b ord = Ok ord'"
  shows "order_inv ord'" and "pending_batch_id (pending_used ord') = b"
    and "used_at ord q = used_at ord' q + (if b < q then unat a else 0)"
    and "price_denominator ord' = price_denominator ord" and "price_numerator ord' = price_numerator ord"
  using assms
  by (auto simp: order_revert_trade_def order_inv_def used_at_def checked_simps split: if_splits)


section \<open>Runs of trades and reversions\<close>

datatype order_op = Trade u128 | RevertTrade u128

fun run_order_op :: "order_op \<Rightarrow> u32 \<Rightarrow> streamed_order \<Rightarrow> streamed_order res" where
  "run_order_op (Trade a) b ord = order_trade a b ord"
| "run_order_op (RevertTrade a) b ord = order_revert_trade a b ord"

fun op_used :: "order_op \<Rightarrow> int" where
  "op_used (Trade a) = uint a"
| "op_used (RevertTrade a) = - uint a"

text \<open>The net amount of all trades dated before a batch.\<close>

definition net_used :: "(u32 \<times> order_op) list \<Rightarrow> u32 \<Rightarrow> int" where
  "net_used evs q = (\<Sum>ev\<leftarrow>evs. if fst ev < q then op_used (snd ev) else 0)"

definition dated_order_op ::
    "(u32 \<times> streamed_order) \<Rightarrow> (u32 \<times> order_op) \<Rightarrow> (u32 \<times> streamed_order) res" where
  "dated_order_op s ev =
     rbind (ensure (fst s \<le> fst ev) ''event in the past'') (\<lambda>_.
     rmap (Pair (fst ev)) (run_order_op (snd ev) (fst ev) (snd s)))"

definition order_dated :: "u32 \<times> streamed_order \<Rightarrow> bool" where
  "order_dated s \<longleftrightarrow> order_inv (snd s) \<and> pending_batch_id (pending_used (snd s)) \<le> fst s"

lemma dated_order_op_eq_Ok:
  "dated_order_op s ev = Ok s' \<longleftrightarrow>
     fst s \<le> fst ev \<and> fst s' = fst ev \<and> run_order_op (snd ev) (fst ev) (snd s) = Ok (snd s')"
  by (cases s') (auto simp: dated_order_op_def)

lemma run_order_op_unlimited:
  "\<not> has_limited_amount ord \<Longrightarrow> run_order_op oop b ord = Ok ord"
  by (cases oop) (simp_all add: order_trade_def order_revert_trade_def)

lemma run_order_op_step:
  assumes "run_order_op oop b ord = Ok ord'" "order_dated (now, ord)" "now \<le> b"
  shows "order_dated (b, ord')"
proof (cases "has_limited_amount ord")
  case False
  with assms show ?thesis by (auto simp: run_order_op_unlimited order_dated_def)
next
  case True
  have inv: "order_inv ord" and dated: "pending_batch_id (pending_used ord) \<le> b"
    using assms(2,3) by (auto simp: order_dated_def)
  show ?thesis
  proof (cases oop)
    case (Trade a)
    with order_trade_eq_Ok(1,2) [OF inv True _ dated, of a ord'] assms(1) show ?thesis
      by (simp add: order_dated_def)
  next
    case (RevertTrade a)
    with order_revert_trade_eq_Ok(1,2) [OF inv True, of a b ord'] assms(1) show ?thesis
      by (simp add: order_dated_def)
  qed
qed

lemma run_order_op_not_Panic:
  assumes "order_inv ord"
  shows "run_order_op oop b ord \<noteq> Panic"
proof -
  obtain x where x: "apply_pending_used_amount b ord = Ok x"
    using apply_pending_Ok [OF assms] by blast
  then show ?thesis
    by (cases oop)
      (auto simp: order_trade_def order_revert_trade_def ensure_used_amount_invariant_def
        Let_def rbind_eq_Panic)
qed

interpretation order_machine: fallible_machine dated_order_op order_dated "\<lambda>_. True"
proof
  show "order_dated s'" if "order_dated s" "dated_order_op s ev = Ok s'" for s ev s'
    using that by (cases s; cases s') (auto simp: dated_order_op_eq_Ok intro: run_order_op_step)
  show "dated_order_op s ev \<noteq> Panic" if "order_dated s" for s ev
    using that by (simp add: dated_order_op_def order_dated_def run_order_op_not_Panic)
qed

lemma run_order_op_used:
  assumes "run_order_op oop b ord = Ok ord'" "order_dated (now, ord)" "now \<le> b" "b \<le> q"
    and "has_limited_amount ord"
  shows "int (used_at ord' q) = int (used_at ord q) + (if b < q then op_used oop else 0)"
    and "has_limited_amount ord'" and "price_denominator ord' = price_denominator ord"
proof -
  have inv: "order_inv ord" and dated: "pending_batch_id (pending_used ord) \<le> b"
    using assms(2,3) by (auto simp: order_dated_def)
  have all: "int (used_at ord' q) = int (used_at ord q) + (if b < q then op_used oop else 0) \<and>
      price_numerator ord' = price_numerator ord \<and> price_denominator ord' = price_denominator ord"
  proof (cases oop)
    case (Trade a)
    then have "order_trade a b ord = Ok ord'" using assms(1) by simp
    note trade = order_trade_eq_Ok [OF inv assms(5) this dated]
    show ?thesis
      using trade(3) [OF assms(4)] trade(4,5) Trade by simp
  next
    case (RevertTrade a)
    then have "order_revert_trade a b ord = Ok ord'" using assms(1) by simp
    note revert = order_revert_trade_eq_Ok [OF inv assms(5) this]
    show ?thesis
      using revert(3) [of q] revert(4,5) RevertTrade by simp
  qed
  then show "int (used_at ord' q) = int (used_at ord q) + (if b < q then op_used oop else 0)"
    and "price_denominator ord' = price_denominator ord"
    by simp_all
  from all assms(5) show "has_limited_amount ord'"
    by (simp add: has_limited_amount_def)
qed

lemma dated_run_le:
  "try_fold dated_order_op (now, ord) evs = Ok (now', ord') \<Longrightarrow> now \<le> now'"
proof (induction evs arbitrary: now ord)
  case (Cons ev evs)
  then obtain x where "now \<le> fst ev" "try_fold dated_order_op (fst ev, x) evs = Ok (now', ord')"
    by (auto simp: rbind_eq_Ok dated_order_op_eq_Ok)
  with Cons.IH show ?case by fastforce
qed simp

lemma order_run_unlimited:
  "try_fold dated_order_op (now, ord) evs = Ok (now', ord') \<Longrightarrow> \<not> has_limited_amount ord \<Longrightarrow> ord' = ord"
proof (induction evs arbitrary: now)
  case (Cons ev evs)
  then show ?case
    by (auto simp: rbind_eq_Ok dated_order_op_eq_Ok run_order_op_unlimited)
qed simp

lemma order_run_used:
  assumes "try_fold dated_order_op (now, ord) evs = Ok (now', ord')" "order_dated (now, ord)"
    and "has_limited_amount ord" "now' \<le> q"
  shows "int (used_at ord' q) = int (used_at ord q) + net_used evs q \<and>
     price_denominator ord' = price_denominator ord"
  using assms
proof (induction evs arbitrary: now ord)
  case (Cons ev evs)
  obtain b oop where ev: "ev = (b, oop)"
    by fastforce
  with Cons.prems obtain x where x: "now \<le> b" "run_order_op oop b ord = Ok x"
      "try_fold dated_order_op (b, x) evs = Ok (now', ord')"
    by (auto simp: rbind_eq_Ok dated_order_op_eq_Ok)
  have "b \<le> now'"
    using x(3) by (rule dated_run_le)
  with Cons.prems have bq: "b \<le> q" by simp
  note step = run_order_op_used [OF x(2) Cons.prems(2) x(1) bq Cons.prems(3)]
  have "order_dated (b, x)"
    using x(2) Cons.prems(2) x(1) by (rule run_order_op_step)
  from Cons.IH [OF x(3) this step(2) Cons.prems(4)] step(1,3) show ?case
    by (simp add: ev net_used_def)
qed (simp add: net_used_def)

text \<open>
  C40: whatever trades and reversions (in batches that do not decrease) a fresh order goes through,
  querying the remaining amount never panics; for a limited order the answer is its limit less
  the net amount of the trades dated before the queried batch, and an unlimited order always
  keeps its full amount.
\<close>

theorem order_remaining_amount:
  fixes bt st :: u16 and f u :: u32 and n d :: u128
  defines "ord \<equiv> streamed_order_new bt st f u n d"
  assumes "try_fold dated_order_op (0, ord) evs = Ok (now, ord')" and "now \<le> q"
  shows "\<exists>r. get_remaining_amount_at_beginning_of_batch ord' q = Ok r \<and>
     uint r = uint d - (if has_limited_amount ord then net_used evs q else 0)"
proof -
  have dated: "order_dated (0, ord)"
    by (simp add: order_dated_def ord_def streamed_order_new_def order_inv_def)
  have d: "price_denominator ord = d"
    by (simp add: ord_def streamed_order_new_def)
  have zero: "used_at ord q = 0"
    by (simp add: ord_def streamed_order_new_def used_at_def)
  have "order_dated (now, ord')"
    using order_machine.run_inv [OF dated _ assms(2)] by (simp add: list_all_iff)
  then have inv: "order_inv ord'"
    by (simp add: order_dated_def)
  obtain r where r: "get_remaining_amount_at_beginning_of_batch ord' q = Ok r"
    "unat r = unat (price_denominator ord') - used_at ord' q"
    using get_remaining_amount_Ok [OF inv] by blast
  have "uint r = uint (price_denominator ord') - int (used_at ord' q)"
    using r(2) used_at_le [OF inv, of q]
    unfolding uint_eq_int_unat by linarith
  moreover have "price_denominator ord' = d \<and>
      int (used_at ord' q) = (if has_limited_amount ord then net_used evs q else 0)"
  proof (cases "has_limited_amount ord")
    case True
    then show ?thesis
      using order_run_used [OF assms(2) dated True assms(3)] d zero by simp
  next
    case False
    then have "ord' = ord"
      using order_run_unlimited [OF assms(2)] by simp
    with False d zero show ?thesis by simp
  qed
  ultimately show ?thesis
    using r(1) by auto
qed


lemma order_remaining_amount_witness:
  "\<exists>r. get_remaining_amount_at_beginning_of_batch
       (snd (the_ok (try_fold dated_order_op (0, streamed_order_new 1 2 0 9 5 100)
          [(1, Trade 30), (2, Trade 20), (2, RevertTrade 20), (2, Trade 10)]))) 3 = Ok r \<and>
     uint r = uint (100 :: u128) -
       (if has_limited_amount (streamed_order_new 1 2 0 9 5 100)
        then net_used [(1, Trade 30), (2, Trade 20), (2, RevertTrade 20), (2, Trade 10)] 3 else 0)"
proof -
  let ?evs = "[(1, Trade 30), (2, Trade 20), (2, RevertTrade 20), (2, Trade 10)]"
  have run: "try_fold dated_order_op (0, streamed_order_new 1 2 0 9 5 100) ?evs =
     Ok (2, (streamed_order_new 1 2 0 9 5 100)\<lparr>used_amount := 30,
            pending_used := \<lparr>pending_batch_id = 2, pending_amount = 10\<rparr>\<rparr>)"
    by (simp add: dated_order_op_def order_trade_def order_revert_trade_def has_limited_amount_def
        streamed_order_new_def apply_pending_used_amount_def get_used_amount_def checked_add_def
        checked_sub_def ensure_used_amount_invariant_def)
  show ?thesis
    unfolding run result.sel snd_conv by (rule order_remaining_amount [OF run]) simp
qed


section \<open>Reverting a trade\<close>

text \<open>The fields that neither a trade nor its reversion touches.\<close>

definition static_fields :: "streamed_order \<Rightarrow> (u16 \<times> u16) \<times> (u32 \<times> u32) \<times> u128 \<times> u128" where
  "static_fields ord = ((so_buy_token ord, so_sell_token ord), (so_valid_from ord, so_valid_until ord),
     price_numerator ord, price_denominator ord)"

lemma order_trade_static: "order_trade a b ord = Ok ord' \<Longrightarrow> static_fields ord' = static_fields ord"
  by (auto simp: order_trade_def apply_pending_used_amount_def Let_def rbind_eq_Ok static_fields_def
      split: if_splits)

lemma order_revert_trade_static:
  "order_revert_trade a b ord = Ok ord' \<Longrightarrow> static_fields ord' = static_fields ord"
  by (auto simp: order_revert_trade_def static_fields_def split: if_splits)

lemma order_trade_revert:
  assumes "order_dated (now, ord)" "now \<le> b" "order_trade a b ord = Ok ord1"
  shows "\<exists>ord2. order_revert_trade a b ord1 = Ok ord2 \<and> static_fields ord2 = static_fields ord \<and>
     order_inv ord2 \<and> (\<forall>q\<ge>b. used_at ord2 q = used_at ord q)"
proof (cases "has_limited_amount ord")
  case False
  with assms have "ord1 = ord" "order_inv ord"
    by (simp_all add: order_trade_def order_dated_def)
  with False show ?thesis
    by (auto simp: order_revert_trade_def)
next
  case True
  have inv: "order_inv ord" and dated: "pending_batch_id (pending_used ord) \<le> b"
    using assms(1,2) by (auto simp: order_dated_def)
  note t = order_trade_eq_Ok [OF inv True assms(3) dated]
  have lim1: "has_limited_amount ord1"
    using True t(4,5) by (simp add: has_limited_amount_def)
  have "unat a \<le> unat (pending_amount (pending_used ord1))"
    using assms(3) True
    by (auto simp: order_trade_def Let_def rbind_eq_Ok checked_simps split: if_splits)
  then obtain ord2 where ord2: "order_revert_trade a b ord1 = Ok ord2"
    using lim1 t(2)
    by (auto simp: order_revert_trade_def checked_sub_def word_le_nat_alt)
  note r = order_revert_trade_eq_Ok [OF t(1) lim1 ord2]
  have "used_at ord2 q = used_at ord q" if "b \<le> q" for q
    using t(3) [OF that] r(3) [of q] by simp
  with ord2 r(1) order_trade_static [OF assms(3)] order_revert_trade_static [OF ord2] show ?thesis
    by auto
qed

lemma remaining_cong:
  assumes "order_inv ord" "order_inv ord'" "used_at ord' q = used_at ord q"
    and "price_denominator ord' = price_denominator ord"
  shows "get_remaining_amount_at_beginning_of_batch ord' q = get_remaining_amount_at_beginning_of_batch ord q"
  using get_remaining_amount_Ok [OF assms(1), of q] get_remaining_amount_Ok [OF assms(2), of q] assms(3,4)
  by (metis word_unat_eq_iff)

end
