(* ===== verification/AuctionData.thy ===== *)
theory AuctionData
  imports Models
begin

text \<open>
  Auction data is what an orderbook reader hands to the solver: an account state and a list of
  orders.  This theory models its canonical form
  (\<open>src/services-core/src/orderbook/util.rs\<close>) and the configurable filter in front of a reader
  (\<open>src/services-core/src/orderbook/filtered_orderbook.rs\<close>, \<open>src/services-core/src/orderbook.rs\<close>).

  The interface of a reader is the locale \<open>orderbook_reading\<close>; its law is that what is returned
  is canonical: no empty order, and balances only where an order sells the token.  The no-op
  reader and the filtered reader are interpretations, the latter over any reader.
\<close>

type_synonym auction_data = "account_state \<times> order list"

definition sells :: "order list \<Rightarrow> address \<times> u16 \<Rightarrow> bool" where
  "sells os ut = list_ex (\<lambda>ord. account_id ord = fst ut \<and> sell_token ord = snd ut) os"

definition canonicalize_auction_data ::
    "((address \<times> u16) \<times> u256) list \<Rightarrow> order list \<Rightarrow> auction_data" where
  "canonicalize_auction_data account_states os =
     (let os' = filter (\<lambda>ord. 0 < remaining_sell_amount ord) os
      in (hm_collect (filter (\<lambda>kv. sells os' (fst kv)) account_states), os'))"

section \<open>Filters\<close>

text \<open>\<open>HashSet\<close>s are lists of which only membership matters.\<close>

datatype token_filter = Whitelist "u16 list" | Blacklist "u16 list"

datatype user_order_filter = AllOrders | OrderIds "u16 list"

record orderbook_filter =
  filter_tokens :: token_filter
  filter_users :: "(address \<times> user_order_filter) list"

definition default_filter :: orderbook_filter where
  "default_filter = \<lparr>filter_tokens = Blacklist [], filter_users = []\<rparr>"

definition whitelist :: "orderbook_filter \<Rightarrow> u16 list option" where
  "whitelist fl = (case filter_tokens fl of Whitelist w \<Rightarrow> Some w | Blacklist _ \<Rightarrow> None)"

fun token_filter_accepts :: "token_filter \<Rightarrow> order \<Rightarrow> bool" where
  "token_filter_accepts (Whitelist ts) ord \<longleftrightarrow>
     buy_token ord \<in> set ts \<and> sell_token ord \<in> set ts"
| "token_filter_accepts (Blacklist ts) ord \<longleftrightarrow>
     buy_token ord \<notin> set ts \<and> sell_token ord \<notin> set ts"

definition user_filter_accepts :: "(address \<times> user_order_filter) list \<Rightarrow> order \<Rightarrow> bool" where
  "user_filter_accepts users ord =
     (case hm_get users (account_id ord) of
        Some AllOrders \<Rightarrow> False
      | Some (OrderIds ids) \<Rightarrow> oid ord \<notin> set ids
      | None \<Rightarrow> True)"

definition filter_apply :: "orderbook_filter \<Rightarrow> auction_data \<Rightarrow> auction_data" where
  "filter_apply fl ad =
     (let token_filtered_orders = filter (token_filter_accepts (filter_tokens fl)) (snd ad);
          user_filtered_orders = filter (user_filter_accepts (filter_users fl)) token_filtered_orders
      in canonicalize_auction_data (fst ad) user_filtered_orders)"

section \<open>Readers\<close>

text \<open>The trait \<open>StableXOrderBookReading\<close>, as the two queries a reader answers.\<close>

record reader =
  get_auction_data_for_batch :: "u32 \<Rightarrow> auction_data res"
  get_auction_data_for_block :: "block_number \<Rightarrow> auction_data res"
  reader_initialize :: "unit res"

definition noop_orderbook :: reader where
  "noop_orderbook =
     \<lparr>get_auction_data_for_batch = (\<lambda>_. Ok ([], [])),
      get_auction_data_for_block = (\<lambda>_. Ok ([], [])),
      reader_initialize = Ok ()\<rparr>"

definition filtered_orderbook_reader :: "reader \<Rightarrow> orderbook_filter \<Rightarrow> reader" where
  "filtered_orderbook_reader inner fl =
     \<lparr>get_auction_data_for_batch =
        (\<lambda>b. rmap (filter_apply fl) (AuctionData.get_auction_data_for_batch inner b)),
      get_auction_data_for_block =
        (\<lambda>b. rmap (filter_apply fl) (AuctionData.get_auction_data_for_block inner b)),
      reader_initialize = AuctionData.reader_initialize inner\<rparr>"

section \<open>Canonical auction data\<close>

definition canonical :: "auction_data \<Rightarrow> bool" where
  "canonical ad \<longleftrightarrow>
     hm_wf (fst ad) \<and> (\<forall>ord \<in> set (snd ad). 0 < remaining_sell_amount ord) \<and>
     (\<forall>ut \<in> set (map fst (fst ad)). sells (snd ad) ut)"

lemma dom_hm_collect: "set (map fst (hm_collect kvs)) = set (map fst kvs)"
proof -
  have "set (map fst (hm_collect kvs)) = dom (map_of (hm_collect kvs))"
    by (simp add: dom_map_of_conv_image_fst)
  also have "\<dots> = set (map fst kvs)"
    by (simp add: map_of_hm_collect dom_map_of_conv_image_fst)
  finally show ?thesis .
qed

lemma canonical_canonicalize: "canonical (canonicalize_auction_data accts os)"
  using dom_hm_collect [of "filter (\<lambda>kv. sells (filter (\<lambda>ord. 0 < remaining_sell_amount ord) os) (fst kv)) accts"]
  by (auto simp: canonical_def canonicalize_auction_data_def Let_def hm_wf_collect)

lemma canonicalize_id: 
  assumes "canonical ad"
  shows "snd (canonicalize_auction_data (fst ad) (snd ad)) = snd ad"
    and "map_of (fst (canonicalize_auction_data (fst ad) (snd ad))) = map_of (fst ad)"
proof -
  have os: "filter (\<lambda>ord. 0 < remaining_sell_amount ord) (snd ad) = snd ad"
    and ac: "filter (\<lambda>kv. sells (snd ad) (fst kv)) (fst ad) = fst ad"
    using assms by (auto simp: canonical_def filter_id_conv)
  show "snd (canonicalize_auction_data (fst ad) (snd ad)) = snd ad"
    and "map_of (fst (canonicalize_auction_data (fst ad) (snd ad))) = map_of (fst ad)"
    using assms by (simp_all add: canonicalize_auction_data_def Let_def os ac canonical_def
        map_of_hm_collect_distinct)
qed


lemma canonical_read_balance:
  assumes "canonical ad" "\<not> sells (snd ad) (user, token)"
  shows "read_balance (fst ad) token user = 0"
proof -
  have "(user, token) \<notin> fst ` set (fst ad)"
    using assms by (auto simp: canonical_def)
  then have "map_of (fst ad) (user, token) = None"
    by (simp add: map_of_eq_None_iff)
  then show ?thesis
    by (simp add: read_balance_def)
qed

text \<open>Equality of auction data up to the iteration order of the account state.\<close>

definition same_auction :: "auction_data \<Rightarrow> auction_data \<Rightarrow> bool" where
  "same_auction ad ad' \<longleftrightarrow> snd ad = snd ad' \<and> map_of (fst ad) = map_of (fst ad')"

lemma filter_default: "filter_apply default_filter ad = canonicalize_auction_data (fst ad) (snd ad)"
proof -
  have "filter (token_filter_accepts (Blacklist [])) os = os" for os
    by (rule filter_True) simp
  moreover have "filter (user_filter_accepts []) os = os" for os
    by (rule filter_True) (simp add: user_filter_accepts_def)
  ultimately show ?thesis
    by (simp add: filter_apply_def default_filter_def)
qed

locale orderbook_reading =
  fixes rd :: reader
  assumes batch_canonical: "get_auction_data_for_batch rd b = Ok ad \<Longrightarrow> canonical ad"
    and block_canonical: "get_auction_data_for_block rd bn = Ok ad \<Longrightarrow> canonical ad"
begin

lemma unsold_balance_zero:
  "get_auction_data_for_batch rd b = Ok ad \<Longrightarrow> \<not> sells (snd ad) (user, token) \<Longrightarrow>
     read_balance (fst ad) token user = 0"
  by (rule canonical_read_balance [OF batch_canonical])

lemma default_filter_transparent:
  assumes "get_auction_data_for_batch rd b = Ok ad"
  shows "\<exists>ad'. get_auction_data_for_batch (filtered_orderbook_reader rd default_filter) b = Ok ad' \<and>
     same_auction ad' ad"
  using assms canonicalize_id [OF batch_canonical [OF assms]]
  by (simp add: filtered_orderbook_reader_def filter_default same_auction_def)

end

text \<open>
  What the solvers rely on in addition: no order has more left to sell than its limit.
\<close>

definition within_limits :: "order \<Rightarrow> bool" where
  "within_limits ord \<longleftrightarrow> remaining_sell_amount ord \<le> denominator ord"

locale sound_orderbook_reading = orderbook_reading +
  assumes batch_within: "get_auction_data_for_batch rd b = Ok ad \<Longrightarrow> list_all within_limits (snd ad)"
    and block_within: "get_auction_data_for_block rd bn = Ok ad \<Longrightarrow> list_all within_limits (snd ad)"
begin

lemma remaining_amounts_never_panic:
  assumes "get_auction_data_for_batch rd b = Ok ad" "ord \<in> set (snd ad)"
  shows "\<exists>buy. compute_remaining_buy_sell_amounts ord = Ok (buy, remaining_sell_amount ord)"
  using batch_within [OF assms(1)] assms(2) compute_remaining_amounts_Ok
  by (fastforce simp: list_all_iff within_limits_def compute_remaining_buy_sell_amounts_def)

lemma filtered_sound: "sound_orderbook_reading (filtered_orderbook_reader rd fl)"
proof
  show "canonical ad" if "get_auction_data_for_batch (filtered_orderbook_reader rd fl) b = Ok ad" for b ad
    using that by (auto simp: filtered_orderbook_reader_def filter_apply_def Let_def canonical_canonicalize)
  show "canonical ad" if "get_auction_data_for_block (filtered_orderbook_reader rd fl) b = Ok ad" for b ad
    using that by (auto simp: filtered_orderbook_reader_def filter_apply_def Let_def canonical_canonicalize)
  have sub: "list_all within_limits (snd ad) \<Longrightarrow> list_all within_limits (snd (filter_apply fl ad))" for ad
    by (auto simp: filter_apply_def canonicalize_auction_data_def Let_def list_all_iff)
  show "list_all within_limits (snd ad)" if "get_auction_data_for_batch (filtered_orderbook_reader rd fl) b = Ok ad" for b ad
    using that batch_within sub by (auto simp: filtered_orderbook_reader_def)
  show "list_all within_limits (snd ad)" if "get_auction_data_for_block (filtered_orderbook_reader rd fl) b = Ok ad" for b ad
    using that block_within sub by (auto simp: filtered_orderbook_reader_def)
qed

end

interpretation noop: sound_orderbook_reading noop_orderbook
  by unfold_locales (simp_all add: noop_orderbook_def canonical_def)

interpretation filtered: orderbook_reading "filtered_orderbook_reader inner fl" for inner fl
  by unfold_locales
    (auto simp: filtered_orderbook_reader_def filter_apply_def Let_def canonical_canonicalize)

lemma filter_apply_orders:
  "snd (filter_apply fl ad) =
     filter (\<lambda>ord. 0 < remaining_sell_amount ord \<and> token_filter_accepts (filter_tokens fl) ord \<and>
                   user_filter_accepts (filter_users fl) ord) (snd ad)"
  by (auto simp: filter_apply_def canonicalize_auction_data_def Let_def conj_commute intro!: filter_cong)

lemma map_of_filter_fst:
  "map_of (filter (\<lambda>kv. P (fst kv)) m) k = (if P k then map_of m k else None)"
  by (induction m) auto

lemma filter_apply_balances:
  assumes "hm_wf (fst ad)"
  shows "map_of (fst (filter_apply fl ad)) ut =
     (if sells (snd (filter_apply fl ad)) ut then map_of (fst ad) ut else None)"
proof -
  have "hm_wf (filter (\<lambda>kv. P (fst kv)) (fst ad))" for P
    using assms by (simp add: distinct_map_filter)
  then show ?thesis
    by (simp add: filter_apply_def canonicalize_auction_data_def Let_def map_of_hm_collect_distinct
        map_of_filter_fst)
qed

lemma filter_apply_wf: "hm_wf (fst (filter_apply fl ad))"
  by (simp add: filter_apply_def canonicalize_auction_data_def Let_def hm_wf_collect)

text \<open>
  Filtering keeps exactly the non-empty orders that the token filter and the user filter
  accept, in their order, and keeps exactly the balances that one of these orders sells.
\<close>

theorem filter_apply_correct:
  assumes "hm_wf accts"
  shows "snd (filter_apply fl (accts, os)) =
      filter (\<lambda>ord. 0 < remaining_sell_amount ord \<and> token_filter_accepts (filter_tokens fl) ord \<and>
                    user_filter_accepts (filter_users fl) ord) os \<and>
    map_of (fst (filter_apply fl (accts, os))) ut =
      (if sells (snd (filter_apply fl (accts, os))) ut then map_of accts ut else None)"
  using assms by (simp add: filter_apply_orders filter_apply_balances)

text \<open>A sample auction for the witnesses: two orders of one account.\<close>

definition sample_order :: "u16 \<Rightarrow> u16 \<Rightarrow> u16 \<Rightarrow> order" where
  "sample_order i buy sell =
     \<lparr>oid = i, account_id = 1, buy_token = buy, sell_token = sell, numerator = 10, denominator = 10,
      remaining_sell_amount = 10, valid_from = 0, valid_until = 9\<rparr>"

definition sample_auction :: auction_data where
  "sample_auction = ([((1, 1), 50), ((1, 2), 70)], [sample_order 0 2 1, sample_order 1 1 2])"

lemma filter_apply_correct_witness:
  "map_of (fst (filter_apply \<lparr>filter_tokens = Whitelist [1, 2], filter_users = [(1, OrderIds [0])]\<rparr> sample_auction)) (1, 2) = Some 70"
  using filter_apply_correct [of "fst sample_auction"
      "\<lparr>filter_tokens = Whitelist [1, 2], filter_users = [(1, OrderIds [0])]\<rparr>" "snd sample_auction" "(1, 2)"]
  by (simp add: sample_auction_def sample_order_def sells_def user_filter_accepts_def)

text \<open>
  Two filters in a row may be applied in either order: the remaining orders and the remaining
  balances are the same.
\<close>

theorem filter_apply_commute:
  assumes "hm_wf (fst ad)"
  shows "same_auction (filter_apply f (filter_apply g ad)) (filter_apply g (filter_apply f ad))"
proof -
  have os: "snd (filter_apply f (filter_apply g ad)) = snd (filter_apply g (filter_apply f ad))"
    by (auto simp: filter_apply_orders intro: filter_cong)
  have sub: "sells (snd (filter_apply h (filter_apply k ad))) ut \<Longrightarrow> sells (snd (filter_apply k ad)) ut"
    for h k ut
    by (auto simp: filter_apply_orders sells_def list_ex_iff)
  have twice: "map_of (fst (filter_apply h (filter_apply k ad))) ut =
      (if sells (snd (filter_apply h (filter_apply k ad))) ut then map_of (fst ad) ut else None)" for h k ut
    using sub by (simp add: filter_apply_balances assms filter_apply_wf)
  show ?thesis
    by (simp add: same_auction_def os twice fun_eq_iff)
qed

lemma filter_apply_commute_witness:
  "same_auction
     (filter_apply \<lparr>filter_tokens = Whitelist [1, 2], filter_users = []\<rparr>
        (filter_apply \<lparr>filter_tokens = Blacklist [], filter_users = [(1, OrderIds [0])]\<rparr> sample_auction))
     (filter_apply \<lparr>filter_tokens = Blacklist [], filter_users = [(1, OrderIds [0])]\<rparr>
        (filter_apply \<lparr>filter_tokens = Whitelist [1, 2], filter_users = []\<rparr> sample_auction))"
  by (rule filter_apply_commute) (simp add: sample_auction_def)

end
