(* ===== verification/StreamedState.thy ===== *)
theory StreamedState
  imports Balance StreamedOrder AuctionData
begin

text \<open>
  The orderbook state built from the events of the exchange contract
  (\<open>src/services-core/src/orderbook/streamed/state.rs\<close>): one handler per event, the fold over a
  list of events and the queries for the orderbook at the beginning of a batch.

  The event data types are generated from the contract's interface; the model has the fields
  that the handlers read.  The lemmas establish the invariant of the state (hash maps without
  duplicate keys, orders within their limits, no date ahead of the last batch, and a submitter's
  balance that carries the fee of the last solution), that every event keeps it, that it rules
  out every \<open>unwrap\<close> failure in handlers and queries, and the effect of the handlers on the
  orderbook.
\<close>

datatype event =
    DepositEvent (ev_user: address) (ev_token: address) (ev_amount: u256) (ev_batch_id: u32)
  | WithdrawRequestEvent address address u256 u32
  | WithdrawEvent address address u256
  | TokenListingEvent address u16
  | OrderPlacementEvent (ev_owner: address) (ev_index: u16) (ev_buy_token: u16) (ev_sell_token: u16)
      (ev_valid_from: u32) (ev_valid_until: u32) (ev_price_numerator: u128) (ev_price_denominator: u128)
  | OrderCancellationEvent address u16
  | OrderDeletionEvent address u16
  | TradeEvent address u16 u128 u128
  | TradeReversionEvent address u16 u128 u128
  | SolutionSubmissionEvent address u256

record last_solution =
  ls_batch_id :: u32
  ls_user_id :: address
  ls_burnt_fees :: u256

record state =
  st_orders :: "((address \<times> u16) \<times> streamed_order) list"
  st_balances :: "((address \<times> address) \<times> balance) list"
  st_tokens :: "(u16 \<times> address) list"
  st_last_solution :: last_solution
  solution_partially_received :: bool
  last_batch_id :: u32

definition default_state :: state where
  "default_state =
     \<lparr>st_orders = [], st_balances = [], st_tokens = [],
      st_last_solution = \<lparr>ls_batch_id = 0, ls_user_id = 0, ls_burnt_fees = 0\<rparr>,
      solution_partially_received = False, last_batch_id = 0\<rparr>"

text \<open>\<open>Tokens\<close>: a list searched from the front in both directions.\<close>

definition get_address_by_id :: "(u16 \<times> address) list \<Rightarrow> u16 \<Rightarrow> address option" where
  "get_address_by_id ts i = map_option snd (List.find (\<lambda>t. fst t = i) ts)"

definition get_id_by_address :: "(u16 \<times> address) list \<Rightarrow> address \<Rightarrow> u16 option" where
  "get_id_by_address ts a = map_option fst (List.find (\<lambda>t. snd t = a) ts)"

section \<open>Handlers\<close>

text \<open>An operation on the balance of a user and a token, created on demand.\<close>

definition with_balance ::
    "address \<times> address \<Rightarrow> (balance \<Rightarrow> balance res) \<Rightarrow> state \<Rightarrow> state res" where
  "with_balance k f s =
     rmap (\<lambda>bal. s\<lparr>st_balances := hm_insert k bal (st_balances s)\<rparr>)
       (f (hm_or_default (st_balances s) k default_balance))"

definition state_deposit :: "address \<Rightarrow> address \<Rightarrow> u256 \<Rightarrow> u32 \<Rightarrow> u32 \<Rightarrow> state \<Rightarrow> state res" where
  "state_deposit user token amount ev_batch block_batch s =
     rbind (ensure (ev_batch = block_batch) ''deposit batch id does not match current batch id'') (\<lambda>_.
     with_balance (user, token) (\<lambda>bal. Ok (balance_deposit amount ev_batch bal)) s)"

definition state_withdraw_request ::
    "address \<Rightarrow> address \<Rightarrow> u256 \<Rightarrow> u32 \<Rightarrow> u32 \<Rightarrow> state \<Rightarrow> state res" where
  "state_withdraw_request user token amount ev_batch block_batch s =
     rbind (ensure (block_batch \<le> ev_batch) ''withdraw request in the past'') (\<lambda>_.
     with_balance (user, token) (balance_withdraw_request amount ev_batch block_batch) s)"

definition state_withdraw :: "address \<Rightarrow> address \<Rightarrow> u256 \<Rightarrow> u32 \<Rightarrow> state \<Rightarrow> state res" where
  "state_withdraw user token amount block_batch s =
     with_balance (user, token) (balance_withdraw amount block_batch) s"

definition token_listing :: "address \<Rightarrow> u16 \<Rightarrow> state \<Rightarrow> state res" where
  "token_listing token i s = Ok (s\<lparr>st_tokens := st_tokens s @ [(i, token)]\<rparr>)"

definition order_placement ::
    "address \<Rightarrow> u16 \<Rightarrow> u16 \<Rightarrow> u16 \<Rightarrow> u32 \<Rightarrow> u32 \<Rightarrow> u128 \<Rightarrow> u128 \<Rightarrow> state \<Rightarrow> state res" where
  "order_placement owner index buy sell from until numer denom s =
     (case hm_get (st_orders s) (owner, index) of
        None \<Rightarrow> Ok (s\<lparr>st_orders :=
                  hm_insert (owner, index) (streamed_order_new buy sell from until numer denom) (st_orders s)\<rparr>)
      | Some _ \<Rightarrow> Err ''order already exists'')"

definition order_cancellation :: "address \<Rightarrow> u16 \<Rightarrow> u32 \<Rightarrow> state \<Rightarrow> state res" where
  "order_cancellation owner i block_batch s =
     rmap (\<lambda>ord. s\<lparr>st_orders :=
             hm_insert (owner, i) (ord\<lparr>so_valid_until := block_batch - 1\<rparr>) (st_orders s)\<rparr>)
       (ok_or (hm_get (st_orders s) (owner, i)) ''unknown order'')"

definition order_deletion :: "address \<Rightarrow> u16 \<Rightarrow> u32 \<Rightarrow> state \<Rightarrow> state res" where
  "order_deletion owner i block_batch s =
     (case hm_get (st_orders s) (owner, i) of
        Some ord \<Rightarrow>
          rbind (ensure (\<not> is_valid_in_batch ord (block_batch - 1)) ''deleting valid order'') (\<lambda>_.
          Ok (s\<lparr>st_orders := hm_remove (owner, i) (st_orders s)\<rparr>))
      | None \<Rightarrow> Ok s)"

definition apply_trade_internal ::
    "address \<Rightarrow> u16 \<Rightarrow> (streamed_order \<Rightarrow> streamed_order res) \<Rightarrow> (balance \<Rightarrow> balance res) \<Rightarrow>
     (balance \<Rightarrow> balance res) \<Rightarrow> state \<Rightarrow> state res" where
  "apply_trade_internal user order_id order_fn sell_balance_fn buy_balance_fn s =
     (let s = s\<lparr>solution_partially_received := True\<rparr> in
      rbind (ok_or (hm_get (st_orders s) (user, order_id)) ''unknown order'') (\<lambda>ord.
      rbind (order_fn ord) (\<lambda>ord'.
      let s = s\<lparr>st_orders := hm_insert (user, order_id) ord' (st_orders s)\<rparr> in
      rbind (ok_or (get_address_by_id (st_tokens s) (so_sell_token ord')) ''unknown sell token'') (\<lambda>sell_token.
      rbind (with_balance (user, sell_token) sell_balance_fn s) (\<lambda>s.
      rbind (ok_or (get_address_by_id (st_tokens s) (so_buy_token ord')) ''unknown buy token'') (\<lambda>buy_token.
      with_balance (user, buy_token) buy_balance_fn s))))))"

definition apply_trade :: "address \<Rightarrow> u16 \<Rightarrow> u128 \<Rightarrow> u128 \<Rightarrow> u32 \<Rightarrow> state \<Rightarrow> state res" where
  "apply_trade owner order_id sell buy block_batch =
     apply_trade_internal owner order_id (order_trade sell block_batch)
       (balance_sell sell block_batch) (balance_buy buy block_batch)"

definition apply_trade_reversion :: "address \<Rightarrow> u16 \<Rightarrow> u128 \<Rightarrow> u128 \<Rightarrow> u32 \<Rightarrow> state \<Rightarrow> state res" where
  "apply_trade_reversion owner order_id sell buy block_batch =
     apply_trade_internal owner order_id (order_revert_trade sell block_batch)
       (balance_revert_sell sell block_batch) (balance_revert_buy buy block_batch)"

text \<open>Both \<open>unwrap\<close>s of \<open>revert_last_solution\<close> turn a failure into a panic.\<close>

definition revert_last_solution :: "address \<Rightarrow> u32 \<Rightarrow> state \<Rightarrow> state res" where
  "revert_last_solution fee_token block_batch s =
     (let ls = st_last_solution s in
      if ls_batch_id ls = block_batch then
        rbind (unwrap (hm_get (st_balances s) (ls_user_id ls, fee_token))) (\<lambda>bal.
        (case balance_revert_solution_submission (ls_burnt_fees ls) block_batch bal of
           Ok bal' \<Rightarrow>
             Ok (s\<lparr>st_balances := hm_insert (ls_user_id ls, fee_token) bal' (st_balances s),
                   st_last_solution := ls\<lparr>ls_burnt_fees := 0\<rparr>\<rparr>)
         | _ \<Rightarrow> Panic))
      else Ok s)"

definition apply_solution_submission :: "address \<Rightarrow> u256 \<Rightarrow> u32 \<Rightarrow> state \<Rightarrow> state res" where
  "apply_solution_submission submitter burnt_fees block_batch s =
     rbind (ok_or (get_address_by_id (st_tokens s) 0) ''solution without fee token'') (\<lambda>fee_token.
     rbind (revert_last_solution fee_token block_batch s) (\<lambda>s.
     let s = s\<lparr>st_last_solution := \<lparr>ls_batch_id = block_batch, ls_user_id = submitter,
                                   ls_burnt_fees = burnt_fees\<rparr>,
               solution_partially_received := False\<rparr>
     in with_balance (submitter, fee_token) (balance_solution_submission burnt_fees block_batch) s))"

fun handle_event :: "event \<Rightarrow> u32 \<Rightarrow> state \<Rightarrow> state res" where
  "handle_event (DepositEvent user token amount eb) b s = state_deposit user token amount eb b s"
| "handle_event (WithdrawRequestEvent user token amount eb) b s =
     state_withdraw_request user token amount eb b s"
| "handle_event (WithdrawEvent user token amount) b s = state_withdraw user token amount b s"
| "handle_event (TokenListingEvent token i) b s = token_listing token i s"
| "handle_event (OrderPlacementEvent owner index buy sell from until numer denom) b s =
     order_placement owner index buy sell from until numer denom s"
| "handle_event (OrderCancellationEvent owner i) b s = order_cancellation owner i b s"
| "handle_event (OrderDeletionEvent owner i) b s = order_deletion owner i b s"
| "handle_event (TradeEvent owner i sell buy) b s = apply_trade owner i sell buy b s"
| "handle_event (TradeReversionEvent owner i sell buy) b s = apply_trade_reversion owner i sell buy b s"
| "handle_event (SolutionSubmissionEvent submitter fees) b s = apply_solution_submission submitter fees b s"

definition apply_event :: "state \<Rightarrow> event \<times> u32 \<Rightarrow> state res" where
  "apply_event s ev =
     rbind (ensure (last_batch_id s \<le> snd ev) ''event in the past'') (\<lambda>_.
     handle_event (fst ev) (snd ev) (s\<lparr>last_batch_id := snd ev\<rparr>))"

definition from_events :: "(event \<times> u32) list \<Rightarrow> state res" where
  "from_events evs = try_fold apply_event default_state evs"

definition state_clear :: "state \<Rightarrow> state" where
  "state_clear s = s\<lparr>st_orders := [], st_balances := [], st_tokens := []\<rparr>"

section \<open>Queries\<close>

definition account_state_at :: "state \<Rightarrow> u32 \<Rightarrow> ((address \<times> u16) \<times> u256) list" where
  "account_state_at s b =
     List.map_filter (\<lambda>((user, token), bal).
         case get_id_by_address (st_tokens s) token of
           None \<Rightarrow> None
         | Some token_id \<Rightarrow>
             map_option (\<lambda>amount. ((user, token_id), amount))
               (bigint_to_u256 (get_balance_at_beginning_of_batch bal b)))
       (st_balances s)"

definition orders_at :: "state \<Rightarrow> u32 \<Rightarrow> order list res" where
  "orders_at s b =
     traverse (\<lambda>((user, order_id), ord). as_model_order ord b user order_id)
       (filter (\<lambda>e. is_valid_in_batch (snd e) (b - 1)) (st_orders s))"

definition orderbook_at_beginning_of_batch ::
    "state \<Rightarrow> u32 \<Rightarrow> (((address \<times> u16) \<times> u256) list \<times> order list) res" where
  "orderbook_at_beginning_of_batch s b =
     rbind (ensure (last_batch_id s \<le> b) ''batch is in the past'') (\<lambda>_.
     rbind (ensure (\<not> solution_partially_received s)
              ''retrieved orderbook with a partially applied solution'') (\<lambda>_.
     rmap (Pair (account_state_at s b)) (orders_at s b)))"

definition canonicalized_auction_state_at_beginning_of_batch :: "state \<Rightarrow> u32 \<Rightarrow> auction_data res" where
  "canonicalized_auction_state_at_beginning_of_batch s b =
     rmap (\<lambda>(accounts, os). canonicalize_auction_data accounts os)
       (orderbook_at_beginning_of_batch s b)"


section \<open>The invariant\<close>

definition orders_inv :: "state \<Rightarrow> bool" where
  "orders_inv s \<longleftrightarrow> hm_wf (st_orders s) \<and>
     (\<forall>k ord. hm_get (st_orders s) k = Some ord \<longrightarrow> order_dated (last_batch_id s, ord))"

definition balances_inv :: "state \<Rightarrow> bool" where
  "balances_inv s \<longleftrightarrow> hm_wf (st_balances s) \<and>
     (\<forall>k bal. hm_get (st_balances s) k = Some bal \<longrightarrow> balance_dated (last_batch_id s) bal)"

text \<open>The fee of the last solution is part of the proceeds of its submitter.\<close>

definition last_solution_inv :: "state \<Rightarrow> bool" where
  "last_solution_inv s \<longleftrightarrow>
     ls_batch_id (st_last_solution s) \<le> last_batch_id s \<and>
     (ls_batch_id (st_last_solution s) \<noteq> 0 \<longrightarrow>
        (\<exists>fee bal. get_address_by_id (st_tokens s) 0 = Some fee \<and>
           hm_get (st_balances s) (ls_user_id (st_last_solution s), fee) = Some bal \<and>
           ls_batch_id (st_last_solution s) \<le> flux_batch_id (bal_proceeds bal)))"

definition state_inv :: "state \<Rightarrow> bool" where
  "state_inv s \<longleftrightarrow> orders_inv s \<and> balances_inv s \<and> last_solution_inv s"

lemmas state_inv_defs = state_inv_def orders_inv_def balances_inv_def last_solution_inv_def

lemma state_inv_default: "state_inv default_state"
  by (simp add: state_inv_defs default_state_def)

lemma state_inv_advance:
  assumes "state_inv s" "last_batch_id s \<le> b"
  shows "state_inv (s\<lparr>last_batch_id := b\<rparr>)"
  using assms by (auto simp: state_inv_defs order_dated_def balance_dated_def) (meson order_trans)+

section \<open>Events keep the invariant and never panic\<close>

text \<open>What the handlers rely on in the operations of a balance and of an order.\<close>

definition good_balance_fn :: "u32 \<Rightarrow> (balance \<Rightarrow> balance res) \<Rightarrow> bool" where
  "good_balance_fn b f \<longleftrightarrow>
     (\<forall>bal. balance_dated b bal \<longrightarrow> f bal \<noteq> Panic \<and>
        (\<forall>bal'. f bal = Ok bal' \<longrightarrow> balance_dated b bal' \<and>
           flux_batch_id (bal_proceeds bal) \<le> flux_batch_id (bal_proceeds bal')))"

definition good_order_fn :: "u32 \<Rightarrow> (streamed_order \<Rightarrow> streamed_order res) \<Rightarrow> bool" where
  "good_order_fn b f \<longleftrightarrow>
     (\<forall>ord. order_dated (b, ord) \<longrightarrow> f ord \<noteq> Panic \<and>
        (\<forall>ord'. f ord = Ok ord' \<longrightarrow> order_dated (b, ord')))"

lemma run_op_proceeds_mono:
  "run_op bop b bal = Ok bal' \<Longrightarrow> flux_batch_id (bal_proceeds bal) \<le> flux_batch_id (bal_proceeds bal')"
  by (cases bop) (auto simp: balance_op_defs Let_def split: if_splits prod.splits)

lemma good_run_op: "good_balance_fn b (run_op bop b)"
  by (auto simp: good_balance_fn_def run_op_not_Panic intro: run_op_dated run_op_proceeds_mono)

lemma good_run_op_cong: "(\<And>bal. run_op bop b bal = f bal) \<Longrightarrow> good_balance_fn b f"
  using good_run_op [of b bop] by (simp add: good_balance_fn_def)

lemma good_balance_fns:
  "good_balance_fn b (\<lambda>bal. Ok (balance_deposit a b bal))"
  "good_balance_fn b (balance_withdraw_request a wb b)"
  "good_balance_fn b (balance_withdraw a b)"
  "good_balance_fn b (balance_sell c b)"
  "good_balance_fn b (balance_buy c b)"
  "good_balance_fn b (balance_revert_sell c b)"
  "good_balance_fn b (balance_revert_buy c b)"
  "good_balance_fn b (balance_solution_submission a b)"
  by (rule good_run_op_cong [of "Deposit a"] good_run_op_cong [of "WithdrawRequest a wb"]
      good_run_op_cong [of "Withdraw a"] good_run_op_cong [of "Sell c"] good_run_op_cong [of "Buy c"]
      good_run_op_cong [of "RevertSell c"] good_run_op_cong [of "RevertBuy c"]
      good_run_op_cong [of "SolutionSubmission a"]; simp; fail)+

lemma good_run_order_op: "good_order_fn b (run_order_op oop b)"
  by (auto simp: good_order_fn_def order_dated_def [of "(_, _)"] run_order_op_not_Panic
      dest: run_order_op_step [where now = b])


lemma good_run_order_op_cong: "(\<And>ord. run_order_op oop b ord = f ord) \<Longrightarrow> good_order_fn b f"
  using good_run_order_op [of b oop] by (simp add: good_order_fn_def)

lemma good_order_fns:
  "good_order_fn b (order_trade a b)"
  "good_order_fn b (order_revert_trade a b)"
  by (rule good_run_order_op_cong [of "Trade a"] good_run_order_op_cong [of "RevertTrade a"]; simp; fail)+

lemma with_balance_eq_Ok:
  "with_balance k f s = Ok s' \<longleftrightarrow>
     (\<exists>bal. f (hm_or_default (st_balances s) k default_balance) = Ok bal \<and>
        s' = s\<lparr>st_balances := hm_insert k bal (st_balances s)\<rparr>)"
  by (auto simp: with_balance_def)

lemma balance_dated_entry:
  "balances_inv s \<Longrightarrow> balance_dated (last_batch_id s) (hm_or_default (st_balances s) k default_balance)"
  unfolding balances_inv_def hm_or_default_def
  by (cases k; cases "hm_get (st_balances s) k") auto

lemma with_balance_inv:
  assumes "state_inv s" "good_balance_fn (last_batch_id s) f" "with_balance k f s = Ok s'"
  shows "state_inv s'" and "last_batch_id s' = last_batch_id s" and "st_tokens s' = st_tokens s"
proof -
  let ?bal = "hm_or_default (st_balances s) k default_balance"
  obtain bal where bal: "f ?bal = Ok bal" and s': "s' = s\<lparr>st_balances := hm_insert k bal (st_balances s)\<rparr>"
    using assms(3) by (auto simp: with_balance_eq_Ok)
  have dated: "balance_dated (last_batch_id s) bal"
    and mono: "flux_batch_id (bal_proceeds ?bal) \<le> flux_batch_id (bal_proceeds bal)"
    using assms(1,2) bal balance_dated_entry [of s k] by (auto simp: good_balance_fn_def state_inv_def)
  have "orders_inv s'" "balances_inv s'"
    using assms(1) dated by (auto simp: s' state_inv_defs)
  moreover have "last_solution_inv s'"
    using assms(1) mono by (auto simp: s' state_inv_def last_solution_inv_def)
  ultimately show "state_inv s'"
    by (simp add: state_inv_def)
  show "last_batch_id s' = last_batch_id s" "st_tokens s' = st_tokens s"
    by (simp_all add: s')
qed

lemma with_balance_not_Panic:
  "state_inv s \<Longrightarrow> good_balance_fn (last_batch_id s) f \<Longrightarrow> with_balance k f s \<noteq> Panic"
  using balance_dated_entry [of s k] by (auto simp: with_balance_def good_balance_fn_def state_inv_def)

text \<open>Changes that touch orders only.\<close>

lemma state_inv_set_order:
  assumes "state_inv s" "order_dated (last_batch_id s, ord)"
  shows "state_inv (s\<lparr>st_orders := hm_insert k ord (st_orders s)\<rparr>)"
  using assms by (auto simp: state_inv_defs)

lemma state_inv_partially [simp]:
  "state_inv (s\<lparr>solution_partially_received := p\<rparr>) \<longleftrightarrow> state_inv s"
  by (simp add: state_inv_defs)

lemma state_inv_orderD:
  "state_inv s \<Longrightarrow> hm_get (st_orders s) k = Some ord \<Longrightarrow> order_dated (last_batch_id s, ord)"
  unfolding state_inv_def orders_inv_def by blast

lemma apply_trade_internal_inv:
  assumes "state_inv s" "good_order_fn (last_batch_id s) g"
    and "good_balance_fn (last_batch_id s) f1" "good_balance_fn (last_batch_id s) f2"
    and "apply_trade_internal user i g f1 f2 s = Ok s'"
  shows "state_inv s'" and "last_batch_id s' = last_batch_id s"
proof -
  obtain ord ord' st s1 bt where
    1: "hm_get (st_orders s) (user, i) = Some ord" "g ord = Ok ord'" and
    2: "with_balance (user, st) f1
          (s\<lparr>solution_partially_received := True, st_orders := hm_insert (user, i) ord' (st_orders s)\<rparr>) = Ok s1" and
    3: "with_balance (user, bt) f2 s1 = Ok s'"
    using assms(5) by (auto simp: apply_trade_internal_def Let_def rbind_eq_Ok)
  have "order_dated (last_batch_id s, ord')"
    using assms(1,2) 1 by (auto simp: good_order_fn_def dest: state_inv_orderD)
  then have s0: "state_inv (s\<lparr>solution_partially_received := True,
      st_orders := hm_insert (user, i) ord' (st_orders s)\<rparr>)" (is "state_inv ?s0")
    using assms(1) state_inv_set_order [of "s\<lparr>solution_partially_received := True\<rparr>" ord' "(user, i)"]
    by simp
  note step1 = with_balance_inv [OF s0 _ 2]
  have s1: "state_inv s1" "last_batch_id s1 = last_batch_id s"
    using step1(1,2) assms(3) by simp_all
  show "state_inv s'" "last_batch_id s' = last_batch_id s"
    using with_balance_inv(1,2) [OF s1(1) _ 3] assms(4) s1(2) by simp_all
qed

lemma apply_trade_internal_not_Panic:
  assumes "state_inv s" "good_order_fn (last_batch_id s) g"
    and "good_balance_fn (last_batch_id s) f1" "good_balance_fn (last_batch_id s) f2"
  shows "apply_trade_internal user i g f1 f2 s \<noteq> Panic"
proof
  assume panic: "apply_trade_internal user i g f1 f2 s = Panic"
  then obtain ord where 1: "hm_get (st_orders s) (user, i) = Some ord"
    by (cases "hm_get (st_orders s) (user, i)") (auto simp: apply_trade_internal_def Let_def)
  then have dated: "order_dated (last_batch_id s, ord)"
    using assms(1) by (rule state_inv_orderD [rotated])
  then obtain ord' where 2: "g ord = Ok ord'" "order_dated (last_batch_id s, ord')"
    using assms(2) 1 panic by (cases "g ord") (auto simp: good_order_fn_def apply_trade_internal_def Let_def)
  let ?s0 = "s\<lparr>solution_partially_received := True, st_orders := hm_insert (user, i) ord' (st_orders s)\<rparr>"
  have s0: "state_inv ?s0"
    using assms(1) 2 state_inv_set_order [of "s\<lparr>solution_partially_received := True\<rparr>" ord' "(user, i)"]
    by simp
  have np1: "with_balance k f1 ?s0 \<noteq> Panic" for k
    using with_balance_not_Panic [OF s0] assms(3) by simp
  have np2: "with_balance k f2 s1 \<noteq> Panic" if "with_balance k' f1 ?s0 = Ok s1" for k k' s1
    using with_balance_not_Panic [of s1] with_balance_inv(1,2) [OF s0 _ that] assms(3,4) by simp
  from panic 1 2 np1 np2 show False
    by (auto simp: apply_trade_internal_def Let_def rbind_eq_Panic)
qed


lemma find_append_Some: "List.find P xs = Some x \<Longrightarrow> List.find P (xs @ ys) = Some x"
  by (induction xs) (auto split: if_splits)

lemma get_address_by_id_listing:
  "get_address_by_id ts i = Some a \<Longrightarrow> get_address_by_id (ts @ ts') i = Some a"
  by (auto simp: get_address_by_id_def find_append_Some)

lemma token_listing_inv:
  assumes "state_inv s"
  shows "state_inv (s\<lparr>st_tokens := st_tokens s @ [t]\<rparr>)"
  using assms get_address_by_id_listing
  unfolding state_inv_defs by fastforce

lemma state_inv_remove_order:
  assumes "state_inv s"
  shows "state_inv (s\<lparr>st_orders := hm_remove k (st_orders s)\<rparr>)"
  using assms by (auto simp: state_inv_defs)

lemma revert_last_solution_inv:
  assumes "state_inv s" "get_address_by_id (st_tokens s) 0 = Some fee"
    and "revert_last_solution fee (last_batch_id s) s = Ok s'"
  shows "state_inv s' \<and> last_batch_id s' = last_batch_id s \<and> st_tokens s' = st_tokens s"
proof (cases "ls_batch_id (st_last_solution s) = last_batch_id s")
  case False
  with assms show ?thesis by (simp add: revert_last_solution_def Let_def)
next
  case True
  let ?ls = "st_last_solution s"
  obtain bal where bal1: "hm_get (st_balances s) (ls_user_id ?ls, fee) = Some bal"
    using assms(3) True by (auto simp: revert_last_solution_def Let_def rbind_eq_Ok)
  then obtain bal' where bal: "hm_get (st_balances s) (ls_user_id ?ls, fee) = Some bal"
    "balance_revert_solution_submission (ls_burnt_fees ?ls) (last_batch_id s) bal = Ok bal'"
    and s': "s' = s\<lparr>st_balances := hm_insert (ls_user_id ?ls, fee) bal' (st_balances s),
                    st_last_solution := ?ls\<lparr>ls_burnt_fees := 0\<rparr>\<rparr>"
    using assms(3) True
    by (cases "balance_revert_solution_submission (ls_burnt_fees ?ls) (last_batch_id s) bal")
      (auto simp: revert_last_solution_def Let_def)
  have fields: "flux_batch_id (bal_proceeds bal') = last_batch_id s"
    "flux_batch_id (bal_deposit bal') = flux_batch_id (bal_deposit bal)"
    using revert_sell_buy_fields bal(2) by (simp_all add: balance_revert_solution_submission_def)
  have "balance_dated (last_batch_id s) bal"
    using assms(1) bal(1) unfolding state_inv_def balances_inv_def by blast
  then have dated: "balance_dated (last_batch_id s) bal'"
    using fields by (simp add: balance_dated_def)
  have "orders_inv s'" "balances_inv s'" "last_solution_inv s'"
    using assms(1) dated fields True assms(2) by (auto simp: s' state_inv_defs)
  then show ?thesis
    by (simp add: s' state_inv_def)
qed

lemma revert_last_solution_not_Panic:
  assumes "state_inv s" "get_address_by_id (st_tokens s) 0 = Some fee" "last_batch_id s \<noteq> 0"
  shows "revert_last_solution fee (last_batch_id s) s \<noteq> Panic"
proof (cases "ls_batch_id (st_last_solution s) = last_batch_id s")
  case False
  then show ?thesis by (simp add: revert_last_solution_def Let_def)
next
  case True
  let ?ls = "st_last_solution s"
  from assms True obtain bal where bal: "hm_get (st_balances s) (ls_user_id ?ls, fee) = Some bal"
    "last_batch_id s \<le> flux_batch_id (bal_proceeds bal)"
    unfolding state_inv_def last_solution_inv_def by auto
  have "balance_dated (last_batch_id s) bal"
    using assms(1) bal(1) unfolding state_inv_def balances_inv_def by blast
  with bal(2) have "flux_batch_id (bal_proceeds bal) = last_batch_id s"
    by (simp add: balance_dated_def)
  with bal(1) True show ?thesis
    by (simp add: revert_last_solution_def Let_def balance_revert_solution_submission_def
        revert_sell_buy_internal_def)
qed

lemma apply_solution_submission_inv:
  assumes "state_inv s" "apply_solution_submission submitter fees (last_batch_id s) s = Ok s'"
  shows "state_inv s' \<and> last_batch_id s' = last_batch_id s"
proof -
  obtain fee s1 where fee: "get_address_by_id (st_tokens s) 0 = Some fee"
    and s1: "revert_last_solution fee (last_batch_id s) s = Ok s1"
    and s': "with_balance (submitter, fee) (balance_solution_submission fees (last_batch_id s))
      (s1\<lparr>st_last_solution := \<lparr>ls_batch_id = last_batch_id s, ls_user_id = submitter, ls_burnt_fees = fees\<rparr>,
          solution_partially_received := False\<rparr>) = Ok s'"
    using assms(2) by (auto simp: apply_solution_submission_def Let_def rbind_eq_Ok)
  have inv1: "state_inv s1" "last_batch_id s1 = last_batch_id s" "st_tokens s1 = st_tokens s"
    using revert_last_solution_inv [OF assms(1) fee s1] by simp_all
  let ?bal = "hm_or_default (st_balances s1) (submitter, fee) default_balance"
  obtain bal where bal: "balance_solution_submission fees (last_batch_id s) ?bal = Ok bal"
    and s'_eq: "s' = s1\<lparr>st_last_solution := \<lparr>ls_batch_id = last_batch_id s, ls_user_id = submitter, ls_burnt_fees = fees\<rparr>,
          solution_partially_received := False, st_balances := hm_insert (submitter, fee) bal (st_balances s1)\<rparr>"
    using s' by (auto simp: with_balance_eq_Ok)
  have proceeds: "flux_batch_id (bal_proceeds bal) = last_batch_id s"
    using bal sell_buy_fields by (auto simp: balance_solution_submission_def)
  have "balance_dated (last_batch_id s) ?bal"
    using balance_dated_entry inv1 by (metis state_inv_def)
  then have dated: "balance_dated (last_batch_id s) bal"
    using bal good_balance_fns(8) [of "last_batch_id s" fees] by (auto simp: good_balance_fn_def)
  have "orders_inv s'" "balances_inv s'" "last_solution_inv s'"
    using inv1 dated proceeds fee by (auto simp: s'_eq state_inv_defs)
  then show ?thesis
    using inv1 by (simp add: s'_eq state_inv_def)
qed

lemma apply_solution_submission_not_Panic:
  assumes "state_inv s" "last_batch_id s \<noteq> 0"
  shows "apply_solution_submission submitter fees (last_batch_id s) s \<noteq> Panic"
proof
  assume panic: "apply_solution_submission submitter fees (last_batch_id s) s = Panic"
  then obtain fee where fee: "get_address_by_id (st_tokens s) 0 = Some fee"
    by (cases "get_address_by_id (st_tokens s) 0") (auto simp: apply_solution_submission_def)
  have "balance_solution_submission fees b bal \<noteq> Panic" for b bal
    using run_op_not_Panic [of "SolutionSubmission fees"] by simp
  with panic fee revert_last_solution_not_Panic [OF assms(1) fee assms(2)] show False
    by (auto simp: apply_solution_submission_def rbind_eq_Panic Let_def with_balance_def)
qed


lemma handle_event_inv:
  assumes "state_inv s" "handle_event ev (last_batch_id s) s = Ok s'"
  shows "state_inv s' \<and> last_batch_id s' = last_batch_id s"
proof (cases ev)
  case (DepositEvent user token amount eb)
  with assms with_balance_inv [OF assms(1) good_balance_fns(1)] show ?thesis
    by (auto simp: state_deposit_def split: if_splits)
next
  case (WithdrawRequestEvent user token amount eb)
  with assms with_balance_inv [OF assms(1) good_balance_fns(2)] show ?thesis
    by (auto simp: state_withdraw_request_def split: if_splits)
next
  case (WithdrawEvent user token amount)
  with assms with_balance_inv [OF assms(1) good_balance_fns(3)] show ?thesis
    by (auto simp: state_withdraw_def)
next
  case (TokenListingEvent token i)
  with assms show ?thesis
    by (auto simp: token_listing_def token_listing_inv)
next
  case (OrderPlacementEvent owner index buy sell vfrom vuntil numer denom)
  have "order_dated (last_batch_id s, streamed_order_new buy sell vfrom vuntil numer denom)"
    by (simp add: order_dated_def) (simp add: streamed_order_new_def)
  with OrderPlacementEvent assms show ?thesis
    by (auto simp: order_placement_def state_inv_set_order split: option.splits)
next
  case (OrderCancellationEvent owner i)
  then obtain ord where ord: "hm_get (st_orders s) (owner, i) = Some ord"
    and s': "s' = s\<lparr>st_orders := hm_insert (owner, i)
              (ord\<lparr>so_valid_until := last_batch_id s - 1\<rparr>) (st_orders s)\<rparr>"
    using assms(2) by (auto simp: order_cancellation_def)
  have "order_dated (last_batch_id s, ord\<lparr>so_valid_until := last_batch_id s - 1\<rparr>)"
    using state_inv_orderD [OF assms(1) ord] by (simp add: order_dated_def order_inv_def)
  then show ?thesis
    unfolding s' by (simp add: state_inv_set_order [OF assms(1)])
next
  case (OrderDeletionEvent owner i)
  with assms show ?thesis
    by (auto simp: order_deletion_def state_inv_remove_order split: option.splits if_splits)
next
  case (TradeEvent owner i sell buy)
  then have "apply_trade_internal owner i (order_trade sell (last_batch_id s))
      (balance_sell sell (last_batch_id s)) (balance_buy buy (last_batch_id s)) s = Ok s'"
    using assms(2) by (simp add: apply_trade_def)
  from apply_trade_internal_inv [OF assms(1) good_order_fns(1) good_balance_fns(4,5) this]
  show ?thesis by simp
next
  case (TradeReversionEvent owner i sell buy)
  then have "apply_trade_internal owner i (order_revert_trade sell (last_batch_id s))
      (balance_revert_sell sell (last_batch_id s)) (balance_revert_buy buy (last_batch_id s)) s = Ok s'"
    using assms(2) by (simp add: apply_trade_reversion_def)
  from apply_trade_internal_inv [OF assms(1) good_order_fns(2) good_balance_fns(6,7) this]
  show ?thesis by simp
next
  case (SolutionSubmissionEvent submitter fees)
  then have "apply_solution_submission submitter fees (last_batch_id s) s = Ok s'"
    using assms(2) by simp
  from apply_solution_submission_inv [OF assms(1) this] show ?thesis .
qed

lemma handle_event_not_Panic:
  assumes "state_inv s" "last_batch_id s \<noteq> 0"
  shows "handle_event ev (last_batch_id s) s \<noteq> Panic"
proof (cases ev)
  case (DepositEvent user token amount eb)
  with with_balance_not_Panic [OF assms(1) good_balance_fns(1)] show ?thesis
    by (auto simp: state_deposit_def)
next
  case (WithdrawRequestEvent user token amount eb)
  with with_balance_not_Panic [OF assms(1) good_balance_fns(2)] show ?thesis
    by (auto simp: state_withdraw_request_def)
next
  case (WithdrawEvent user token amount)
  with with_balance_not_Panic [OF assms(1) good_balance_fns(3)] show ?thesis
    by (auto simp: state_withdraw_def)
next
  case (TradeEvent owner i sell buy)
  with apply_trade_internal_not_Panic [OF assms(1) good_order_fns(1) good_balance_fns(4,5)] show ?thesis
    by (auto simp: apply_trade_def)
next
  case (TradeReversionEvent owner i sell buy)
  with apply_trade_internal_not_Panic [OF assms(1) good_order_fns(2) good_balance_fns(6,7)] show ?thesis
    by (auto simp: apply_trade_reversion_def)
next
  case (SolutionSubmissionEvent submitter fees)
  with apply_solution_submission_not_Panic [OF assms] show ?thesis by simp
qed (auto simp: token_listing_def order_placement_def order_cancellation_def order_deletion_def
    split: option.splits)

lemma apply_event_inv:
  assumes "state_inv s" "apply_event s ev = Ok s'"
  shows "state_inv s' \<and> last_batch_id s \<le> snd ev \<and> last_batch_id s' = snd ev"
proof -
  let ?s = "s\<lparr>last_batch_id := snd ev\<rparr>"
  have le: "last_batch_id s \<le> snd ev" and step: "handle_event (fst ev) (last_batch_id ?s) ?s = Ok s'"
    using assms(2) by (auto simp: apply_event_def split: if_splits)
  from handle_event_inv [OF state_inv_advance [OF assms(1) le] step] le show ?thesis by simp
qed

lemma apply_event_not_Panic:
  assumes "state_inv s" "snd ev \<noteq> 0"
  shows "apply_event s ev \<noteq> Panic"
proof (cases "last_batch_id s \<le> snd ev")
  case True
  with handle_event_not_Panic [OF state_inv_advance [OF assms(1) True], of "fst ev"] assms(2)
  show ?thesis by (simp add: apply_event_def)
qed (simp add: apply_event_def)

interpretation state_machine: fallible_machine apply_event state_inv "\<lambda>ev. snd ev \<noteq> 0"
  by unfold_locales (auto dest: apply_event_inv simp: apply_event_not_Panic)

lemma from_events_inv: "from_events evs = Ok s \<Longrightarrow> state_inv s"
proof -
  have "try_fold apply_event s0 evs = Ok s \<Longrightarrow> state_inv s0 \<Longrightarrow> state_inv s" for s0
    by (induction evs arbitrary: s0) (auto simp: rbind_eq_Ok dest: apply_event_inv)
  then show "from_events evs = Ok s \<Longrightarrow> state_inv s"
    by (simp add: from_events_def state_inv_default)
qed


section \<open>Properties of event processing\<close>

text \<open>
  C29: building the state from any list of events that lie in batches after batch zero never
  panics: it yields a state or a regular error, whatever the events are.  In particular both
  \<open>unwrap\<close>s on the balance of the last submitter and all checked additions on orders succeed.
\<close>

theorem from_events_no_panic:
  assumes "list_all (\<lambda>ev. snd ev \<noteq> 0) evs"
  shows "from_events evs \<noteq> Panic"
  unfolding from_events_def by (rule state_machine.run_no_panic [OF state_inv_default assms])

definition sample_events :: "(event \<times> u32) list" where
  "sample_events =
     [(TokenListingEvent 100 0, 1), (TokenListingEvent 101 1, 1),
      (DepositEvent 7 100 1000 2, 2), (DepositEvent 8 101 1000 2, 2),
      (OrderPlacementEvent 7 0 1 0 2 20 50 100, 2), (OrderPlacementEvent 8 0 0 1 2 20 50 100, 2),
      (TradeEvent 7 0 60 60, 4), (TradeEvent 8 0 60 60, 4), (SolutionSubmissionEvent 9 3, 4),
      (TradeReversionEvent 7 0 60 60, 4), (TradeReversionEvent 8 0 60 60, 4),
      (TradeEvent 7 0 70 70, 4), (TradeEvent 8 0 70 70, 4), (SolutionSubmissionEvent 10 4, 4)]"

lemmas state_eval =
  from_events_def apply_event_def default_state_def state_deposit_def state_withdraw_request_def
  state_withdraw_def token_listing_def order_placement_def order_cancellation_def order_deletion_def
  apply_trade_def apply_trade_reversion_def apply_trade_internal_def apply_solution_submission_def
  revert_last_solution_def with_balance_def get_address_by_id_def hm_or_default_def
  balance_op_defs apply_existing_deposit_and_proceeds_def flux_defs default_balance_def
  default_flux_def order_trade_def order_revert_trade_def has_limited_amount_def
  streamed_order_new_def apply_pending_used_amount_def get_used_amount_def checked_add_def
  checked_sub_def ensure_used_amount_invariant_def

lemma from_events_no_panic_witness:
  "list_all (\<lambda>ev. snd ev \<noteq> 0) sample_events \<and> from_events sample_events \<noteq> Panic"
proof -
  have "list_all (\<lambda>ev. snd ev \<noteq> 0) sample_events"
    by (simp add: sample_events_def)
  then show ?thesis
    using from_events_no_panic by blast
qed

text \<open>
  The restriction to batches after batch zero is needed.  In batch zero the first solution
  looks like a replacement of the default last solution, whose submitter has no balance, and the
  \<open>unwrap\<close> that a comment declares infallible panics.
\<close>

theorem solution_in_batch_zero_panics:
  "from_events [(TokenListingEvent 100 0, 0), (SolutionSubmissionEvent 9 3, 0)] = Panic"
  by (simp add: from_events_def apply_event_def default_state_def token_listing_def
      apply_solution_submission_def revert_last_solution_def get_address_by_id_def)

lemma from_events_batches:
  "try_fold apply_event s evs = Ok s' \<Longrightarrow> state_inv s \<Longrightarrow>
     sorted (map snd evs) \<and> (\<forall>ev \<in> set evs. last_batch_id s \<le> snd ev) \<and>
     last_batch_id s' = (if evs = [] then last_batch_id s else snd (last evs))"
proof (induction evs arbitrary: s)
  case (Cons ev evs)
  then obtain t where t: "apply_event s ev = Ok t" "try_fold apply_event t evs = Ok s'"
    by (auto simp: rbind_eq_Ok)
  have inv: "state_inv t" "last_batch_id s \<le> snd ev" "last_batch_id t = snd ev"
    using apply_event_inv [OF Cons.prems(2) t(1)] by simp_all
  from Cons.IH [OF t(2) inv(1)] inv(2,3) show ?case
    by (auto intro: order_trans)
qed simp

text \<open>
  Events are only accepted in the order of their batches, and the state remembers the batch
  of the last one.
\<close>

lemma from_events_sorted:
  assumes "from_events evs = Ok s"
  shows "sorted (map snd evs) \<and> last_batch_id s = (if evs = [] then 0 else snd (last evs))"
  using from_events_batches [OF assms [unfolded from_events_def] state_inv_default]
  by (simp add: default_state_def)

lemma from_events_sorted_witness:
  "sorted (map snd [(TokenListingEvent 100 0, 1 :: u32), (DepositEvent 7 100 9 3, 3)])"
proof -
  have "is_ok (from_events [(TokenListingEvent 100 0, 1), (DepositEvent 7 100 9 3, 3)])"
    by (simp add: state_eval)
  then obtain s where "from_events [(TokenListingEvent 100 0, 1), (DepositEvent 7 100 9 3, 3)] = Ok s"
    by (auto simp: is_ok_iff)
  from from_events_sorted [OF this] show ?thesis by blast
qed


section \<open>Properties of queries\<close>

lemma as_model_order_Ok:
  assumes "order_inv ord"
  shows "\<exists>mo. as_model_order ord b user i = Ok mo \<and> remaining_sell_amount mo \<le> denominator mo \<and>
     account_id mo = user \<and> oid mo = i \<and>
     unat (remaining_sell_amount mo) = unat (price_denominator ord) - used_at ord b"
  using get_remaining_amount_Ok [OF assms, of b]
  by (auto simp: as_model_order_def word_le_nat_alt)

lemma orders_at_Ok:
  assumes "state_inv s"
  shows "\<exists>os. orders_at s b = Ok os"
proof -
  have "is_ok (as_model_order ord b (fst k) (snd k))" if "(k, ord) \<in> set (st_orders s)" for k ord
  proof -
    have "hm_get (st_orders s) k = Some ord"
      using assms that by (simp add: state_inv_def orders_inv_def)
    then have "order_inv ord"
      using state_inv_orderD [OF assms] by (simp add: order_dated_def)
    from as_model_order_Ok [OF this, of b "fst k" "snd k"] show ?thesis
      unfolding is_ok_iff by blast
  qed
  then have "is_ok (orders_at s b)"
    unfolding orders_at_def by (intro traverse_Ok_all) (auto split: prod.split)
  then show ?thesis
    by (simp add: is_ok_iff)
qed

lemma orders_at_iff:
  assumes "state_inv s" "orders_at s b = Ok os"
  shows "mo \<in> set os \<longleftrightarrow>
     (\<exists>k ord. hm_get (st_orders s) k = Some ord \<and> is_valid_in_batch ord (b - 1) \<and>
        as_model_order ord b (fst k) (snd k) = Ok mo)"
proof -
  have wf: "hm_wf (st_orders s)"
    using assms(1) by (simp add: state_inv_def orders_inv_def)
  have "mo \<in> set os \<longleftrightarrow> (\<exists>e \<in> set (filter (\<lambda>e. is_valid_in_batch (snd e) (b - 1)) (st_orders s)).
      as_model_order (snd e) b (fst (fst e)) (snd (fst e)) = Ok mo)"
    using traverse_Ok_set [OF assms(2) [unfolded orders_at_def]] by (simp add: case_prod_unfold)
  also have "\<dots> \<longleftrightarrow> (\<exists>k ord. (k, ord) \<in> set (st_orders s) \<and> is_valid_in_batch ord (b - 1) \<and>
      as_model_order ord b (fst k) (snd k) = Ok mo)"
    by force
  finally show ?thesis
    by (simp only: hm_entry_iff [OF wf])
qed

lemma as_model_order_iff:
  "as_model_order ord b user i = Ok mo \<longleftrightarrow>
     get_remaining_amount_at_beginning_of_batch ord b = Ok (remaining_sell_amount mo) \<and>
     mo = \<lparr>oid = i, account_id = user, buy_token = so_buy_token ord, sell_token = so_sell_token ord,
       numerator = price_numerator ord, denominator = price_denominator ord, remaining_sell_amount = remaining_sell_amount mo,
       valid_from = so_valid_from ord, valid_until = so_valid_until ord\<rparr>"
  by (cases mo) (auto simp: as_model_order_def rmap_eq_Ok)

lemma orders_at_distinct:
  assumes "state_inv s" "orders_at s b = Ok os"
  shows "distinct (map (\<lambda>mo. (account_id mo, oid mo)) os)"
proof -
  let ?entries = "filter (\<lambda>e. is_valid_in_batch (snd e) (b - 1)) (st_orders s)"
  have "list_all2 (\<lambda>e mo. as_model_order (snd e) b (fst (fst e)) (snd (fst e)) = Ok mo) ?entries os"
    using assms(2) by (simp add: orders_at_def traverse_eq_Ok case_prod_unfold)
  then have "list_all2 (\<lambda>e mo. (account_id mo, oid mo) = fst e) ?entries os"
  proof (rule list_all2_mono)
    fix e mo assume "as_model_order (snd e) b (fst (fst e)) (snd (fst e)) = Ok mo"
    then have "account_id mo = fst (fst e)" "oid mo = snd (fst e)"
      by (auto simp: as_model_order_def rmap_eq_Ok)
    then show "(account_id mo, oid mo) = fst e" by simp
  qed
  then have "map (\<lambda>mo. (account_id mo, oid mo)) os = map fst ?entries"
    by (induction rule: list_all2_induct) auto
  moreover have "distinct (map fst ?entries)"
    using assms(1) by (simp add: state_inv_def orders_inv_def distinct_map_filter)
  ultimately show ?thesis by (simp only:)
qed

text \<open>
  C30: for every state built from events, the orderbook at the beginning of a batch is refused
  exactly for a batch before the last event or while a solution is only partially received;
  otherwise it is returned without a panic, and it lists exactly the orders valid in the preceding
  batch, each once: with its tokens, prices and validity, and with what remains of it at the
  beginning of the batch, which is within its limit.
\<close>

theorem orderbook_query_correct:
  assumes "from_events evs = Ok s"
  shows "(if b < last_batch_id s then orderbook_at_beginning_of_batch s b = Err ''batch is in the past''
     else if solution_partially_received s
     then orderbook_at_beginning_of_batch s b = Err ''retrieved orderbook with a partially applied solution''
     else \<exists>os. orderbook_at_beginning_of_batch s b = Ok (account_state_at s b, os) \<and>
            (\<forall>mo \<in> set os. remaining_sell_amount mo \<le> denominator mo) \<and>
            (\<forall>user i. (\<exists>mo \<in> set os. account_id mo = user \<and> oid mo = i) \<longleftrightarrow>
               (\<exists>ord. hm_get (st_orders s) (user, i) = Some ord \<and> is_valid_in_batch ord (b - 1))) \<and>
            (\<forall>mo \<in> set os. \<exists>ord. hm_get (st_orders s) (account_id mo, oid mo) = Some ord \<and>
               get_remaining_amount_at_beginning_of_batch ord b = Ok (remaining_sell_amount mo) \<and>
               mo = \<lparr>oid = oid mo, account_id = account_id mo, buy_token = so_buy_token ord, sell_token = so_sell_token ord,
                 numerator = price_numerator ord, denominator = price_denominator ord,
                 remaining_sell_amount = remaining_sell_amount mo, valid_from = so_valid_from ord, valid_until = so_valid_until ord\<rparr>) \<and>
            distinct (map (\<lambda>mo. (account_id mo, oid mo)) os))"
proof -
  have inv: "state_inv s"
    using assms by (rule from_events_inv)
  obtain os where os: "orders_at s b = Ok os"
    using orders_at_Ok [OF inv] by blast
  note iff = orders_at_iff [OF inv os]
  have model: "\<exists>mo. as_model_order ord b user i = Ok mo \<and> remaining_sell_amount mo \<le> denominator mo \<and>
      account_id mo = user \<and> oid mo = i" if "hm_get (st_orders s) k = Some ord" for k ord user i
    using as_model_order_Ok [of ord b user i] state_inv_orderD [OF inv that]
    by (auto simp: order_dated_def)
  have "remaining_sell_amount mo \<le> denominator mo" if "mo \<in> set os" for mo
  proof -
    from that obtain k ord where "hm_get (st_orders s) k = Some ord"
      "as_model_order ord b (fst k) (snd k) = Ok mo"
      unfolding iff by blast
    with model [of k ord "fst k" "snd k"] show ?thesis by auto
  qed
  moreover have "(\<exists>mo \<in> set os. account_id mo = user \<and> oid mo = i) \<longleftrightarrow>
      (\<exists>ord. hm_get (st_orders s) (user, i) = Some ord \<and> is_valid_in_batch ord (b - 1))" for user i
  proof
    assume "\<exists>mo \<in> set os. account_id mo = user \<and> oid mo = i"
    then obtain mo k ord where mo: "hm_get (st_orders s) k = Some ord" "is_valid_in_batch ord (b - 1)"
      "as_model_order ord b (fst k) (snd k) = Ok mo" "account_id mo = user" "oid mo = i"
      by (auto simp: iff)
    then have "k = (user, i)"
      using model [OF mo(1), of "fst k" "snd k"] by (auto simp: prod_eq_iff)
    with mo(1,2) show "\<exists>ord. hm_get (st_orders s) (user, i) = Some ord \<and> is_valid_in_batch ord (b - 1)"
      by blast
  next
    assume "\<exists>ord. hm_get (st_orders s) (user, i) = Some ord \<and> is_valid_in_batch ord (b - 1)"
    then obtain ord where ord: "hm_get (st_orders s) (user, i) = Some ord" "is_valid_in_batch ord (b - 1)"
      by blast
    with model [OF ord(1), of user i] show "\<exists>mo \<in> set os. account_id mo = user \<and> oid mo = i"
      by (fastforce simp: iff)
  qed
  moreover have "\<exists>ord. hm_get (st_orders s) (account_id mo, oid mo) = Some ord \<and>
      get_remaining_amount_at_beginning_of_batch ord b = Ok (remaining_sell_amount mo) \<and>
      mo = \<lparr>oid = oid mo, account_id = account_id mo, buy_token = so_buy_token ord, sell_token = so_sell_token ord,
        numerator = price_numerator ord, denominator = price_denominator ord,
        remaining_sell_amount = remaining_sell_amount mo, valid_from = so_valid_from ord, valid_until = so_valid_until ord\<rparr>"
    if "mo \<in> set os" for mo
    using that unfolding iff as_model_order_iff by (metis order.select_convs(1,2) prod.collapse)
  ultimately show ?thesis
    using orders_at_distinct [OF inv os] by (simp add: orderbook_at_beginning_of_batch_def os not_less)
qed

text \<open>
  After a successful cancellation in a batch (after batch zero) the order is no longer part of
  the orderbook at the beginning of any later batch.
\<close>

theorem cancelled_order_not_listed:
  assumes "from_events evs = Ok s" and "apply_event s (OrderCancellationEvent owner i, b) = Ok s'"
    and "b \<noteq> 0" and "b < q" and "orders_at s' q = Ok os"
  shows "\<not> (\<exists>mo \<in> set os. account_id mo = owner \<and> oid mo = i)"
proof
  assume "\<exists>mo \<in> set os. account_id mo = owner \<and> oid mo = i"
  moreover have inv: "state_inv s'"
    using apply_event_inv [OF from_events_inv [OF assms(1)] assms(2)] by simp
  ultimately obtain mo k ord where mo: "hm_get (st_orders s') k = Some ord"
    "is_valid_in_batch ord (q - 1)" "as_model_order ord q (fst k) (snd k) = Ok mo"
    "account_id mo = owner" "oid mo = i"
    by (auto simp: orders_at_iff [OF inv assms(5)])
  have "order_inv ord"
    using state_inv_orderD [OF inv mo(1)] by (simp add: order_dated_def)
  from as_model_order_Ok [OF this, of q "fst k" "snd k"] mo(3,4,5) have k: "k = (owner, i)"
    by (auto simp: prod_eq_iff)
  obtain ord0 where "hm_get (st_orders s') (owner, i) = Some (ord0\<lparr>so_valid_until := b - 1\<rparr>)"
    using assms(2) by (auto simp: apply_event_def order_cancellation_def split: if_splits)
  with mo(1) k have "so_valid_until ord = b - 1" by auto
  with mo(2) have "q - 1 \<le> b - 1"
    by (simp add: is_valid_in_batch_def)
  moreover have "0 < q"
    using assms(4) by (rule le_less_trans [OF word_zero_le])
  moreover have "0 < b"
    using assms(3) by (simp add: word_gt_0)
  ultimately show False
    using assms(4) unat_sub_one [of q] unat_sub_one [of b]
    by (simp add: word_le_nat_alt word_less_nat_alt)
qed


definition sample_orders :: "(event \<times> u32) list" where
  "sample_orders = [(OrderPlacementEvent 7 0 1 0 2 20 50 100, 2), (OrderPlacementEvent 8 0 0 1 2 20 50 100, 2)]"

definition sample_state :: state where
  "sample_state = default_state\<lparr>st_orders :=
     [((7, 0), streamed_order_new 1 0 2 20 50 100), ((8, 0), streamed_order_new 0 1 2 20 50 100)],
     last_batch_id := 2\<rparr>"

lemma sample_orders_run: "from_events sample_orders = Ok sample_state"
  by (simp add: sample_orders_def sample_state_def from_events_def apply_event_def default_state_def
      order_placement_def)

lemma orderbook_query_correct_witness:
  "\<exists>os. orderbook_at_beginning_of_batch sample_state 3 = Ok (account_state_at sample_state 3, os) \<and>
     (\<exists>mo \<in> set os. account_id mo = 7 \<and> oid mo = 0) \<and> (\<forall>mo \<in> set os. remaining_sell_amount mo \<le> denominator mo)"
proof -
  have "\<exists>ord. hm_get (st_orders sample_state) (7, 0) = Some ord \<and> is_valid_in_batch ord (3 - 1)"
    by (simp add: sample_state_def is_valid_in_batch_def streamed_order_new_def)
  moreover have "\<not> 3 < last_batch_id sample_state" "\<not> solution_partially_received sample_state"
    by (simp_all add: sample_state_def default_state_def)
  ultimately show ?thesis
    using orderbook_query_correct [OF sample_orders_run, of 3] by auto
qed

lemma cancelled_order_not_listed_witness:
  "\<exists>s os. apply_event sample_state (OrderCancellationEvent 7 0, 3) = Ok s \<and> orders_at s 4 = Ok os \<and>
     \<not> (\<exists>mo \<in> set os. account_id mo = 7 \<and> oid mo = 0)"
proof -
  have "\<exists>s. apply_event sample_state (OrderCancellationEvent 7 0, 3) = Ok s"
    by (simp add: sample_state_def apply_event_def default_state_def order_cancellation_def)
  then obtain s where s: "apply_event sample_state (OrderCancellationEvent 7 0, 3) = Ok s" ..
  obtain os where os: "orders_at s 4 = Ok os"
    using orders_at_Ok apply_event_inv [OF from_events_inv [OF sample_orders_run] s] by blast
  with s cancelled_order_not_listed [OF sample_orders_run s _ _ os] show ?thesis by simp
qed

section \<open>Reverting trades\<close>

text \<open>What the state reports for a user and a token, and whether a trade was recorded in a batch.\<close>

abbreviation balance_of :: "state \<Rightarrow> address \<times> address \<Rightarrow> balance" where
  "balance_of s k \<equiv> hm_or_default (st_balances s) k default_balance"

definition reported :: "state \<Rightarrow> address \<times> address \<Rightarrow> u32 \<Rightarrow> int \<times> flux" where
  "reported s k q = (balance_with_deposit_and_proceeds (balance_of s k) q, bal_withdraw (balance_of s k))"

lemma with_balance_sell_buy:
  assumes "with_balance k (sell_buy_internal a b) s = Ok s'"
  shows "flux_batch_id (bal_proceeds (balance_of s' k)) = b"
    and "k' \<noteq> k \<Longrightarrow> balance_of s' k' = balance_of s k'"
    and "b \<le> q \<Longrightarrow> reported s' k' q =
      (fst (reported s k' q) + (if k' = k \<and> b < q then a else 0), snd (reported s k' q))"
  using assms
  by (auto simp: with_balance_eq_Ok reported_def total_sell_buy dest: sell_buy_fields)

lemma with_balance_revert_sell_buy:
  assumes "with_balance k (revert_sell_buy_internal a b) s = Ok s'"
  shows "flux_batch_id (bal_proceeds (balance_of s' k)) = b"
    and "k' \<noteq> k \<Longrightarrow> balance_of s' k' = balance_of s k'"
    and "b \<le> q \<Longrightarrow> reported s' k' q =
      (fst (reported s k' q) - (if k' = k \<and> b < q then a else 0), snd (reported s k' q))"
  using assms
  by (auto simp: with_balance_eq_Ok reported_def total_revert_sell_buy dest: revert_sell_buy_fields)

lemma with_balance_revert_succeeds:
  assumes "flux_batch_id (bal_proceeds (balance_of s k)) = b"
  shows "\<exists>s'. with_balance k (revert_sell_buy_internal a b) s = Ok s'"
  using assms by (auto simp: with_balance_eq_Ok revert_sell_buy_internal_def)

lemma reported_orders [simp]: 
  "reported (s\<lparr>st_orders := x\<rparr>) k q = reported s k q"
  "reported (s\<lparr>solution_partially_received := p\<rparr>) k q = reported s k q"
  "reported (s\<lparr>last_batch_id := b\<rparr>) k q = reported s k q"
  by (simp_all add: reported_def)


lemma apply_trade_internal_eq_Ok:
  "apply_trade_internal user i g f1 f2 s = Ok s' \<longleftrightarrow>
     (\<exists>ord ord' st bt s1.
        hm_get (st_orders s) (user, i) = Some ord \<and> g ord = Ok ord' \<and>
        get_address_by_id (st_tokens s) (so_sell_token ord') = Some st \<and>
        with_balance (user, st) f1
          (s\<lparr>solution_partially_received := True, st_orders := hm_insert (user, i) ord' (st_orders s)\<rparr>) = Ok s1 \<and>
        get_address_by_id (st_tokens s) (so_buy_token ord') = Some bt \<and>
        with_balance (user, bt) f2 s1 = Ok s')"
  by (auto simp: apply_trade_internal_def Let_def rbind_eq_Ok with_balance_eq_Ok; fastforce)

lemma with_balance_frame:
  assumes "with_balance k f s = Ok s'"
  shows "st_orders s' = st_orders s" "st_tokens s' = st_tokens s" "last_batch_id s' = last_batch_id s"
  using assms by (auto simp: with_balance_eq_Ok)

lemma orders_at_replace:
  assumes "state_inv s" "hm_get (st_orders s) k = Some ord" "order_inv ord'"
    and "static_fields ord' = static_fields ord" "used_at ord' q = used_at ord q"
    and "st_orders s' = hm_insert k ord' (hm_insert k ord1 (st_orders s))"
  shows "orders_at s' q = orders_at s q"
proof -
  have wf: "hm_wf (st_orders s)"
    using assms(1) by (simp add: state_inv_def orders_inv_def)
  have inv: "order_inv ord"
    using state_inv_orderD [OF assms(1,2)] by (simp add: order_dated_def)
  have "st_orders s' = hm_insert k ord' (st_orders s)"
    using assms(6) by (simp add: update_last)
  then have eq: "st_orders s' = map (\<lambda>e. if fst e = k then (k, ord') else e) (st_orders s)"
    using hm_insert_present [OF wf assms(2)] by simp
  have "as_model_order ord' q u i = as_model_order ord q u i" for u i
    using remaining_cong [OF inv assms(3,5)] assms(4) by (simp add: as_model_order_def static_fields_def)
  moreover have "is_valid_in_batch ord' q' = is_valid_in_batch ord q'" for q'
    using assms(4) by (simp add: is_valid_in_batch_def static_fields_def)
  moreover have "snd e = ord" if "e \<in> set (st_orders s)" "fst e = k" for e
    using that wf assms(2) by (metis hm_entry_iff option.inject prod.collapse)
  ultimately show ?thesis
    unfolding orders_at_def eq by (intro traverse_filter_map) (auto simp: case_prod_unfold)
qed

lemma trade_reversion_succeeds:
  assumes "state_inv s" "last_batch_id s = b" "apply_trade user i a c b s = Ok s1"
  shows "\<exists>s2. apply_trade_reversion user i a c b s1 = Ok s2 \<and>
     (\<forall>q\<ge>b. orders_at s2 q = orders_at s q \<and> (\<forall>k. reported s2 k q = reported s k q))"
proof -
  let ?s0 = "\<lambda>ord. s\<lparr>solution_partially_received := True, st_orders := hm_insert (user, i) ord (st_orders s)\<rparr>"
  obtain ord ord1 st bt t1 where
    ord: "hm_get (st_orders s) (user, i) = Some ord" "order_trade a b ord = Ok ord1" and
    st: "get_address_by_id (st_tokens s) (so_sell_token ord1) = Some st" and
    sell: "with_balance (user, st) (sell_buy_internal (- uint a) b) (?s0 ord1) = Ok t1" and
    bt: "get_address_by_id (st_tokens s) (so_buy_token ord1) = Some bt" and
    buy: "with_balance (user, bt) (sell_buy_internal (uint c) b) t1 = Ok s1"
    using assms(3) unfolding apply_trade_def apply_trade_internal_eq_Ok balance_sell_def balance_buy_def
    by blast
  have "order_dated (b, ord)"
    using state_inv_orderD [OF assms(1) ord(1)] assms(2) by simp
  from order_trade_revert [OF this _ ord(2)] obtain ord2 where
    ord2: "order_revert_trade a b ord1 = Ok ord2" "static_fields ord2 = static_fields ord" "order_inv ord2"
      "\<And>q. b \<le> q \<Longrightarrow> used_at ord2 q = used_at ord q"
    by auto
  have orders1: "st_orders s1 = hm_insert (user, i) ord1 (st_orders s)" and tok1: "st_tokens s1 = st_tokens s"
    using with_balance_frame [OF sell] with_balance_frame [OF buy] by simp_all
  have toks: "so_sell_token ord2 = so_sell_token ord1" "so_buy_token ord2 = so_buy_token ord1"
    using ord2(2) order_trade_static [OF ord(2)] by (simp_all add: static_fields_def)
  let ?u0 = "s1\<lparr>solution_partially_received := True, st_orders := hm_insert (user, i) ord2 (st_orders s1)\<rparr>"
  have p1: "flux_batch_id (bal_proceeds (balance_of s1 (user, st))) = b"
    using with_balance_sell_buy(1) [OF sell] with_balance_sell_buy(1,2) [OF buy] by (cases "st = bt") auto
  then obtain u1 where u1: "with_balance (user, st) (revert_sell_buy_internal (- uint a) b) ?u0 = Ok u1"
    using with_balance_revert_succeeds [of ?u0 "(user, st)" b "- uint a"] by auto
  have "flux_batch_id (bal_proceeds (balance_of u1 (user, bt))) = b"
    using with_balance_sell_buy(1) [OF buy] with_balance_revert_sell_buy(1,2) [OF u1] by (cases "st = bt") auto
  then obtain s2 where s2: "with_balance (user, bt) (revert_sell_buy_internal (uint c) b) u1 = Ok s2"
    using with_balance_revert_succeeds by blast
  have rev: "apply_trade_reversion user i a c b s1 = Ok s2"
    unfolding apply_trade_reversion_def apply_trade_internal_eq_Ok balance_revert_sell_def balance_revert_buy_def
    using ord2(1) orders1 st bt tok1 toks u1 s2 by auto
  have orders2: "st_orders s2 = hm_insert (user, i) ord2 (hm_insert (user, i) ord1 (st_orders s))"
    using with_balance_frame [OF u1] with_balance_frame [OF s2] orders1 by simp
  have "orders_at s2 q = orders_at s q \<and> (\<forall>k. reported s2 k q = reported s k q)" if "b \<le> q" for q
    using orders_at_replace [OF assms(1) ord(1) ord2(3,2) ord2(4) [OF that] orders2]
      with_balance_sell_buy(3) [OF sell that] with_balance_sell_buy(3) [OF buy that]
      with_balance_revert_sell_buy(3) [OF u1 that] with_balance_revert_sell_buy(3) [OF s2 that]
    by simp
  with rev show ?thesis by blast
qed

text \<open>
  C37: when a trade event was applied, the matching reversion in the same batch succeeds and takes
  the state back: from that batch on the same orders with the same remaining amounts are listed
  and every user has the same balance of every token.
\<close>

theorem trade_reversion_restores:
  assumes "from_events evs = Ok s" and "apply_event s (TradeEvent user i a c, b) = Ok s1"
  shows "\<exists>s2. apply_event s1 (TradeReversionEvent user i a c, b) = Ok s2 \<and>
     (\<forall>q\<ge>b. orders_at s2 q = orders_at s q \<and>
        (\<forall>k. get_balance_at_beginning_of_batch (hm_or_default (st_balances s2) k default_balance) q =
             get_balance_at_beginning_of_batch (hm_or_default (st_balances s) k default_balance) q))"
proof -
  let ?s = "s\<lparr>last_batch_id := b\<rparr>"
  have le: "last_batch_id s \<le> b" and trade: "apply_trade user i a c b ?s = Ok s1"
    using assms(2) by (auto simp: apply_event_def split: if_splits)
  have inv: "state_inv s" "state_inv ?s"
    using from_events_inv [OF assms(1)] state_inv_advance le by auto
  have "last_batch_id s1 = b"
    using apply_event_inv [OF inv(1) assms(2)] by simp
  then have adv: "s1\<lparr>last_batch_id := b\<rparr> = s1"
    by auto
  have same: "orders_at ?s q = orders_at s q" for q
    by (simp add: orders_at_def)
  obtain s2 where s2: "apply_trade_reversion user i a c b s1 = Ok s2"
    "\<And>q k. b \<le> q \<Longrightarrow> orders_at s2 q = orders_at ?s q \<and> reported s2 k q = reported ?s k q"
    using trade_reversion_succeeds [OF inv(2) _ trade] by auto
  have "apply_event s1 (TradeReversionEvent user i a c, b) = Ok s2"
    unfolding apply_event_def using s2(1) \<open>last_batch_id s1 = b\<close> by (simp add: adv)
  moreover have "get_balance_at_beginning_of_batch (balance_of s2 k) q = get_balance_at_beginning_of_batch (balance_of s k) q"
    if "b \<le> q" for q k
    using s2(2) [OF that, of k] by (intro get_balance_cong) (simp_all add: reported_def)
  ultimately show ?thesis
    using s2(2) same by auto
qed

definition listed_sample :: "(event \<times> u32) list" where
  "listed_sample =
     [(TokenListingEvent 100 0, 1), (TokenListingEvent 101 1, 1), (DepositEvent 7 100 1000 2, 2),
      (OrderPlacementEvent 7 0 1 0 2 20 50 100, 2)]"

lemma listed_sample_trade:
  "\<exists>s s1. from_events listed_sample = Ok s \<and> apply_event s (TradeEvent 7 0 60 55, 4) = Ok s1"
  by (simp add: listed_sample_def state_eval)

lemma trade_reversion_restores_witness:
  "\<exists>s s1 s2. apply_event s (TradeEvent 7 0 60 55, 4) = Ok s1 \<and>
     apply_event s1 (TradeReversionEvent 7 0 60 55, 4) = Ok s2 \<and> orders_at s2 5 = orders_at s 5"
proof -
  obtain s s1 where s: "from_events listed_sample = Ok s" "apply_event s (TradeEvent 7 0 60 55, 4) = Ok s1"
    using listed_sample_trade by blast
  have "(4 :: u32) \<le> 5" by simp
  with trade_reversion_restores [OF s] s(2) show ?thesis by blast
qed

text \<open>
  Clearing the state is not a reset to the default state.  The cleared state still rejects
  events before the last batch, and it still refers to a solution whose submitter's balance is
  gone, so that replaying the very events that built the state panics.
\<close>

theorem state_clear_is_not_default:
  "\<exists>s. from_events [(TokenListingEvent 100 0, 4), (SolutionSubmissionEvent 9 3, 4)] = Ok s \<and>
     apply_event (state_clear s) (ev, 3) = Err ''event in the past'' \<and>
     try_fold apply_event (state_clear s) [(TokenListingEvent 100 0, 4), (SolutionSubmissionEvent 9 3, 4)] = Panic"
  by (simp add: state_eval state_clear_def)

end
