(* ===== verification/EventRegistry.thy ===== *)
theory EventRegistry
  imports OrderedMap StreamedState
begin

text \<open>
  The registry of contract events (\<open>src/services-core/src/history/events.rs\<close>): an ordered map
  from block number, block hash and log index to events, from which the orderbook state is
  rebuilt.  Reading and writing the registry file (bincode) is not modelled.  The lemmas show
  that dropping a block range and querying up to a block cut the registry exactly at the block
  boundary, and that the queries by batch return the events of the batch.
\<close>

section \<open>Keys and values\<close>

text \<open>\<open>H256\<close> compares like the number its bytes stand for in big endian order.\<close>

datatype event_sort_key = EventSortKey (key_block: u64) (key_hash: h256) (key_log: u64)

instantiation event_sort_key :: linorder
begin

definition less_eq_event_sort_key :: "event_sort_key \<Rightarrow> event_sort_key \<Rightarrow> bool" where
  "less_eq_event_sort_key k l \<longleftrightarrow>
     key_block k < key_block l \<or> key_block k = key_block l \<and>
       (key_hash k < key_hash l \<or> key_hash k = key_hash l \<and> key_log k \<le> key_log l)"

definition less_event_sort_key :: "event_sort_key \<Rightarrow> event_sort_key \<Rightarrow> bool" where
  "less_event_sort_key k l \<longleftrightarrow>
     key_block k < key_block l \<or> key_block k = key_block l \<and>
       (key_hash k < key_hash l \<or> key_hash k = key_hash l \<and> key_log k < key_log l)"

instance
  by standard (auto simp: less_eq_event_sort_key_def less_event_sort_key_def intro: event_sort_key.expand)

end

record reg_value =
  rv_event :: event
  rv_batch_id :: batch_id

type_synonym event_registry = "(event_sort_key \<times> reg_value) list"

section \<open>Operations\<close>

definition handle_event_data ::
    "event \<Rightarrow> u64 \<Rightarrow> u64 \<Rightarrow> h256 \<Rightarrow> u64 \<Rightarrow> event_registry \<Rightarrow> event_registry" where
  "handle_event_data event block_number log_index block_hash block_timestamp m =
     bt_insert (EventSortKey block_number block_hash log_index)
       \<lparr>rv_event = event, rv_batch_id = batch_from_timestamp block_timestamp\<rparr> m"

definition delete_events_starting_at_block :: "u64 \<Rightarrow> event_registry \<Rightarrow> event_registry" where
  "delete_events_starting_at_block block_number m = fst (bt_split_off (EventSortKey block_number 0 0) m)"

definition last_handled_block :: "event_registry \<Rightarrow> u64 option" where
  "last_handled_block m = (if m = [] then None else Some (key_block (fst (last m))))"

definition events :: "event_registry \<Rightarrow> (event \<times> batch_id) list" where
  "events m = map (\<lambda>e. (rv_event (snd e), rv_batch_id (snd e))) m"

definition events_until_batch :: "event_registry \<Rightarrow> batch_id \<Rightarrow> (event \<times> batch_id) list" where
  "events_until_batch m b = takeWhile (\<lambda>e. snd e \<le> b) (events m)"

definition events_for_batch :: "event_registry \<Rightarrow> batch_id \<Rightarrow> event list" where
  "events_for_batch m b =
     map fst (takeWhile (\<lambda>e. snd e = b) (dropWhile (\<lambda>e. snd e < b) (events m)))"

definition auction_state_for_batch_from_events ::
    "batch_id \<Rightarrow> (event \<times> batch_id) list \<Rightarrow> auction_data res" where
  "auction_state_for_batch_from_events b evs =
     rbind (from_events (map (\<lambda>e. (fst e, batch_into_u32 (snd e))) evs)) (\<lambda>s.
     rbind (batch_next b) (\<lambda>next.
     canonicalized_auction_state_at_beginning_of_batch s (batch_into_u32 next)))"

definition auction_state_for_batch :: "event_registry \<Rightarrow> batch_id \<Rightarrow> auction_data res" where
  "auction_state_for_batch m b = auction_state_for_batch_from_events b (events_until_batch m b)"

definition bounds_until_end_of_block :: "u64 \<Rightarrow> event_sort_key" where
  "bounds_until_end_of_block block_number = EventSortKey (saturating_add block_number 1) 0 0"

definition auction_state_for_batch_at_block ::
    "event_registry \<Rightarrow> batch_id \<Rightarrow> block_number \<Rightarrow> auction_data res" where
  "auction_state_for_batch_at_block m b block =
     (let block_number = (case block of Earliest \<Rightarrow> 0 | Latest \<Rightarrow> - 1 | Pending \<Rightarrow> - 1 | Number n \<Rightarrow> n)
      in auction_state_for_batch_from_events b
           (events (bt_range_below (bounds_until_end_of_block block_number) m)))"

section \<open>Auction states\<close>

lemma auction_state_cases:
  assumes "list_all (\<lambda>e. batch_into_u32 (snd e) \<noteq> 0) evs" "b \<noteq> - 1"
  shows "auction_state_for_batch_from_events b evs \<noteq> Panic"
proof -
  let ?evs = "map (\<lambda>e. (fst e, batch_into_u32 (snd e))) evs"
  have "from_events ?evs \<noteq> Panic"
    unfolding from_events_def
    by (rule state_machine.run_no_panic [OF state_inv_default]) (use assms(1) in \<open>simp add: list_all_iff\<close>)
  moreover have "\<exists>n. batch_next b = Ok n"
    using unat_not_max [OF assms(2)] by (simp add: batch_next_def unwrap_def checked_add_def)
  moreover have "orderbook_at_beginning_of_batch s n \<noteq> Panic" if "from_events ?evs = Ok s" for s n
    using orders_at_Ok [OF from_events_inv [OF that], of n]
    by (auto simp: orderbook_at_beginning_of_batch_def ensure_def)
  ultimately show ?thesis
    by (cases "from_events ?evs")
      (auto simp: auction_state_for_batch_from_events_def canonicalized_auction_state_at_beginning_of_batch_def)
qed

lemma auction_state_sound:
  assumes "auction_state_for_batch_from_events b evs = Ok ad"
  shows "canonical ad" "list_all within_limits (snd ad)"
proof -
  obtain s n accts os where s: "from_events (map (\<lambda>e. (fst e, batch_into_u32 (snd e))) evs) = Ok s"
    and q: "orders_at s n = Ok os" and ad: "ad = canonicalize_auction_data accts os"
    using assms
    by (auto simp: auction_state_for_batch_from_events_def rbind_eq_Ok
        canonicalized_auction_state_at_beginning_of_batch_def orderbook_at_beginning_of_batch_def
        split: if_splits intro: that)
  note inv = from_events_inv [OF s]
  show "canonical ad"
    unfolding ad by (rule canonical_canonicalize)
  have "within_limits mo" if "mo \<in> set os" for mo
  proof -
    from that obtain k ord where "hm_get (st_orders s) k = Some ord" "as_model_order ord n (fst k) (snd k) = Ok mo"
      unfolding orders_at_iff [OF inv q] by blast
    with as_model_order_Ok [of ord n "fst k" "snd k"] state_inv_orderD [OF inv, of k ord] show ?thesis
      by (auto simp: order_dated_def within_limits_def)
  qed
  then show "list_all within_limits (snd ad)"
    by (auto simp: ad canonicalize_auction_data_def Let_def list_all_iff)
qed

text \<open>
  C16: building the auction of a batch never panics, provided that no event lies in batch zero of
  the 32 bit batch numbers; and whenever it succeeds its orders have something left to sell, at
  most their limit, and only balances that back an order are listed, each once.
\<close>

theorem auction_state_for_batch_safe:
  assumes "list_all (\<lambda>e. batch_into_u32 (snd e) \<noteq> 0) (events m)" "b \<noteq> - 1"
  shows "auction_state_for_batch m b \<noteq> Panic \<and>
    (\<forall>ad. auction_state_for_batch m b = Ok ad \<longrightarrow> canonical ad \<and> list_all within_limits (snd ad))"
proof -
  have "list_all (\<lambda>e. batch_into_u32 (snd e) \<noteq> 0) (events_until_batch m b)"
    using assms(1) by (auto simp: events_until_batch_def list_all_iff dest: set_takeWhileD)
  with auction_state_cases [OF _ assms(2)] auction_state_sound show ?thesis
    unfolding auction_state_for_batch_def by blast
qed

lemma auction_state_for_batch_safe_witness:
  "auction_state_for_batch
     [(EventSortKey 4 9 1, \<lparr>rv_event = OrderPlacementEvent 7 0 1 0 2 20 50 100, rv_batch_id = 3\<rparr>)] 4 \<noteq> Panic"
  using auction_state_for_batch_safe
    [of "[(EventSortKey 4 9 1, \<lparr>rv_event = OrderPlacementEvent 7 0 1 0 2 20 50 100, rv_batch_id = 3\<rparr>)]" 4]
  by (simp add: events_def batch_into_u32_def)

section \<open>Cutting at block boundaries\<close>

lemma key_below_block: "k < EventSortKey n 0 0 \<longleftrightarrow> key_block k < n"
  by (simp add: less_event_sort_key_def)

text \<open>
  Deleting the events from a block on keeps exactly the events of earlier blocks, whatever
  their hashes and log indices.
\<close>

lemma delete_events_starting_at_block_exact:
  "delete_events_starting_at_block n m = filter (\<lambda>e. key_block (fst e) < n) m"
  by (simp add: delete_events_starting_at_block_def bt_split_off_def key_below_block)

lemma below_saturating_add: "n \<noteq> - 1 \<Longrightarrow> k < saturating_add n 1 \<longleftrightarrow> k \<le> (n :: u64)"
  using unat_not_max [of n]
  by (simp add: saturating_add_def word_less_nat_alt word_le_nat_alt unat_word_ariths less_Suc_eq_le)

text \<open>
  The auction state at a block is built from exactly the events of blocks up to and including
  it.
\<close>

lemma auction_state_at_block_events:
  assumes "n \<noteq> - 1"
  shows "auction_state_for_batch_at_block m b (Number n) =
    auction_state_for_batch_from_events b (events (filter (\<lambda>e. key_block (fst e) \<le> n) m))"
  using below_saturating_add [OF assms]
  by (simp add: auction_state_for_batch_at_block_def bt_range_below_def bounds_until_end_of_block_def
      key_below_block)

lemma auction_state_at_block_events_witness:
  "auction_state_for_batch_at_block
     [(EventSortKey 4 9 1, \<lparr>rv_event = TokenListingEvent 100 0, rv_batch_id = 3\<rparr>),
      (EventSortKey 5 1 0, \<lparr>rv_event = TokenListingEvent 101 1, rv_batch_id = 3\<rparr>)] 3 (Number 4) =
   auction_state_for_batch_from_events 3 [(TokenListingEvent 100 0, 3)]"
  by (subst auction_state_at_block_events) (simp_all add: events_def)

section \<open>Queries by batch\<close>

text \<open>
  The batch of an event follows from the timestamp of its block, and timestamps do not decrease
  along the chain.
\<close>

definition dated_by :: "(u64 \<Rightarrow> u64) \<Rightarrow> event_registry \<Rightarrow> bool" where
  "dated_by ts m \<longleftrightarrow>
     list_all (\<lambda>e. rv_batch_id (snd e) = batch_from_timestamp (ts (key_block (fst e)))) m"

lemma batch_from_timestamp_mono: "t \<le> t' \<Longrightarrow> batch_from_timestamp t \<le> batch_from_timestamp t'"
  by (simp add: batch_from_timestamp_def word_le_nat_alt unat_div div_le_mono)

lemma events_sorted_by_batch:
  assumes "bt_wf m" "dated_by ts m" "mono ts"
  shows "sorted (map snd (events m))"
  using assms(1,2)
proof (induction m)
  case (Cons e m)
  have "rv_batch_id (snd e) \<le> rv_batch_id (snd e')" if "e' \<in> set m" for e'
  proof -
    have "fst e < fst e'"
      using Cons.prems(1) that by simp
    then have "key_block (fst e) \<le> key_block (fst e')"
      by (auto simp: less_event_sort_key_def)
    then have "ts (key_block (fst e)) \<le> ts (key_block (fst e'))"
      using assms(3) by (rule monoD [rotated])
    with Cons.prems(2) that show ?thesis
      using batch_from_timestamp_mono by (auto simp: dated_by_def list_all_iff)
  qed
  with Cons show ?case
    by (auto simp: events_def dated_by_def)
qed (simp add: events_def)

lemma takeWhile_le_sorted:
  "sorted (map f xs) \<Longrightarrow> takeWhile (\<lambda>x. f x \<le> b) xs = filter (\<lambda>x. f x \<le> b) xs" for b :: "'a::linorder"
proof (induction xs)
  case (Cons x xs)
  show ?case
  proof (cases "f x \<le> b")
    case False
    with Cons.prems have "\<forall>y \<in> set xs. \<not> f y \<le> b"
      by (auto dest: order_trans)
    with False show ?thesis by simp
  qed (use Cons in simp)
qed simp

lemma takeWhile_eq_sorted:
  "sorted (map f xs) \<Longrightarrow> takeWhile (\<lambda>x. f x = b) (dropWhile (\<lambda>x. f x < b) xs) = filter (\<lambda>x. f x = b) xs"
  for b :: "'a::linorder"
proof (induction xs)
  case (Cons x xs)
  have *: "takeWhile (\<lambda>y. f y = b) ys = filter (\<lambda>y. f y = b) ys"
    if "sorted (map f ys)" "\<forall>y \<in> set ys. b \<le> f y" for ys
  proof -
    have "takeWhile (\<lambda>y. f y = b) ys = takeWhile (\<lambda>y. f y \<le> b) ys"
      using that(2) by (intro takeWhile_cong) auto
    also have "\<dots> = filter (\<lambda>y. f y \<le> b) ys"
      by (rule takeWhile_le_sorted [OF that(1)])
    also have "\<dots> = filter (\<lambda>y. f y = b) ys"
      using that(2) by (intro filter_cong) auto
    finally show ?thesis .
  qed
  show ?case
  proof (cases "f x < b")
    case False
    then show ?thesis
      using Cons.prems by (simp only: dropWhile.simps if_False) (rule *, auto)
  qed (use Cons in auto)
qed simp

text \<open>
  For a registry of events that are dated by a chain whose timestamps do not decrease, the
  events of a batch are exactly those recorded for it, in chain order, and the events until a
  batch are exactly those recorded for it or an earlier one.
\<close>

theorem events_by_batch:
  assumes "bt_wf m" "dated_by ts m" "mono ts"
  shows "events_for_batch m b = map fst (filter (\<lambda>e. snd e = b) (events m)) \<and>
    events_until_batch m b = filter (\<lambda>e. snd e \<le> b) (events m)"
  using takeWhile_eq_sorted [OF events_sorted_by_batch [OF assms]]
    takeWhile_le_sorted [OF events_sorted_by_batch [OF assms]]
  by (simp add: events_for_batch_def events_until_batch_def)

lemma events_by_batch_witness:
  "events_for_batch
     [(EventSortKey 4 9 1, \<lparr>rv_event = TokenListingEvent 100 0, rv_batch_id = 4\<rparr>),
      (EventSortKey 600 1 0, \<lparr>rv_event = TokenListingEvent 101 1, rv_batch_id = 5\<rparr>)] 5 =
   [TokenListingEvent 101 1]"
proof -
  let ?ts = "\<lambda>n :: u64. if n < 600 then 1200 else 1500 :: u64"
  have "mono ?ts"
    by (auto simp: mono_def)
  with events_by_batch [of "[(EventSortKey 4 9 1, \<lparr>rv_event = TokenListingEvent 100 0, rv_batch_id = 4\<rparr>),
      (EventSortKey 600 1 0, \<lparr>rv_event = TokenListingEvent 101 1, rv_batch_id = 5\<rparr>)]" ?ts 5]
  show ?thesis
    by (simp add: dated_by_def events_def batch_from_timestamp_def less_event_sort_key_def)
qed

end
