(* ===== verification/BlockTimestamps.thy ===== *)
theory BlockTimestamps
  imports Models
begin

text \<open>
  The cached reader of block timestamps
  (\<open>src/services-core/src/orderbook/streamed/block_timestamp_reading.rs\<close>).  The node is a
  parameter of every operation: the answer to a single block query, and the answers to a batch
  of block queries.  Because the node's view of the chain changes between calls, the operations
  do not fix one node; the lemmas say which changes the cache tolerates (reorganisations that
  are not deeper than the confirmation count) and that under these it is transparent.
\<close>

datatype block_id = BlockHash h256 | BlockNo block_number

datatype block_cache_id = CacheHash h256 | CacheNumber u64

fun block_cache_id_try_from :: "block_id \<Rightarrow> (block_id, block_cache_id) result" where
  "block_cache_id_try_from (BlockHash h) = Ok (CacheHash h)"
| "block_cache_id_try_from (BlockNo (Number n)) = Ok (CacheNumber n)"
| "block_cache_id_try_from b = Err b"

fun block_cache_id_into :: "block_cache_id \<Rightarrow> block_id" where
  "block_cache_id_into (CacheHash h) = BlockHash h"
| "block_cache_id_into (CacheNumber n) = BlockNo (Number n)"

text \<open>The fields of a block that the reader uses.\<close>

record block =
  blk_hash :: "h256 option"
  blk_number :: "u64 option"
  blk_timestamp :: u256

definition as_u64 :: "u256 \<Rightarrow> u64 res" where
  "as_u64 n = (if unat n < 2 ^ 64 then Ok (ucast n) else Panic)"

text \<open>
  The node answers a single query with a block, nothing or an error; the reader takes the low
  64 bits of the timestamp.
\<close>

definition web3_block_timestamp :: "(block_id \<Rightarrow> block option res) \<Rightarrow> block_id \<Rightarrow> u64 res" where
  "web3_block_timestamp get_block b =
     (case get_block b of
        Ok (Some blk) \<Rightarrow> Ok (ucast (blk_timestamp blk))
      | Ok None \<Rightarrow> Err ''block does not exist''
      | Err e \<Rightarrow> Err ''failed to get block''
      | Panic \<Rightarrow> Panic)"

definition query_block_timestamps_batched ::
    "(h256 list \<Rightarrow> block res list res) \<Rightarrow> h256 list \<Rightarrow> (h256 \<times> block) list res" where
  "query_block_timestamps_batched submit_batch block_hashes =
     rbind (submit_batch block_hashes)
       (traverse (\<lambda>response.
          rbind response (\<lambda>blk.
          rbind (unwrap (blk_hash blk)) (\<lambda>h. Ok (h, blk)))))"

text \<open>\<open>chunks(0)\<close> panics.\<close>

definition web3_blocks ::
    "(h256 list \<Rightarrow> block res list res) \<Rightarrow> h256 list \<Rightarrow> nat \<Rightarrow> (h256 \<times> block) list res" where
  "web3_blocks submit_batch block_hashes block_batch_size =
     (if block_batch_size = 0 then Panic
      else rmap concat (traverse (query_block_timestamps_batched submit_batch) (chunks block_batch_size block_hashes)))"

record ts_reader =
  latest_block :: u64
  confirmation_count :: u64
  ts_cache :: "(block_cache_id \<times> u64) list"

definition ts_reader_new :: "u64 \<Rightarrow> ts_reader" where
  "ts_reader_new count = \<lparr>latest_block = 0, confirmation_count = count, ts_cache = []\<rparr>"

definition update_latest_block :: "u64 \<Rightarrow> ts_reader \<Rightarrow> ts_reader" where
  "update_latest_block n r = r\<lparr>latest_block := n\<rparr>"

fun is_cacheable :: "ts_reader \<Rightarrow> block_cache_id \<Rightarrow> bool" where
  "is_cacheable r (CacheHash h) = True"
| "is_cacheable r (CacheNumber n) = (n \<le> saturating_sub (latest_block r) (confirmation_count r))"

definition cache_timestamp :: "block_cache_id \<Rightarrow> u64 \<Rightarrow> ts_reader \<Rightarrow> ts_reader" where
  "cache_timestamp b t r =
     (if is_cacheable r b then r\<lparr>ts_cache := hm_insert b t (ts_cache r)\<rparr> else r)"

definition cache_block :: "h256 \<times> block \<Rightarrow> (ts_reader, unit) effect" where
  "cache_block hb =
     ebind (elift (as_u64 (blk_timestamp (snd hb)))) (\<lambda>timestamp.
     ebind (emodify (cache_timestamp (CacheHash (fst hb)) timestamp)) (\<lambda>_.
     (case blk_number (snd hb) of
        Some n \<Rightarrow> emodify (cache_timestamp (CacheNumber n) timestamp)
      | None \<Rightarrow> elift (Ok ()))))"

definition prepare_cache ::
    "(h256 list \<Rightarrow> nat \<Rightarrow> (h256 \<times> block) list res) \<Rightarrow> h256 list \<Rightarrow> nat \<Rightarrow> u64 \<Rightarrow> (ts_reader, unit) effect" where
  "prepare_cache blocks block_hashes block_batch_size latest_block_number =
     ebind (eget (\<lambda>r. filter (\<lambda>h. hm_get (ts_cache r) (CacheHash h) = None) block_hashes)) (\<lambda>missing_hashes.
     ebind (emodify (update_latest_block latest_block_number)) (\<lambda>_.
     ebind (elift (blocks missing_hashes block_batch_size)) (\<lambda>bs.
     eloop cache_block bs)))"

definition block_timestamp :: "(block_id \<Rightarrow> u64 res) \<Rightarrow> block_id \<Rightarrow> (ts_reader, u64) effect" where
  "block_timestamp inner block_id =
     (case block_cache_id_try_from block_id of
        Ok block \<Rightarrow>
          ebind (eget (\<lambda>r. hm_get (ts_cache r) block)) (\<lambda>cached.
          (case cached of
             Some timestamp \<Rightarrow> elift (Ok timestamp)
           | None \<Rightarrow>
               ebind (elift (inner (block_cache_id_into block))) (\<lambda>timestamp.
               ebind (emodify (cache_timestamp block timestamp)) (\<lambda>_. elift (Ok timestamp)))))
      | _ \<Rightarrow> elift (inner block_id))"

section \<open>Properties\<close>

text \<open>The cache agrees with the node on every block it holds.\<close>

definition coherent :: "(block_id \<Rightarrow> u64 res) \<Rightarrow> ts_reader \<Rightarrow> bool" where
  "coherent node r \<longleftrightarrow> (\<forall>b t. hm_get (ts_cache r) b = Some t \<longrightarrow> node (block_cache_id_into b) = Ok t)"

text \<open>Cached block numbers are confirmed.\<close>

definition confirmed :: "ts_reader \<Rightarrow> bool" where
  "confirmed r \<longleftrightarrow>
     (\<forall>n t. hm_get (ts_cache r) (CacheNumber n) = Some t \<longrightarrow>
        n \<le> saturating_sub (latest_block r) (confirmation_count r))"

lemma coherent_new: "coherent node (ts_reader_new c)" "confirmed (ts_reader_new c)"
  by (simp_all add: coherent_def confirmed_def ts_reader_new_def)

lemma cache_timestamp_coherent:
  assumes "coherent node r" "node (block_cache_id_into b) = Ok t"
  shows "coherent node (cache_timestamp b t r)"
  using assms by (simp add: coherent_def cache_timestamp_def)

lemma cache_timestamp_confirmed: "confirmed r \<Longrightarrow> confirmed (cache_timestamp b t r)"
  by (cases b) (simp_all add: confirmed_def cache_timestamp_def)

lemma block_cache_id_into_try_from [simp]:
  "block_cache_id_try_from (block_cache_id_into b) = Ok b"
  by (cases b) simp_all

lemma block_cache_id_try_from_Ok:
  "block_cache_id_try_from i = Ok b \<Longrightarrow> block_cache_id_into b = i"
  by (cases i rule: block_cache_id_try_from.cases) auto

lemma block_timestamp_coherent:
  assumes "coherent node r"
  obtains r' where "block_timestamp node i r = (node i, r')" "coherent node r'"
proof -
  have "\<exists>r'. block_timestamp node i r = (node i, r') \<and> coherent node r'"
  proof (cases "block_cache_id_try_from i")
    case (Ok b)
    then have i: "block_cache_id_into b = i"
      by (rule block_cache_id_try_from_Ok)
    show ?thesis
    proof (cases "hm_get (ts_cache r) b")
      case None
      then show ?thesis
        using Ok i assms cache_timestamp_coherent [OF assms, of b]
        by (cases "node i") (simp_all add: block_timestamp_def effect_simps)
    next
      case (Some t)
      with assms i have "node i = Prelude.Ok t"
        by (auto simp: coherent_def)
      with Some Ok assms show ?thesis
        by (simp add: block_timestamp_def effect_simps)
    qed
  qed (use assms in \<open>simp_all add: block_timestamp_def effect_simps\<close>)
  then show ?thesis using that by blast
qed

text \<open>
  What a reorganisation may change: blocks with a known hash keep their timestamp, and so do
  block numbers that are already confirmed.
\<close>

definition shallow_reorg :: "ts_reader \<Rightarrow> (block_id \<Rightarrow> u64 res) \<Rightarrow> (block_id \<Rightarrow> u64 res) \<Rightarrow> bool" where
  "shallow_reorg r old new \<longleftrightarrow>
     (\<forall>h t. old (BlockHash h) = Ok t \<longrightarrow> new (BlockHash h) = Ok t) \<and>
     (\<forall>n t. n \<le> saturating_sub (latest_block r) (confirmation_count r) \<longrightarrow>
        old (BlockNo (Number n)) = Ok t \<longrightarrow> new (BlockNo (Number n)) = Ok t)"

lemma coherent_reorg:
  assumes "coherent old r" "confirmed r" "shallow_reorg r old new"
  shows "coherent new r"
  unfolding coherent_def
proof (intro allI impI)
  fix b t
  assume t: "hm_get (ts_cache r) b = Some t"
  with assms(1) have "old (block_cache_id_into b) = Ok t"
    by (simp add: coherent_def)
  with t assms(2,3) show "new (block_cache_id_into b) = Ok t"
    unfolding confirmed_def shallow_reorg_def by (cases b) auto
qed

lemma block_timestamp_confirmed:
  assumes "confirmed r"
  shows "confirmed (snd (block_timestamp node i r))"
proof (cases "block_cache_id_try_from i")
  case (Ok b)
  then show ?thesis
    using assms cache_timestamp_confirmed [OF assms, of b]
    by (cases "hm_get (ts_cache r) b"; cases "node (block_cache_id_into b)")
      (simp_all add: block_timestamp_def effect_simps)
qed (use assms in \<open>simp_all add: block_timestamp_def effect_simps\<close>)

text \<open>
  C39: the cache is transparent.  After a reorganisation that leaves confirmed blocks alone, the
  cached reader answers every query, also the ones it serves from the cache, like the node, and
  the cache stays in agreement with the node.
\<close>

theorem cached_reader_transparent:
  assumes "coherent old r" "confirmed r" "shallow_reorg r old new"
  shows "fst (block_timestamp new i r) = new i \<and>
    coherent new (snd (block_timestamp new i r)) \<and> confirmed (snd (block_timestamp new i r))"
  using block_timestamp_coherent [OF coherent_reorg [OF assms], of i]
    block_timestamp_confirmed [OF assms(2), of new i]
  by (metis fst_conv snd_conv)

lemma cached_reader_transparent_witness:
  "fst (block_timestamp (\<lambda>i. if i = BlockNo (Number 99) then Ok 8 else Ok 5) (BlockNo (Number 99))
     \<lparr>latest_block = 100, confirmation_count = 25, ts_cache = [(CacheNumber 3, 5), (CacheHash 7, 5)]\<rparr>) = Ok 8"
proof -
  let ?r = "\<lparr>latest_block = 100, confirmation_count = 25, ts_cache = [(CacheNumber 3, 5), (CacheHash 7, 5)]\<rparr>"
  let ?new = "\<lambda>i. if i = BlockNo (Number 99) then Ok 8 else Ok (5 :: u64)"
  have "coherent (\<lambda>i. Ok 5) ?r" "confirmed ?r"
    by (simp_all add: coherent_def confirmed_def saturating_sub_def)
  moreover have "shallow_reorg ?r (\<lambda>i. Ok 5) ?new"
    unfolding shallow_reorg_def by (auto simp: saturating_sub_def)
  ultimately have "fst (block_timestamp ?new (BlockNo (Number 99)) ?r) = ?new (BlockNo (Number 99))"
    using cached_reader_transparent by blast
  then show ?thesis by simp
qed

text \<open>What the event handlers need: the timestamps by hash are those of the chain.\<close>

definition hash_coherent :: "(h256 \<Rightarrow> u64) \<Rightarrow> ts_reader \<Rightarrow> bool" where
  "hash_coherent ts r \<longleftrightarrow> (\<forall>h t. hm_get (ts_cache r) (CacheHash h) = Some t \<longrightarrow> t = ts h)"

lemma hash_coherent_cache:
  "hash_coherent ts r \<Longrightarrow> hash_coherent ts (cache_timestamp (CacheHash h) (ts h) r)"
  "hash_coherent ts r \<Longrightarrow> hash_coherent ts (cache_timestamp (CacheNumber n) t r)"
  "hash_coherent ts r \<Longrightarrow> hash_coherent ts (update_latest_block n r)"
  by (simp_all add: hash_coherent_def cache_timestamp_def update_latest_block_def)

lemma block_timestamp_by_hash:
  assumes "hash_coherent ts r" "\<And>h. node (BlockHash h) = Ok (ts h)"
  shows "\<exists>r'. block_timestamp node (BlockHash h) r = (Ok (ts h), r') \<and> hash_coherent ts r'"
proof (cases "hm_get (ts_cache r) (CacheHash h)")
  case None
  with assms show ?thesis
    by (simp add: block_timestamp_def effect_simps hash_coherent_cache)
next
  case (Some t)
  with assms(1) show ?thesis
    by (auto simp: block_timestamp_def effect_simps hash_coherent_def)
qed

lemma cache_block_by_hash:
  assumes "hash_coherent ts r" "as_u64 (blk_timestamp (snd hb)) = Ok (ts (fst hb))"
  shows "\<exists>r'. cache_block hb r = (Ok (), r') \<and> hash_coherent ts r'"
  using assms
  by (cases "blk_number (snd hb)") (simp_all add: cache_block_def effect_simps hash_coherent_cache)

lemma prepare_cache_by_hash:
  assumes "hash_coherent ts r"
    and "\<And>hs. \<exists>bs. blocks hs page = Ok bs \<and> (\<forall>hb \<in> set bs. as_u64 (blk_timestamp (snd hb)) = Ok (ts (fst hb)))"
  shows "\<exists>r'. prepare_cache blocks hs page latest r = (Ok (), r') \<and> hash_coherent ts r'"
proof -
  let ?missing = "filter (\<lambda>h. hm_get (ts_cache r) (CacheHash h) = None) hs"
  obtain bs where bs: "blocks ?missing page = Ok bs"
    "\<forall>hb \<in> set bs. as_u64 (blk_timestamp (snd hb)) = Ok (ts (fst hb))"
    using assms(2) by blast
  have "\<exists>r'. eloop cache_block bs (update_latest_block latest r) = (Ok (), r') \<and> hash_coherent ts r' \<and> () = fold (\<lambda>_ _. ()) bs ()"
    by (rule eloop_Ok) (use bs(2) cache_block_by_hash assms(1) hash_coherent_cache(3) in auto)
  with bs(1) show ?thesis
    by (simp add: prepare_cache_def effect_simps)
qed

end
