(* ===== verification/UpdatingOrderbook.thy ===== *)
theory UpdatingOrderbook
  imports EventRegistry BlockTimestamps
begin

text \<open>
  The orderbook that follows the chain
  (\<open>src/services-core/src/orderbook/streamed/updating_orderbook.rs\<close>): before every query it fetches
  the events since the last handled block less a confirmation count, replaces the events of these
  blocks in the registry and answers from the registry.

  The node, the contract and the registry file are parameters: what they answer during one call
  is a record of functions.  The stream of event pages is a list of chunks, each a list of events
  or errors; how events are grouped into chunks is up to the stream.  The mutex around the context
  is the explicit state \<open>context option\<close>; since a failed update leaves its traces in the context,
  the operations are effects.  Writing the registry to disk does not influence later calls of a
  running process and is left out.
\<close>

definition BLOCK_CONFIRMATION_COUNT :: u64 where
  "BLOCK_CONFIRMATION_COUNT = 25"

record event_meta =
  em_block_number :: u64
  em_block_hash :: h256
  em_log_index :: u64

record chain_event =
  ce_data :: event
  ce_meta :: "event_meta option"

record node =
  node_block_number :: "u64 res"
  node_past_events :: "u64 \<Rightarrow> u64 \<Rightarrow> nat \<Rightarrow> chain_event res list list res"
  node_blocks :: "h256 list \<Rightarrow> nat \<Rightarrow> (h256 \<times> block) list res"
  node_block_timestamp :: "block_id \<Rightarrow> u64 res"

record orderbook_context =
  ctx_orderbook :: event_registry
  ctx_last_handled_block :: u64
  ctx_timestamps :: ts_reader

definition load_orderbook_from_file :: "event_registry res option \<Rightarrow> orderbook_context \<Rightarrow> orderbook_context" where
  "load_orderbook_from_file filestore ctx =
     (case filestore of
        Some (Ok m) \<Rightarrow>
          ctx\<lparr>ctx_last_handled_block := (case last_handled_block m of Some n \<Rightarrow> n | None \<Rightarrow> 0),
              ctx_orderbook := m\<rparr>
      | _ \<Rightarrow> ctx)"

abbreviation with_timestamps :: "(ts_reader, 'a) effect \<Rightarrow> (orderbook_context, 'a) effect" where
  "with_timestamps \<equiv> ezoom ctx_timestamps (\<lambda>t ctx. ctx\<lparr>ctx_timestamps := t\<rparr>)"

definition update_handle_event :: "node \<Rightarrow> chain_event \<Rightarrow> (orderbook_context, unit) effect" where
  "update_handle_event nd event =
     (case ce_meta event of
        Some meta \<Rightarrow>
          ebind (with_timestamps (block_timestamp (node_block_timestamp nd) (BlockHash (em_block_hash meta))))
            (\<lambda>timestamp. emodify (\<lambda>ctx. ctx\<lparr>ctx_orderbook :=
               handle_event_data (ce_data event) (em_block_number meta) (em_log_index meta)
                 (em_block_hash meta) timestamp (ctx_orderbook ctx)\<rparr>))
      | None \<Rightarrow> elift (Err ''event without metadata''))"

definition chunked_events :: "node \<Rightarrow> nat \<Rightarrow> u64 \<Rightarrow> u64 \<Rightarrow> chain_event list res list res" where
  "chunked_events nd page from_block to_block =
     rmap (map (traverse (\<lambda>e. e))) (node_past_events nd from_block to_block page)"

definition prepare_timestamp_cache ::
    "node \<Rightarrow> nat \<Rightarrow> chain_event list \<Rightarrow> u64 \<Rightarrow> (orderbook_context, unit) effect" where
  "prepare_timestamp_cache nd page evs latest =
     ebind (elift (traverse (\<lambda>e. rmap em_block_hash (ok_or (ce_meta e) ''event without metadata'')) evs))
       (\<lambda>hashes. with_timestamps (prepare_cache (node_blocks nd) (remdups hashes) page latest))"

definition handle_chunk ::
    "node \<Rightarrow> nat \<Rightarrow> u64 \<Rightarrow> chain_event list res \<Rightarrow> (orderbook_context, unit) effect" where
  "handle_chunk nd page to_block chunk =
     ebind (elift chunk) (\<lambda>evs.
     ebind (prepare_timestamp_cache nd page evs to_block) (\<lambda>_.
     ebind (eloop (update_handle_event nd) evs) (\<lambda>_.
     emodify (\<lambda>ctx. ctx\<lparr>ctx_last_handled_block := to_block\<rparr>))))"

definition update_with_events_between_blocks ::
    "node \<Rightarrow> nat \<Rightarrow> u64 \<Rightarrow> u64 \<Rightarrow> (orderbook_context, unit) effect" where
  "update_with_events_between_blocks nd page from_block to_block =
     ebind (elift (chunked_events nd page from_block to_block)) (\<lambda>cs.
     ebind (emodify (\<lambda>ctx. ctx\<lparr>ctx_orderbook :=
              delete_events_starting_at_block from_block (ctx_orderbook ctx)\<rparr>)) (\<lambda>_.
     eloop (handle_chunk nd page to_block) cs))"

definition update :: "node \<Rightarrow> nat \<Rightarrow> (orderbook_context, unit) effect" where
  "update nd page =
     ebind (elift (node_block_number nd)) (\<lambda>current_block.
     ebind (eget (\<lambda>ctx. saturating_sub (ctx_last_handled_block ctx) BLOCK_CONFIRMATION_COUNT)) (\<lambda>from_block.
     ebind (elift (ensure (from_block \<le> current_block) ''current block number is in the past'')) (\<lambda>_.
     update_with_events_between_blocks nd page from_block current_block)))"

definition initial_context :: orderbook_context where
  "initial_context =
     \<lparr>ctx_orderbook = [], ctx_last_handled_block = 0,
      ctx_timestamps = ts_reader_new BLOCK_CONFIRMATION_COUNT\<rparr>"

definition do_with_context ::
    "node \<Rightarrow> nat \<Rightarrow> event_registry res option \<Rightarrow> (orderbook_context, 'a) effect \<Rightarrow>
     (orderbook_context option, 'a) effect" where
  "do_with_context nd page filestore callback guard =
     (case guard of
        Some ctx \<Rightarrow> (case ebind (update nd page) (\<lambda>_. callback) ctx of (r, ctx') \<Rightarrow> (r, Some ctx'))
      | None \<Rightarrow>
          (case update nd page (load_orderbook_from_file filestore initial_context) of
             (Ok _, ctx) \<Rightarrow> (case callback ctx of (r, ctx') \<Rightarrow> (r, Some ctx'))
           | (Err e, _) \<Rightarrow> (Err e, None)
           | (Panic, _) \<Rightarrow> (Panic, None)))"

definition updating_auction_data_for_batch ::
    "node \<Rightarrow> nat \<Rightarrow> event_registry res option \<Rightarrow> u32 \<Rightarrow> (orderbook_context option, auction_data) effect" where
  "updating_auction_data_for_batch nd page filestore b =
     do_with_context nd page filestore
       (ebind (eget ctx_orderbook) (\<lambda>m. elift (auction_state_for_batch m (batch_from_u32 b))))"

definition updating_auction_data_for_block ::
    "node \<Rightarrow> nat \<Rightarrow> event_registry res option \<Rightarrow> block_number \<Rightarrow> (orderbook_context option, auction_data) effect" where
  "updating_auction_data_for_block nd page filestore block =
     do_with_context nd page filestore
       (ebind (with_timestamps (block_timestamp (node_block_timestamp nd) (BlockNo block))) (\<lambda>timestamp.
        ebind (eget ctx_orderbook) (\<lambda>m.
        elift (auction_state_for_batch_at_block m (batch_from_timestamp timestamp) block))))"

definition updating_initialize ::
    "node \<Rightarrow> nat \<Rightarrow> event_registry res option \<Rightarrow> (orderbook_context option, unit) effect" where
  "updating_initialize nd page filestore = do_with_context nd page filestore (elift (Ok ()))"

section \<open>The reader interface\<close>

text \<open>What the orderbook answers in a given state of its context.\<close>

definition updating_reader :: "node \<Rightarrow> nat \<Rightarrow> event_registry res option \<Rightarrow> orderbook_context option \<Rightarrow> reader" where
  "updating_reader nd page filestore guard =
     \<lparr>get_auction_data_for_batch = (\<lambda>b. fst (updating_auction_data_for_batch nd page filestore b guard)),
      get_auction_data_for_block = (\<lambda>b. fst (updating_auction_data_for_block nd page filestore b guard)),
      reader_initialize = fst (updating_initialize nd page filestore guard)\<rparr>"

lemma ebind_Ok:
  assumes "ebind m f s = (Ok b, s')"
  obtains a s1 where "m s = (Ok a, s1)" "f a s1 = (Ok b, s')"
  using assms by (auto simp: ebind_def split: prod.splits result.splits)

lemma do_with_context_Ok:
  assumes "fst (do_with_context nd page filestore callback guard) = Ok a"
  obtains ctx ctx' where "callback ctx = (Ok a, ctx')"
  using assms
  by (auto simp: do_with_context_def split: option.splits prod.splits result.splits elim: ebind_Ok)

interpretation updating: sound_orderbook_reading "updating_reader nd page filestore guard"
  for nd page filestore guard
proof
  fix b ad
  assume "get_auction_data_for_batch (updating_reader nd page filestore guard) b = Ok ad"
  then have "fst (updating_auction_data_for_batch nd page filestore b guard) = Ok ad"
    by (simp add: updating_reader_def)
  then obtain ctx ctx' :: orderbook_context where
    "ebind (eget ctx_orderbook) (\<lambda>m. elift (auction_state_for_batch m (batch_from_u32 b))) ctx = (Ok ad, ctx')"
    unfolding updating_auction_data_for_batch_def by (rule do_with_context_Ok)
  then have "auction_state_for_batch (ctx_orderbook ctx) (batch_from_u32 b) = Ok ad"
    by (auto simp: effect_simps)
  then show "canonical ad" "list_all within_limits (snd ad)"
    unfolding auction_state_for_batch_def by (rule auction_state_sound)+
next
  fix bn ad
  assume "get_auction_data_for_block (updating_reader nd page filestore guard) bn = Ok ad"
  then have "fst (updating_auction_data_for_block nd page filestore bn guard) = Ok ad"
    by (simp add: updating_reader_def)
  then obtain ctx ctx' :: orderbook_context where
    "ebind (with_timestamps (block_timestamp (node_block_timestamp nd) (BlockNo bn))) (\<lambda>timestamp.
        ebind (eget ctx_orderbook) (\<lambda>m.
        elift (auction_state_for_batch_at_block m (batch_from_timestamp timestamp) bn))) ctx = (Ok ad, ctx')"
    unfolding updating_auction_data_for_block_def by (rule do_with_context_Ok)
  then obtain t m where "auction_state_for_batch_at_block m (batch_from_timestamp t) bn = Ok ad"
    by (auto simp: effect_simps elim!: ebind_Ok)
  then show "canonical ad" "list_all within_limits (snd ad)"
    unfolding auction_state_for_batch_at_block_def Let_def by (rule auction_state_sound)+
qed

section \<open>Following the chain\<close>

text \<open>The registry entry of an event, for the block timestamps of a chain.\<close>

definition entry :: "(h256 \<Rightarrow> u64) \<Rightarrow> chain_event \<Rightarrow> event_sort_key \<times> reg_value" where
  "entry ts e =
     (EventSortKey (em_block_number (the (ce_meta e))) (em_block_hash (the (ce_meta e))) (em_log_index (the (ce_meta e))),
      \<lparr>rv_event = ce_data e, rv_batch_id = batch_from_timestamp (ts (em_block_hash (the (ce_meta e))))\<rparr>)"

text \<open>
  A node that serves a chain with the given events up to the current block: every page query
  returns the events of the requested blocks, with metadata and in any order and grouping, and
  block queries return the timestamps of the chain.
\<close>

definition serves :: "node \<Rightarrow> nat \<Rightarrow> (h256 \<Rightarrow> u64) \<Rightarrow> event_registry \<Rightarrow> u64 \<Rightarrow> bool" where
  "serves nd page ts chain cur \<longleftrightarrow>
     node_block_number nd = Ok cur \<and>
     (\<forall>from \<le> cur. \<exists>css. node_past_events nd from cur page = Ok (map (map Ok) css) \<and>
        (\<forall>e \<in> set (concat css). ce_meta e \<noteq> None) \<and>
        entry ts ` set (concat css) = {kv \<in> set chain. from \<le> key_block (fst kv)}) \<and>
     (\<forall>h. node_block_timestamp nd (BlockHash h) = Ok (ts h)) \<and>
     (\<forall>hs. \<exists>bs. node_blocks nd hs page = Ok bs \<and>
        (\<forall>hb \<in> set bs. as_u64 (blk_timestamp (snd hb)) = Ok (ts (fst hb))))"

abbreviation book_entry :: "(h256 \<Rightarrow> u64) \<Rightarrow> chain_event \<Rightarrow> event_registry \<Rightarrow> event_registry" where
  "book_entry ts e \<equiv> bt_insert (fst (entry ts e)) (snd (entry ts e))"

lemma update_handle_event_Ok:
  assumes "\<And>h. node_block_timestamp nd (BlockHash h) = Ok (ts h)" "hash_coherent ts (ctx_timestamps ctx)"
    and "ce_meta e \<noteq> None"
  shows "\<exists>ctx'. update_handle_event nd e ctx = (Ok (), ctx') \<and> hash_coherent ts (ctx_timestamps ctx') \<and>
    ctx_orderbook ctx' = book_entry ts e (ctx_orderbook ctx)"
proof -
  obtain meta where meta: "ce_meta e = Some meta"
    using assms(3) by blast
  obtain r where "block_timestamp (node_block_timestamp nd) (BlockHash (em_block_hash meta)) (ctx_timestamps ctx)
      = (Ok (ts (em_block_hash meta)), r)" "hash_coherent ts r"
    using block_timestamp_by_hash [where h = "em_block_hash meta", OF assms(2,1)] by blast
  then show ?thesis
    using meta by (simp add: update_handle_event_def ebind_def ezoom_def emodify_def handle_event_data_def entry_def)
qed

lemma traverse_map_Ok: "traverse (\<lambda>e. e) (map Ok xs) = Ok xs"
  by (induction xs) simp_all

lemma prepare_timestamp_cache_Ok:
  assumes "hash_coherent ts (ctx_timestamps ctx)" "\<forall>e \<in> set evs. ce_meta e \<noteq> None"
    and "\<And>hs. \<exists>bs. node_blocks nd hs page = Ok bs \<and> (\<forall>hb \<in> set bs. as_u64 (blk_timestamp (snd hb)) = Ok (ts (fst hb)))"
  shows "\<exists>ctx'. prepare_timestamp_cache nd page evs latest ctx = (Ok (), ctx') \<and>
    hash_coherent ts (ctx_timestamps ctx') \<and> ctx_orderbook ctx' = ctx_orderbook ctx"
proof -
  have "\<exists>hs. traverse (\<lambda>e. rmap em_block_hash (ok_or (ce_meta e) ''event without metadata'')) evs = Ok hs"
    using assms(2) by (induction evs) (auto simp: ok_or_def)
  then obtain hs where hs:
    "traverse (\<lambda>e. rmap em_block_hash (ok_or (ce_meta e) ''event without metadata'')) evs = Ok hs" ..
  obtain r where "prepare_cache (node_blocks nd) (remdups hs) page latest (ctx_timestamps ctx) = (Ok (), r)"
    "hash_coherent ts r"
    using prepare_cache_by_hash [OF assms(1), of "node_blocks nd" page "remdups hs" latest, OF assms(3)] by blast
  then show ?thesis
    using hs by (simp add: prepare_timestamp_cache_def ebind_base ezoom_def)
qed

lemma handle_chunk_Ok:
  assumes "\<And>h. node_block_timestamp nd (BlockHash h) = Ok (ts h)"
    and "\<And>hs. \<exists>bs. node_blocks nd hs page = Ok bs \<and> (\<forall>hb \<in> set bs. as_u64 (blk_timestamp (snd hb)) = Ok (ts (fst hb)))"
    and "\<forall>e \<in> set evs. ce_meta e \<noteq> None" "hash_coherent ts (ctx_timestamps ctx)"
  shows "\<exists>ctx'. handle_chunk nd page to_block (Ok evs) ctx = (Ok (), ctx') \<and>
    hash_coherent ts (ctx_timestamps ctx') \<and> ctx_orderbook ctx' = fold (book_entry ts) evs (ctx_orderbook ctx) \<and>
    ctx_last_handled_block ctx' = to_block"
proof -
  obtain ctx1 where 1: "prepare_timestamp_cache nd page evs to_block ctx = (Ok (), ctx1)"
    "hash_coherent ts (ctx_timestamps ctx1)" "ctx_orderbook ctx1 = ctx_orderbook ctx"
    using prepare_timestamp_cache_Ok [OF assms(4,3,2)] by blast
  have "\<exists>ctx2. eloop (update_handle_event nd) evs ctx1 = (Ok (), ctx2) \<and> hash_coherent ts (ctx_timestamps ctx2) \<and>
     ctx_orderbook ctx2 = fold (book_entry ts) evs (ctx_orderbook ctx1)"
    using assms(3) 1(2) update_handle_event_Ok [OF assms(1)]
    by (intro eloop_Ok [where P = "\<lambda>ctx. hash_coherent ts (ctx_timestamps ctx)" and g = ctx_orderbook]) auto
  with 1 show ?thesis
    by (auto simp: handle_chunk_def ebind_base ebind_pair effect_base)
qed

text \<open>Handling chunks that are there moves the last handled block.\<close>

lemma handled_chunks:
  assumes "\<And>h. node_block_timestamp nd (BlockHash h) = Ok (ts h)"
    and "\<And>hs. \<exists>bs. node_blocks nd hs page = Ok bs \<and> (\<forall>hb \<in> set bs. as_u64 (blk_timestamp (snd hb)) = Ok (ts (fst hb)))"
    and "\<forall>e \<in> set (concat css). ce_meta e \<noteq> None" "hash_coherent ts (ctx_timestamps ctx)"
  shows "\<exists>ctx'. eloop (handle_chunk nd page to_block) (map Ok css) ctx = (Ok (), ctx') \<and>
    hash_coherent ts (ctx_timestamps ctx') \<and> ctx_orderbook ctx' = fold (book_entry ts) (concat css) (ctx_orderbook ctx) \<and>
    (css \<noteq> [] \<longrightarrow> ctx_last_handled_block ctx' = to_block)"
  using assms(3,4)
proof (induction css arbitrary: ctx)
  case (Cons evs css)
  obtain ctx1 where 1: "handle_chunk nd page to_block (Ok evs) ctx = (Ok (), ctx1)" "hash_coherent ts (ctx_timestamps ctx1)"
    "ctx_orderbook ctx1 = fold (book_entry ts) evs (ctx_orderbook ctx)" "ctx_last_handled_block ctx1 = to_block"
    using handle_chunk_Ok [OF assms(1,2), of evs ctx to_block] Cons.prems by auto
  obtain ctx2 where "eloop (handle_chunk nd page to_block) (map Ok css) ctx1 = (Ok (), ctx2)" "hash_coherent ts (ctx_timestamps ctx2)"
    "ctx_orderbook ctx2 = fold (book_entry ts) (concat css) (ctx_orderbook ctx1)" "css \<noteq> [] \<longrightarrow> ctx_last_handled_block ctx2 = to_block"
    using Cons.IH [of ctx1] Cons.prems(1) 1(2) by auto
  with 1 show ?case
    by (cases css) (auto simp: ebind_pair effect_base)
qed (simp add: effect_base)

lemma update_with_events_Ok:
  assumes "serves nd page ts chain cur" "from \<le> cur" "hash_coherent ts (ctx_timestamps ctx)"
  obtains evs ctx' where
    "update_with_events_between_blocks nd page from cur ctx = (Ok (), ctx')"
    "hash_coherent ts (ctx_timestamps ctx')"
    "ctx_orderbook ctx' = fold (book_entry ts) evs (bt_range_below (EventSortKey from 0 0) (ctx_orderbook ctx))"
    "entry ts ` set evs = {kv \<in> set chain. from \<le> key_block (fst kv)}"
proof -
  obtain css where css: "node_past_events nd from cur page = Ok (map (map Ok) css)"
    "\<forall>e \<in> set (concat css). ce_meta e \<noteq> None"
    "entry ts ` set (concat css) = {kv \<in> set chain. from \<le> key_block (fst kv)}"
    using assms(1,2) unfolding serves_def by blast
  have node: "\<And>h. node_block_timestamp nd (BlockHash h) = Ok (ts h)"
    "\<And>hs. \<exists>bs. node_blocks nd hs page = Ok bs \<and> (\<forall>hb \<in> set bs. as_u64 (blk_timestamp (snd hb)) = Ok (ts (fst hb)))"
    using assms(1) by (simp_all add: serves_def)
  let ?ctx = "ctx\<lparr>ctx_orderbook := delete_events_starting_at_block from (ctx_orderbook ctx)\<rparr>"
  obtain ctx' where ctx': "eloop (handle_chunk nd page cur) (map Ok css) ?ctx = (Ok (), ctx')"
    "hash_coherent ts (ctx_timestamps ctx')"
    "ctx_orderbook ctx' = fold (book_entry ts) (concat css) (ctx_orderbook ?ctx)"
    using handled_chunks [OF node css(2), of ?ctx cur] assms(3) by auto
  then have "update_with_events_between_blocks nd page from cur ctx = (Ok (), ctx')"
    using ctx'(1) css(1)
    by (simp add: update_with_events_between_blocks_def chunked_events_def ebind_base traverse_map_Ok o_def)
  then show ?thesis
    using that ctx'(2,3) css(3)
    by (simp add: delete_events_starting_at_block_def bt_split_off_def bt_range_below_def)
qed

text \<open>
  C1: an update follows the chain.  Whatever the registry holds for blocks within the confirmation
  count, if it agrees with the chain on older blocks, then an update from a node that serves the
  chain succeeds and leaves exactly the events of the chain in the registry.  Reorganisations that
  are not deeper than the confirmation count are thereby absorbed.
\<close>

theorem update_follows_chain:
  assumes "serves nd page ts chain cur" "bt_wf chain" "bt_wf (ctx_orderbook ctx)"
    and "hash_coherent ts (ctx_timestamps ctx)"
    and "from = saturating_sub (ctx_last_handled_block ctx) BLOCK_CONFIRMATION_COUNT" "from \<le> cur"
    and "\<forall>kv. key_block (fst kv) < from \<longrightarrow> (kv \<in> set (ctx_orderbook ctx) \<longleftrightarrow> kv \<in> set chain)"
  shows "\<exists>ctx'. update nd page ctx = (Ok (), ctx') \<and> ctx_orderbook ctx' = chain \<and>
    hash_coherent ts (ctx_timestamps ctx')"
proof -
  let ?k = "EventSortKey from 0 0"
  obtain evs ctx' where ctx':
    "update_with_events_between_blocks nd page from cur ctx = (Ok (), ctx')"
    "hash_coherent ts (ctx_timestamps ctx')"
    "ctx_orderbook ctx' = fold (book_entry ts) evs (bt_range_below ?k (ctx_orderbook ctx))"
    "entry ts ` set evs = {kv \<in> set chain. from \<le> key_block (fst kv)}"
    by (rule update_with_events_Ok [OF assms(1,6,4)])
  have agree: "map_of (ctx_orderbook ctx) x = map_of chain x" if "x < ?k" for x
  proof -
    have "(x, v) \<in> set (ctx_orderbook ctx) \<longleftrightarrow> (x, v) \<in> set chain" for v
      using assms(7) that by (simp add: key_below_block)
    then show ?thesis
      using bt.entry_iff [OF assms(2), of x] bt.entry_iff [OF assms(3), of x]
      by (cases "map_of chain x"; cases "map_of (ctx_orderbook ctx) x") auto
  qed
  have "set (map (entry ts) evs) = {(x, v). map_of chain x = Some v \<and> ?k \<le> x}"
    using ctx'(4) bt.entry_iff [OF assms(2)] by (auto simp: not_less [symmetric] key_below_block)
  from bt.resync [OF assms(3,2) agree this]
  have "bt.insert_all (map (entry ts) evs) (bt_range_below ?k (ctx_orderbook ctx)) = chain"
    by (intro bt.entries_determined bt.insert_all_inv bt.below_inv assms(2,3)) blast
  then have "ctx_orderbook ctx' = chain"
    using ctx'(3) by (simp add: bt.insert_all_def fold_map o_def)
  moreover have "update nd page ctx = (Ok (), ctx')"
    using assms(1,5,6) ctx'(1) by (simp add: update_def ebind_base serves_def ensure_def)
  ultimately show ?thesis
    using ctx'(2) by blast
qed

definition listing_at :: "u64 \<Rightarrow> h256 \<Rightarrow> chain_event" where
  "listing_at n h =
     \<lparr>ce_data = TokenListingEvent 100 0,
      ce_meta = Some \<lparr>em_block_number = n, em_block_hash = h, em_log_index = 0\<rparr>\<rparr>"

text \<open>A node that serves the token listings of two blocks, one chunk per event.\<close>

definition two_event_node :: "u64 \<Rightarrow> node" where
  "two_event_node cur =
     \<lparr>node_block_number = Ok cur,
      node_past_events = (\<lambda>from to page. Ok (map (\<lambda>e. [Ok e])
        (filter (\<lambda>e. from \<le> em_block_number (the (ce_meta e))) [listing_at 80 7, listing_at 120 8]))),
      node_blocks = (\<lambda>hs page. Ok []), node_block_timestamp = (\<lambda>b. Ok 900)\<rparr>"

definition two_event_chain :: event_registry where
  "two_event_chain = [entry (\<lambda>h. 900) (listing_at 80 7), entry (\<lambda>h. 900) (listing_at 120 8)]"

lemma two_event_node_serves: "serves (two_event_node cur) page (\<lambda>h. 900) two_event_chain cur"
proof -
  have "\<exists>css. node_past_events (two_event_node cur) from cur page = Ok (map (map Ok) css) \<and>
     (\<forall>e \<in> set (concat css). ce_meta e \<noteq> None) \<and>
     entry (\<lambda>h. 900) ` set (concat css) = {kv \<in> set two_event_chain. from \<le> key_block (fst kv)}" for "from"
    by (rule exI [of _ "map (\<lambda>e. [e]) (filter (\<lambda>e. from \<le> em_block_number (the (ce_meta e)))
         [listing_at 80 7, listing_at 120 8])"])
      (auto simp: two_event_node_def two_event_chain_def listing_at_def entry_def)
  then show ?thesis
    by (simp add: serves_def) (simp add: two_event_node_def)
qed

lemma update_follows_chain_witness:
  "\<exists>ctx'. update (two_event_node 130) 10
       \<lparr>ctx_orderbook = [entry (\<lambda>h. 900) (listing_at 80 7), entry (\<lambda>h. 600) (listing_at 119 9)],
        ctx_last_handled_block = 125, ctx_timestamps = ts_reader_new 25\<rparr> = (Ok (), ctx') \<and>
     ctx_orderbook ctx' = two_event_chain"
proof -
  let ?ctx = "\<lparr>ctx_orderbook = [entry (\<lambda>h. 900) (listing_at 80 7), entry (\<lambda>h. 600) (listing_at 119 9)],
        ctx_last_handled_block = 125, ctx_timestamps = ts_reader_new 25\<rparr>"
  have from100: "100 = saturating_sub (ctx_last_handled_block ?ctx) BLOCK_CONFIRMATION_COUNT"
    by (simp add: saturating_sub_def BLOCK_CONFIRMATION_COUNT_def)
  have wf: "bt_wf two_event_chain" "bt_wf (ctx_orderbook ?ctx)"
    by (simp_all add: two_event_chain_def entry_def listing_at_def less_event_sort_key_def)
  have agree: "\<forall>kv. key_block (fst kv) < 100 \<longrightarrow> (kv \<in> set (ctx_orderbook ?ctx) \<longleftrightarrow> kv \<in> set two_event_chain)"
    by (auto simp: two_event_chain_def entry_def listing_at_def)
  have "hash_coherent (\<lambda>h. 900) (ctx_timestamps ?ctx)"
    by (simp add: hash_coherent_def ts_reader_new_def)
  moreover have "(100 :: u64) \<le> 130" by simp
  ultimately show ?thesis
    using update_follows_chain [OF two_event_node_serves [of 130 10] wf _ from100 _ agree] by blast
qed

section \<open>Failing in the middle of an update\<close>

lemma set_book_entries: "set (fold (book_entry ts) evs m) \<subseteq> entry ts ` set evs \<union> set m"
proof (induction evs arbitrary: m)
  case (Cons e evs)
  have "set (bt_insert k v m) \<subseteq> insert (k, v) (set m)" for k and v :: reg_value
    by (induction m) (auto split: if_splits)
  from this [of "fst (entry ts e)" "snd (entry ts e)"] Cons [of "book_entry ts e m"] show ?case
    by auto
qed simp

lemma eloop_fails:
  "eloop f xs s = (Ok (), s1) \<Longrightarrow> f y s1 = (Err e, s2) \<Longrightarrow> eloop f (xs @ y # ys) s = (Err e, s2)"
proof (induction xs arbitrary: s)
  case (Cons x xs)
  then show ?case
    by (auto simp: ebind_def split: prod.splits result.splits)
qed (simp add: ebind_def elift_def)

lemma failing_update:
  assumes "node_block_number nd = Ok cur" "from = saturating_sub (ctx_last_handled_block ctx) BLOCK_CONFIRMATION_COUNT" "from \<le> cur"
    and "node_past_events nd from cur page = Ok (map (map Ok) css @ failed # rest)" "css \<noteq> []" "traverse (\<lambda>e. e) failed = Err e"
    and "\<And>h. node_block_timestamp nd (BlockHash h) = Ok (ts h)"
    and "\<And>hs. \<exists>bs. node_blocks nd hs page = Ok bs \<and> (\<forall>hb \<in> set bs. as_u64 (blk_timestamp (snd hb)) = Ok (ts (fst hb)))"
    and "\<forall>ev \<in> set (concat css). ce_meta ev \<noteq> None" "hash_coherent ts (ctx_timestamps ctx)"
  shows "\<exists>ctx'. update nd page ctx = (Err e, ctx') \<and> ctx_last_handled_block ctx' = cur \<and> hash_coherent ts (ctx_timestamps ctx') \<and>
    set (ctx_orderbook ctx') \<subseteq> entry ts ` set (concat css) \<union> set (ctx_orderbook ctx)"
proof -
  let ?m = "delete_events_starting_at_block from (ctx_orderbook ctx)"
  obtain ctx' where ctx': "eloop (handle_chunk nd page cur) (map Ok css) (ctx\<lparr>ctx_orderbook := ?m\<rparr>) = (Ok (), ctx')"
    "hash_coherent ts (ctx_timestamps ctx')" "ctx_orderbook ctx' = fold (book_entry ts) (concat css) ?m" "ctx_last_handled_block ctx' = cur"
    using handled_chunks [OF assms(7,8,9), of "ctx\<lparr>ctx_orderbook := ?m\<rparr>" cur] assms(5,10) by auto
  have "handle_chunk nd page cur (Err e) ctx' = (Err e, ctx')"
    by (simp add: handle_chunk_def effect_simps)
  from eloop_fails [OF ctx'(1) this] have "update nd page ctx = (Err e, ctx')"
    using assms(1-4,6)
    by (simp add: update_def update_with_events_between_blocks_def chunked_events_def effect_simps ensure_def traverse_map_Ok o_def)
  moreover have "set ?m \<subseteq> set (ctx_orderbook ctx)"
    by (auto simp: delete_events_starting_at_block_def bt_split_off_def dest: set_takeWhileD)
  ultimately show ?thesis
    using ctx'(2-4) set_book_entries [of ts "concat css" ?m] by auto
qed

text \<open>
  C15: a failed update can lose events for good.  When a chunk of the event stream fails after
  another one was handled, the last handled block is already the current block.  The next update,
  from a node that serves the whole chain, resumes from there less the confirmation count and
  succeeds; but every event of an older block that was neither in the registry before nor in a
  chunk that was handled, such as those of the chunk that failed, is still missing.
\<close>

theorem failed_chunk_loses_events:
  assumes "node_block_number nd = Ok cur" "from = saturating_sub (ctx_last_handled_block ctx) BLOCK_CONFIRMATION_COUNT" "from \<le> cur"
    and "node_past_events nd from cur page = Ok (map (map Ok) css @ failed # rest)" "css \<noteq> []" "traverse (\<lambda>e. e) failed = Err e"
    and "\<And>h. node_block_timestamp nd (BlockHash h) = Ok (ts h)"
    and "\<And>hs. \<exists>bs. node_blocks nd hs page = Ok bs \<and> (\<forall>hb \<in> set bs. as_u64 (blk_timestamp (snd hb)) = Ok (ts (fst hb)))"
    and "\<forall>ev \<in> set (concat css). ce_meta ev \<noteq> None" "hash_coherent ts (ctx_timestamps ctx)"
    and "serves nd' page' ts chain cur'" "cur \<le> cur'"
  shows "\<exists>ctx1 ctx2. update nd page ctx = (Err e, ctx1) \<and> update nd' page' ctx1 = (Ok (), ctx2) \<and>
    (\<forall>kv \<in> set chain. key_block (fst kv) < saturating_sub cur BLOCK_CONFIRMATION_COUNT \<longrightarrow>
       kv \<notin> set (ctx_orderbook ctx) \<longrightarrow> kv \<notin> entry ts ` set (concat css) \<longrightarrow> kv \<notin> set (ctx_orderbook ctx2))"
proof -
  obtain ctx1 where 1: "update nd page ctx = (Err e, ctx1)" "ctx_last_handled_block ctx1 = cur" "hash_coherent ts (ctx_timestamps ctx1)"
    "set (ctx_orderbook ctx1) \<subseteq> entry ts ` set (concat css) \<union> set (ctx_orderbook ctx)"
    using failing_update [OF assms(1-10)] by blast
  let ?from = "saturating_sub cur BLOCK_CONFIRMATION_COUNT"
  have le: "?from \<le> cur'"
    using assms(12) by (simp add: word_le_nat_alt saturating_sub_unat)
  obtain evs ctx2 where 2: "update_with_events_between_blocks nd' page' ?from cur' ctx1 = (Ok (), ctx2)"
    "ctx_orderbook ctx2 = fold (book_entry ts) evs (bt_range_below (EventSortKey ?from 0 0) (ctx_orderbook ctx1))"
    "entry ts ` set evs = {kv \<in> set chain. ?from \<le> key_block (fst kv)}"
    by (rule update_with_events_Ok [OF assms(11) le 1(3)])
  have "update nd' page' ctx1 = (Ok (), ctx2)"
    using assms(11) 1(2) 2(1) le by (simp add: update_def ebind_base serves_def ensure_def)
  moreover have "set (bt_range_below (EventSortKey ?from 0 0) (ctx_orderbook ctx1)) \<subseteq> set (ctx_orderbook ctx1)"
    by (auto simp: bt_range_below_def dest: set_takeWhileD)
  then have sub: "set (ctx_orderbook ctx2) \<subseteq> {kv \<in> set chain. ?from \<le> key_block (fst kv)} \<union> set (ctx_orderbook ctx1)"
    using set_book_entries [of ts evs "bt_range_below (EventSortKey ?from 0 0) (ctx_orderbook ctx1)"] unfolding 2(2,3) by blast
  have "kv \<notin> set (ctx_orderbook ctx2)"
    if "key_block (fst kv) < ?from" "kv \<notin> set (ctx_orderbook ctx)" "kv \<notin> entry ts ` set (concat css)" for kv
  proof
    assume "kv \<in> set (ctx_orderbook ctx2)"
    then have "kv \<in> set (ctx_orderbook ctx1)"
      using sub that(1) leD by blast
    then show False
      using 1(4) that(2,3) by blast
  qed
  ultimately show ?thesis
    using 1(1) by blast
qed

definition failing_node :: node where
  "failing_node = (two_event_node 200)\<lparr>node_past_events := (\<lambda>from to page. Ok [[Ok (listing_at 80 7)], [Err ''timeout'']])\<rparr>"

lemma failed_chunk_loses_events_witness:
  "\<exists>ctx1 ctx2. update failing_node 10 \<lparr>ctx_orderbook = [], ctx_last_handled_block = 100, ctx_timestamps = ts_reader_new 25\<rparr> =
      (Err ''timeout'', ctx1) \<and> update (two_event_node 200) 10 ctx1 = (Ok (), ctx2) \<and>
      entry (\<lambda>h. 900) (listing_at 120 8) \<in> set two_event_chain \<and> entry (\<lambda>h. 900) (listing_at 120 8) \<notin> set (ctx_orderbook ctx2)"
proof -
  let ?ctx = "\<lparr>ctx_orderbook = [], ctx_last_handled_block = 100, ctx_timestamps = ts_reader_new 25\<rparr>"
  have missing: "entry (\<lambda>h. 900) (listing_at 120 8) \<in> set two_event_chain"
    "key_block (fst (entry (\<lambda>h. 900) (listing_at 120 8))) < saturating_sub 200 BLOCK_CONFIRMATION_COUNT"
    "entry (\<lambda>h. 900) (listing_at 120 8) \<notin> entry (\<lambda>h. 900) ` set (concat [[listing_at 80 7]])"
    by (simp_all add: two_event_chain_def entry_def listing_at_def saturating_sub_def BLOCK_CONFIRMATION_COUNT_def)
  have "\<exists>ctx1 ctx2. update failing_node 10 ?ctx = (Err ''timeout'', ctx1) \<and> update (two_event_node 200) 10 ctx1 = (Ok (), ctx2) \<and>
    (\<forall>kv \<in> set two_event_chain. key_block (fst kv) < saturating_sub 200 BLOCK_CONFIRMATION_COUNT \<longrightarrow>
       kv \<notin> set (ctx_orderbook ?ctx) \<longrightarrow> kv \<notin> entry (\<lambda>h. 900) ` set (concat [[listing_at 80 7]]) \<longrightarrow> kv \<notin> set (ctx_orderbook ctx2))"
    by (rule failed_chunk_loses_events [where rest = "[]" and failed = "[Err ''timeout'']" and cur' = 200])
      (simp_all add: failing_node_def two_event_node_serves saturating_sub_def BLOCK_CONFIRMATION_COUNT_def listing_at_def
        hash_coherent_def ts_reader_new_def, simp_all add: two_event_node_def)
  then show ?thesis
    using missing by fastforce
qed

end
