(* ===== verification/F64.thy ===== *)
theory F64
  imports Complex_Main Prelude
begin

text \<open>
  The 64 bit floating point numbers of the language (IEEE 754 binary64, with a single NaN): finite
  numbers are rationals, arithmetic is exact and then rounded to nearest, ties to even, with
  gradual underflow and overflow to infinity.  Casts to integers saturate and send NaN to zero.
  The definitions are executable.  The lemmas bound the rounding error and show that integers of
  up to 53 bits are represented exactly.
\<close>

datatype f64 = NaN | Inf (f64_neg: bool) | Zero (f64_neg: bool) | Num rat

function ilog2 :: "int \<Rightarrow> nat" where
  "ilog2 n = (if n < 2 then 0 else Suc (ilog2 (n div 2)))"
  by auto
termination by (relation "measure nat") auto

declare ilog2.simps [simp del]

definition pow2 :: "int \<Rightarrow> rat" where
  "pow2 e = (if 0 \<le> e then 2 ^ nat e else 1 / 2 ^ nat (- e))"

text \<open>The binary exponent of a positive rational.\<close>

definition expo :: "rat \<Rightarrow> int" where
  "expo q =
     (let (n, d) = quotient_of q; e = int (ilog2 n) - int (ilog2 d)
      in if q < pow2 e then e - 1 else e)"

definition round_half_even :: "rat \<Rightarrow> int" where
  "round_half_even q =
     (let f = \<lfloor>q\<rfloor>; r = q - of_int f
      in if r < 1 / 2 \<or> r = 1 / 2 \<and> even f then f else f + 1)"

text \<open>The spacing of the representable numbers around a positive rational.\<close>

definition ulp :: "rat \<Rightarrow> rat" where
  "ulp q = pow2 (max (expo q) (- 1022) - 52)"

definition f64_round :: "rat \<Rightarrow> f64" where
  "f64_round q =
     (if q = 0 then Zero False
      else let a = \<bar>q\<bar>; v = of_int (round_half_even (a / ulp a)) * ulp a
           in if v = 0 then Zero (q < 0)
              else if 2 ^ 1024 \<le> v then Inf (q < 0)
              else Num (if q < 0 then - v else v))"

section \<open>Arithmetic\<close>

definition sgn_neg :: "f64 \<Rightarrow> bool" where
  "sgn_neg x = (case x of NaN \<Rightarrow> False | Inf s \<Rightarrow> s | Zero s \<Rightarrow> s | Num q \<Rightarrow> q < 0)"

fun f64_uminus :: "f64 \<Rightarrow> f64" where
  "f64_uminus NaN = NaN"
| "f64_uminus (Inf s) = Inf (\<not> s)"
| "f64_uminus (Zero s) = Zero (\<not> s)"
| "f64_uminus (Num q) = Num (- q)"

fun f64_add :: "f64 \<Rightarrow> f64 \<Rightarrow> f64" where
  "f64_add NaN y = NaN"
| "f64_add x NaN = NaN"
| "f64_add (Inf s) (Inf t) = (if s = t then Inf s else NaN)"
| "f64_add (Inf s) y = Inf s"
| "f64_add x (Inf t) = Inf t"
| "f64_add (Zero s) (Zero t) = Zero (s \<and> t)"
| "f64_add (Zero s) (Num q) = Num q"
| "f64_add (Num p) (Zero t) = Num p"
| "f64_add (Num p) (Num q) = f64_round (p + q)"

definition f64_sub :: "f64 \<Rightarrow> f64 \<Rightarrow> f64" where
  "f64_sub x y = f64_add x (f64_uminus y)"

definition f64_mul :: "f64 \<Rightarrow> f64 \<Rightarrow> f64" where
  "f64_mul x y =
     (let s = (sgn_neg x \<noteq> sgn_neg y) in
      case (x, y) of
        (NaN, _) \<Rightarrow> NaN | (_, NaN) \<Rightarrow> NaN
      | (Inf _, Zero _) \<Rightarrow> NaN | (Zero _, Inf _) \<Rightarrow> NaN
      | (Inf _, _) \<Rightarrow> Inf s | (_, Inf _) \<Rightarrow> Inf s
      | (Zero _, _) \<Rightarrow> Zero s | (_, Zero _) \<Rightarrow> Zero s
      | (Num p, Num q) \<Rightarrow> f64_round (p * q))"

definition f64_div :: "f64 \<Rightarrow> f64 \<Rightarrow> f64" where
  "f64_div x y =
     (let s = (sgn_neg x \<noteq> sgn_neg y) in
      case (x, y) of
        (NaN, _) \<Rightarrow> NaN | (_, NaN) \<Rightarrow> NaN
      | (Inf _, Inf _) \<Rightarrow> NaN | (Zero _, Zero _) \<Rightarrow> NaN
      | (Inf _, _) \<Rightarrow> Inf s | (_, Inf _) \<Rightarrow> Zero s
      | (Zero _, _) \<Rightarrow> Zero s | (_, Zero _) \<Rightarrow> Inf s
      | (Num p, Num q) \<Rightarrow> f64_round (p / q))"

text \<open>
  \<open>f64::powi\<close>: the language leaves its precision open; this is the repeated squaring of the
  compiler's runtime library, which takes the reciprocal at the end for a negative exponent.
\<close>

fun powi_loop :: "f64 \<Rightarrow> nat \<Rightarrow> f64 \<Rightarrow> f64" where
  "powi_loop a b acc =
     (let acc = (if odd b then f64_mul acc a else acc)
      in if b < 2 then acc else powi_loop (f64_mul a a) (b div 2) acc)"

declare powi_loop.simps [simp del]

definition f64_powi :: "f64 \<Rightarrow> int \<Rightarrow> f64" where
  "f64_powi x n =
     (let r = powi_loop x (nat \<bar>n\<bar>) (Num 1)
      in if n < 0 then f64_div (Num 1) r else r)"

text \<open>The order of the finite numbers, extended by the infinities; NaN is unordered.\<close>

fun f64_less :: "f64 \<Rightarrow> f64 \<Rightarrow> bool" where
  "f64_less NaN y = False"
| "f64_less x NaN = False"
| "f64_less (Inf s) (Inf t) = (s \<and> \<not> t)"
| "f64_less (Inf s) y = s"
| "f64_less x (Inf t) = (\<not> t)"
| "f64_less (Zero _) (Zero _) = False"
| "f64_less (Zero _) (Num q) = (0 < q)"
| "f64_less (Num p) (Zero _) = (p < 0)"
| "f64_less (Num p) (Num q) = (p < q)"

text \<open>\<open>x as f64\<close> for an unsigned integer, and \<open>x as u128\<close> for a floating point number\<close>

definition f64_of_nat :: "nat \<Rightarrow> f64" where
  "f64_of_nat n = f64_round (of_nat n)"

fun f64_as_u128 :: "f64 \<Rightarrow> u128" where
  "f64_as_u128 NaN = 0"
| "f64_as_u128 (Inf s) = (if s then 0 else - 1)"
| "f64_as_u128 (Zero s) = 0"
| "f64_as_u128 (Num q) = (if q < 0 then 0 else if 2 ^ 128 \<le> q then - 1 else word_of_int \<lfloor>q\<rfloor>)"


section \<open>Rounding\<close>

lemma ilog2_bounds: "0 < n \<Longrightarrow> 2 ^ ilog2 n \<le> n \<and> n < 2 ^ Suc (ilog2 n)"
proof (induction n rule: ilog2.induct)
  case (1 n)
  show ?case
  proof (cases "n < 2")
    case True
    then show ?thesis
      using 1(2) by (subst (1 2) ilog2.simps) simp
  next
    case False
    then have ih: "2 ^ ilog2 (n div 2) \<le> n div 2" "n div 2 < 2 ^ Suc (ilog2 (n div 2))"
      using 1(1) by (auto simp del: power_Suc)
    then have "2 * 2 ^ ilog2 (n div 2) \<le> n" "n < 2 * 2 ^ Suc (ilog2 (n div 2))"
      by linarith+
    with False show ?thesis
      by (subst (1 2) ilog2.simps) simp
  qed
qed

lemma pow2_pos [simp]: "0 < pow2 e"
  by (simp add: pow2_def)

lemma pow2_nonzero [simp]: "pow2 e \<noteq> 0"
  using pow2_pos [of e] by linarith

lemma pow2_diff: "pow2 (int a - int b) = 2 ^ a / 2 ^ b"
proof (cases "b \<le> a")
  case True
  then show ?thesis
    by (simp add: pow2_def nat_diff_distrib power_diff)
next
  case False
  then have "nat (int b - int a) = b - a"
    by simp
  with False show ?thesis
    by (simp add: pow2_def power_diff)
qed

lemma pow2_add: "pow2 (d + e) = pow2 d * pow2 e"
proof -
  obtain a b where d: "d = int a - int b"
    by (metis int_diff_cases)
  obtain a' b' where e: "e = int a' - int b'"
    by (metis int_diff_cases)
  have "d + e = int (a + a') - int (b + b')"
    by (simp add: d e)
  then show ?thesis
    unfolding d e by (simp only: pow2_diff power_add) simp
qed

lemma round_half_even_error: "\<bar>of_int (round_half_even q) - q\<bar> \<le> 1 / 2"
proof -
  obtain f where f: "f = (of_int \<lfloor>q\<rfloor> :: rat)"
    by blast
  have "f \<le> q" "q < f + 1"
    unfolding f by (rule of_int_floor_le) (rule floor_less_iff [THEN iffD1, of q "\<lfloor>q\<rfloor> + 1", simplified])
  moreover have "of_int (round_half_even q) = f \<and> q - f \<le> 1 / 2 \<or> of_int (round_half_even q) = f + 1 \<and> 1 / 2 \<le> q - f"
    unfolding f by (auto simp: round_half_even_def Let_def)
  ultimately show ?thesis
    by linarith
qed

lemma floor_rat_numeral [simp]: "\<lfloor>numeral a / numeral b :: rat\<rfloor> = numeral a div numeral b"
  using floor_divide_of_int_eq [of "numeral a" "numeral b", where 'a = rat] by simp

lemma round_half_even_of_int [simp]: "round_half_even (of_int z) = z"
  by (simp add: round_half_even_def)

lemma expo_bounds:
  assumes "0 < q"
  shows "pow2 (expo q) \<le> q \<and> q < pow2 (expo q + 1)"
proof -
  obtain n d where nd: "quotient_of q = (n, d)"
    by (cases "quotient_of q")
  have q: "q = of_int n / of_int d" and d: "0 < d"
    using nd quotient_of_div quotient_of_denom_pos by auto
  have n: "0 < n"
    using assms d by (simp add: q zero_less_divide_iff)
  define a b where "a = ilog2 n" and "b = ilog2 d"
  have "(2 :: int) ^ a \<le> n" "n < 2 ^ Suc a" "2 ^ b \<le> d" "d < 2 ^ Suc b"
    using ilog2_bounds [of n] ilog2_bounds [of d] n d by (simp_all add: a_def b_def)
  then have "(of_int (2 ^ a) :: rat) \<le> of_int n" "(of_int n :: rat) < of_int (2 ^ Suc a)"
      "(of_int (2 ^ b) :: rat) \<le> of_int d" "(of_int d :: rat) < of_int (2 ^ Suc b)"
    by (simp_all only: of_int_le_iff of_int_less_iff)
  then have bounds: "2 ^ a \<le> (of_int n :: rat)" "(of_int n :: rat) < 2 * 2 ^ a" "2 ^ b \<le> (of_int d :: rat)" "(of_int d :: rat) < 2 * 2 ^ b"
    by simp_all
  have dpos: "0 < (of_int d :: rat)"
    using d by simp
  have low: "2 ^ a / (2 * 2 ^ b) < q"
    unfolding q using bounds dpos by (intro frac_less2) auto
  have high: "q < 2 * 2 ^ a / 2 ^ b"
    unfolding q using bounds dpos n by (intro frac_less) auto
  have e: "pow2 (int a - int b) = 2 ^ a / 2 ^ b"
    by (rule pow2_diff)
  have e1: "pow2 (int a - int b + 1) = 2 * 2 ^ a / 2 ^ b"
    using pow2_diff [of "Suc a" b] by (simp add: algebra_simps)
  have e2: "pow2 (int a - int b - 1) = 2 ^ a / (2 * 2 ^ b)"
    using pow2_diff [of a "Suc b"] by (simp add: algebra_simps)
  have "expo q = (if q < pow2 (int a - int b) then int a - int b - 1 else int a - int b)"
    by (simp add: expo_def nd a_def b_def Let_def)
  then show ?thesis
    using low high e1 e2 by (simp add: not_less)
qed

lemma ulp_pos: "0 < ulp q"
  by (simp add: ulp_def)

text \<open>Rounding moves a number by at most half the spacing of the representable numbers.\<close>

lemma f64_round_error:
  assumes "0 < q" "f64_round q = Num v"
  shows "\<bar>v - q\<bar> \<le> ulp q / 2"
proof -
  have v: "v = of_int (round_half_even (q / ulp q)) * ulp q"
    using assms by (auto simp: f64_round_def Let_def split: if_splits)
  have "\<bar>of_int (round_half_even (q / ulp q)) - q / ulp q\<bar> * ulp q \<le> 1 / 2 * ulp q"
    using round_half_even_error ulp_pos [of q] by (intro mult_right_mono) auto
  moreover have "(of_int (round_half_even (q / ulp q)) - q / ulp q) * ulp q = v - q"
    using ulp_pos [of q] by (simp add: v algebra_simps)
  ultimately show ?thesis
    using ulp_pos [of q] by (metis abs_mult abs_of_pos mult.commute times_divide_eq_right mult_1_right)
qed

text \<open>Multiples of the spacing are represented exactly; in particular integers below \<open>2 ^ 53\<close>.\<close>

lemma f64_round_exact:
  assumes "0 < q" "q < 2 ^ 1024" "q = of_int z * ulp q"
  shows "f64_round q = Num q"
proof -
  have "q / ulp q = of_int z"
    using assms(3) ulp_pos [of q] by (metis nonzero_mult_div_cancel_right less_irrefl)
  moreover have "of_int z * ulp q = q"
    using assms(3) by simp
  moreover have "z \<noteq> 0"
    using assms(1,3) by auto
  ultimately show ?thesis
    using assms(1,2) ulp_pos [of q] by (simp add: f64_round_def Let_def)
qed

lemma pow2_less: "e < e' \<Longrightarrow> pow2 e < pow2 e'"
proof -
  assume "e < e'"
  then obtain k where k: "e' = e + int k" "0 < k"
    by (metis pos_int_cases less_iff_diff_less_0 diff_add_cancel add.commute neg_0_less_iff_less minus_diff_eq)
  have "pow2 (int k) = 2 ^ k"
    by (simp add: pow2_def)
  moreover have "(1 :: rat) < 2 ^ k"
    using k(2) by simp
  ultimately show ?thesis
    using pow2_add [of e "int k"] pow2_pos [of e] by (simp add: k(1))
qed

lemma f64_of_nat_exact:
  assumes "0 < n" "n < 2 ^ 53"
  shows "f64_of_nat n = Num (of_nat n)"
proof -
  let ?q = "of_nat n :: rat"
  have q: "0 < ?q" "?q < 2 ^ 53"
    using assms by simp_all
  define e where "e = max (expo ?q) (- 1022)"
  have "pow2 (expo ?q) < pow2 53"
    using expo_bounds [OF q(1)] q(2) by (simp add: pow2_def)
  then have e: "e \<le> 52"
    using pow2_less [of 53 "expo ?q"] unfolding e_def by (cases "53 < expo ?q"; cases "expo ?q = 53") auto
  then have "pow2 (e - 52) * pow2 (52 - e) = 1"
    by (simp add: pow2_add [symmetric]) (simp add: pow2_def)
  moreover have "pow2 (52 - e) = of_int (2 ^ nat (52 - e))"
    using e by (simp add: pow2_def)
  ultimately have "?q = of_int (int n * 2 ^ nat (52 - e)) * ulp ?q"
    by (simp add: ulp_def e_def mult.commute mult.left_commute)
  moreover have "?q < 2 ^ 1024"
    using q(2) by (rule less_trans) simp
  ultimately show ?thesis
    unfolding f64_of_nat_def using f64_round_exact [OF q(1)] by blast
qed

text \<open>Rounding a given number, when its binary exponent is known.\<close>

lemma expo_eq:
  assumes "pow2 e \<le> q" "q < pow2 (e + 1)"
  shows "expo q = e"
proof -
  have "0 < q"
    using assms(1) pow2_pos [of e] by linarith
  note b = expo_bounds [OF this]
  have "\<not> expo q < e"
    using b assms(1) pow2_less [of "expo q + 1" e] by (cases "expo q + 1 = e") auto
  moreover have "\<not> e < expo q"
    using b assms(2) pow2_less [of "e + 1" "expo q"] by (cases "e + 1 = expo q") auto
  ultimately show ?thesis by simp
qed

lemma f64_round_eval:
  assumes "pow2 e \<le> q" "q < pow2 (e + 1)" "- 1022 \<le> e" "round_half_even (q / pow2 (e - 52)) = m" "0 < m"
    and "of_int m * pow2 (e - 52) < 2 ^ 1024"
  shows "f64_round q = Num (of_int m * pow2 (e - 52))"
proof -
  have q: "0 < q"
    using assms(1) pow2_pos [of e] by linarith
  have "ulp q = pow2 (e - 52)"
    using assms(3) by (simp add: ulp_def expo_eq [OF assms(1,2)])
  with q assms(4-6) pow2_pos [of "e - 52"] show ?thesis
    by (simp add: f64_round_def Let_def not_le)
qed

text \<open>Integers with few significant bits are exact; so are the powers of ten up to the 22nd.\<close>

lemma f64_round_scaled:
  assumes "0 < n" "n < 2 ^ 53" "k \<le> 900"
  shows "f64_round (of_nat n * 2 ^ k) = Num (of_nat n * 2 ^ k)"
proof -
  let ?q = "of_nat n * 2 ^ k :: rat"
  have "(1 :: rat) \<le> of_nat n" "of_nat n < (2 ^ 53 :: rat)"
    using assms(1,2) by simp_all
  then have q: "0 < ?q" "1 \<le> ?q" "?q < 2 ^ (53 + k)"
    using mult_mono [of 1 "of_nat n :: rat" 1 "2 ^ k"] by (simp_all add: power_add)
  define e where "e = expo ?q"
  have b: "pow2 e \<le> ?q" "?q < pow2 (e + 1)"
    using expo_bounds [OF q(1)] by (simp_all add: e_def)
  have "pow2 0 < pow2 (e + 1)"
    using q(2) b(2) by (simp add: pow2_def [of 0])
  then have e0: "0 \<le> e"
    using pow2_less [of "e + 1" 0] by (cases "e + 1 < 0"; cases "e + 1 = 0") auto
  have "pow2 e < pow2 (int (53 + k))"
    using b(1) q(3) by (simp only: pow2_def [of "int (53 + k)"] of_nat_0_le_iff if_True nat_int)
  then have e1: "e \<le> 52 + int k"
    using pow2_less [of "int (53 + k)" e] by (cases "int (53 + k) < e"; cases "e = int (53 + k)") auto
  have "pow2 (e - 52) * pow2 (int k - (e - 52)) = 2 ^ k"
    by (simp only: pow2_add [symmetric]) (simp add: pow2_def)
  moreover have "pow2 (int k - (e - 52)) = of_int (2 ^ nat (int k - (e - 52)))"
    using e1 by (simp add: pow2_def)
  moreover have "ulp ?q = pow2 (e - 52)"
    using e0 by (simp add: ulp_def e_def)
  ultimately have "?q = of_int (int n * 2 ^ nat (int k - (e - 52))) * ulp ?q"
    by (simp add: mult.commute mult.left_commute)
  moreover have "?q < 2 ^ 1024"
    using q(3) power_increasing [of "53 + k" 1024 "2 :: rat"] assms(3) by simp
  ultimately show ?thesis
    using f64_round_exact [OF q(1)] by blast
qed

lemma f64_round_ten_power:
  assumes "0 < n" "n * 5 ^ k < 2 ^ 53" "k \<le> 900"
  shows "f64_round (of_nat n * 10 ^ k) = Num (of_nat n * 10 ^ k)"
proof -
  have "of_nat n * 10 ^ k = (of_nat (n * 5 ^ k) * 2 ^ k :: rat)"
    by (simp flip: power_mult_distrib)
  with f64_round_scaled [of "n * 5 ^ k" k] assms show ?thesis
    by (simp add: mult.assoc)
qed

lemma powi_loop_ten:
  "i * b + j \<le> 22 \<Longrightarrow> powi_loop (Num (10 ^ i)) b (Num (10 ^ j)) = Num (10 ^ (i * b + j))"
proof (induction b arbitrary: i j rule: less_induct)
  case (less b)
  have five: "(5 :: nat) ^ k < 2 ^ 53" if "k \<le> 22" for k
    using power_increasing [OF that, of "5 :: nat"] by simp
  have mul: "f64_mul (Num (10 ^ k)) (Num (10 ^ l)) = Num (10 ^ (k + l))" if "k + l \<le> 22" for k l
    using f64_round_ten_power [of 1 "k + l"] five [OF that] that by (simp add: f64_mul_def power_add)
  have acc: "(if odd b then f64_mul (Num (10 ^ j)) (Num (10 ^ i)) else Num (10 ^ j)) = Num (10 ^ (i * (b mod 2) + j))"
    using less.prems mul [of j i] by (cases b) (auto simp: odd_iff_mod_2_eq_one even_iff_mod_2_eq_zero add.commute)
  show ?case
  proof (cases "b < 2")
    case True
    then show ?thesis
      using acc by (subst powi_loop.simps) (auto simp: Let_def)
  next
    case False
    have split: "i * b = (i + i) * (b div 2) + i * (b mod 2)"
      by (metis add_mult_distrib distrib_left mult.assoc mult.commute mult_2 mult_div_mod_eq)
    have "i + i \<le> i * b"
      using False by (metis mult.commute mult_2 mult_le_mono1 not_less)
    then have "f64_mul (Num (10 ^ i)) (Num (10 ^ i)) = Num (10 ^ (i + i))"
      using less.prems by (intro mul) simp
    then show ?thesis
      using less.IH [of "b div 2" "i + i" "i * (b mod 2) + j"] False less.prems acc split
      by (subst powi_loop.simps) (simp add: Let_def add.assoc)
  qed
qed

lemma powi_ten: "k \<le> 22 \<Longrightarrow> f64_powi (Num 10) (int k) = Num (10 ^ k)"
  using powi_loop_ten [of 1 k 0] by (simp add: f64_powi_def Let_def)

end
