(* ===== verification/NaiveSolver.thy ===== *)
theory NaiveSolver
  imports F64 AuctionData
begin

text \<open>
  The built-in solver (\<open>src/services-core/src/price_finding/naive_solver.rs\<close>): it settles the first
  pair of orders that trade opposite tokens at overlapping prices.  Plain arithmetic on \<open>u128\<close>
  wraps, arithmetic on \<open>U256\<close> panics on overflow.

  The lemmas show that without a fee the solution is always valid: both orders stay within their
  limit price, their remaining amount and the balance of their owner, the trade conserves tokens
  and the prices are consistent; and that a pair is found whenever there is one.  With a fee, the
  prices are normalised to the fee token and the executed amounts satisfy the amount relation
  that the exchange contract checks, but the limits of the orders can be violated.
\<close>

section \<open>Fees\<close>

record fee =
  fee_token :: u16
  fee_ratio :: f64

definition default_fee :: fee where
  "default_fee = \<lparr>fee_token = 0, fee_ratio = f64_round (1 / 1000)\<rparr>"

definition fee_denominator :: "fee \<Rightarrow> u128" where
  "fee_denominator f = f64_as_u128 (f64_div (Num 1) (fee_ratio f))"

definition BASE_UNIT :: u128 where
  "BASE_UNIT = 1000000000000000000"

definition BASE_PRICE :: u128 where
  "BASE_PRICE = BASE_UNIT"

section \<open>Matching\<close>

datatype order_pair_type = LhsFullyFilled | RhsFullyFilled | BothFullyFilled

definition opposite_tokens :: "order \<Rightarrow> order \<Rightarrow> bool" where
  "opposite_tokens x y \<longleftrightarrow> buy_token x = sell_token y \<and> sell_token x = buy_token y"

definition have_price_overlap :: "order \<Rightarrow> order \<Rightarrow> bool res" where
  "have_price_overlap x y =
     (if 0 < denominator x \<and> 0 < denominator y then
        rbind (u256_mul (ucast (numerator x)) (ucast (numerator y))) (\<lambda>l.
        rmap (\<lambda>r. l \<le> r) (u256_mul (ucast (denominator y)) (ucast (denominator x))))
      else Ok False)"

definition trades_fee_token :: "order \<Rightarrow> fee \<Rightarrow> bool" where
  "trades_fee_token x f \<longleftrightarrow> buy_token x = fee_token f \<or> sell_token x = fee_token f"

definition attracts :: "order \<Rightarrow> order \<Rightarrow> fee option \<Rightarrow> bool res" where
  "attracts x y fee =
     (if (case fee of Some f \<Rightarrow> fee_token f \<notin> {sell_token x, buy_token x} | None \<Rightarrow> False) then Ok False
      else if opposite_tokens x y then have_price_overlap x y else Ok False)"

definition sufficient_seller_funds :: "order \<Rightarrow> account_state \<Rightarrow> bool" where
  "sufficient_seller_funds x st \<longleftrightarrow>
     ucast (remaining_sell_amount x) \<le> read_balance st (sell_token x) (account_id x)"

definition match_compare ::
    "order \<Rightarrow> order \<Rightarrow> account_state \<Rightarrow> fee option \<Rightarrow> order_pair_type option res" where
  "match_compare x y st fee =
     (if \<not> sufficient_seller_funds x st \<or> \<not> sufficient_seller_funds y st then Ok None
      else rbind (attracts x y fee) (\<lambda>attracted.
        if \<not> attracted \<or> \<not> (case fee of Some f \<Rightarrow> trades_fee_token x f | None \<Rightarrow> True) then Ok None
        else if numerator x \<le> denominator y \<and> denominator x \<le> numerator y then Ok (Some LhsFullyFilled)
        else if denominator y \<le> numerator x \<and> numerator y \<le> denominator x then Ok (Some RhsFullyFilled)
        else Ok (Some BothFullyFilled)))"

type_synonym order_match = "order_pair_type \<times> order \<times> order"

fun find_match_for :: "order \<Rightarrow> order list \<Rightarrow> account_state \<Rightarrow> fee option \<Rightarrow> order_match option res" where
  "find_match_for x [] st fee = Ok None"
| "find_match_for x (y # ys) st fee =
     rbind (match_compare x y st fee) (\<lambda>m.
     (case m of Some t \<Rightarrow> Ok (Some (t, x, y)) | None \<Rightarrow> find_match_for x ys st fee))"

fun find_first_match :: "order list \<Rightarrow> account_state \<Rightarrow> fee option \<Rightarrow> order_match option res" where
  "find_first_match [] st fee = Ok None"
| "find_first_match (x # xs) st fee =
     rbind (find_match_for x xs st fee) (\<lambda>m.
     (case m of Some t \<Rightarrow> Ok (Some t) | None \<Rightarrow> find_first_match xs st fee))"

section \<open>Executing a match\<close>

definition order_with_buffer_for_fee :: "order \<Rightarrow> fee option \<Rightarrow> order res" where
  "order_with_buffer_for_fee ord fee =
     (case fee of
        Some f \<Rightarrow>
          (let d = fee_denominator f in
           if fee_token f = buy_token ord then
             rmap (\<lambda>n. ord\<lparr>numerator := n\<rparr>) (ceiled_div (numerator ord * d) (d - 1))
           else if fee_token f = sell_token ord then
             rmap (\<lambda>n. ord\<lparr>denominator := n\<rparr>) (unwrap (checked_div (denominator ord * (d - 1)) d))
           else Ok ord)
      | None \<Rightarrow> Ok ord)"

definition create_executed_order :: "order \<Rightarrow> u128 \<Rightarrow> u128 \<Rightarrow> executed_order" where
  "create_executed_order ord sell buy =
     \<lparr>ex_account_id = account_id ord, ex_order_id = oid ord, sell_amount = sell, buy_amount = buy\<rparr>"

type_synonym price_map = "(u16 \<times> u128) list"

definition create_executed_orders ::
    "order_match \<Rightarrow> fee option \<Rightarrow> ((executed_order \<times> executed_order) \<times> price_map) res" where
  "create_executed_orders m fee =
     (case m of (t, x0, y0) \<Rightarrow>
      rbind (order_with_buffer_for_fee x0 fee) (\<lambda>x.
      rbind (order_with_buffer_for_fee y0 fee) (\<lambda>y.
      let create_orders = (\<lambda>xs xb ys yb. (create_executed_order x xs xb, create_executed_order y ys yb)) in
      Ok (case t of
            LhsFullyFilled \<Rightarrow>
              (create_orders (denominator x) (numerator x) (numerator x) (denominator x),
               hm_insert (buy_token y) (numerator x) (hm_insert (buy_token x) (denominator x) []))
          | RhsFullyFilled \<Rightarrow>
              (create_orders (numerator y) (denominator y) (denominator y) (numerator y),
               hm_insert (sell_token y) (numerator y) (hm_insert (sell_token x) (denominator y) []))
          | BothFullyFilled \<Rightarrow>
              (create_orders (denominator x) (denominator y) (denominator y) (denominator x),
               hm_insert (buy_token x) (denominator x) (hm_insert (buy_token y) (denominator y) []))))))"

definition normalize_price :: "u128 \<Rightarrow> u128 \<Rightarrow> u128 option res" where
  "normalize_price price fee_price =
     rbind (u256_mul (ucast price) (ucast BASE_PRICE)) (\<lambda>p.
     rmap as_u128_checked (ceiled_div p (ucast fee_price)))"

definition executed_sell_amount :: "fee \<Rightarrow> u128 \<Rightarrow> u128 \<Rightarrow> u128 \<Rightarrow> u128 res" where
  "executed_sell_amount f exec_buy_amt buy_price sell_price =
     (let d = fee_denominator f in
      rbind (u256_mul (ucast exec_buy_amt) (ucast buy_price)) (\<lambda>p.
      rbind (u256_div p (ucast (d - 1))) (\<lambda>q.
      rbind (u256_mul q (ucast d)) (\<lambda>r.
      rbind (u256_div r (ucast sell_price)) as_u128))))"

definition executed_buy_amount :: "fee \<Rightarrow> u128 \<Rightarrow> u128 \<Rightarrow> u128 \<Rightarrow> u128 option res" where
  "executed_buy_amount f exec_sell_amt buy_price sell_price =
     (let d = fee_denominator f in
      rbind (u256_mul (ucast exec_sell_amt) (ucast sell_price)) (\<lambda>p.
      rbind (u256_div p (ucast d)) (\<lambda>q.
      rbind (u256_mul q (ucast (d - 1))) (\<lambda>r.
      rbind (ceiled_div r (ucast buy_price)) (\<lambda>s.
      rbind (as_u128 s) (\<lambda>exec_buy_amt.
      rmap (\<lambda>sell. if exec_sell_amt = sell then Some exec_buy_amt else None)
        (executed_sell_amount f exec_buy_amt buy_price sell_price)))))))"

fun normalize_prices :: "price_map \<Rightarrow> u128 \<Rightarrow> price_map option res" where
  "normalize_prices [] fee_price = Ok (Some [])"
| "normalize_prices ((t, p) # ps) fee_price =
     rbind (normalize_price p fee_price) (\<lambda>r.
     (case r of
        None \<Rightarrow> Ok None
      | Some p' \<Rightarrow> rmap (map_option (Cons (t, p'))) (normalize_prices ps fee_price)))"

text \<open>One iteration of the loop that applies the fee to the volumes; None is the early return.\<close>

definition apply_fee :: "fee \<Rightarrow> price_map \<Rightarrow> order \<Rightarrow> executed_order \<Rightarrow> executed_order option res" where
  "apply_fee f ps ord ex =
     (if sell_token ord = fee_token f then
        rbind (unwrap (hm_get ps (buy_token ord))) (\<lambda>price_buy.
        rmap (\<lambda>s. Some (ex\<lparr>sell_amount := s\<rparr>))
          (executed_sell_amount f (buy_amount ex) price_buy BASE_PRICE))
      else
        rbind (unwrap (hm_get ps (sell_token ord))) (\<lambda>price_sell.
        rmap (map_option (\<lambda>b. ex\<lparr>buy_amount := b\<rparr>))
          (executed_buy_amount f (sell_amount ex) BASE_PRICE price_sell)))"

definition create_solution_with_fee ::
    "order \<times> order \<Rightarrow> fee \<Rightarrow> executed_order \<times> executed_order \<Rightarrow> price_map \<Rightarrow> solution res" where
  "create_solution_with_fee os f exs ps =
     (let pre_normalized_fee_price = (case hm_get ps (fee_token f) of Some p \<Rightarrow> p | None \<Rightarrow> 0) in
      if pre_normalized_fee_price = 0 then Ok trivial
      else rbind (normalize_prices ps pre_normalized_fee_price) (\<lambda>r.
        (case r of
           None \<Rightarrow> Ok trivial
         | Some ps' \<Rightarrow>
             rbind (apply_fee f ps' (fst os) (fst exs)) (\<lambda>ex0.
             (case ex0 of
                None \<Rightarrow> Ok trivial
              | Some e0 \<Rightarrow>
                  rmap (\<lambda>ex1.
                    (case ex1 of
                       None \<Rightarrow> trivial
                     | Some e1 \<Rightarrow> \<lparr>prices = ps', executed_orders = [e0, e1]\<rparr>))
                    (apply_fee f ps' (snd os) (snd exs)))))))"

definition remaining_order :: "order \<Rightarrow> order res" where
  "remaining_order ord =
     rmap (\<lambda>(buy, sell). ord\<lparr>numerator := buy, denominator := sell, remaining_sell_amount := sell\<rparr>)
       (compute_remaining_buy_sell_amounts ord)"

definition find_prices :: "fee option \<Rightarrow> order list \<Rightarrow> account_state \<Rightarrow> solution res" where
  "find_prices fee os st =
     rbind (traverse remaining_order os) (\<lambda>os.
     rbind (find_first_match os st fee) (\<lambda>m.
     (case m of
        None \<Rightarrow> Ok trivial
      | Some (t, x, y) \<Rightarrow>
          rbind (create_executed_orders (t, x, y) fee) (\<lambda>(exs, ps).
          (case fee of
             Some f \<Rightarrow> create_solution_with_fee (x, y) f exs ps
           | None \<Rightarrow> Ok \<lparr>prices = ps, executed_orders = [fst exs, snd exs]\<rparr>)))))"

section \<open>Matching without a fee\<close>

lemma u128_products_le:
  "rbind (u256_mul (ucast (a :: u128)) (ucast (b :: u128))) (\<lambda>l.
     rmap (\<lambda>r. l \<le> r) (u256_mul (ucast (c :: u128)) (ucast (d :: u128)))) =
     (Ok (unat a * unat b \<le> unat c * unat d) :: bool res)"
proof -
  obtain l where l: "u256_mul (ucast a) (ucast b) = (Ok l :: u256 res)" "unat l = unat a * unat b"
    using u256_mul_u128 by blast
  obtain r where r: "u256_mul (ucast c) (ucast d) = (Ok r :: u256 res)" "unat r = unat c * unat d"
    using u256_mul_u128 by blast
  show ?thesis
    using l r by (simp add: word_le_nat_alt)
qed

text \<open>The condition for a match, in terms of numbers.\<close>

definition matchable :: "account_state \<Rightarrow> order \<Rightarrow> order \<Rightarrow> bool" where
  "matchable st x y \<longleftrightarrow>
     sufficient_seller_funds x st \<and> sufficient_seller_funds y st \<and> opposite_tokens x y \<and>
     0 < unat (denominator x) \<and> 0 < unat (denominator y) \<and>
     unat (numerator x) * unat (numerator y) \<le> unat (denominator x) * unat (denominator y)"

lemma have_price_overlap_eq:
  "have_price_overlap x y =
     Ok (0 < unat (denominator x) \<and> 0 < unat (denominator y) \<and>
         unat (numerator x) * unat (numerator y) \<le> unat (denominator x) * unat (denominator y))"
  by (simp add: have_price_overlap_def u128_products_le word_less_nat_alt mult.commute)

definition pair_type :: "order \<Rightarrow> order \<Rightarrow> order_pair_type" where
  "pair_type x y =
     (if numerator x \<le> denominator y \<and> denominator x \<le> numerator y then LhsFullyFilled
      else if denominator y \<le> numerator x \<and> numerator y \<le> denominator x then RhsFullyFilled
      else BothFullyFilled)"

lemma match_compare_no_fee:
  "match_compare x y st None = Ok (if matchable st x y then Some (pair_type x y) else None)"
  by (auto simp: match_compare_def attracts_def have_price_overlap_eq matchable_def pair_type_def)

lemma find_match_for_no_fee:
  "\<exists>r. find_match_for x ys st None = Ok r \<and>
     (case r of
        None \<Rightarrow> \<forall>y \<in> set ys. \<not> matchable st x y
      | Some (t, x', y) \<Rightarrow> x' = x \<and> y \<in> set ys \<and> matchable st x y \<and> t = pair_type x y)"
proof (induction ys)
  case (Cons y ys)
  then obtain r where "find_match_for x ys st None = Ok r"
    "case r of None \<Rightarrow> \<forall>y \<in> set ys. \<not> matchable st x y
      | Some (t, x', y) \<Rightarrow> x' = x \<and> y \<in> set ys \<and> matchable st x y \<and> t = pair_type x y"
    by blast
  then show ?case
    by (cases "matchable st x y") (auto simp: match_compare_no_fee split: option.splits)
qed simp

lemma find_first_match_no_fee:
  "\<exists>r. find_first_match xs st None = Ok r \<and>
     (case r of
        None \<Rightarrow> \<forall>i j. i < j \<longrightarrow> j < length xs \<longrightarrow> \<not> matchable st (xs ! i) (xs ! j)
      | Some (t, x, y) \<Rightarrow> x \<in> set xs \<and> y \<in> set xs \<and> matchable st x y \<and>
          t = pair_type x y)"
proof (induction xs)
  case (Cons x xs)
  obtain r where r: "find_match_for x xs st None = Ok r"
    "case r of None \<Rightarrow> \<forall>y \<in> set xs. \<not> matchable st x y
      | Some (t, x', y) \<Rightarrow> x' = x \<and> y \<in> set xs \<and> matchable st x y \<and> t = pair_type x y"
    using find_match_for_no_fee by blast
  show ?case
  proof (cases r)
    case None
    obtain r' where r': "find_first_match xs st None = Ok r'"
      "case r' of None \<Rightarrow> \<forall>i j. i < j \<longrightarrow> j < length xs \<longrightarrow> \<not> matchable st (xs ! i) (xs ! j)
      | Some (t, x, y) \<Rightarrow> x \<in> set xs \<and> y \<in> set xs \<and> matchable st x y \<and>
          t = pair_type x y"
      using Cons by blast
    show ?thesis
    proof (cases r')
      case None': None
      have "\<not> matchable st ((x # xs) ! i) ((x # xs) ! j)" if "i < j" "j < length (x # xs)" for i j
        using that r(2) r'(2) None None' by (cases i; cases j) auto
      then show ?thesis
        using r(1) r'(1) None None' by simp
    next
      case (Some p)
      then show ?thesis
        using r(1) r'(1,2) None by auto
    qed
  next
    case (Some p)
    then show ?thesis
      using r by auto
  qed
qed simp

section \<open>Validity of the solution without a fee\<close>

text \<open>What the exchange demands of an executed order.\<close>

definition respects_limits :: "account_state \<Rightarrow> order \<Rightarrow> executed_order \<Rightarrow> bool" where
  "respects_limits st ord ex \<longleftrightarrow>
     ex_account_id ex = account_id ord \<and> ex_order_id ex = oid ord \<and>
     sell_amount ex \<le> remaining_sell_amount ord \<and>
     ucast (sell_amount ex) \<le> read_balance st (sell_token ord) (account_id ord) \<and>
     unat (sell_amount ex) * unat (numerator ord) \<le> unat (buy_amount ex) * unat (denominator ord)"

lemma remaining_order_Ok:
  assumes "within_limits ord"
  obtains r where "remaining_order ord = Ok r" "denominator r = remaining_sell_amount ord"
    "remaining_sell_amount r = remaining_sell_amount ord" "buy_token r = buy_token ord"
    "sell_token r = sell_token ord" "account_id r = account_id ord" "oid r = oid ord"
    "unat (remaining_sell_amount ord) * unat (numerator ord) \<le> unat (numerator r) * unat (denominator ord)"
proof -
  obtain buy where "compute_remaining_buy_sell_amounts ord = (Ok (buy, remaining_sell_amount ord) :: (u128 \<times> u128) res)"
    "unat (remaining_sell_amount ord) * unat (numerator ord) \<le> unat buy * unat (denominator ord)"
    using assms compute_remaining_amounts_Ok
    unfolding within_limits_def compute_remaining_buy_sell_amounts_def by blast
  then show ?thesis
    by (intro that [of "ord\<lparr>numerator := buy, denominator := remaining_sell_amount ord,
         remaining_sell_amount := remaining_sell_amount ord\<rparr>"]) (simp_all add: remaining_order_def)
qed

text \<open>An execution within the limits of the remaining order is one of the order itself.\<close>

lemma respects_limits_remaining:
  assumes "within_limits ord" "remaining_order ord = Ok r" "0 < remaining_sell_amount ord"
    and "sell_amount ex \<le> denominator r" "sufficient_seller_funds r st"
    and "unat (sell_amount ex) * unat (numerator r) \<le> unat (buy_amount ex) * unat (denominator r)"
    and "ex_account_id ex = account_id r" "ex_order_id ex = oid r"
  shows "respects_limits st ord ex"
proof -
  obtain r' where r': "remaining_order ord = Ok r'" "denominator r' = remaining_sell_amount ord"
    "remaining_sell_amount r' = remaining_sell_amount ord" "sell_token r' = sell_token ord"
    "account_id r' = account_id ord" "oid r' = oid ord"
    "unat (remaining_sell_amount ord) * unat (numerator ord) \<le> unat (numerator r') * unat (denominator ord)"
    by (rule remaining_order_Ok [OF assms(1)])
  have [simp]: "r' = r"
    using r'(1) assms(2) by simp
  define s b n d m where "s = unat (sell_amount ex)" and "b = unat (buy_amount ex)"
    and "n = unat (numerator ord)" and "d = unat (denominator ord)" and "m = unat (remaining_sell_amount ord)"
  have "s * unat (numerator r) \<le> b * m" "m * n \<le> unat (numerator r) * d" "0 < m"
    using assms(3,6) r'(2,7) by (simp_all add: s_def b_def n_def d_def m_def word_less_nat_alt)
  then have "s * (m * n) \<le> s * (unat (numerator r) * d)" "s * unat (numerator r) * d \<le> b * m * d"
    by (simp_all only: mult_le_mono le_refl)
  then have "m * (s * n) \<le> m * (b * d)"
    by (simp only: ac_simps)
  then have "s * n \<le> b * d"
    using \<open>0 < m\<close> by simp
  moreover have "(ucast (sell_amount ex) :: u256) \<le> ucast (remaining_sell_amount r)"
    using assms(4) r'(2,3) by (simp add: word_le_nat_alt)
  then have "ucast (sell_amount ex) \<le> read_balance st (sell_token ord) (account_id ord)"
    using assms(5) r'(4,5) unfolding sufficient_seller_funds_def by (auto intro: order_trans)
  ultimately show ?thesis
    using assms(4,7,8) r'(2,5,6) by (simp add: respects_limits_def s_def b_def n_def d_def)
qed

text \<open>The amounts of a trade between two orders, in the three cases of a match.\<close>

lemma both_filled_excludes:
  fixes a b c d :: nat
  assumes "a * b \<le> c * d" "0 < c" "0 < d" "\<not> (a \<le> d \<and> c \<le> b)" "\<not> (d \<le> a \<and> b \<le> c)"
  shows "a \<le> d" "b \<le> c"
proof -
  have False if "d < a" "c < b"
  proof -
    have "c * d < b * a"
      using that assms(2,3) by (intro mult_strict_mono) auto
    with assms(1) show False by (simp add: mult.commute)
  qed
  then have "\<not> (d < a \<and> c < b)" by blast
  with assms(4,5) show "a \<le> d" "b \<le> c" by auto
qed

lemma create_executed_orders_no_fee:
  assumes "matchable st x y" "t = pair_type x y"
  shows "\<exists>ex ey ps. create_executed_orders (t, x, y) None = Ok ((ex, ey), ps) \<and>
     sell_amount ex = buy_amount ey \<and> buy_amount ex = sell_amount ey \<and>
     sell_amount ex \<le> denominator x \<and> sell_amount ey \<le> denominator y \<and>
     unat (sell_amount ex) * unat (numerator x) \<le> unat (buy_amount ex) * unat (denominator x) \<and>
     unat (sell_amount ey) * unat (numerator y) \<le> unat (buy_amount ey) * unat (denominator y) \<and>
     ex_account_id ex = account_id x \<and> ex_order_id ex = oid x \<and>
     ex_account_id ey = account_id y \<and> ex_order_id ey = oid y \<and>
     (buy_token x \<noteq> sell_token x \<longrightarrow>
        (\<exists>pb ps'. hm_get ps (buy_token x) = Some pb \<and> hm_get ps (sell_token x) = Some ps' \<and>
           unat pb * unat (buy_amount ex) = unat ps' * unat (sell_amount ex)))"
proof -
  have tok: "buy_token x = sell_token y" "sell_token x = buy_token y"
    and pos: "0 < unat (denominator x)" "0 < unat (denominator y)"
    and overlap: "unat (numerator x) * unat (numerator y) \<le> unat (denominator x) * unat (denominator y)"
    using assms(1) by (simp_all add: matchable_def opposite_tokens_def)
  note t = assms(2) [unfolded pair_type_def]
  note le = word_le_nat_alt [where 'a = 128]
  show ?thesis
  proof (cases t)
    case LhsFullyFilled
    then have "unat (numerator x) \<le> unat (denominator y)"
      using t by (simp add: le split: if_splits)
    then show ?thesis
      using LhsFullyFilled overlap tok
      by (simp add: create_executed_orders_def order_with_buffer_for_fee_def create_executed_order_def le mult.commute)
  next
    case RhsFullyFilled
    then have "unat (numerator y) \<le> unat (denominator x)"
      using t by (simp add: le split: if_splits)
    then show ?thesis
      using RhsFullyFilled overlap tok
      by (simp add: create_executed_orders_def order_with_buffer_for_fee_def create_executed_order_def le mult.commute)
  next
    case BothFullyFilled
    have "unat (numerator x) \<le> unat (denominator y)" "unat (numerator y) \<le> unat (denominator x)"
      using both_filled_excludes [OF overlap pos] t BothFullyFilled by (simp_all add: le split: if_splits)
    then show ?thesis
      using BothFullyFilled tok
      by (simp add: create_executed_orders_def order_with_buffer_for_fee_def create_executed_order_def le mult.commute
          mult_le_mono)
  qed
qed

lemma find_prices_without_fee:
  assumes "list_all within_limits os" "list_all (\<lambda>ord. 0 < remaining_sell_amount ord) os"
  shows "\<exists>sol rs. find_prices None os st = Ok sol \<and> traverse remaining_order os = Ok rs \<and>
    (sol = trivial \<and> (\<forall>i j. i < j \<longrightarrow> j < length os \<longrightarrow> \<not> matchable st (rs ! i) (rs ! j)) \<or>
     (\<exists>x \<in> set os. \<exists>y \<in> set os. \<exists>ex ey. executed_orders sol = [ex, ey] \<and> opposite_tokens x y \<and>
        respects_limits st x ex \<and> respects_limits st y ey \<and>
        sell_amount ex = buy_amount ey \<and> buy_amount ex = sell_amount ey \<and>
        (buy_token x \<noteq> sell_token x \<longrightarrow>
           (\<exists>pb ps. hm_get (prices sol) (buy_token x) = Some pb \<and> hm_get (prices sol) (sell_token x) = Some ps \<and>
              unat pb * unat (buy_amount ex) = unat ps * unat (sell_amount ex)))))"
proof -
  have "is_ok (traverse remaining_order os)"
    using assms(1) by (intro traverse_Ok_all) (auto simp: list_all_iff is_ok_iff elim!: remaining_order_Ok)
  then obtain rs where rs: "traverse remaining_order os = Ok rs"
    by (auto simp: is_ok_iff)
  then have len: "length rs = length os"
    by (simp add: traverse_eq_Ok list_all2_lengthD)
  obtain m where m: "find_first_match rs st None = Ok m"
    "case m of None \<Rightarrow> \<forall>i j. i < j \<longrightarrow> j < length rs \<longrightarrow> \<not> matchable st (rs ! i) (rs ! j)
      | Some (t, x, y) \<Rightarrow> x \<in> set rs \<and> y \<in> set rs \<and> matchable st x y \<and>
          t = pair_type x y"
    using find_first_match_no_fee by blast
  show ?thesis
  proof (cases m)
    case None
    then show ?thesis
      using m rs len by (auto simp: find_prices_def)
  next
    case (Some p)
    then obtain t x y where p: "p = (t, x, y)" "x \<in> set rs" "y \<in> set rs" "matchable st x y"
      "t = pair_type x y"
      using m(2) by (cases p) auto
    obtain x0 where x0: "x0 \<in> set os" "remaining_order x0 = Ok x"
      using p(2) traverse_Ok_set [OF rs] by blast
    obtain y0 where y0: "y0 \<in> set os" "remaining_order y0 = Ok y"
      using p(3) traverse_Ok_set [OF rs] by blast
    have in_os: "within_limits z" "0 < remaining_sell_amount z" if "z \<in> set os" for z
      using assms that by (auto simp: list_all_iff)
    have same: "buy_token r = buy_token z \<and> sell_token r = sell_token z"
      if "z \<in> set os" "remaining_order z = Ok r" for z r
      using remaining_order_Ok [OF in_os(1) [OF that(1)]] that(2) by (metis result.inject(1))
    from create_executed_orders_no_fee [OF p(4,5)] obtain ex ey ps where ex:
      "create_executed_orders (t, x, y) None = Ok ((ex, ey), ps)"
      "sell_amount ex = buy_amount ey" "buy_amount ex = sell_amount ey"
      "sell_amount ex \<le> denominator x" "sell_amount ey \<le> denominator y"
      "unat (sell_amount ex) * unat (numerator x) \<le> unat (buy_amount ex) * unat (denominator x)"
      "unat (sell_amount ey) * unat (numerator y) \<le> unat (buy_amount ey) * unat (denominator y)"
      "ex_account_id ex = account_id x" "ex_order_id ex = oid x"
      "ex_account_id ey = account_id y" "ex_order_id ey = oid y"
      "buy_token x \<noteq> sell_token x \<longrightarrow>
         (\<exists>pb ps'. hm_get ps (buy_token x) = Some pb \<and> hm_get ps (sell_token x) = Some ps' \<and>
            unat pb * unat (buy_amount ex) = unat ps' * unat (sell_amount ex))"
      by blast
    have "respects_limits st x0 ex" "respects_limits st y0 ey"
      using ex p(4) by (intro respects_limits_remaining [OF in_os(1) [OF x0(1)] x0(2) in_os(2) [OF x0(1)]]
          respects_limits_remaining [OF in_os(1) [OF y0(1)] y0(2) in_os(2) [OF y0(1)]];
          simp add: matchable_def)+
    moreover have "find_prices None os st = Ok \<lparr>prices = ps, executed_orders = [ex, ey]\<rparr>"
      using rs m(1) Some p(1) ex(1) by (simp add: find_prices_def)
    moreover have "opposite_tokens x0 y0"
      using p(4) same [OF x0] same [OF y0] by (simp add: matchable_def opposite_tokens_def)
    moreover have "buy_token x0 \<noteq> sell_token x0 \<longrightarrow>
         (\<exists>pb ps'. hm_get ps (buy_token x0) = Some pb \<and> hm_get ps (sell_token x0) = Some ps' \<and>
            unat pb * unat (buy_amount ex) = unat ps' * unat (sell_amount ex))"
      using ex(12) same [OF x0] by simp
    ultimately show ?thesis
      using ex(2,3) rs x0(1) y0(1)
      by (intro exI [of _ "\<lparr>prices = ps, executed_orders = [ex, ey]\<rparr>"] exI [of _ rs] conjI disjI2
          bexI [of _ x0] bexI [of _ y0] exI [of _ ex] exI [of _ ey]) simp_all
  qed
qed

text \<open>
  C14: without a fee the solver always returns, and what it returns is settleable.  Either no two
  orders match and the solution is trivial, or exactly two orders of the auction are executed: each
  stays within its limit price, its remaining amount and its owner's balance, what one sells the
  other buys, and the prices value both sides of the trade equally.
\<close>

theorem naive_solution_without_fee_valid:
  assumes "list_all within_limits os" "list_all (\<lambda>ord. 0 < remaining_sell_amount ord) os"
    and "list_all (\<lambda>ord. buy_token ord \<noteq> sell_token ord) os"
  shows "\<exists>sol rs. find_prices None os st = Ok sol \<and> traverse remaining_order os = Ok rs \<and>
    (sol = trivial \<and> (\<forall>i j. i < j \<longrightarrow> j < length os \<longrightarrow> \<not> matchable st (rs ! i) (rs ! j)) \<or>
     (\<exists>x \<in> set os. \<exists>y \<in> set os. \<exists>ex ey pb ps. executed_orders sol = [ex, ey] \<and> opposite_tokens x y \<and>
        respects_limits st x ex \<and> respects_limits st y ey \<and>
        sell_amount ex = buy_amount ey \<and> buy_amount ex = sell_amount ey \<and>
        hm_get (prices sol) (buy_token x) = Some pb \<and> hm_get (prices sol) (sell_token x) = Some ps \<and>
        unat pb * unat (buy_amount ex) = unat ps * unat (sell_amount ex)))"
proof -
  have distinct: "buy_token x \<noteq> sell_token x" if "x \<in> set os" for x
    using assms(3) that by (simp add: list_all_iff)
  from find_prices_without_fee [OF assms(1,2), of st] show ?thesis
    by (elim exE conjE disjE bexE; intro exI conjI; assumption?)
      (use distinct in \<open>simp; blast\<close>)+
qed

definition sample_pair :: "order list" where
  "sample_pair =
     [\<lparr>oid = 0, account_id = 7, buy_token = 0, sell_token = 1, numerator = 1000, denominator = 1000,
       remaining_sell_amount = 1000, valid_from = 0, valid_until = 9\<rparr>,
      \<lparr>oid = 0, account_id = 8, buy_token = 1, sell_token = 0, numerator = 1000, denominator = 1000,
       remaining_sell_amount = 1000, valid_from = 0, valid_until = 9\<rparr>]"

definition sample_funds :: account_state where
  "sample_funds = [((7, 1), 1000), ((8, 0), 1000)]"

lemma naive_solution_without_fee_valid_witness:
  "\<exists>sol rs. find_prices None sample_pair sample_funds = Ok sol \<and> traverse remaining_order sample_pair = Ok rs"
proof -
  have "list_all within_limits sample_pair" "list_all (\<lambda>ord. 0 < remaining_sell_amount ord) sample_pair"
    "list_all (\<lambda>ord. buy_token ord \<noteq> sell_token ord) sample_pair"
    by (simp_all add: sample_pair_def within_limits_def)
  from naive_solution_without_fee_valid [OF this, of sample_funds] show ?thesis by blast
qed

section \<open>Price finders\<close>

text \<open>
  What the driver relies on in a price finder that solves an auction whose orders are within their
  limits: it does not panic, and what it executes respects the limits of the orders.
\<close>

locale price_finding =
  fixes finder :: "order list \<Rightarrow> account_state \<Rightarrow> duration \<Rightarrow> u128 \<Rightarrow> solution res"
  assumes finder_no_panic:
      "list_all within_limits os \<Longrightarrow> list_all (\<lambda>ord. 0 < remaining_sell_amount ord) os \<Longrightarrow>
       finder os st limit fee \<noteq> Panic"
    and finder_valid:
      "list_all within_limits os \<Longrightarrow> list_all (\<lambda>ord. 0 < remaining_sell_amount ord) os \<Longrightarrow>
       finder os st limit fee = Ok sol \<Longrightarrow> ex \<in> set (executed_orders sol) \<Longrightarrow>
       \<exists>ord \<in> set os. respects_limits st ord ex"

interpretation naive: price_finding "\<lambda>os st limit fee. find_prices None os st"
proof
  fix os st
  assume os: "list_all within_limits os" "list_all (\<lambda>ord. 0 < remaining_sell_amount ord) os"
  note valid = find_prices_without_fee [OF os, of st]
  show "find_prices None os st \<noteq> Panic"
    using valid by auto
  show "\<exists>ord \<in> set os. respects_limits st ord ex"
    if "find_prices None os st = Ok sol" "ex \<in> set (executed_orders sol)" for sol ex
    using valid that by (auto simp: trivial_def)
qed

section \<open>Solutions with a fee\<close>

lemma normalize_price_self:
  assumes "normalize_price p p = Ok (Some q)" "p \<noteq> 0"
  shows "q = BASE_PRICE"
proof -
  obtain c d where c: "u256_mul (ucast p) (ucast BASE_PRICE) = (Ok c :: u256 res)"
    and d: "ceiled_div c (ucast p) = (Ok d :: u256 res)" "as_u128_checked d = Some q"
    using assms(1) by (auto simp: normalize_price_def rbind_eq_Ok)
  have "unat c = unat p * unat BASE_PRICE"
    using c by (simp add: u256_mul_u128_Ok)
  moreover have "unat q = (unat c + unat p - 1) div unat p"
    using d by (simp add: ceiled_div_eq_Ok as_u128_checked_eq_Some)
  moreover have "0 < unat p"
    using assms(2) by (simp add: unat_gt_0)
  then have "(unat p * unat BASE_PRICE + unat p - 1) div unat p = unat BASE_PRICE"
    by (intro div_nat_eqI) (simp_all add: algebra_simps)
  ultimately show ?thesis
    by (simp add: word_unat_eq_iff)
qed

lemma normalize_prices_lookup:
  assumes "normalize_prices ps f = Ok (Some ps')" "hm_get ps k = Some p"
  shows "\<exists>p'. hm_get ps' k = Some p' \<and> normalize_price p f = Ok (Some p')"
  using assms
  by (induction ps f arbitrary: ps' rule: normalize_prices.induct)
    (auto simp: rbind_eq_Ok eq_commute [of "Some _" "map_option _ _"] split: option.splits if_splits)

text \<open>
  The relation between the executed amounts of an order that the exchange contract checks: the
  sell amount is the one that the buy amount, the prices and the fee determine.
\<close>

definition fee_consistent :: "fee \<Rightarrow> price_map \<Rightarrow> order \<Rightarrow> executed_order \<Rightarrow> bool" where
  "fee_consistent f ps ord ex \<longleftrightarrow>
     (case (hm_get ps (buy_token ord), hm_get ps (sell_token ord)) of
        (Some pb, Some psl) \<Rightarrow> executed_sell_amount f (buy_amount ex) pb psl = Ok (sell_amount ex)
      | _ \<Rightarrow> False)"

lemma executed_buy_amount_inverts:
  "executed_buy_amount f sell pb ps = Ok (Some buy) \<Longrightarrow> executed_sell_amount f buy pb ps = Ok sell"
  by (auto simp: executed_buy_amount_def Let_def rbind_eq_Ok split: if_splits)

lemma apply_fee_consistent:
  assumes "apply_fee f ps ord ex = Ok (Some ex')" "hm_get ps (fee_token f) = Some BASE_PRICE"
    and "sell_token ord = fee_token f \<or> buy_token ord = fee_token f"
  shows "fee_consistent f ps ord ex'"
proof (cases "sell_token ord = fee_token f")
  case True
  then show ?thesis
    using assms(1,2) by (auto simp: apply_fee_def rbind_eq_Ok fee_consistent_def)
next
  case False
  then show ?thesis
    using assms by (auto simp: apply_fee_def rbind_eq_Ok fee_consistent_def executed_buy_amount_inverts
        eq_commute [of "Some _" "map_option _ _"])
qed

lemma create_solution_with_fee_consistent:
  assumes "create_solution_with_fee (x, y) f exs ps = Ok sol" "sol \<noteq> trivial"
    and "\<And>ord. ord = x \<or> ord = y \<Longrightarrow> sell_token ord = fee_token f \<or> buy_token ord = fee_token f"
  shows "\<exists>ex ey. executed_orders sol = [ex, ey] \<and> hm_get (prices sol) (fee_token f) = Some BASE_PRICE \<and>
    fee_consistent f (prices sol) x ex \<and> fee_consistent f (prices sol) y ey"
proof -
  obtain fp ps' ex ey where fp: "hm_get ps (fee_token f) = Some fp" "fp \<noteq> 0"
    and ps': "normalize_prices ps fp = Ok (Some ps')"
    and ex: "apply_fee f ps' x (fst exs) = Ok (Some ex)" and ey: "apply_fee f ps' y (snd exs) = Ok (Some ey)"
    and sol: "sol = \<lparr>prices = ps', executed_orders = [ex, ey]\<rparr>"
    using assms(1,2)
    by (auto simp: create_solution_with_fee_def Let_def rbind_eq_Ok split: option.splits if_splits)
  have "hm_get ps' (fee_token f) = Some BASE_PRICE"
    using normalize_prices_lookup [OF ps' fp(1)] normalize_price_self [OF _ fp(2)] by auto
  with apply_fee_consistent [OF ex] apply_fee_consistent [OF ey] assms(3) sol show ?thesis
    by auto
qed

lemma attracts_fee:
  "attracts x y (Some f) = Ok True \<Longrightarrow> opposite_tokens x y \<and> (sell_token x = fee_token f \<or> buy_token x = fee_token f)"
  by (auto simp: attracts_def split: if_splits)

lemma find_match_for_attracts:
  "find_match_for x' ys st fee = Ok (Some (t, x, y)) \<Longrightarrow> x' = x \<and> y \<in> set ys \<and> attracts x y fee = Ok True"
  by (induction ys) (auto simp: rbind_eq_Ok match_compare_def split: option.splits if_splits)

lemma find_first_match_attracts:
  "find_first_match xs st fee = Ok (Some (t, x, y)) \<Longrightarrow> x \<in> set xs \<and> y \<in> set xs \<and> attracts x y fee = Ok True"
  by (induction xs) (auto simp: rbind_eq_Ok split: option.splits dest!: find_match_for_attracts)

text \<open>
  Every solution with a fee that is not trivial prices the fee token at the base price and
  executes two orders of opposite tokens, and the sell amount of each is exactly the amount that
  its buy amount, the prices and the fee determine.
\<close>

theorem naive_solution_with_fee_consistent:
  assumes "find_prices (Some f) os st = Ok sol" "sol \<noteq> trivial"
  shows "\<exists>rs x y ex ey. traverse remaining_order os = Ok rs \<and> x \<in> set rs \<and> y \<in> set rs \<and> opposite_tokens x y \<and>
    executed_orders sol = [ex, ey] \<and> hm_get (prices sol) (fee_token f) = Some BASE_PRICE \<and>
    fee_consistent f (prices sol) x ex \<and> fee_consistent f (prices sol) y ey"
proof -
  obtain rs t x y exs ps where rs: "traverse remaining_order os = Ok rs"
    and m: "find_first_match rs st (Some f) = Ok (Some (t, x, y))"
    and sol: "create_solution_with_fee (x, y) f exs ps = Ok sol"
    using assms by (auto simp: find_prices_def rbind_eq_Ok split: option.splits)
  have "attracts x y (Some f) = Ok True" and in_rs: "x \<in> set rs" "y \<in> set rs"
    using find_first_match_attracts [OF m] by simp_all
  then have opp: "opposite_tokens x y" and "sell_token x = fee_token f \<or> buy_token x = fee_token f"
    using attracts_fee by blast+
  then have "sell_token ord = fee_token f \<or> buy_token ord = fee_token f" if "ord = x \<or> ord = y" for ord
    using that by (auto simp: opposite_tokens_def)
  from create_solution_with_fee_consistent [OF sol assms(2) this] rs in_rs opp show ?thesis
    by blast
qed

section \<open>Solutions with a fee can violate limits\<close>

lemma fee_denominator_default: "fee_denominator default_fee = 1000"
proof -
  have "f64_round (1 / 1000) = Num (1152921504606847 / 1152921504606846976)"
    using f64_round_eval [of "- 10" "1 / 1000" 4611686018427388] by (simp add: pow2_def round_half_even_def Let_def)
  moreover have "f64_round (1 / (1152921504606847 / 1152921504606846976)) = Num 1000"
    using f64_round_eval [of 9 "1 / (1152921504606847 / 1152921504606846976)" 8796093022208000]
    by (simp add: pow2_def round_half_even_def Let_def)
  ultimately show ?thesis
    by (simp add: fee_denominator_def default_fee_def f64_div_def sgn_neg_def)
qed

lemma as_u128_checked_if: "as_u128_checked x = (if unat x < 2 ^ 128 then Some (ucast x) else None)"
proof -
  have "x \<le> ucast (- 1 :: u128) \<longleftrightarrow> unat x < 2 ^ 128"
    unfolding word_le_nat_alt unat_ucast_u128 unat_max_u128 by auto
  then show ?thesis
    by (simp add: as_u128_checked_def)
qed

lemma fee_token_default: "fee_token default_fee = 0"
  by (simp add: default_fee_def)

definition overfilled :: solution where
  "overfilled =
     \<lparr>prices = [(0, 1000000000000000000), (1, 1002000000000000000)],
      executed_orders =
        [\<lparr>ex_account_id = 7, ex_order_id = 0, sell_amount = 1000, buy_amount = 1001\<rparr>,
         \<lparr>ex_account_id = 8, ex_order_id = 0, sell_amount = 1003, buy_amount = 1000\<rparr>]\<rparr>"

lemmas solver_eval =
  find_prices_def remaining_order_def compute_remaining_buy_sell_amounts_def compute_remaining_amounts_def
  u256_mul_def u256_div_def checked_mul_def checked_div_def checked_add_def checked_sub_def ceiled_div_def
  as_u128_def as_u128_checked_if match_compare_def attracts_def opposite_tokens_def have_price_overlap_def
  trades_fee_token_def sufficient_seller_funds_def read_balance_def create_executed_orders_def
  order_with_buffer_for_fee_def create_executed_order_def create_solution_with_fee_def normalize_price_def
  apply_fee_def executed_sell_amount_def executed_buy_amount_def fee_denominator_default fee_token_default
  BASE_PRICE_def BASE_UNIT_def Let_def

lemma sample_pair_overfilled: "find_prices (Some default_fee) sample_pair sample_funds = Ok overfilled"
  by (simp add: sample_pair_def sample_funds_def overfilled_def solver_eval)

text \<open>
  With the default fee, two orders that match exactly at the same price lead to a solution
  that sells more of the second order than it has left and than its owner owns.
\<close>

theorem naive_solution_with_fee_overfills:
  "\<exists>sol. find_prices (Some default_fee) sample_pair sample_funds = Ok sol \<and>
     sell_amount (executed_orders sol ! 1) = 1003 \<and> remaining_sell_amount (sample_pair ! 1) = 1000 \<and>
     \<not> respects_limits sample_funds (sample_pair ! 1) (executed_orders sol ! 1)"
  using sample_pair_overfilled by (simp add: overfilled_def sample_pair_def respects_limits_def)

lemma naive_solution_with_fee_consistent_witness:
  "\<exists>x y ex ey. executed_orders overfilled = [ex, ey] \<and>
     fee_consistent default_fee (prices overfilled) x ex \<and> fee_consistent default_fee (prices overfilled) y ey"
proof -
  have "overfilled \<noteq> trivial"
    by (simp add: overfilled_def trivial_def)
  from naive_solution_with_fee_consistent [OF sample_pair_overfilled this] show ?thesis
    by blast
qed

end
