(* ===== verification/EconomicViability.thy ===== *)
theory EconomicViability
  imports F64 Models
begin

text \<open>
  When submitting a solution is worth its gas (\<open>src/services-core/src/economic_viability.rs\<close>): the
  minimum average fee per order that is demanded of the solver, and the gas price up to which a
  solution may be submitted.  The price oracle, the gas station and the lossy conversion of 256
  bit integers to floating point numbers are parameters.
\<close>

definition GAS_PER_TRADE :: f64 where
  "GAS_PER_TRADE = Num 120000"

text \<open>The trait \<open>EconomicViabilityComputing\<close>.\<close>

record viability =
  min_average_fee :: "u128 res"
  max_gas_price :: "economic_viability_info \<Rightarrow> f64 res"

definition min_average_fee_of :: "f64 \<Rightarrow> f64 \<Rightarrow> f64" where
  "min_average_fee_of native gas =
     (let owl_per_eth = f64_div native (Num (10 ^ 18));
          gas_price_in_owl = f64_mul owl_per_eth gas
      in f64_mul GAS_PER_TRADE gas_price_in_owl)"

definition gas_price_cap :: "f64 \<Rightarrow> f64 \<Rightarrow> nat \<Rightarrow> f64" where
  "gas_price_cap native earned num_trades =
     (let owl_per_eth = f64_div native (Num (10 ^ 18));
          gas_use = f64_mul GAS_PER_TRADE (f64_of_nat num_trades)
      in f64_div earned (f64_mul owl_per_eth gas_use))"

text \<open>What the dynamic computer sees of its surroundings.\<close>

record market =
  native_token_price :: "u128 option"
  gas_estimate :: "f64 res"
  to_f64_lossy :: "u256 \<Rightarrow> f64"

definition native_token_price_in_owl :: "market \<Rightarrow> f64 res" where
  "native_token_price_in_owl mk =
     ok_or (map_option (\<lambda>p. f64_of_nat (unat p)) (native_token_price mk))
       ''failed to find native token price estimate''"

definition gas_price :: "market \<Rightarrow> f64 res" where
  "gas_price mk = (case gas_estimate mk of Err e \<Rightarrow> Err ''failed to get gas price'' | r \<Rightarrow> r)"

definition dynamic_viability :: "market \<Rightarrow> f64 \<Rightarrow> f64 \<Rightarrow> viability" where
  "dynamic_viability mk subsidy_factor min_avg_fee_factor =
     \<lparr>min_average_fee =
        rbind (native_token_price_in_owl mk) (\<lambda>native.
        rbind (gas_price mk) (\<lambda>gas.
        let fee = f64_mul (min_average_fee_of native gas) min_avg_fee_factor;
            subsidized = f64_div fee subsidy_factor
        in Ok (f64_as_u128 subsidized))),
      max_gas_price = (\<lambda>info.
        rbind (native_token_price_in_owl mk) (\<lambda>native.
        let cap = gas_price_cap native (to_f64_lossy mk (info_earned_fee info)) (num_executed_orders info)
        in Ok (f64_mul cap subsidy_factor)))\<rparr>"

definition fixed_viability :: "u128 \<Rightarrow> f64 \<Rightarrow> viability" where
  "fixed_viability fee gas = \<lparr>min_average_fee = Ok fee, max_gas_price = (\<lambda>info. Ok gas)\<rparr>"

definition combined_viability :: "(u256 \<Rightarrow> f64) \<Rightarrow> u128 \<Rightarrow> f64 \<Rightarrow> viability \<Rightarrow> viability" where
  "combined_viability lossy fixed_fee fixed_gas dynamic =
     \<lparr>min_average_fee =
        (case min_average_fee dynamic of
           Ok fee \<Rightarrow> Ok (min fee fixed_fee)
         | Err e \<Rightarrow> Ok fixed_fee
         | Panic \<Rightarrow> Panic),
      max_gas_price = (\<lambda>info.
        let avg_fee = f64_div (lossy (info_earned_fee info)) (f64_of_nat (num_executed_orders info))
        in if f64_less avg_fee (f64_of_nat (unat fixed_fee)) then max_gas_price dynamic info
           else Ok fixed_gas)\<rparr>"

datatype viability_strategy = StaticStrategy | DynamicStrategy | CombinedStrategy

definition viability_from_arguments ::
    "viability_strategy \<Rightarrow> f64 \<Rightarrow> f64 \<Rightarrow> u128 option \<Rightarrow> u128 option \<Rightarrow> market \<Rightarrow> viability res" where
  "viability_from_arguments strategy subsidy_factor min_avg_fee_factor static_fee static_gas mk =
     (let dynamic = dynamic_viability mk subsidy_factor min_avg_fee_factor;
          fixed = rbind (ok_or static_fee ''no min_avg_fee passed.'') (\<lambda>fee.
                  rbind (ok_or static_gas ''no max_gas_price passed.'') (\<lambda>gas.
                  Ok (fee, f64_of_nat (unat gas))))
      in (case strategy of
            DynamicStrategy \<Rightarrow> Ok dynamic
          | StaticStrategy \<Rightarrow> rmap (\<lambda>(fee, gas). fixed_viability fee gas) fixed
          | CombinedStrategy \<Rightarrow>
              rmap (\<lambda>(fee, gas). combined_viability (to_f64_lossy mk) fee gas dynamic) fixed))"

section \<open>Properties\<close>

text \<open>
  The combined strategy does not depend on the oracle and the gas station being available: it
  always has a minimum average fee, never above the configured one, and it is the dynamic one
  whenever that is known and lower.  A solution whose average fee reaches the configured minimum
  may always be submitted up to the configured gas price; only solutions below it fall back to
  the dynamic gas price.
\<close>

lemma combined_min_average_fee:
  assumes "min_average_fee dynamic \<noteq> Panic"
  shows "\<exists>fee. min_average_fee (combined_viability lossy fixed_fee fixed_gas dynamic) = Ok fee \<and>
    fee \<le> fixed_fee \<and> (\<forall>d. min_average_fee dynamic = Ok d \<longrightarrow> fee \<le> d) \<and>
    (fee = fixed_fee \<or> min_average_fee dynamic = Ok fee)"
  using assms by (cases "min_average_fee dynamic") (auto simp: combined_viability_def min_def)

lemma dynamic_not_Panic:
  "gas_estimate mk \<noteq> Panic \<Longrightarrow> min_average_fee (dynamic_viability mk s m) \<noteq> Panic"
  "max_gas_price (dynamic_viability mk s m) info \<noteq> Panic"
  by (auto simp: dynamic_viability_def native_token_price_in_owl_def gas_price_def rbind_eq_Panic Let_def
      split: result.splits)

text \<open>
  A combined strategy that was configured is always able to state a minimum average fee,
  whatever the price oracle and the gas station answer.  The fee is never above the configured one
  and never above the dynamic one, and a solution whose average fee is not below the configured
  minimum may be submitted up to the configured gas price.
\<close>

theorem combined_strategy_total:
  assumes "viability_from_arguments CombinedStrategy s m (Some fee) (Some gas) mk = Ok v"
    and "gas_estimate mk \<noteq> Panic"
  shows "\<exists>f. min_average_fee v = Ok f \<and> f \<le> fee \<and>
    (\<forall>d. min_average_fee (dynamic_viability mk s m) = Ok d \<longrightarrow> f \<le> d) \<and>
    (\<forall>info. \<not> f64_less (f64_div (to_f64_lossy mk (info_earned_fee info)) (f64_of_nat (num_executed_orders info)))
                (f64_of_nat (unat fee)) \<longrightarrow>
       max_gas_price v info = Ok (f64_of_nat (unat gas)))"
proof -
  have v: "v = combined_viability (to_f64_lossy mk) fee (f64_of_nat (unat gas)) (dynamic_viability mk s m)"
    using assms(1) by (simp add: viability_from_arguments_def Let_def)
  show ?thesis
    using combined_min_average_fee [OF dynamic_not_Panic(1) [OF assms(2)], of "to_f64_lossy mk" fee _ s m]
    unfolding v by (auto simp: combined_viability_def Let_def)
qed

lemma combined_strategy_total_witness:
  "\<exists>v f. viability_from_arguments CombinedStrategy (Num 10) (Num 1) (Some 5) (Some 7)
       \<lparr>native_token_price = None, gas_estimate = Err ''offline'', to_f64_lossy = (\<lambda>n. f64_of_nat (unat n))\<rparr> = Ok v \<and>
     min_average_fee v = Ok f \<and> f \<le> 5"
  using combined_strategy_total [of "Num 10" "Num 1" 5 7
      "\<lparr>native_token_price = None, gas_estimate = Err ''offline'', to_f64_lossy = (\<lambda>n. f64_of_nat (unat n))\<rparr>"]
  by (auto simp: viability_from_arguments_def Let_def)

end
