(* ===== verification/SolutionSubmission.thy ===== *)
theory SolutionSubmission
  imports F64 Models
begin

text \<open>
  Submitting solutions (\<open>src/services-core/src/solution_submission.rs\<close> and
  \<open>solution_submission/gas_price_stream.rs\<close>) and the encoding of a solution for the contract
  (\<open>src/services-core/src/contracts/stablex_contract.rs\<close>).  The contract, the gas price estimator,
  the retrying transaction sender and the conversion of gas prices are parameters: they live in
  the node and in third-party packages.
\<close>

section \<open>Encoding for the contract\<close>

definition SOLUTION_SUBMISSION_GAS_LIMIT :: u32 where
  "SOLUTION_SUBMISSION_GAS_LIMIT = 6000000"

definition MAX_OBJECTIVE_VALUE :: u256 where
  "MAX_OBJECTIVE_VALUE = (- 1) div 101"

definition encode_prices_for_contract :: "(u16 \<times> u128) list \<Rightarrow> u128 list \<times> u16 list" where
  "encode_prices_for_contract price_map =
     (let token_ids = sort (filter (\<lambda>t. 0 < t \<and> 0 < the (hm_get price_map t)) (map fst price_map))
      in (map (\<lambda>t. the (hm_get price_map t)) token_ids, token_ids))"

fun encode_execution_for_contract :: "executed_order list \<Rightarrow> address list \<times> u16 list \<times> u128 list" where
  "encode_execution_for_contract [] = ([], [], [])"
| "encode_execution_for_contract (ord # os) =
     (case encode_execution_for_contract os of (owners, order_ids, volumes) \<Rightarrow>
        if 0 < buy_amount ord
        then (ex_account_id ord # owners, ex_order_id ord # order_ids, buy_amount ord # volumes)
        else (owners, order_ids, volumes))"

section \<open>Errors\<close>

record receipt =
  receipt_block_number :: "u64 option"

datatype execution_error =
    Revert "string option"
  | Failure receipt
  | Web3Rpc int
  | OtherExecution string

text \<open>Errors without a type of their own (\<open>anyhow::Error\<close>), which may wrap a method error.\<close>

datatype any_error = MethodErr execution_error | Msg string

datatype submission_error = Benign string | Unexpected any_error

definition DEFAULT_BENIGN_ERRORS :: "string list" where
  "DEFAULT_BENIGN_ERRORS =
     [''New objective doesn't sufficiently improve current solution'',
      ''Claimed objective doesn't sufficiently improve current solution'',
      ''SafeMath: subtraction overflow'']"

definition all_benign_errors :: "string list \<Rightarrow> string list" where
  "all_benign_errors custom = custom @ DEFAULT_BENIGN_ERRORS"

definition is_benign :: "string list \<Rightarrow> string \<Rightarrow> bool" where
  "is_benign custom reason = list_ex (\<lambda>benign. reason = benign) (all_benign_errors custom)"

definition submission_error_new :: "any_error \<Rightarrow> string list \<Rightarrow> submission_error" where
  "submission_error_new err custom =
     (case err of
        MethodErr (Revert (Some reason)) \<Rightarrow>
          if is_benign custom reason then Benign reason else Unexpected err
      | _ \<Rightarrow> Unexpected err)"

definition extract_transaction_receipt :: "execution_error \<Rightarrow> receipt option" where
  "extract_transaction_receipt err = (case err of Failure tx \<Rightarrow> Some tx | _ \<Rightarrow> None)"

definition is_transaction_error :: "execution_error \<Rightarrow> bool" where
  "is_transaction_error err = (case err of Web3Rpc code \<Rightarrow> code = - 32010 | _ \<Rightarrow> False)"

type_synonym tx_result = "(execution_error, unit) result"

definition was_mined :: "tx_result \<Rightarrow> bool" where
  "was_mined r = (case r of Err err \<Rightarrow> \<not> is_transaction_error err | _ \<Rightarrow> True)"

section \<open>Submission\<close>

record contract =
  contract_objective_value :: "u32 \<Rightarrow> solution \<Rightarrow> block_number option \<Rightarrow> (any_error, u256) result"
  contract_submit :: "u32 \<Rightarrow> solution \<Rightarrow> u256 \<Rightarrow> u256 \<Rightarrow> u256 \<Rightarrow> tx_result"
  contract_noop :: "u256 \<Rightarrow> u256 \<Rightarrow> tx_result"
  transaction_count :: "(any_error, u256) result"

text \<open>
  The contract behind the trait: the node evaluates read-only calls and sends transactions.  Both
  solution methods pass the same arguments to \<open>submitSolution\<close> of the exchange.
\<close>

record submit_call =
  call_batch :: u32
  call_objective_value :: u256
  call_owners :: "address list"
  call_order_ids :: "u16 list"
  call_volumes :: "u128 list"
  call_prices :: "u128 list"
  call_token_ids :: "u16 list"

datatype receiver = BatchExchange | SolutionSubmitter | OwnAccount

record transaction =
  tx_to :: receiver
  tx_call :: "submit_call option"
  tx_gas :: u256
  tx_gas_price :: u256
  tx_nonce :: u256

record node_access =
  use_solution_submitter :: bool
  view_call :: "submit_call \<Rightarrow> block_number option \<Rightarrow> (execution_error, u256) result"
  send_transaction :: "transaction \<Rightarrow> tx_result"
  account_nonce :: "(any_error, u256) result"

definition get_solution_objective_value ::
    "node_access \<Rightarrow> u32 \<Rightarrow> solution \<Rightarrow> block_number option \<Rightarrow> (any_error, u256) result" where
  "get_solution_objective_value nd batch_index sol block_number =
     (let (ps, token_ids_for_price) = encode_prices_for_contract (prices sol);
          (owners, order_ids, volumes) = encode_execution_for_contract (executed_orders sol)
      in (case view_call nd \<lparr>call_batch = batch_index, call_objective_value = MAX_OBJECTIVE_VALUE, call_owners = owners,
              call_order_ids = order_ids, call_volumes = volumes, call_prices = ps, call_token_ids = token_ids_for_price\<rparr> block_number of
            Ok v \<Rightarrow> Ok v
          | Err e \<Rightarrow> Err (MethodErr e)
          | Panic \<Rightarrow> Panic))"

definition contract_submit_solution ::
    "node_access \<Rightarrow> u32 \<Rightarrow> solution \<Rightarrow> u256 \<Rightarrow> u256 \<Rightarrow> u256 \<Rightarrow> tx_result" where
  "contract_submit_solution nd batch_index sol claimed_objective_value gas_price nonce =
     (let (ps, token_ids_for_price) = encode_prices_for_contract (prices sol);
          (owners, order_ids, volumes) = encode_execution_for_contract (executed_orders sol)
      in send_transaction nd
           \<lparr>tx_to = (if use_solution_submitter nd then SolutionSubmitter else BatchExchange),
            tx_call = Some \<lparr>call_batch = batch_index, call_objective_value = claimed_objective_value, call_owners = owners,
              call_order_ids = order_ids, call_volumes = volumes, call_prices = ps, call_token_ids = token_ids_for_price\<rparr>,
            tx_gas = ucast SOLUTION_SUBMISSION_GAS_LIMIT, tx_gas_price = gas_price, tx_nonce = nonce\<rparr>)"

definition send_noop_transaction :: "node_access \<Rightarrow> u256 \<Rightarrow> u256 \<Rightarrow> tx_result" where
  "send_noop_transaction nd gas_price nonce =
     send_transaction nd
       \<lparr>tx_to = OwnAccount, tx_call = None, tx_gas = 21000, tx_gas_price = gas_price, tx_nonce = nonce\<rparr>"

definition stablex_contract_impl :: "node_access \<Rightarrow> contract" where
  "stablex_contract_impl nd =
     \<lparr>contract_objective_value = get_solution_objective_value nd, contract_submit = contract_submit_solution nd,
      contract_noop = send_noop_transaction nd, transaction_count = account_nonce nd\<rparr>"

definition convert_submit_error ::
    "contract \<Rightarrow> string list \<Rightarrow> u32 \<Rightarrow> solution \<Rightarrow> execution_error \<Rightarrow> submission_error" where
  "convert_submit_error ct custom batch sol err =
     (case extract_transaction_receipt err of
        Some tx \<Rightarrow>
          (case receipt_block_number tx of
             Some n \<Rightarrow>
               (case contract_objective_value ct batch sol (Some (Number n)) of
                  Err e \<Rightarrow> submission_error_new e custom
                | _ \<Rightarrow> Unexpected (MethodErr err))
           | None \<Rightarrow> Unexpected (MethodErr err))
      | None \<Rightarrow> Unexpected (MethodErr err))"

definition convert_submit_result ::
    "contract \<Rightarrow> string list \<Rightarrow> u32 \<Rightarrow> solution \<Rightarrow> tx_result \<Rightarrow> (submission_error, unit) result" where
  "convert_submit_result ct custom batch sol r =
     (case r of
        Ok _ \<Rightarrow> Ok ()
      | Err err \<Rightarrow> Err (convert_submit_error ct custom batch sol err)
      | Panic \<Rightarrow> Panic)"

definition convert_cancel_result :: "tx_result \<Rightarrow> (submission_error, unit) result" where
  "convert_cancel_result r =
     (case r of
        Ok _ \<Rightarrow> Err (Unexpected (Msg ''solution submission transaction not confirmed in time''))
      | Err err \<Rightarrow> Err (Unexpected (MethodErr err))
      | Panic \<Rightarrow> Panic)"

definition submitter_objective_value ::
    "contract \<Rightarrow> string list \<Rightarrow> u32 \<Rightarrow> solution \<Rightarrow> (submission_error, u256) result" where
  "submitter_objective_value ct custom batch sol =
     (case contract_objective_value ct batch sol None of
        Ok v \<Rightarrow> Ok v
      | Err e \<Rightarrow> Err (submission_error_new e custom)
      | Panic \<Rightarrow> Panic)"

definition GAS_PRICE_REFRESH_INTERVAL :: duration where
  "GAS_PRICE_REFRESH_INTERVAL = from_secs 15"

text \<open>
  The gas prices that the stream yields when the estimator is asked at the given instants;
  \<open>enforce\<close> is the third-party stage that enforces minimum increases and the cap.
\<close>

definition gas_price_stream ::
    "(f64 \<Rightarrow> f64 list \<Rightarrow> f64 list) \<Rightarrow> nat \<Rightarrow> f64 \<Rightarrow> (nat \<Rightarrow> f64 \<Rightarrow> duration \<Rightarrow> f64 res) \<Rightarrow> nat list \<Rightarrow> f64 list" where
  "gas_price_stream enforce target_confirm_time cap estimate_with_limits instants =
     enforce cap
       (List.map_filter (\<lambda>(i, now).
           case estimate_with_limits i (f64_of_nat (unat SOLUTION_SUBMISSION_GAS_LIMIT)) (target_confirm_time - now) of
             Ok g \<Rightarrow> Some g | _ \<Rightarrow> None)
         (enumerate 0 instants))"

text \<open>The two kinds of transactions, as functions of the gas price.\<close>

definition solution_sender ::
    "(f64 \<Rightarrow> u256) \<Rightarrow> contract \<Rightarrow> u32 \<Rightarrow> solution \<Rightarrow> u256 \<Rightarrow> u256 \<Rightarrow> f64 \<Rightarrow> tx_result" where
  "solution_sender from_lossy ct batch sol claimed nonce gas =
     contract_submit ct batch sol claimed (from_lossy gas) nonce"

definition cancellation_sender :: "(f64 \<Rightarrow> u256) \<Rightarrow> contract \<Rightarrow> u256 \<Rightarrow> f64 \<Rightarrow> tx_result" where
  "cancellation_sender from_lossy ct nonce gas = contract_noop ct (from_lossy gas) nonce"

datatype retry_result = Submitted tx_result | Cancelled tx_result

text \<open>
  \<open>retry\<close> is the third-party sender: it gets both kinds of transactions, the delay after which to
  cancel and the stream of gas prices, a function of the instants at which it is polled.
\<close>

type_synonym retry_fn =
  "(f64 \<Rightarrow> tx_result) \<Rightarrow> (f64 \<Rightarrow> tx_result) \<Rightarrow> duration \<Rightarrow> (nat list \<Rightarrow> f64 list) \<Rightarrow> retry_result option"

text \<open>What the submitter has around it; the clock is read when it starts and when it arms the cancellation.\<close>

record surroundings =
  from_f64_lossy :: "f64 \<Rightarrow> u256"
  enforce_minimum_increase_and_cap :: "f64 \<Rightarrow> f64 list \<Rightarrow> f64 list"
  estimate_with_limits :: "nat \<Rightarrow> f64 \<Rightarrow> duration \<Rightarrow> f64 res"
  instant_at_start :: nat
  system_time_at_start :: system_time
  instant_at_arming :: nat

definition target_confirm_time :: "surroundings \<Rightarrow> u32 \<Rightarrow> nat" where
  "target_confirm_time env batch = instant_at_start env +
     (case duration_since (solve_end_time (batch_from_u32 batch)) (system_time_at_start env) of Ok d \<Rightarrow> d | _ \<Rightarrow> 0)"

definition submitter_submit_solution ::
    "surroundings \<Rightarrow> retry_fn \<Rightarrow> contract \<Rightarrow> string list \<Rightarrow> u32 \<Rightarrow> solution \<Rightarrow> u256 \<Rightarrow> f64 \<Rightarrow> (submission_error, unit) result" where
  "submitter_submit_solution env retry ct custom batch sol claimed cap =
     (case transaction_count ct of
        Err e \<Rightarrow> Err (Unexpected e)
      | Panic \<Rightarrow> Panic
      | Ok nonce \<Rightarrow>
          (let cancel_instant = target_confirm_time env batch + from_secs 30;
               cancel_duration = cancel_instant - instant_at_arming env;
               stream = gas_price_stream (enforce_minimum_increase_and_cap env) (target_confirm_time env batch) cap
                          (estimate_with_limits env)
           in (case retry (solution_sender (from_f64_lossy env) ct batch sol claimed nonce)
                      (cancellation_sender (from_f64_lossy env) ct nonce) cancel_duration stream of
                 Some (Submitted r) \<Rightarrow> convert_submit_result ct custom batch sol r
               | Some (Cancelled r) \<Rightarrow> convert_cancel_result r
               | None \<Rightarrow> Err (Unexpected (Msg ''transaction was never sent'')))))"

section \<open>Properties\<close>

lemma sort_filter_keys:
  "distinct (map fst m) \<Longrightarrow> distinct (sort (filter P (map fst m)))" for m :: "(u16 \<times> 'v) list"
  by (simp add: distinct_sort)

text \<open>
  The price vector that is sent to the contract lists every token with a positive price
  except the fee token, once, in increasing order and with its price, and nothing else.
\<close>

theorem encode_prices_complete:
  assumes "hm_wf m"
  shows "case encode_prices_for_contract m of (ps, ts) \<Rightarrow>
    length ps = length ts \<and> sorted_wrt (<) ts \<and>
    (\<forall>t. map_of (zip ts ps) t = (if 0 < t then (case hm_get m t of Some p \<Rightarrow> if 0 < p then Some p else None | None \<Rightarrow> None) else None))"
proof -
  let ?ts = "sort (filter (\<lambda>t. 0 < t \<and> 0 < the (hm_get m t)) (map fst m))"
  let ?ps = "map (\<lambda>t. the (hm_get m t)) ?ts"
  have dist: "distinct ?ts"
    using assms by (rule sort_filter_keys)
  have "map_of (zip ?ts ?ps) t = (if t \<in> set ?ts then Some (the (hm_get m t)) else None)" for t
    by (simp add: map_of_zip_map)
  moreover have "t \<in> set ?ts \<longleftrightarrow> 0 < t \<and> (\<exists>p. hm_get m t = Some p \<and> 0 < p)" for t
  proof -
    have "t \<in> fst ` set m \<longleftrightarrow> (\<exists>p. hm_get m t = Some p)"
      using map_of_eq_None_iff [of m t] by auto
    then show ?thesis by auto
  qed
  moreover have "sorted_wrt (<) ?ts"
    using dist by (simp add: strict_sorted_iff)
  ultimately show ?thesis
    by (auto simp: encode_prices_for_contract_def Let_def split: option.splits)
qed

lemma encode_prices_complete_witness:
  "case encode_prices_for_contract [(5, 7), (0, 9), (2, 0), (1, 3)] of (ps, ts) \<Rightarrow> length ps = length ts \<and> sorted_wrt (<) ts"
  using encode_prices_complete [of "[(5, 7), (0, 9), (2, 0), (1, 3)]"] by auto

lemma encode_execution_eq:
  "encode_execution_for_contract os =
     (let touched = filter (\<lambda>ord. 0 < buy_amount ord) os
      in (map ex_account_id touched, map ex_order_id touched, map buy_amount touched))"
  by (induction os) (auto simp: Let_def)

text \<open>
  A submission is reported as successful exactly when the solution transaction went through;
  it is reported as a benign failure only when that transaction was mined and failed, and the
  contract, asked again for the block in which it failed, gave one of the benign reasons.  Every
  other outcome, in particular a cancelled or an unsent transaction, is unexpected.
\<close>

theorem submission_outcomes:
  assumes "transaction_count ct = Ok nonce"
    and "out = retry (solution_sender (from_f64_lossy env) ct b sol claimed nonce)
       (cancellation_sender (from_f64_lossy env) ct nonce)
       (target_confirm_time env b + from_secs 30 - instant_at_arming env)
       (gas_price_stream (enforce_minimum_increase_and_cap env) (target_confirm_time env b) cap (estimate_with_limits env))"
    and "r = submitter_submit_solution env retry ct custom b sol claimed cap"
  shows "(r = Ok () \<longleftrightarrow> out = Some (Submitted (Ok ()))) \<and>
    (r = Err (Benign reason) \<longleftrightarrow> is_benign custom reason \<and>
       (\<exists>tx n. out = Some (Submitted (Err (Failure tx))) \<and> receipt_block_number tx = Some n \<and>
          contract_objective_value ct b sol (Some (Number n)) = Err (MethodErr (Revert (Some reason)))))"
proof -
  have r: "r = (case out of Some (Submitted r) \<Rightarrow> convert_submit_result ct custom b sol r
      | Some (Cancelled r) \<Rightarrow> convert_cancel_result r
      | None \<Rightarrow> Err (Unexpected (Msg ''transaction was never sent'')))"
    using assms by (simp add: submitter_submit_solution_def Let_def)
  have new: "submission_error_new e custom = Benign reason \<longleftrightarrow> is_benign custom reason \<and> e = MethodErr (Revert (Some reason))" for e
    by (auto simp: submission_error_new_def split: any_error.splits execution_error.splits option.splits)
  show ?thesis
    unfolding r
    by (auto simp: convert_submit_result_def convert_cancel_result_def convert_submit_error_def
        extract_transaction_receipt_def new
        split: option.splits retry_result.splits result.splits execution_error.splits)
qed

definition sample_contract :: contract where
  "sample_contract =
     \<lparr>contract_objective_value = (\<lambda>b sol bn. Err (MethodErr (Revert (Some ''SafeMath: subtraction overflow'')))),
      contract_submit = (\<lambda>b sol claimed gas nonce. Err (Failure \<lparr>receipt_block_number = Some 9\<rparr>)),
      contract_noop = (\<lambda>gas nonce. Ok ()), transaction_count = Ok 1\<rparr>"

definition sample_surroundings :: surroundings where
  "sample_surroundings =
     \<lparr>from_f64_lossy = (\<lambda>g. 7), enforce_minimum_increase_and_cap = (\<lambda>cap gs. gs),
      estimate_with_limits = (\<lambda>i gas d. Ok (Num 2)), instant_at_start = 0, system_time_at_start = 0, instant_at_arming = 1\<rparr>"

definition sample_retry :: retry_fn where
  "sample_retry send cancel d stream = map_option (\<lambda>g. Submitted (send g)) (List.find (\<lambda>g. True) (stream [0, 15]))"

lemma submission_outcomes_witness:
  "submitter_submit_solution sample_surroundings sample_retry sample_contract [] 3 trivial 5 (Num 2) =
     Err (Benign ''SafeMath: subtraction overflow'')"
  using submission_outcomes [of sample_contract 1 _ sample_retry sample_surroundings 3 trivial 5 "Num 2" _ "[]"
      "''SafeMath: subtraction overflow''", OF _ refl refl]
  by (simp add: sample_contract_def sample_retry_def sample_surroundings_def gas_price_stream_def map_filter_simps
      solution_sender_def is_benign_def all_benign_errors_def DEFAULT_BENIGN_ERRORS_def)

end
