(* ===== verification/Driver.thy ===== *)
theory Driver
  imports UpdatingOrderbook NaiveSolver EconomicViability SolutionSubmission
begin

text \<open>
  The driver (\<open>src/services-core/src/driver/stablex_driver.rs\<close>): it fetches the auction of a batch,
  has it solved and submits the solution.  The components it is built from are the fields of a
  record; clocks are arguments; the transactions that a submission sends are returned as a list
  next to the result.  Metrics and logging are not modelled.
\<close>

datatype driver_error = Retry string | Skip string

record driver =
  drv_price_finder :: "order list \<Rightarrow> account_state \<Rightarrow> duration \<Rightarrow> u128 \<Rightarrow> solution res"
  drv_reader :: reader
  drv_viability :: viability
  drv_objective_value :: "u32 \<Rightarrow> solution \<Rightarrow> (submission_error, u256) result"
  drv_submit_solution :: "u32 \<Rightarrow> solution \<Rightarrow> u256 \<Rightarrow> f64 \<Rightarrow> (submission_error, unit) result"

definition get_orderbook :: "driver \<Rightarrow> u32 \<Rightarrow> auction_data res" where
  "get_orderbook d b = get_auction_data_for_batch (drv_reader d) b"

definition driver_solve :: "driver \<Rightarrow> duration \<Rightarrow> account_state \<Rightarrow> order list \<Rightarrow> solution res" where
  "driver_solve d deadline accounts os =
     (if os = [] then Ok trivial
      else rbind (min_average_fee (drv_viability d)) (\<lambda>min_avg_fee.
        drv_price_finder d os accounts deadline min_avg_fee))"

text \<open>\<open>Instant::checked_duration_since\<close>\<close>

definition checked_duration_since :: "nat \<Rightarrow> nat \<Rightarrow> duration option" where
  "checked_duration_since t earlier = (if earlier \<le> t then Some (t - earlier) else None)"

text \<open>The clock is read before and after the orderbook is fetched.\<close>

definition solve_batch ::
    "driver \<Rightarrow> nat \<Rightarrow> nat \<Rightarrow> batch_id \<Rightarrow> duration \<Rightarrow> (driver_error, solution) result" where
  "solve_batch d now1 now2 b deadline =
     (let deadline = now1 + deadline in
      (case get_orderbook d (batch_into_u32 b) of
         Err e \<Rightarrow> Err (Retry e)
       | Panic \<Rightarrow> Panic
       | Ok (accounts, os) \<Rightarrow>
           (case checked_duration_since deadline now2 of
              Some dur \<Rightarrow>
                if from_secs 1 < dur then
                  (case driver_solve d dur accounts os of
                     Ok sol \<Rightarrow> Ok sol
                   | Err e \<Rightarrow> Err (Skip e)
                   | Panic \<Rightarrow> Panic)
                else Ok trivial
            | None \<Rightarrow> Ok trivial)))"

type_synonym submission = "u32 \<times> solution \<times> u256 \<times> f64"

definition driver_submit :: "driver \<Rightarrow> batch_id \<Rightarrow> solution \<Rightarrow> (any_error, unit) result \<times> submission list" where
  "driver_submit d b sol =
     (let verified =
        (if is_non_trivial sol then
           (case drv_objective_value d (batch_into_u32 b) sol of
              Ok v \<Rightarrow> Ok (Some v)
            | Err (Benign reason) \<Rightarrow> Ok None
            | Err (Unexpected err) \<Rightarrow> Err err
            | Panic \<Rightarrow> Panic)
         else Ok None)
      in (case verified of
            Err err \<Rightarrow> (Err err, [])
          | Panic \<Rightarrow> (Panic, [])
          | Ok None \<Rightarrow> (Ok (), [])
          | Ok (Some objective_value) \<Rightarrow>
              (case max_gas_price (drv_viability d) (economic_viability_info_of sol) of
                 Err e \<Rightarrow> (Err (Msg e), [])
               | Panic \<Rightarrow> (Panic, [])
               | Ok cap \<Rightarrow>
                   (case drv_submit_solution d (batch_into_u32 b) sol objective_value cap of
                      Ok _ \<Rightarrow> Ok ()
                    | Err (Benign reason) \<Rightarrow> Ok ()
                    | Err (Unexpected err) \<Rightarrow> Err err
                    | Panic \<Rightarrow> Panic,
                    [(batch_into_u32 b, sol, objective_value, cap)]))))"

definition submit_solution :: "driver \<Rightarrow> batch_id \<Rightarrow> solution \<Rightarrow> (any_error, unit) result \<times> submission list" where
  "submit_solution d b sol = driver_submit d b sol"

section \<open>Solving\<close>

text \<open>A sound reader together with a price finder that keeps its contract.\<close>

locale auction_solving = sound_orderbook_reading rd + price_finding finder
  for rd :: reader and finder :: "order list \<Rightarrow> account_state \<Rightarrow> duration \<Rightarrow> u128 \<Rightarrow> solution res"
begin

lemma solve_batch_safe:
  assumes "drv_reader d = rd" "drv_price_finder d = finder"
    and "get_auction_data_for_batch rd (batch_into_u32 b) \<noteq> Panic" "min_average_fee (drv_viability d) \<noteq> Panic"
  shows "solve_batch d now1 now2 b limit \<noteq> Panic"
    and "solve_batch d now1 now2 b limit = Ok sol \<Longrightarrow> ex \<in> set (executed_orders sol) \<Longrightarrow>
      \<exists>accounts os. get_auction_data_for_batch rd (batch_into_u32 b) = Ok (accounts, os) \<and>
        (\<exists>ord \<in> set os. respects_limits accounts ord ex)"
proof -
  have finder: "finder os accounts t fee \<noteq> Panic \<and>
      (finder os accounts t fee = Ok sol \<longrightarrow> ex \<in> set (executed_orders sol) \<longrightarrow> (\<exists>ord \<in> set os. respects_limits accounts ord ex))"
    if "get_auction_data_for_batch rd (batch_into_u32 b) = Ok (accounts, os)" for accounts os t fee sol ex
  proof -
    have "list_all within_limits os" "list_all (\<lambda>ord. 0 < remaining_sell_amount ord) os"
      using batch_within [OF that] batch_canonical [OF that] by (simp_all add: canonical_def list_all_iff)
    then show ?thesis
      using finder_no_panic finder_valid by blast
  qed
  show "solve_batch d now1 now2 b limit \<noteq> Panic"
    using assms finder
    by (auto simp: solve_batch_def get_orderbook_def driver_solve_def rbind_eq_Panic
        split: result.splits option.splits if_splits)
  show "\<exists>accounts os. get_auction_data_for_batch rd (batch_into_u32 b) = Ok (accounts, os) \<and>
        (\<exists>ord \<in> set os. respects_limits accounts ord ex)"
    if "solve_batch d now1 now2 b limit = Ok sol" "ex \<in> set (executed_orders sol)"
    using that assms finder
    by (auto simp: solve_batch_def get_orderbook_def driver_solve_def rbind_eq_Ok trivial_def
        split: result.splits option.splits if_splits)
qed

end

interpretation updating_naive: auction_solving "updating_reader nd page filestore guard"
    "\<lambda>os st limit fee. find_prices None os st"
  for nd page filestore guard ..

interpretation filtered_naive: auction_solving
    "filtered_orderbook_reader (updating_reader nd page filestore guard) fl"
    "\<lambda>os st limit fee. find_prices None os st"
  for nd page filestore guard fl
  by (intro auction_solving.intro updating.filtered_sound naive.price_finding_axioms)

text \<open>The driver reads the orderbook through a filter, or directly.\<close>

definition maybe_filtered :: "orderbook_filter option \<Rightarrow> reader \<Rightarrow> reader" where
  "maybe_filtered fl inner = (case fl of None \<Rightarrow> inner | Some fl \<Rightarrow> filtered_orderbook_reader inner fl)"

text \<open>
  C13: the driver with the event based orderbook, behind any filter or without one, and with the
  built-in solver without fees never panics while solving a batch, as long as reading the orderbook
  and the minimum fee do not; and every order that its solution executes is an order of the
  auction, traded within its limit price, its remaining amount and the balance of its owner.
\<close>

theorem driver_solutions_respect_limits:
  assumes "drv_reader d = maybe_filtered fl (updating_reader nd page filestore guard)"
    and "drv_price_finder d = (\<lambda>os st limit fee. find_prices None os st)"
    and "get_orderbook d (batch_into_u32 b) \<noteq> Panic" "min_average_fee (drv_viability d) \<noteq> Panic"
  shows "solve_batch d now1 now2 b limit \<noteq> Panic \<and>
    (\<forall>sol ex. solve_batch d now1 now2 b limit = Ok sol \<longrightarrow> ex \<in> set (executed_orders sol) \<longrightarrow>
      (\<exists>accounts os. get_orderbook d (batch_into_u32 b) = Ok (accounts, os) \<and>
         (\<exists>ord \<in> set os. respects_limits accounts ord ex)))"
proof (cases fl)
  case None
  then have reader: "drv_reader d = updating_reader nd page filestore guard"
    using assms(1) by (simp add: maybe_filtered_def)
  then show ?thesis
    using updating_naive.solve_batch_safe [OF reader assms(2), of b] assms(3,4) by (simp add: get_orderbook_def)
next
  case (Some fl')
  then have reader: "drv_reader d = filtered_orderbook_reader (updating_reader nd page filestore guard) fl'"
    using assms(1) by (simp add: maybe_filtered_def)
  then show ?thesis
    using filtered_naive.solve_batch_safe [OF reader assms(2), of b] assms(3,4) by (simp add: get_orderbook_def)
qed

text \<open>
  Errors of the orderbook are worth a retry, errors of the solver are not, and without at least
  a second left the batch is given up with the trivial solution.
\<close>

lemma solve_batch_errors:
  "solve_batch d now1 now2 b limit = Err (Retry e) \<longleftrightarrow> get_orderbook d (batch_into_u32 b) = Err e"
  "solve_batch d now1 now2 b limit = Err (Skip e) \<Longrightarrow>
     now2 + from_secs 1 < now1 + limit \<and>
     (\<exists>accounts os. get_orderbook d (batch_into_u32 b) = Ok (accounts, os) \<and> os \<noteq> [])"
  by (auto simp: solve_batch_def checked_duration_since_def driver_solve_def
      split: result.splits option.splits if_splits)

section \<open>Submitting\<close>

text \<open>
  C31: a batch leads to at most one transaction.  It is sent exactly when the solution is not
  trivial, the contract verified it and a gas price cap is known; it carries the verified
  objective value and that cap.  Without a transaction the driver reports success exactly when the
  solution was trivial or its rejection was benign, and after a transaction exactly when the
  transaction succeeded or failed for a benign reason.
\<close>

theorem driver_submits_verified_solutions:
  "(snd (driver_submit d b sol) = [] \<or> (\<exists>v cap. snd (driver_submit d b sol) = [(batch_into_u32 b, sol, v, cap)])) \<and>
   (snd (driver_submit d b sol) = [(batch_into_u32 b, sol, v, cap)] \<longleftrightarrow>
      is_non_trivial sol \<and> drv_objective_value d (batch_into_u32 b) sol = Ok v \<and>
      max_gas_price (drv_viability d) (economic_viability_info_of sol) = Ok cap) \<and>
   (fst (driver_submit d b sol) = Ok () \<longleftrightarrow>
      \<not> is_non_trivial sol \<or>
      (\<exists>reason. drv_objective_value d (batch_into_u32 b) sol = Err (Benign reason)) \<or>
      (\<exists>v cap. snd (driver_submit d b sol) = [(batch_into_u32 b, sol, v, cap)] \<and>
         (drv_submit_solution d (batch_into_u32 b) sol v cap = Ok () \<or>
          (\<exists>reason. drv_submit_solution d (batch_into_u32 b) sol v cap = Err (Benign reason)))))"
  by (auto simp: driver_submit_def Let_def split: result.splits submission_error.splits option.splits)

text \<open>A sample auction for the witnesses: two matching orders of two accounts, in an orderbook that is up to date.\<close>

definition trading_events :: "event list" where
  "trading_events =
     [TokenListingEvent 100 0, TokenListingEvent 101 1, DepositEvent 7 101 1000 1, DepositEvent 8 100 1000 1,
      OrderPlacementEvent 7 0 0 1 0 9 1000 1000, OrderPlacementEvent 8 0 1 0 0 9 1000 1000]"

definition trading_registry :: event_registry where
  "trading_registry =
     map (\<lambda>(i, ev). (EventSortKey (of_nat i) 0 0, \<lparr>rv_event = ev, rv_batch_id = 1\<rparr>)) (enumerate 1 trading_events)"

definition trading_context :: orderbook_context where
  "trading_context = \<lparr>ctx_orderbook = trading_registry, ctx_last_handled_block = 130, ctx_timestamps = ts_reader_new 25\<rparr>"

definition quiet_node :: node where
  "quiet_node = (two_event_node 130)\<lparr>node_past_events := (\<lambda>from to page. Ok [])\<rparr>"

definition trading_driver :: "orderbook_filter option \<Rightarrow> driver" where
  "trading_driver fl =
     \<lparr>drv_price_finder = (\<lambda>os st limit fee. find_prices None os st),
      drv_reader = maybe_filtered fl (updating_reader quiet_node 10 None (Some trading_context)),
      drv_viability = fixed_viability 5 (Num 7),
      drv_objective_value = (\<lambda>b sol. Ok 1), drv_submit_solution = (\<lambda>b sol v cap. Ok ())\<rparr>"

lemma driver_submits_verified_solutions_witness:
  "snd (driver_submit (trading_driver None) 4 overfilled) = [(batch_into_u32 4, overfilled, 1, Num 7)]"
  using driver_submits_verified_solutions [of "trading_driver None" 4 overfilled 1 "Num 7"]
  by (simp add: trading_driver_def fixed_viability_def overfilled_def is_non_trivial_def)

definition trading_state :: state where
  "trading_state =
     default_state\<lparr>st_tokens := [(0, 100), (1, 101)],
       st_balances := [((7, 101), default_balance\<lparr>bal_deposit := \<lparr>flux_batch_id = 1, flux_amount = 1000\<rparr>\<rparr>),
         ((8, 100), default_balance\<lparr>bal_deposit := \<lparr>flux_batch_id = 1, flux_amount = 1000\<rparr>\<rparr>)],
       st_orders := [((7, 0), streamed_order_new 0 1 0 9 1000 1000), ((8, 0), streamed_order_new 1 0 0 9 1000 1000)],
       last_batch_id := 1\<rparr>"

lemma trading_run: "from_events (map (\<lambda>ev. (ev, 1)) trading_events) = Ok trading_state"
  by (simp add: trading_events_def trading_state_def from_events_def apply_event_def default_state_def token_listing_def
      state_deposit_def with_balance_def balance_deposit_def default_balance_def default_flux_def
      apply_existing_deposit_and_proceeds_def flux_amount_and_zero_def order_placement_def hm_or_default_def)

lemma trading_accounts: "account_state_at trading_state 5 = sample_funds"
  by (simp add: account_state_at_def trading_state_def map_filter_simps get_id_by_address_def default_state_def
      get_balance_at_beginning_of_batch_def balance_with_deposit_and_proceeds_def flux_amount_at_def default_balance_def
      default_flux_def sample_funds_def bigint_to_u256_eq)

lemma trading_orders: "orders_at trading_state 5 = Ok sample_pair"
  by (simp add: orders_at_def trading_state_def is_valid_in_batch_def streamed_order_new_def as_model_order_def
      get_remaining_amount_at_beginning_of_batch_def get_used_amount_def checked_add_def checked_sub_def sample_pair_def)

lemma sample_canonical: "canonicalize_auction_data sample_funds sample_pair = (sample_funds, sample_pair)"
  by (simp add: canonicalize_auction_data_def sample_funds_def sample_pair_def sells_def hm_collect_def)

lemma trading_auction: "auction_state_for_batch trading_registry 4 = Ok (sample_funds, sample_pair)"
proof -
  have "map (\<lambda>e. (fst e, batch_into_u32 (snd e))) (events_until_batch trading_registry 4) = map (\<lambda>ev. (ev, 1)) trading_events"
    by (simp add: trading_registry_def trading_events_def events_until_batch_def events_def batch_into_u32_def)
  moreover have "batch_next 4 = Ok 5" "batch_into_u32 5 = 5"
    by (simp_all add: batch_next_def checked_add_def batch_into_u32_def)
  moreover have "last_batch_id trading_state \<le> 5" "\<not> solution_partially_received trading_state"
    by (simp_all add: trading_state_def default_state_def)
  then have "canonicalized_auction_state_at_beginning_of_batch trading_state 5 = Ok (sample_funds, sample_pair)"
    by (simp add: canonicalized_auction_state_at_beginning_of_batch_def orderbook_at_beginning_of_batch_def
        trading_accounts trading_orders sample_canonical)
  ultimately show ?thesis
    by (simp add: auction_state_for_batch_def auction_state_for_batch_from_events_def trading_run)
qed

lemma trading_update: "update quiet_node 10 trading_context = (Ok (), trading_context)"
  by (simp add: update_def update_with_events_between_blocks_def chunked_events_def quiet_node_def two_event_node_def
      delete_events_starting_at_block_def bt_split_off_def saturating_sub_def BLOCK_CONFIRMATION_COUNT_def ensure_def ebind_def
      elift_def eget_def emodify_def trading_context_def trading_registry_def trading_events_def less_event_sort_key_def)

lemma trading_orderbook: "get_orderbook (trading_driver None) (batch_into_u32 4) = Ok (sample_funds, sample_pair)"
proof -
  have "ctx_orderbook trading_context = trading_registry"
    by (simp add: trading_context_def)
  then show ?thesis
    by (simp add: get_orderbook_def trading_driver_def maybe_filtered_def updating_reader_def updating_auction_data_for_batch_def
        do_with_context_def trading_update trading_auction effect_simps batch_from_u32_def batch_into_u32_def)
qed

lemma driver_solutions_respect_limits_witness:
  "\<exists>sol ex ord. solve_batch (trading_driver None) 0 (from_secs 5) 4 (from_secs 60) = Ok sol \<and> ex \<in> set (executed_orders sol) \<and>
     ord \<in> set sample_pair \<and> respects_limits sample_funds ord ex"
proof -
  obtain sol where sol: "find_prices None sample_pair sample_funds = Ok sol" "executed_orders sol \<noteq> []"
    by (auto simp: sample_pair_def sample_funds_def solver_eval)
  have "sample_pair \<noteq> []"
    by (simp add: sample_pair_def)
  then have run: "solve_batch (trading_driver None) 0 (from_secs 5) 4 (from_secs 60) = Ok sol"
    using sol(1) by (simp add: solve_batch_def trading_orderbook checked_duration_since_def from_secs_def driver_solve_def)
      (simp add: trading_driver_def fixed_viability_def)
  have "get_orderbook (trading_driver None) (batch_into_u32 4) \<noteq> Panic" "min_average_fee (drv_viability (trading_driver None)) \<noteq> Panic"
    "drv_reader (trading_driver None) = maybe_filtered None (updating_reader quiet_node 10 None (Some trading_context))"
    "drv_price_finder (trading_driver None) = (\<lambda>os st limit fee. find_prices None os st)"
    by (simp_all add: trading_orderbook) (simp_all add: trading_driver_def fixed_viability_def)
  with driver_solutions_respect_limits [of "trading_driver None" None quiet_node 10 None "Some trading_context" 4 0 "from_secs 5" "from_secs 60"]
  have "\<exists>ord \<in> set sample_pair. respects_limits sample_funds ord ex" if "ex \<in> set (executed_orders sol)" for ex
    using that run by (fastforce simp: trading_orderbook)
  then show ?thesis
    using run sol(2) by (metis list.set_intros(1) neq_Nil_conv)
qed

end
