(* ===== verification/Scheduler.thy ===== *)
theory Scheduler
  imports Driver
begin

text \<open>
  The schedulers' timing configuration (\<open>src/services-core/src/driver/scheduler.rs\<close>) and the
  scheduler that follows the system clock (\<open>driver/scheduler/system.rs\<close>).  The driver, the contract,
  the clock and sleeping are collaborators: a background job sees their answers in the order in
  which it asks, and keeps a effs of what it asked for; the main loop is a step relation in which
  time passes while the thread sleeps.
\<close>

section \<open>Timing configuration\<close>

record timing_configuration =
  target_start_solve_time :: duration
  latest_solution_submit_time :: duration
  earliest_solution_submit_time :: duration

definition timing_configuration_new :: "duration \<Rightarrow> duration \<Rightarrow> duration \<Rightarrow> timing_configuration res" where
  "timing_configuration_new target solver_time_limit min_solution_submit_time =
     (if \<not> solver_time_limit < SOLVING_WINDOW then Panic
      else if \<not> target < solver_time_limit then Panic
      else if \<not> min_solution_submit_time < SOLVING_WINDOW then Panic
      else Ok \<lparr>target_start_solve_time = target, latest_solution_submit_time = solver_time_limit,
               earliest_solution_submit_time = min_solution_submit_time\<rparr>)"

definition timing_configuration_default :: "timing_configuration res" where
  "timing_configuration_default = timing_configuration_new (from_secs 30) (from_secs 180) (from_secs 0)"

definition timing_wf :: "timing_configuration \<Rightarrow> bool" where
  "timing_wf cfg \<longleftrightarrow>
     target_start_solve_time cfg < latest_solution_submit_time cfg \<and>
     latest_solution_submit_time cfg < SOLVING_WINDOW \<and> earliest_solution_submit_time cfg < SOLVING_WINDOW"

lemma timing_configuration_new_wf:
  "timing_configuration_new t l e = Ok cfg \<Longrightarrow> timing_wf cfg"
  by (auto simp: timing_configuration_new_def timing_wf_def split: if_splits)

section \<open>The main loop\<close>

definition RETRY_SLEEP_DURATION :: duration where
  "RETRY_SLEEP_DURATION = from_secs 1"

definition CONTRACT_BATCH_ID_POLL_INTERVAL :: duration where
  "CONTRACT_BATCH_ID_POLL_INTERVAL = from_secs 10"

record system_scheduler =
  auction_timing_configuration :: timing_configuration
  last_solved_batch :: "batch_id option"

definition system_scheduler_new :: "timing_configuration \<Rightarrow> system_scheduler" where
  "system_scheduler_new cfg = \<lparr>auction_timing_configuration = cfg, last_solved_batch = None\<rparr>"

datatype action = Solve batch_id duration | Sleep duration

text \<open>\<open>Result::unwrap\<close> and \<open>Context::context\<close>; subtracting durations panics below zero.\<close>

definition unwrap_res :: "('e, 'a) result \<Rightarrow> ('f, 'a) result" where
  "unwrap_res r = (case r of Ok a \<Rightarrow> Ok a | _ \<Rightarrow> Panic)"

definition with_context :: "'a res \<Rightarrow> string \<Rightarrow> 'a res" where
  "with_context r msg = (case r of Err e \<Rightarrow> Err msg | _ \<Rightarrow> r)"

definition duration_sub :: "duration \<Rightarrow> duration \<Rightarrow> ('e, duration) result" where
  "duration_sub a b = (if b \<le> a then Ok (a - b) else Panic)"

definition determine_action :: "system_scheduler \<Rightarrow> system_time \<Rightarrow> action res" where
  "determine_action sch now =
     (let cfg = auction_timing_configuration sch in
      rbind (with_context (currently_being_solved now) ''failed to get batch id currently being solved'') (\<lambda>solving_batch.
      let intended_solve_start_time = solve_start_time solving_batch + int (target_start_solve_time cfg) in
      rbind (unwrap_res (duration_since now (solve_start_time solving_batch))) (\<lambda>elapsed_time.
      if last_solved_batch sch = Some solving_batch \<or> latest_solution_submit_time cfg \<le> elapsed_time then
        rbind (batch_next solving_batch) (\<lambda>next_batch.
        rmap Sleep (unwrap_res (duration_since (solve_start_time next_batch + int (target_start_solve_time cfg)) now)))
      else if now < intended_solve_start_time then
        rmap Sleep (unwrap_res (duration_since intended_solve_start_time now))
      else rmap (Solve solving_batch) (duration_sub (latest_solution_submit_time cfg) elapsed_time))))"

definition duration_until_healthy :: "system_time \<Rightarrow> duration res" where
  "duration_until_healthy now =
     rmap (\<lambda>b. case duration_since (solve_start_time b) now of Ok d \<Rightarrow> d | _ \<Rightarrow> 0) (unwrap_res (batch_current now))"

text \<open>
  The loop of \<open>start\<close>: the scheduler, the time and the background jobs that were started, each with
  its batch, its start and its deadline.  A sleep lasts at least as long as asked for; \<open>slack\<close>
  bounds how much longer an iteration takes.
\<close>

record loop_state =
  loop_scheduler :: system_scheduler
  loop_time :: system_time
  loop_jobs :: "(batch_id \<times> system_time \<times> system_time) list"

inductive loop_step :: "duration \<Rightarrow> loop_state \<Rightarrow> loop_state \<Rightarrow> bool" for slack where
  sleep: "determine_action (loop_scheduler st) (loop_time st) = Ok (Sleep d) \<Longrightarrow> delay < slack \<Longrightarrow>
    loop_step slack st (st\<lparr>loop_time := loop_time st + int d + int delay\<rparr>)"
| solve: "determine_action (loop_scheduler st) (loop_time st) = Ok (Solve b d) \<Longrightarrow> delay < slack \<Longrightarrow>
    loop_step slack st
      (st\<lparr>loop_scheduler := (loop_scheduler st)\<lparr>last_solved_batch := Some b\<rparr>,
          loop_time := loop_time st + int delay,
          loop_jobs := loop_jobs st @ [(b, loop_time st, loop_time st + int d)]\<rparr>)"
| retry: "determine_action (loop_scheduler st) (loop_time st) = Err e \<Longrightarrow> delay < slack \<Longrightarrow>
    loop_step slack st (st\<lparr>loop_time := loop_time st + int RETRY_SLEEP_DURATION + int delay\<rparr>)"

definition loop_start :: "timing_configuration \<Rightarrow> system_time \<Rightarrow> loop_state res" where
  "loop_start cfg now =
     rmap (\<lambda>d. \<lparr>loop_scheduler = system_scheduler_new cfg, loop_time = now + int d, loop_jobs = []\<rparr>)
       (duration_until_healthy now)"

inductive_cases loop_stepE: "loop_step slack st st'"

section \<open>Background jobs\<close>

text \<open>The answers that a job gets: by iteration for the clock and the driver, by poll for the contract.\<close>

record job_world =
  instant_now :: "nat \<Rightarrow> nat"
  world_solve :: "nat \<Rightarrow> batch_id \<Rightarrow> duration \<Rightarrow> (driver_error, solution) result"
  world_auction_index :: "nat \<Rightarrow> u32 res"
  system_now :: system_time

datatype job_effect =
    SolveBatch batch_id duration
  | SleepFor duration
  | SubmitSolution batch_id solution
  | NotifyReady

partial_function (option) wait_for_batch_id ::
    "job_world \<Rightarrow> batch_id \<Rightarrow> nat \<Rightarrow> job_effect list \<Rightarrow> (unit res \<times> job_effect list) option" where
  "wait_for_batch_id w batch_id k effs =
     (case world_auction_index w k of
        Ok index \<Rightarrow>
          if index \<le> batch_into_u32 batch_id
          then wait_for_batch_id w batch_id (k + 1) (effs @ [SleepFor CONTRACT_BATCH_ID_POLL_INTERVAL])
          else Some (Ok (), effs)
      | Err e \<Rightarrow> Some (Err e, effs)
      | Panic \<Rightarrow> Some (Panic, effs))"

definition scheduler_submit ::
    "job_world \<Rightarrow> batch_id \<Rightarrow> duration \<Rightarrow> solution \<Rightarrow> job_effect list \<Rightarrow> job_effect list" where
  "scheduler_submit w batch_id earliest sol effs =
     (case duration_since (solve_start_time batch_id + int earliest) (system_now w) of
        Ok d \<Rightarrow> effs @ [SleepFor d]
      | _ \<Rightarrow> effs) @ [SubmitSolution batch_id sol]"

partial_function (option) solve_and_submit ::
    "job_world \<Rightarrow> batch_id \<Rightarrow> nat \<Rightarrow> duration \<Rightarrow> nat \<Rightarrow> job_effect list \<Rightarrow> job_effect list option" where
  "solve_and_submit w batch_id solver_deadline earliest k effs =
     (case checked_duration_since solver_deadline (instant_now w k) of
        None \<Rightarrow> Some effs
      | Some time_limit \<Rightarrow>
          (let effs = effs @ [SolveBatch batch_id time_limit] in
           (case world_solve w k batch_id time_limit of
              Ok sol \<Rightarrow>
                (case wait_for_batch_id w batch_id 0 effs of
                   None \<Rightarrow> None
                 | Some (Panic, effs) \<Rightarrow> Some effs
                 | Some (_, effs) \<Rightarrow> Some (scheduler_submit w batch_id earliest sol effs))
            | Err (Retry e) \<Rightarrow>
                solve_and_submit w batch_id solver_deadline earliest (k + 1) (effs @ [SleepFor RETRY_SLEEP_DURATION])
            | Err (Skip e) \<Rightarrow> Some effs
            | Panic \<Rightarrow> Some effs)))"

section \<open>Batches in time\<close>

text \<open>The times before the horizon are those whose batches and seconds fit the integers of the code.\<close>

definition horizon :: system_time where
  "horizon = 2 ^ 55 * int BATCH_DURATION"

definition solved_at :: "batch_id \<Rightarrow> system_time \<Rightarrow> bool" where
  "solved_at b t \<longleftrightarrow> unat b < 2 ^ 55 \<and> solve_start_time b \<le> t \<and> t < solve_start_time b + int BATCH_DURATION"

lemma solve_start_time_eq:
  assumes "unat b \<le> 2 ^ 55"
  shows "solve_start_time b = (int (unat b) + 1) * int BATCH_DURATION"
  using assms
  by (simp add: batch_time_defs unat_batch_timestamp [unfolded batch_as_timestamp_def] algebra_simps)

lemma solved_at_div:
  assumes "unat b < 2 ^ 55"
  shows "solved_at b t \<longleftrightarrow> t div int BATCH_DURATION = int (unat b) + 1"
proof -
  have "t div int BATCH_DURATION = q \<longleftrightarrow> q * int BATCH_DURATION \<le> t \<and> t < q * int BATCH_DURATION + int BATCH_DURATION" for q
    unfolding BATCH_DURATION_def from_secs_def by simp linarith
  then show ?thesis
    using assms by (simp add: solved_at_def solve_start_time_eq)
qed

lemma currently_being_solved_at:
  assumes "solved_at b t"
  shows "currently_being_solved t = Ok b"
proof -
  have b: "unat b < 2 ^ 55" "t div 300000000000 = int (unat b) + 1"
    using assms solved_at_div [of b t] by (auto simp: solved_at_def BATCH_DURATION_def from_secs_def)
  have "int (unat b) < 36028797018963968"
    using b(1) of_nat_less_iff [of "unat b" "2 ^ 55", where 'a = int] by simp
  with b(2) have t: "300 * 1000000000 \<le> t" "t < 2 ^ 64 * 1000000000"
    by (simp_all, linarith+)
  have "nat t div 1000000000 div 300 = nat (t div 300000000000)"
    using t by (simp add: div_mult2_eq [symmetric] nat_div_distrib)
  also have "\<dots> - 1 = unat b"
    unfolding b(2) by (simp add: nat_add_distrib del: of_nat_unat)
  finally show ?thesis
    using currently_being_solved_eq [OF t] by simp
qed

lemma solved_at_unique: "solved_at b t \<Longrightarrow> solved_at b' t \<Longrightarrow> b = b'"
  using currently_being_solved_at [of b t] currently_being_solved_at [of b' t] by simp

lemma solved_at_exists:
  assumes "int BATCH_DURATION \<le> t" "t < horizon"
  obtains b where "solved_at b t"
proof -
  define n where "n = nat (t div int BATCH_DURATION - 1)"
  have q: "1 \<le> t div int BATCH_DURATION" "t div int BATCH_DURATION < 2 ^ 55"
    using assms by (simp_all add: horizon_def BATCH_DURATION_def from_secs_def; linarith)+
  then have "n < 2 ^ 55" "int n + 1 = t div int BATCH_DURATION"
    by (auto simp: n_def)
  moreover from this have "unat (word_of_nat n :: u64) = n"
    by (simp add: unat_of_nat)
  ultimately show ?thesis
    using that [of "word_of_nat n"] solved_at_div [of "word_of_nat n" t] by simp
qed

lemma next_batch_facts:
  assumes "unat b < 2 ^ 55"
  shows "batch_next b = Ok (b + 1)" "solve_start_time (b + 1) = solve_start_time b + int BATCH_DURATION"
    "unat (b + 1) = unat b + 1"
proof -
  show u: "unat (b + 1) = unat b + 1"
    using assms by (simp add: unat_word_ariths)
  show "batch_next b = Ok (b + 1)"
    using assms by (simp add: batch_next_def checked_add_def)
  show "solve_start_time (b + 1) = solve_start_time b + int BATCH_DURATION"
    using assms u by (simp add: solve_start_time_eq algebra_simps del: of_nat_unat)
qed

section \<open>Actions\<close>

lemma duration_since_Ok: "earlier \<le> t \<Longrightarrow> duration_since t earlier = Ok (nat (t - earlier))"
  by (simp add: duration_since_def)

lemma with_context_Ok [simp]: "with_context (Ok a) msg = Ok a"
  by (simp add: with_context_def)

lemma unwrap_res_Ok [simp]: "unwrap_res (Ok a) = Ok a"
  by (simp add: unwrap_res_def)

lemma determine_action_eq:
  assumes "solved_at b t" and "cfg = auction_timing_configuration sch"
  shows "determine_action sch t = Ok
    (if last_solved_batch sch = Some b \<or> solve_start_time b + int (latest_solution_submit_time cfg) \<le> t
     then Sleep (nat (solve_start_time b + int BATCH_DURATION + int (target_start_solve_time cfg) - t))
     else if t < solve_start_time b + int (target_start_solve_time cfg)
     then Sleep (nat (solve_start_time b + int (target_start_solve_time cfg) - t))
     else Solve b (nat (solve_start_time b + int (latest_solution_submit_time cfg) - t)))"
proof -
  have b: "unat b < 2 ^ 55" "solve_start_time b \<le> t" "t < solve_start_time b + int BATCH_DURATION"
    using assms by (auto simp: solved_at_def)
  define e where "e = nat (t - solve_start_time b)"
  have e: "t = solve_start_time b + int e"
    using b by (simp add: e_def)
  have "solve_start_time b + int (latest_solution_submit_time cfg) \<le> t \<longleftrightarrow> latest_solution_submit_time cfg \<le> e"
    by (simp add: e)
  moreover have "nat (solve_start_time b + int (latest_solution_submit_time cfg) - t) = latest_solution_submit_time cfg - e"
    by (simp add: e)
  moreover have "duration_since t (solve_start_time b) = Ok e"
    using b by (simp add: duration_since_Ok e_def)
  ultimately show ?thesis
    using b assms
    by (simp add: determine_action_def Let_def currently_being_solved_at next_batch_facts duration_since_Ok duration_sub_def)
qed

section \<open>No batch is left out\<close>

definition job_timely :: "timing_configuration \<Rightarrow> batch_id \<times> system_time \<times> system_time \<Rightarrow> bool" where
  "job_timely cfg job \<longleftrightarrow> (case job of (b, started, deadline) \<Rightarrow>
     solve_start_time b + int (target_start_solve_time cfg) \<le> started \<and> started < deadline \<and>
     deadline = solve_start_time b + int (latest_solution_submit_time cfg))"

definition loop_inv :: "timing_configuration \<Rightarrow> loop_state \<Rightarrow> bool" where
  "loop_inv cfg st \<longleftrightarrow>
     auction_timing_configuration (loop_scheduler st) = cfg \<and> int BATCH_DURATION \<le> loop_time st \<and>
     list_all (job_timely cfg) (loop_jobs st) \<and> successively (\<lambda>j j'. fst j' = fst j + 1) (loop_jobs st) \<and>
     (if loop_jobs st = [] then last_solved_batch (loop_scheduler st) = None
      else (let b = fst (last (loop_jobs st)) in
        unat b < 2 ^ 55 \<and> last_solved_batch (loop_scheduler st) = Some b \<and> solve_start_time b \<le> loop_time st \<and>
        loop_time st < solve_start_time b + int BATCH_DURATION + int (latest_solution_submit_time cfg)))"

definition slack_ok :: "timing_configuration \<Rightarrow> duration \<Rightarrow> bool" where
  "slack_ok cfg slack \<longleftrightarrow>
     0 < slack \<and> slack \<le> latest_solution_submit_time cfg - target_start_solve_time cfg"

text \<open>
  After the last job, for batch \<open>b\<close>, the loop is in the solving phase of \<open>b\<close> or early enough in the
  one of the next batch.
\<close>

lemma loop_inv_batch:
  assumes "loop_inv cfg st" "timing_wf cfg" "loop_time st < horizon" "loop_jobs st \<noteq> []"
    and "solved_at b (loop_time st)"
  shows "b = fst (last (loop_jobs st)) \<or>
    b = fst (last (loop_jobs st)) + 1 \<and> loop_time st < solve_start_time b + int (latest_solution_submit_time cfg)"
proof -
  let ?l = "fst (last (loop_jobs st))"
  have l: "unat ?l < 2 ^ 55" "solve_start_time ?l \<le> loop_time st"
    "loop_time st < solve_start_time ?l + int BATCH_DURATION + int (latest_solution_submit_time cfg)"
    using assms(1,4) by (auto simp: loop_inv_def Let_def)
  have le: "int (latest_solution_submit_time cfg) < int BATCH_DURATION"
    using assms(2) by (simp add: timing_wf_def SOLVING_WINDOW_def BATCH_DURATION_def from_secs_def)
  show ?thesis
  proof (cases "loop_time st < solve_start_time ?l + int BATCH_DURATION")
    case True
    with l have "solved_at ?l (loop_time st)"
      by (simp add: solved_at_def)
    then show ?thesis
      using assms(5) solved_at_unique by blast
  next
    case False
    have "unat ?l + 1 \<noteq> 2 ^ 55"
      using False assms(3) l(1) by (auto simp: horizon_def solve_start_time_eq algebra_simps BATCH_DURATION_def from_secs_def
          simp del: of_nat_unat)
    with False l le have "solved_at (?l + 1) (loop_time st)"
      by (simp add: solved_at_def next_batch_facts)
    then have "b = ?l + 1"
      using assms(5) solved_at_unique by blast
    then show ?thesis
      using l by (simp add: next_batch_facts)
  qed
qed

lemma loop_step_time: "loop_step slack st st' \<Longrightarrow> loop_time st \<le> loop_time st'"
  by (cases rule: loop_step.cases) auto

lemma loop_step_inv:
  assumes inv: "loop_inv cfg st" and wf: "timing_wf cfg" "slack_ok cfg slack"
    and step: "loop_step slack st st'" and hor: "loop_time st' < horizon"
  shows "loop_inv cfg st'"
proof -
  let ?s = "loop_scheduler st" and ?t = "loop_time st"
  have "?t < horizon"
    using loop_step_time [OF step] hor by simp
  moreover have "int BATCH_DURATION \<le> ?t" and cfg: "cfg = auction_timing_configuration ?s"
    using inv by (auto simp: loop_inv_def)
  ultimately obtain b where b: "solved_at b ?t"
    using solved_at_exists by blast
  then have bt: "unat b < 2 ^ 55" "solve_start_time b \<le> ?t" "?t < solve_start_time b + int BATCH_DURATION"
    by (auto simp: solved_at_def)
  note action = determine_action_eq [OF b cfg]
  have last_batch: "loop_jobs st \<noteq> [] \<Longrightarrow> b = fst (last (loop_jobs st)) \<or>
    b = fst (last (loop_jobs st)) + 1 \<and> ?t < solve_start_time b + int (latest_solution_submit_time cfg)"
    using loop_inv_batch [OF inv wf(1) \<open>?t < horizon\<close> _ b] by blast
  have LT: "timing_wf cfg" "slack \<le> latest_solution_submit_time cfg - target_start_solve_time cfg"
    using wf by (auto simp: slack_ok_def)
  have LD: "int (latest_solution_submit_time cfg) < int BATCH_DURATION"
    using wf(1) by (simp add: timing_wf_def SOLVING_WINDOW_def BATCH_DURATION_def from_secs_def)
  from step show ?thesis
  proof (cases rule: loop_step.cases)
    case (sleep d delay)
    have delay: "int (target_start_solve_time cfg) + int delay < int (latest_solution_submit_time cfg)"
      using sleep LT by (simp add: timing_wf_def)
    show ?thesis
    proof (cases "loop_jobs st = []")
      case True
      then show ?thesis
        using sleep(1) inv by (simp add: loop_inv_def)
    next
      case False
      let ?l = "fst (last (loop_jobs st))"
      have l: "unat ?l < 2 ^ 55" "last_solved_batch ?s = Some ?l"
        using inv False by (auto simp: loop_inv_def Let_def)
      have "?t + int d + int delay < solve_start_time ?l + int BATCH_DURATION + int (latest_solution_submit_time cfg)"
        using last_batch [OF False] action sleep(2) bt l delay LD
        by (auto simp: next_batch_facts split: if_splits)
      then show ?thesis
        using sleep(1) inv False by (auto simp: loop_inv_def Let_def)
    qed
  next
    case (solve b' d delay)
    have b': "b' = b" "last_solved_batch ?s \<noteq> Some b" and d: "d = nat (solve_start_time b + int (latest_solution_submit_time cfg) - ?t)"
      and t: "solve_start_time b + int (target_start_solve_time cfg) \<le> ?t" "?t < solve_start_time b + int (latest_solution_submit_time cfg)"
      using action solve(2) by (auto split: if_splits)
    have delay: "int delay < int BATCH_DURATION"
      using solve(3) LT LD by linarith
    have "loop_jobs st \<noteq> [] \<Longrightarrow> b = fst (last (loop_jobs st)) + 1"
      using last_batch inv b'(2) by (auto simp: loop_inv_def Let_def)
    then show ?thesis
      using solve(1) inv b' d t delay bt
      by (auto simp: loop_inv_def Let_def job_timely_def successively_append_iff)
  next
    case (retry e delay)
    then show ?thesis
      using action by simp
  qed
qed

lemma loop_start_inv:
  assumes "loop_start cfg now = Ok st" "loop_time st < horizon"
  shows "loop_inv cfg st"
proof -
  obtain b d where b: "batch_current now = Ok b" and d: "d = (case duration_since (solve_start_time b) now of Ok d \<Rightarrow> d | _ \<Rightarrow> 0)"
    and st: "st = \<lparr>loop_scheduler = system_scheduler_new cfg, loop_time = now + int d, loop_jobs = []\<rparr>"
    using assms(1) by (auto simp: loop_start_def duration_until_healthy_def unwrap_res_def split: result.splits)
  have "0 \<le> now"
    using b batch_current_neg [of now] by (cases "now < 0") auto
  moreover have "int BATCH_DURATION \<le> solve_start_time b"
    by (simp add: solve_start_time_def order_collection_start_time_def time_from_timestamp_def)
  moreover have "now \<le> now + int d" "duration_since (solve_start_time b) now = Ok d' \<Longrightarrow> now + int d = solve_start_time b" for d'
    using d by (auto simp: duration_since_def split: if_splits)
  ultimately have "int BATCH_DURATION \<le> now + int d"
    by (cases "duration_since (solve_start_time b) now") (auto simp: duration_since_def split: if_splits)
  then show ?thesis
    by (simp add: loop_inv_def st system_scheduler_new_def)
qed

lemma loop_reachable_inv:
  assumes "(loop_step slack)\<^sup>*\<^sup>* st st'" "loop_start cfg now = Ok st" "timing_wf cfg" "slack_ok cfg slack"
  shows "loop_time st' < horizon \<Longrightarrow> loop_inv cfg st'"
  using assms(1)
proof (induction rule: rtranclp_induct)
  case base
  then show ?case using assms(2) loop_start_inv by blast
next
  case (step y z)
  then show ?case
    using loop_step_inv [OF _ assms(3,4)] loop_step_time [of slack y z] by fastforce
qed

lemma loop_inv_solved_at:
  assumes "loop_inv cfg st" "loop_time st < horizon"
  obtains b where "solved_at b (loop_time st)"
  using assms solved_at_exists by (auto simp: loop_inv_def)

text \<open>A sleep is meant to last until the target start time of a batch that was not solved yet.\<close>

lemma sleep_until:
  assumes "loop_inv cfg st" "timing_wf cfg" "solved_at b (loop_time st)" "loop_time st < horizon"
    and "determine_action (loop_scheduler st) (loop_time st) = Ok (Sleep d)"
  shows "\<exists>c. unat c \<le> 2 ^ 55 \<and> loop_time st + int d = solve_start_time c + int (target_start_solve_time cfg) \<and>
    last_solved_batch (loop_scheduler st) \<noteq> Some c"
proof -
  let ?s = "loop_scheduler st" and ?t = "loop_time st"
  have cfg: "cfg = auction_timing_configuration ?s"
    using assms(1) by (simp add: loop_inv_def)
  have b: "unat b < 2 ^ 55" "?t < solve_start_time b + int BATCH_DURATION"
    using assms(3) by (auto simp: solved_at_def)
  note nb = next_batch_facts [OF b(1)]
  have "last_solved_batch ?s \<noteq> Some (b + 1)"
  proof (cases "loop_jobs st = []")
    case True
    then show ?thesis using assms(1) by (simp add: loop_inv_def)
  next
    case False
    let ?l = "fst (last (loop_jobs st))"
    have l: "unat ?l < 2 ^ 55" "last_solved_batch ?s = Some ?l"
      using assms(1) False by (auto simp: loop_inv_def Let_def)
    have "b = ?l \<or> b = ?l + 1"
      using loop_inv_batch [OF assms(1,2,4) False assms(3)] by blast
    then have "?l \<noteq> b + 1"
      using nb(3) next_batch_facts(3) [OF l(1)] by (auto simp del: add_left_cancel dest: arg_cong [of _ _ unat])
    then show ?thesis using l by simp
  qed
  then show ?thesis
    using determine_action_eq [OF assms(3) cfg] assms(5) b nb
    by (auto split: if_splits intro: exI [of _ b] exI [of _ "b + 1"])
qed

text \<open>A sleep ends in time to solve: the step after it starts a job.\<close>

lemma sleep_then_solve:
  assumes "loop_inv cfg st" "timing_wf cfg" "slack_ok cfg slack"
    and "loop_step slack st st'" "loop_time st' < horizon" "loop_jobs st' = loop_jobs st"
  shows "\<exists>b d. determine_action (loop_scheduler st') (loop_time st') = Ok (Solve b d)"
proof -
  let ?s = "loop_scheduler st" and ?t = "loop_time st"
  have cfg: "cfg = auction_timing_configuration ?s"
    using assms(1) by (simp add: loop_inv_def)
  obtain b where b: "solved_at b ?t"
    using loop_inv_solved_at [OF assms(1)] loop_step_time [OF assms(4)] assms(5) by (meson le_less_trans)
  obtain d delay where d: "determine_action ?s ?t = Ok (Sleep d)" "delay < slack"
    and st': "st' = st\<lparr>loop_time := ?t + int d + int delay\<rparr>"
  proof (rule loop_stepE [OF assms(4)])
    fix e assume "determine_action ?s ?t = Err e"
    then show thesis using determine_action_eq [OF b cfg] by simp
  next
    fix b d delay
    assume "st' = st\<lparr>loop_scheduler := ?s\<lparr>last_solved_batch := Some b\<rparr>, loop_time := ?t + int delay,
      loop_jobs := loop_jobs st @ [(b, ?t, ?t + int d)]\<rparr>"
    then show thesis using assms(6) by simp
  qed (use that in blast)
  obtain c where c: "unat c \<le> 2 ^ 55" "?t + int d = solve_start_time c + int (target_start_solve_time cfg)"
      "last_solved_batch ?s \<noteq> Some c"
    using sleep_until [OF assms(1,2) b _ d(1)] assms(5) loop_step_time [OF assms(4)] by force
  have t': "loop_time st' = solve_start_time c + int (target_start_solve_time cfg) + int delay"
    using st' c(2) by simp
  have late: "int (target_start_solve_time cfg) + int delay < int (latest_solution_submit_time cfg)"
    "int (latest_solution_submit_time cfg) < int BATCH_DURATION"
    using d(2) assms(2,3) by (auto simp: slack_ok_def timing_wf_def SOLVING_WINDOW_def BATCH_DURATION_def from_secs_def)
  have "unat c \<noteq> 2 ^ 55"
    using assms(5) t' c(1) by (auto simp: horizon_def solve_start_time_eq algebra_simps BATCH_DURATION_def from_secs_def
          simp del: of_nat_unat)
  with c(1) t' late have "solved_at c (loop_time st')"
    by (simp add: solved_at_def)
  then show ?thesis
    using determine_action_eq [of c "loop_time st'" cfg "loop_scheduler st'"] cfg c(3) t' late st' by auto
qed

text \<open>
  C2: the main loop of the system scheduler, started with an accepted configuration, never panics
  and can always go on; it starts a job for every batch from its first one on, none is left out
  or solved twice; each job starts between the target start time and the latest submission time
  of its batch and has until the latter; and of any two iterations one starts a job.  Iterations
  may take longer than asked for by less than the time between target start and latest submission.
\<close>

theorem scheduler_solves_every_batch:
  assumes "timing_configuration_new target limit earliest = Ok cfg"
    and "0 < slack" "slack \<le> limit - target"
    and "loop_start cfg now = Ok st0" "(loop_step slack)\<^sup>*\<^sup>* st0 st" "loop_time st < horizon"
  shows "(\<exists>st'. loop_step slack st st') \<and>
    successively (\<lambda>j j'. fst j' = fst j + 1) (loop_jobs st) \<and> list_all (job_timely cfg) (loop_jobs st) \<and>
    (\<forall>st1 st2. loop_step slack st st1 \<longrightarrow> loop_step slack st1 st2 \<longrightarrow> loop_time st1 < horizon \<longrightarrow>
       length (loop_jobs st) < length (loop_jobs st2))"
proof -
  have wf: "timing_wf cfg" "slack_ok cfg slack"
    using assms(1-3) timing_configuration_new_wf [OF assms(1)]
    by (auto simp: slack_ok_def timing_configuration_new_def split: if_splits)
  have inv: "loop_inv cfg st"
    using loop_reachable_inv [OF assms(5,4) wf assms(6)] .
  then obtain b where "solved_at b (loop_time st)"
    using assms(6) loop_inv_solved_at by blast
  moreover have "cfg = auction_timing_configuration (loop_scheduler st)"
    using inv by (simp add: loop_inv_def)
  ultimately have "\<exists>st'. loop_step slack st st'"
    using determine_action_eq [of b "loop_time st" cfg "loop_scheduler st"] assms(2)
    by (cases "determine_action (loop_scheduler st) (loop_time st)";
        metis action.exhaust loop_step.intros result.distinct(1) result.inject(1) result.simps(5))
  moreover have "length (loop_jobs st) < length (loop_jobs st2)"
    if "loop_step slack st st1" "loop_step slack st1 st2" "loop_time st1 < horizon" for st1 st2
    using that sleep_then_solve [OF inv wf that(1,3)]
    by (auto elim!: loop_stepE)
  ultimately show ?thesis
    using inv by (simp add: loop_inv_def)
qed

lemma scheduler_solves_every_batch_witness:
  "\<exists>st'. loop_step (from_secs 1)
     \<lparr>loop_scheduler = system_scheduler_new
        \<lparr>target_start_solve_time = from_secs 30, latest_solution_submit_time = from_secs 180, earliest_solution_submit_time = 0\<rparr>,
      loop_time = 300000000000, loop_jobs = []\<rparr> st'"
proof -
  let ?cfg = "\<lparr>target_start_solve_time = from_secs 30, latest_solution_submit_time = from_secs 180, earliest_solution_submit_time = 0\<rparr>"
  let ?st = "\<lparr>loop_scheduler = system_scheduler_new ?cfg, loop_time = 300000000000, loop_jobs = []\<rparr>"
  have "timing_configuration_new (from_secs 30) (from_secs 180) (from_secs 0) = Ok ?cfg"
    by (simp add: timing_configuration_new_def SOLVING_WINDOW_def from_secs_def)
  moreover have "loop_start ?cfg 0 = Ok ?st"
    by (simp add: loop_start_def duration_until_healthy_def batch_current_eq duration_since_def batch_time_defs)
  ultimately show ?thesis
    using scheduler_solves_every_batch [of "from_secs 30" "from_secs 180" "from_secs 0" ?cfg "from_secs 1" 0 ?st ?st]
    by (simp add: from_secs_def horizon_def BATCH_DURATION_def)
qed

section \<open>What a job does\<close>

definition retried :: "job_world \<Rightarrow> batch_id \<Rightarrow> nat \<Rightarrow> nat \<Rightarrow> bool" where
  "retried w b deadline k \<longleftrightarrow> instant_now w k \<le> deadline \<and>
     (case world_solve w k b (deadline - instant_now w k) of Err (Retry e) \<Rightarrow> True | _ \<Rightarrow> False)"

definition waiting :: "job_world \<Rightarrow> batch_id \<Rightarrow> nat \<Rightarrow> bool" where
  "waiting w b k \<longleftrightarrow> (case world_auction_index w k of Ok index \<Rightarrow> index \<le> batch_into_u32 b | _ \<Rightarrow> False)"

definition attempts :: "job_world \<Rightarrow> batch_id \<Rightarrow> nat \<Rightarrow> nat \<Rightarrow> nat \<Rightarrow> job_effect list" where
  "attempts w b deadline k n =
     concat (map (\<lambda>j. [SolveBatch b (deadline - instant_now w j), SleepFor RETRY_SLEEP_DURATION]) [k..<k + n])"

lemma first_failure:
  fixes P :: "nat \<Rightarrow> bool"
  assumes "\<not> P k"
  obtains n where "\<forall>j<n. P j" "\<not> P n"
  using assms exists_least_iff [of "\<lambda>n. \<not> P n"] that by blast

lemma wait_for_batch_id_eq:
  "\<forall>j<n. waiting w b (k + j) \<Longrightarrow> \<not> waiting w b (k + n) \<Longrightarrow>
   wait_for_batch_id w b k effs =
     Some (rmap (\<lambda>_. ()) (world_auction_index w (k + n)), effs @ replicate n (SleepFor CONTRACT_BATCH_ID_POLL_INTERVAL))"
proof (induction n arbitrary: k effs)
  case 0
  then show ?case
    by (subst wait_for_batch_id.simps) (auto simp: waiting_def split: result.splits)
next
  case (Suc n)
  have "waiting w b k" and rest: "\<forall>j<n. waiting w b (k + 1 + j)"
    using Suc.prems(1) by (force, metis add.assoc add.commute add_mono_thms_linordered_field(4) less_Suc_eq plus_1_eq_Suc Suc_less_eq)
  then show ?case
    using Suc.IH [OF rest] Suc.prems(2)
    by (subst wait_for_batch_id.simps) (auto simp: waiting_def split: result.splits)
qed

lemma solve_and_submit_retries:
  "\<forall>j<n. retried w b deadline (k + j) \<Longrightarrow>
   solve_and_submit w b deadline earliest k effs =
     solve_and_submit w b deadline earliest (k + n) (effs @ attempts w b deadline k n)"
proof (induction n arbitrary: k effs)
  case 0
  then show ?case by (simp add: attempts_def)
next
  case (Suc n)
  have "retried w b deadline k" and rest: "\<forall>j<n. retried w b deadline (k + 1 + j)"
    using Suc.prems(1) by (force, metis add.assoc add.commute less_Suc_eq plus_1_eq_Suc Suc_less_eq)
  moreover have "attempts w b deadline k (Suc n) =
      [SolveBatch b (deadline - instant_now w k), SleepFor RETRY_SLEEP_DURATION] @ attempts w b deadline (k + 1) n"
    unfolding attempts_def by (subst upt_conv_Cons) simp_all
  ultimately show ?case
    using Suc.IH [OF rest, of "effs @ [SolveBatch b (deadline - instant_now w k), SleepFor RETRY_SLEEP_DURATION]"]
    by (subst solve_and_submit.simps)
      (auto simp: retried_def checked_duration_since_def split: result.splits driver_error.splits)
qed

lemma solve_and_submit_end:
  assumes "\<not> retried w b deadline n" "\<forall>k<m. waiting w b k" "\<not> waiting w b m"
  shows "solve_and_submit w b deadline earliest n effs = Some (effs @
      (if deadline < instant_now w n then []
       else [SolveBatch b (deadline - instant_now w n)] @
         (case world_solve w n b (deadline - instant_now w n) of
            Ok sol \<Rightarrow> replicate m (SleepFor CONTRACT_BATCH_ID_POLL_INTERVAL) @
              (if world_auction_index w m = Panic then []
               else (let start = solve_start_time b + int earliest in
                 (if system_now w \<le> start then [SleepFor (nat (start - system_now w))] else []) @ [SubmitSolution b sol]))
          | _ \<Rightarrow> [])))"
proof (cases "deadline < instant_now w n")
  case True
  then show ?thesis
    by (subst solve_and_submit.simps) (simp add: checked_duration_since_def)
next
  case False
  let ?r = "world_solve w n b (deadline - instant_now w n)"
  have wait: "wait_for_batch_id w b 0 es =
      Some (rmap (\<lambda>_. ()) (world_auction_index w m), es @ replicate m (SleepFor CONTRACT_BATCH_ID_POLL_INTERVAL))" for es
    using wait_for_batch_id_eq [of m w b 0] assms(2,3) by simp
  have "?r \<noteq> Err (Retry e)" for e
    using assms(1) False by (auto simp: retried_def)
  then consider sol where "?r = Ok sol" | e where "?r = Err (Skip e)" | "?r = Panic"
    by (cases ?r) (auto, metis driver_error.exhaust)
  then show ?thesis
    using False
    by cases (subst solve_and_submit.simps;
      cases "world_auction_index w m"; simp add: checked_duration_since_def wait scheduler_submit_def duration_since_def Let_def)+
qed

text \<open>
  C27: a background job ends, when the clock advances at least by the retry sleeps and the contract
  once answers with a later batch or an error.  It asks the driver again exactly after retryable
  errors, always with the time left until its deadline, and not after the deadline.  The first
  solution it gets is submitted once, as its last effect: the contract is polled until it answers
  with a later batch or the poll fails with an error, and then the earliest submission time is
  waited for; a poll that panics ends the job.  Without a solution nothing is submitted.
\<close>

theorem job_submits_first_solution:
  assumes "\<forall>k. instant_now w k + RETRY_SLEEP_DURATION \<le> instant_now w (k + 1)"
    and "\<exists>k. \<not> waiting w b k"
  shows "\<exists>n m. (\<forall>k<n. retried w b deadline k) \<and> \<not> retried w b deadline n \<and> (\<forall>k<m. waiting w b k) \<and> \<not> waiting w b m \<and>
    solve_and_submit w b deadline earliest 0 [] = Some (attempts w b deadline 0 n @
      (if deadline < instant_now w n then []
       else [SolveBatch b (deadline - instant_now w n)] @
         (case world_solve w n b (deadline - instant_now w n) of
            Ok sol \<Rightarrow> replicate m (SleepFor CONTRACT_BATCH_ID_POLL_INTERVAL) @
              (if world_auction_index w m = Panic then []
               else (let start = solve_start_time b + int earliest in
                 (if system_now w \<le> start then [SleepFor (nat (start - system_now w))] else []) @ [SubmitSolution b sol]))
          | _ \<Rightarrow> [])))"
proof -
  have clock: "k * RETRY_SLEEP_DURATION \<le> instant_now w k" for k
  proof (induction k)
    case (Suc k)
    then show ?case using assms(1) [THEN spec, of k] by simp
  qed simp
  have "\<not> retried w b deadline (deadline + 1)"
    using clock [of "deadline + 1"] by (simp add: retried_def RETRY_SLEEP_DURATION_def from_secs_def)
  then obtain n where n: "\<forall>k<n. retried w b deadline k" "\<not> retried w b deadline n"
    using first_failure by blast
  obtain m where m: "\<forall>k<m. waiting w b k" "\<not> waiting w b m"
    using assms(2) first_failure [of "waiting w b"] by blast
  have "solve_and_submit w b deadline earliest 0 [] = solve_and_submit w b deadline earliest n (attempts w b deadline 0 n)"
    using solve_and_submit_retries [of n w b deadline 0 earliest "[]"] n by simp
  from trans [OF this solve_and_submit_end [OF n(2) m]] show ?thesis
    by (intro exI [of _ n] exI [of _ m] conjI n m)
qed

definition sample_world :: job_world where
  "sample_world =
     \<lparr>instant_now = (\<lambda>k. k * from_secs 2),
      world_solve = (\<lambda>k b d. if k = 0 then Err (Retry ''orderbook'') else Ok trivial),
      world_auction_index = (\<lambda>k. if k < 2 then Ok 7 else Ok 8), system_now = 0\<rparr>"

lemma job_submits_first_solution_witness:
  "\<exists>effs. solve_and_submit sample_world 7 (from_secs 60) 0 0 [] = Some effs"
proof -
  have "\<forall>k. instant_now sample_world k + RETRY_SLEEP_DURATION \<le> instant_now sample_world (k + 1)" "\<not> waiting sample_world 7 2"
    by (simp_all add: sample_world_def RETRY_SLEEP_DURATION_def from_secs_def waiting_def batch_into_u32_def)
  then show ?thesis
    using job_submits_first_solution [of sample_world 7 "from_secs 60" 0] by fast
qed

end
