(* ===== verification/EvmScheduler.thy ===== *)
theory EvmScheduler
  imports Scheduler
begin

text \<open>
  The scheduler that follows the chain (\<open>src/services-core/src/driver/scheduler/evm.rs\<close>): it polls
  the exchange for the batch and the remaining time.  Every question to the exchange or to the
  driver has a number, and the answers are functions of it; the operations pass the number of the
  next question and a log of their effects.  Loops are partial functions, \<open>None\<close> being a loop that
  does not end.  Subtracting one from the batch of the exchange wraps around.
\<close>

section \<open>Operations\<close>

definition POLL_TIMEOUT :: duration where
  "POLL_TIMEOUT = from_secs 5"

definition EVM_RETRY_SLEEP_DURATION :: duration where
  "EVM_RETRY_SLEEP_DURATION = from_secs 5"

record evm_world =
  evm_auction_index :: "nat \<Rightarrow> u32 res"
  evm_remaining_time :: "nat \<Rightarrow> duration res"
  evm_driver_solve :: "nat \<Rightarrow> batch_id \<Rightarrow> duration \<Rightarrow> (driver_error, solution) result"

definition current_solving_batch :: "evm_world \<Rightarrow> nat \<Rightarrow> u32 res \<times> nat" where
  "current_solving_batch w n = (rmap (\<lambda>i. i - 1) (evm_auction_index w n), n + 1)"

partial_function (option) wait_for_batch_to_change ::
    "evm_world \<Rightarrow> u32 \<Rightarrow> nat \<Rightarrow> job_effect list \<Rightarrow> (u32 res \<times> nat \<times> job_effect list) option" where
  "wait_for_batch_to_change w batch n effs =
     (case current_solving_batch w n of
        (Ok current_batch, n) \<Rightarrow>
          if current_batch \<noteq> batch then Some (Ok current_batch, n, effs)
          else wait_for_batch_to_change w batch n (effs @ [SleepFor POLL_TIMEOUT])
      | (Err e, n) \<Rightarrow> Some (Err e, n, effs)
      | (Panic, n) \<Rightarrow> Some (Panic, n, effs))"

definition batch_time :: "evm_world \<Rightarrow> u32 \<Rightarrow> nat \<Rightarrow> duration option res \<times> nat" where
  "batch_time w batch n =
     (case evm_remaining_time w n of
        Ok time_remaining \<Rightarrow>
          (case current_solving_batch w (n + 1) of
             (Ok current_batch, n) \<Rightarrow>
               (if current_batch \<noteq> batch then Ok None
                else if time_remaining \<le> BATCH_DURATION then Ok (Some (BATCH_DURATION - time_remaining))
                else Panic, n)
           | (Err e, n) \<Rightarrow> (Err e, n)
           | (Panic, n) \<Rightarrow> (Panic, n))
      | Err e \<Rightarrow> (Err e, n + 1)
      | Panic \<Rightarrow> (Panic, n + 1))"

definition solver_time_limit :: "evm_world \<Rightarrow> timing_configuration \<Rightarrow> u32 \<Rightarrow> nat \<Rightarrow> duration option res \<times> nat" where
  "solver_time_limit w cfg batch n =
     (case batch_time w batch n of (r, n) \<Rightarrow>
        (rmap (\<lambda>bt. Option.bind bt (\<lambda>bt.
            if bt \<le> latest_solution_submit_time cfg then Some (latest_solution_submit_time cfg - bt) else None)) r, n))"

partial_function (option) evm_solve ::
    "evm_world \<Rightarrow> timing_configuration \<Rightarrow> u32 \<Rightarrow> nat \<Rightarrow> job_effect list \<Rightarrow>
     (solution option res \<times> nat \<times> job_effect list) option" where
  "evm_solve w cfg batch n effs =
     (case solver_time_limit w cfg batch n of
        (Ok (Some time_limit), n) \<Rightarrow>
          (let effs = effs @ [SolveBatch (batch_from_u32 batch) time_limit] in
           (case evm_driver_solve w n (batch_from_u32 batch) time_limit of
              Ok sol \<Rightarrow> Some (Ok (Some sol), n + 1, effs)
            | Err (Retry e) \<Rightarrow> evm_solve w cfg batch (n + 1) effs
            | Err (Skip e) \<Rightarrow> Some (Ok None, n + 1, effs)
            | Panic \<Rightarrow> Some (Panic, n + 1, effs)))
      | (Ok None, n) \<Rightarrow> Some (Ok None, n, effs)
      | (Err e, n) \<Rightarrow> Some (Err e, n, effs)
      | (Panic, n) \<Rightarrow> Some (Panic, n, effs))"

partial_function (option) evm_submit ::
    "evm_world \<Rightarrow> timing_configuration \<Rightarrow> u32 \<Rightarrow> solution \<Rightarrow> nat \<Rightarrow> job_effect list \<Rightarrow>
     (unit res \<times> nat \<times> job_effect list) option" where
  "evm_submit w cfg batch sol n effs =
     (case batch_time w batch n of
        (Ok None, n) \<Rightarrow> Some (Ok (), n, effs)
      | (Ok (Some d), n) \<Rightarrow>
          if d < earliest_solution_submit_time cfg
          then evm_submit w cfg batch sol n (effs @ [SleepFor POLL_TIMEOUT])
          else Some (Ok (), n + 1, effs @ [SubmitSolution (batch_from_u32 batch) sol])
      | (Err e, n) \<Rightarrow> Some (Err e, n, effs)
      | (Panic, n) \<Rightarrow> Some (Panic, n, effs))"

definition evm_step ::
    "evm_world \<Rightarrow> timing_configuration \<Rightarrow> u32 option \<Rightarrow> nat \<Rightarrow> (u32 res \<times> nat \<times> job_effect list) option" where
  "evm_step w cfg last_batch n =
     (case (case last_batch of None \<Rightarrow> current_solving_batch w n | Some batch \<Rightarrow> (Ok batch, n)) of
        (Ok last_batch, n) \<Rightarrow>
          Option.bind (wait_for_batch_to_change w last_batch n []) (\<lambda>(r, n, effs).
            case r of
              Ok new_batch \<Rightarrow>
                Option.bind (evm_solve w cfg new_batch n (effs @ [NotifyReady])) (\<lambda>(r, n, effs).
                  case r of
                    Ok (Some sol) \<Rightarrow>
                      map_option (\<lambda>(r, n, effs). (rmap (\<lambda>_. new_batch) r, n, effs)) (evm_submit w cfg new_batch sol n effs)
                  | Ok None \<Rightarrow> Some (Ok new_batch, n, effs)
                  | Err e \<Rightarrow> Some (Err e, n, effs)
                  | Panic \<Rightarrow> Some (Panic, n, effs))
            | Err e \<Rightarrow> Some (Err e, n, effs)
            | Panic \<Rightarrow> Some (Panic, n, effs))
      | (Err e, n) \<Rightarrow> Some (Err e, n, [])
      | (Panic, n) \<Rightarrow> Some (Panic, n, []))"

text \<open>The loop of \<open>start\<close>, for a number of iterations.\<close>

fun evm_run :: "evm_world \<Rightarrow> timing_configuration \<Rightarrow> nat \<Rightarrow> u32 option \<times> nat \<Rightarrow> (u32 option \<times> nat) res option" where
  "evm_run w cfg 0 st = Some (Ok st)"
| "evm_run w cfg (Suc k) (previous_batch, n) =
     (case evm_step w cfg previous_batch n of
        None \<Rightarrow> None
      | Some (Ok batch, n, _) \<Rightarrow> evm_run w cfg k (Some batch, n)
      | Some (Err e, n, _) \<Rightarrow> evm_run w cfg k (previous_batch, n)
      | Some (Panic, n, _) \<Rightarrow> Some Panic)"

section \<open>Every loop ends with its batch\<close>

definition passes :: "evm_world \<Rightarrow> u32 \<Rightarrow> nat \<Rightarrow> bool" where
  "passes w batch m \<longleftrightarrow> (\<forall>k\<ge>m. evm_auction_index w k \<noteq> Ok (batch + 1))"

lemma current_solving_batch_passed:
  "passes w batch m \<Longrightarrow> m \<le> n \<Longrightarrow> fst (current_solving_batch w n) \<noteq> Ok batch"
  by (auto simp: passes_def current_solving_batch_def)

lemma batch_time_passed:
  "passes w batch m \<Longrightarrow> m \<le> n \<Longrightarrow> fst (batch_time w batch n) \<noteq> Ok (Some d)"
  using current_solving_batch_passed [of w batch m "n + 1"]
  by (auto simp: batch_time_def current_solving_batch_def split: result.splits if_splits)

lemma batch_time_tick: "n < snd (batch_time w batch n)"
  by (simp add: batch_time_def current_solving_batch_def split: result.splits)

lemma wait_for_batch_to_change_ends:
  assumes "passes w batch m"
  shows "\<exists>r n' j. wait_for_batch_to_change w batch n effs = Some (r, n', effs @ replicate j (SleepFor POLL_TIMEOUT)) \<and>
    n \<le> n' \<and> r \<noteq> Ok batch"
proof (induction "m - n" arbitrary: n effs rule: less_induct)
  case less
  show ?case
  proof (cases "fst (current_solving_batch w n) = Ok batch")
    case True
    then have "n < m"
      using current_solving_batch_passed [OF assms, of n] by force
    then have "m - (n + 1) < m - n" by simp
    note less [OF this, of "effs @ [SleepFor POLL_TIMEOUT]"]
    moreover have "wait_for_batch_to_change w batch n effs =
        wait_for_batch_to_change w batch (n + 1) (effs @ [SleepFor POLL_TIMEOUT])"
      using True by (subst wait_for_batch_to_change.simps) (auto simp: current_solving_batch_def)
    ultimately show ?thesis
      by (metis Suc_eq_plus1 Suc_leD append.assoc append_Cons append_Nil replicate_Suc)
  next
    case False
    then show ?thesis
      by (subst wait_for_batch_to_change.simps)
        (auto simp: current_solving_batch_def split: result.splits intro: exI [of _ 0])
  qed
qed

definition solve_effect :: "timing_configuration \<Rightarrow> u32 \<Rightarrow> job_effect \<Rightarrow> bool" where
  "solve_effect cfg batch e \<longleftrightarrow> (\<exists>d. e = SolveBatch (batch_from_u32 batch) d \<and> d \<le> latest_solution_submit_time cfg)"

lemma solve_effect_intro:
  "d \<le> latest_solution_submit_time cfg \<Longrightarrow> solve_effect cfg batch (SolveBatch (batch_from_u32 batch) d)"
  by (simp add: solve_effect_def)

lemma evm_solve_ends:
  assumes "passes w batch m"
  shows "\<exists>r n' es. evm_solve w cfg batch n effs = Some (r, n', effs @ es) \<and> n \<le> n' \<and> list_all (solve_effect cfg batch) es \<and>
    (\<forall>sol. r = Ok (Some sol) \<longrightarrow> (\<exists>k d. evm_driver_solve w k (batch_from_u32 batch) d = Ok sol \<and>
       SolveBatch (batch_from_u32 batch) d \<in> set es))"
    (is "\<exists>r n' es. ?P n effs r n' es")
proof (induction "m - n" arbitrary: n effs rule: less_induct)
  case less
  obtain r0 n0 where bt: "solver_time_limit w cfg batch n = (r0, n0)" by fastforce
  have n0: "n < n0"
    using bt batch_time_tick [of n w batch] by (auto simp: solver_time_limit_def split: prod.splits)
  show ?case
  proof (cases "\<exists>d. r0 = Ok (Some d)")
    case True
    then obtain d where d: "r0 = Ok (Some d)" ..
    with bt obtain t where "fst (batch_time w batch n) = Ok (Some t)" and dl: "d \<le> latest_solution_submit_time cfg"
      by (auto simp: solver_time_limit_def split: prod.splits if_splits Option.bind_splits)
    then have nm: "n < m"
      using batch_time_passed [OF assms, of n t] by (cases "m \<le> n") auto
    let ?e = "SolveBatch (batch_from_u32 batch) d" and ?r = "evm_driver_solve w n0 (batch_from_u32 batch) d"
    consider sol where "?r = Ok sol" | e where "?r = Err (Retry e)" | e where "?r = Err (Skip e)" | "?r = Panic"
      by (cases ?r) (auto, metis driver_error.exhaust)
    then show ?thesis
    proof cases
      case (2 e)
      have "m - (n0 + 1) < m - n" using nm n0 by simp
      from less [OF this, of "effs @ [?e]"] obtain r n' es where IH: "?P (n0 + 1) (effs @ [?e]) r n' es"
        by blast
      then have "?P n effs r n' (?e # es)"
        using 2 bt d n0 solve_effect_intro [OF dl, of batch] by (subst evm_solve.simps) (auto, blast)
      then show ?thesis by blast
    next
      case (1 sol)
      then have "?P n effs (Ok (Some sol)) (n0 + 1) [?e]"
        using bt d dl n0 by (subst evm_solve.simps) (auto simp: solve_effect_def)
      then show ?thesis by blast
    next
      case (3 e)
      then have "?P n effs (Ok None) (n0 + 1) [?e]"
        using bt d dl n0 by (subst evm_solve.simps) (auto simp: solve_effect_def)
      then show ?thesis by blast
    next
      case 4
      then have "?P n effs Panic (n0 + 1) [?e]"
        using bt d dl n0 by (subst evm_solve.simps) (auto simp: solve_effect_def)
      then show ?thesis by blast
    qed
  next
    case False
    then have "?P n effs (rmap (\<lambda>_. None) r0) n0 []"
      using bt n0 by (subst evm_solve.simps) (auto split: result.splits option.splits)
    then show ?thesis by blast
  qed
qed

lemma evm_submit_ends:
  assumes "passes w batch m"
  shows "\<exists>r n' j es. evm_submit w cfg batch sol n effs = Some (r, n', effs @ replicate j (SleepFor POLL_TIMEOUT) @ es) \<and>
    (es = [] \<or> es = [SubmitSolution (batch_from_u32 batch) sol] \<and>
      (\<exists>k d. fst (batch_time w batch k) = Ok (Some d) \<and> earliest_solution_submit_time cfg \<le> d))"
    (is "\<exists>r n' j es. ?P n effs r n' j es")
proof (induction "m - n" arbitrary: n effs rule: less_induct)
  case less
  obtain r0 n0 where bt: "batch_time w batch n = (r0, n0)" by fastforce
  have n0: "n < n0"
    using bt batch_time_tick [of n w batch] by simp
  show ?case
  proof (cases "\<exists>d < earliest_solution_submit_time cfg. r0 = Ok (Some d)")
    case True
    then obtain d where d: "r0 = Ok (Some d)" "d < earliest_solution_submit_time cfg" by blast
    then have "m - n0 < m - n"
      using bt n0 batch_time_passed [OF assms, of n d] by (cases "m \<le> n") auto
    from less [OF this, of "effs @ [SleepFor POLL_TIMEOUT]"] obtain r n' j es
      where IH: "?P n0 (effs @ [SleepFor POLL_TIMEOUT]) r n' j es" by blast
    then have "?P n effs r n' (Suc j) es"
      using bt d by (subst evm_submit.simps) simp
    then show ?thesis by blast
  next
    case False
    show ?thesis
    proof (cases "\<exists>d. r0 = Ok (Some d)")
      case True
      then obtain d where "r0 = Ok (Some d)" "earliest_solution_submit_time cfg \<le> d"
        using False by (auto simp: not_less)
      moreover from this have "fst (batch_time w batch n) = Ok (Some d) \<and> earliest_solution_submit_time cfg \<le> d"
        using bt by simp
      ultimately have "?P n effs (Ok ()) (n0 + 1) 0 [SubmitSolution (batch_from_u32 batch) sol]"
        using bt by (subst evm_submit.simps) (auto simp: not_less, metis fst_conv)
      then show ?thesis by blast
    next
      case none: False
      then have "?P n effs (rmap (\<lambda>_. ()) r0) n0 0 []"
        using bt by (subst evm_submit.simps) (auto split: result.splits option.splits)
      then show ?thesis by blast
    qed
  qed
qed

definition is_submit :: "job_effect \<Rightarrow> bool" where
  "is_submit e \<longleftrightarrow> (case e of SubmitSolution b sol \<Rightarrow> True | _ \<Rightarrow> False)"

lemma is_submit_simps [simp]:
  "\<not> is_submit (SleepFor d)" "\<not> is_submit (SolveBatch b d)" "\<not> is_submit NotifyReady" "is_submit (SubmitSolution b sol)"
  by (simp_all add: is_submit_def)

lemma no_submits:
  "list_all (solve_effect cfg b) es \<Longrightarrow> filter is_submit es = []"
  "filter is_submit (replicate j (SleepFor d)) = []"
  by (auto simp: list_all_iff solve_effect_def filter_empty_conv)

definition handles_batch ::
    "evm_world \<Rightarrow> timing_configuration \<Rightarrow> u32 \<Rightarrow> u32 res \<Rightarrow> job_effect list \<Rightarrow> bool" where
  "handles_batch w cfg b r effs \<longleftrightarrow> (\<forall>c. r = Ok c \<longrightarrow> c = b) \<and>
    (\<forall>c d. SolveBatch c d \<in> set effs \<longrightarrow> c = batch_from_u32 b \<and> d \<le> latest_solution_submit_time cfg) \<and>
    length (filter is_submit effs) \<le> 1 \<and>
    (\<forall>c sol. SubmitSolution c sol \<in> set effs \<longrightarrow> c = batch_from_u32 b \<and>
       (\<exists>k d. evm_driver_solve w k c d = Ok sol \<and> SolveBatch c d \<in> set effs) \<and>
       (\<exists>k d. fst (batch_time w b k) = Ok (Some d) \<and> earliest_solution_submit_time cfg \<le> d))"

lemma evm_step_handles_next:
  assumes wait: "wait_for_batch_to_change w l n0 [] = Some (Ok b, n1, replicate j (SleepFor POLL_TIMEOUT))" and pass: "passes w b m"
  shows "\<exists>r n' effs. evm_step w cfg (Some l) n0 = Some (r, n', effs) \<and> handles_batch w cfg b r effs"
proof -
  let ?w = "replicate j (SleepFor POLL_TIMEOUT) @ [NotifyReady]"
  obtain r2 n2 es where solve: "evm_solve w cfg b n1 ?w = Some (r2, n2, ?w @ es)" "list_all (solve_effect cfg b) es"
    and sol: "\<forall>sol. r2 = Ok (Some sol) \<longrightarrow> (\<exists>k d. evm_driver_solve w k (batch_from_u32 b) d = Ok sol \<and> SolveBatch (batch_from_u32 b) d \<in> set es)"
    using evm_solve_ends [OF pass, of cfg n1 ?w] by blast
  have step: "evm_step w cfg (Some l) n0 =
      (case r2 of
         Ok (Some sol) \<Rightarrow> map_option (\<lambda>(r, n, effs). (rmap (\<lambda>_. b) r, n, effs)) (evm_submit w cfg b sol n2 (?w @ es))
       | Ok None \<Rightarrow> Some (Ok b, n2, ?w @ es)
       | Err e \<Rightarrow> Some (Err e, n2, ?w @ es)
       | Panic \<Rightarrow> Some (Panic, n2, ?w @ es))"
    using wait solve(1) by (simp add: evm_step_def split: result.splits option.splits)
  show ?thesis
  proof (cases "\<exists>sol. r2 = Ok (Some sol)")
    case True
    then obtain sl where sl: "r2 = Ok (Some sl)" ..
    obtain r3 n3 i fs where sub: "evm_submit w cfg b sl n2 (?w @ es) = Some (r3, n3, (?w @ es) @ replicate i (SleepFor POLL_TIMEOUT) @ fs)"
      and fs: "fs = [] \<or> fs = [SubmitSolution (batch_from_u32 b) sl] \<and>
        (\<exists>k d. fst (batch_time w b k) = Ok (Some d) \<and> earliest_solution_submit_time cfg \<le> d)"
      using evm_submit_ends [OF pass] by blast
    have "handles_batch w cfg b (rmap (\<lambda>_. b) r3) ((?w @ es) @ replicate i (SleepFor POLL_TIMEOUT) @ fs)"
      using sl fs solve(2) sol unfolding handles_batch_def
      by (auto simp: no_submits list_all_iff solve_effect_def) blast+
    then show ?thesis
      using step sl sub by simp
  next
    case False
    then have "evm_step w cfg (Some l) n0 = Some (rmap (\<lambda>_. b) r2, n2, ?w @ es)"
      using step by (cases r2) (auto split: option.splits)
    moreover have "handles_batch w cfg b (rmap (\<lambda>_. b) r2) (?w @ es)"
      using solve(2) unfolding handles_batch_def by (cases r2) (auto simp: no_submits list_all_iff solve_effect_def)
    ultimately show ?thesis by blast
  qed
qed

text \<open>
  C28: a step of the EVM scheduler returns once the exchange leaves the last batch and the batch
  that the step then handles.  It handles one batch, which is not the last one: the driver is asked
  for no other and never for longer than until the latest submission time; at most one solution
  is submitted, one that the driver found for this batch, and only after the exchange reported
  this batch with its earliest submission time passed.
\<close>

theorem evm_step_handles_one_batch:
  assumes "passes w l m"
    and "\<forall>b n effs. wait_for_batch_to_change w l n0 [] = Some (Ok b, n, effs) \<longrightarrow> (\<exists>m. passes w b m)"
  shows "\<exists>r n' effs b. evm_step w cfg (Some l) n0 = Some (r, n', effs) \<and> b \<noteq> l \<and> (\<forall>c. r = Ok c \<longrightarrow> c = b) \<and>
    (\<forall>c d. SolveBatch c d \<in> set effs \<longrightarrow> c = batch_from_u32 b \<and> d \<le> latest_solution_submit_time cfg) \<and>
    length (filter is_submit effs) \<le> 1 \<and>
    (\<forall>c sol. SubmitSolution c sol \<in> set effs \<longrightarrow> c = batch_from_u32 b \<and>
       (\<exists>k d. evm_driver_solve w k c d = Ok sol \<and> SolveBatch c d \<in> set effs) \<and>
       (\<exists>k d. fst (batch_time w b k) = Ok (Some d) \<and> earliest_solution_submit_time cfg \<le> d))"
proof -
  obtain r1 n1 j where wait: "wait_for_batch_to_change w l n0 [] = Some (r1, n1, replicate j (SleepFor POLL_TIMEOUT))" "r1 \<noteq> Ok l"
    using wait_for_batch_to_change_ends [OF assms(1), of n0 "[]"] by auto
  have "\<exists>r n' effs b. evm_step w cfg (Some l) n0 = Some (r, n', effs) \<and> b \<noteq> l \<and> handles_batch w cfg b r effs"
  proof (cases "\<exists>b. r1 = Ok b")
    case True
    then obtain b m' where "r1 = Ok b" "passes w b m'"
      using assms(2) wait by blast
    then show ?thesis
      using evm_step_handles_next [of w l n0 b n1 j m' cfg] wait by blast
  next
    case False
    then have "evm_step w cfg (Some l) n0 = Some (r1, n1, replicate j (SleepFor POLL_TIMEOUT)) \<and>
        handles_batch w cfg (l + 1) r1 (replicate j (SleepFor POLL_TIMEOUT))"
      using wait by (cases r1) (auto simp: evm_step_def handles_batch_def no_submits)
    then show ?thesis
      by (intro exI [of _ r1] exI [of _ n1] exI [of _ "replicate j (SleepFor POLL_TIMEOUT)"] exI [of _ "l + 1"]) simp
  qed
  then show ?thesis
    unfolding handles_batch_def .
qed

text \<open>An exchange that goes from batch 5 to 6 to 7, with a driver that solves at once.\<close>

definition sample_evm_world :: evm_world where
  "sample_evm_world =
     \<lparr>evm_auction_index = (\<lambda>k. if k < 2 then Ok 5 else if k < 9 then Ok 6 else Ok 7),
      evm_remaining_time = (\<lambda>k. Ok (from_secs 200)), evm_driver_solve = (\<lambda>k b d. Ok trivial)\<rparr>"

lemma evm_step_handles_one_batch_witness:
  "\<exists>r n effs. evm_step sample_evm_world \<lparr>target_start_solve_time = 30, latest_solution_submit_time = from_secs 180,
     earliest_solution_submit_time = 0\<rparr> (Some 4) 0 = Some (r, n, effs)"
proof -
  let ?sleeps = "[SleepFor POLL_TIMEOUT, SleepFor POLL_TIMEOUT]"
  have "passes sample_evm_world 4 9" "passes sample_evm_world 5 9"
    by (simp_all add: passes_def sample_evm_world_def)
  moreover have "wait_for_batch_to_change sample_evm_world 4 0 [] = Some (Ok 5, 3, ?sleeps)"
    by (simp add: wait_for_batch_to_change.simps current_solving_batch_def sample_evm_world_def)
  ultimately show ?thesis
    using evm_step_handles_one_batch [of sample_evm_world 4 9 0] by fastforce
qed

end
