(* ===== verification/AuctionElement.thy ===== *)
theory AuctionElement
  imports AuctionData
begin

text \<open>
  The binary encoding of orders: the decoder of \<open>pricegraph\<close>
  (\<open>src/pricegraph/src/encoding.rs\<close>), the decoder of \<open>services-core\<close>
  (\<open>src/services-core/src/contracts/stablex_auction_element.rs\<close>) and the conversion of orders to
  elements (\<open>src/services-core/src/models/order.rs\<close>).  The lemmas show that decoding inverts the
  packed big endian encoding of the contract in both directions, that a byte string is rejected
  exactly when its length is not a multiple of the stride, and that both decoders agree.
\<close>

section \<open>Elements\<close>

definition ELEMENT_STRIDE :: nat where
  "ELEMENT_STRIDE = 114"

record token_pair =
  pair_buy :: u16
  pair_sell :: u16

definition token_pair_inverse :: "token_pair \<Rightarrow> token_pair" where
  "token_pair_inverse p = \<lparr>pair_buy = pair_sell p, pair_sell = pair_buy p\<rparr>"

record token_pair_range =
  range_pair :: token_pair
  range_hops :: "nat option"

definition into_range :: "token_pair \<Rightarrow> nat option \<Rightarrow> token_pair_range" where
  "into_range p hops = \<lparr>range_pair = p, range_hops = hops\<rparr>"

definition into_unbounded_range :: "token_pair \<Rightarrow> token_pair_range" where
  "into_unbounded_range p = into_range p None"

definition token_pair_range_inverse :: "token_pair_range \<Rightarrow> token_pair_range" where
  "token_pair_range_inverse r = \<lparr>range_pair = token_pair_inverse (range_pair r), range_hops = range_hops r\<rparr>"

record validity =
  valid_from_batch :: u32
  valid_to_batch :: u32

record price_fraction =
  price_numer :: u128
  price_denom :: u128

record element =
  el_user :: address
  el_balance :: u256
  el_pair :: token_pair
  el_valid :: validity
  el_price :: price_fraction
  el_remaining_sell_amount :: u128
  el_id :: u16

definition to_element :: "order \<Rightarrow> u256 \<Rightarrow> element" where
  "to_element ord balance =
     \<lparr>el_user = account_id ord, el_balance = balance,
      el_pair = \<lparr>pair_buy = buy_token ord, pair_sell = sell_token ord\<rparr>,
      el_valid = \<lparr>valid_from_batch = valid_from ord, valid_to_batch = valid_until ord\<rparr>,
      el_price = \<lparr>price_numer = numerator ord, price_denom = denominator ord\<rparr>,
      el_remaining_sell_amount = remaining_sell_amount ord, el_id = oid ord\<rparr>"

definition to_element_with_accounts :: "order \<Rightarrow> account_state \<Rightarrow> element" where
  "to_element_with_accounts ord accounts =
     to_element ord (read_balance accounts (sell_token ord) (account_id ord))"

section \<open>Decoders\<close>

text \<open>\<open>from_be_bytes\<close> and \<open>from_big_endian\<close>\<close>

definition from_be_bytes :: "u8 list \<Rightarrow> 'a::len word" where
  "from_be_bytes bs = word_of_nat (be_value bs)"

definition from_le_bytes :: "u8 list \<Rightarrow> 'a::len word" where
  "from_le_bytes bs = word_of_nat (le_value bs)"

text \<open>The macro \<open>read!\<close>: the next bytes of the chunk, and the chunk behind them.\<close>

definition read_bytes :: "nat \<Rightarrow> u8 list \<Rightarrow> ('e, u8 list \<times> u8 list) result" where
  "read_bytes n chunk = (if n \<le> length chunk then Ok (take n chunk, drop n chunk) else Panic)"

definition read_element :: "u8 list \<Rightarrow> ('e, element) result" where
  "read_element chunk =
     rbind (read_bytes 20 chunk) (\<lambda>(user, chunk).
     rbind (read_bytes 32 chunk) (\<lambda>(balance, chunk).
     rbind (read_bytes 2 chunk) (\<lambda>(buy, chunk).
     rbind (read_bytes 2 chunk) (\<lambda>(sell, chunk).
     rbind (read_bytes 4 chunk) (\<lambda>(valid_from, chunk).
     rbind (read_bytes 4 chunk) (\<lambda>(valid_to, chunk).
     rbind (read_bytes 16 chunk) (\<lambda>(numer, chunk).
     rbind (read_bytes 16 chunk) (\<lambda>(denom, chunk).
     rbind (read_bytes 16 chunk) (\<lambda>(remaining, chunk).
     rbind (read_bytes 2 chunk) (\<lambda>(id, chunk).
     Ok \<lparr>el_user = from_be_bytes user, el_balance = from_be_bytes balance,
         el_pair = \<lparr>pair_buy = from_be_bytes buy, pair_sell = from_be_bytes sell\<rparr>,
         el_valid = \<lparr>valid_from_batch = from_be_bytes valid_from, valid_to_batch = from_be_bytes valid_to\<rparr>,
         el_price = \<lparr>price_numer = from_be_bytes numer, price_denom = from_be_bytes denom\<rparr>,
         el_remaining_sell_amount = from_be_bytes remaining, el_id = from_be_bytes id\<rparr>))))))))))"

datatype invalid_length = InvalidLength nat

definition read_all :: "u8 list \<Rightarrow> (invalid_length, element list) result" where
  "read_all bytes =
     (if length bytes mod ELEMENT_STRIDE \<noteq> 0 then Err (InvalidLength (length bytes))
      else traverse read_element (chunks ELEMENT_STRIDE bytes))"

definition AUCTION_ELEMENT_WIDTH :: nat where
  "AUCTION_ELEMENT_WIDTH = 112"

definition INDEXED_AUCTION_ELEMENT_WIDTH :: nat where
  "INDEXED_AUCTION_ELEMENT_WIDTH = AUCTION_ELEMENT_WIDTH + 2"

record auction_element =
  sell_token_balance :: u256
  ae_order :: order

definition in_auction :: "auction_element \<Rightarrow> u32 \<Rightarrow> bool" where
  "in_auction el index \<longleftrightarrow> valid_from (ae_order el) \<le> index \<and> index \<le> valid_until (ae_order el)"

text \<open>\<open>bytes[i..j]\<close> of an array that is long enough\<close>

definition slice :: "nat \<Rightarrow> nat \<Rightarrow> 'a list \<Rightarrow> 'a list" where
  "slice i j xs = take (j - i) (drop i xs)"

definition from_indexed_bytes :: "u8 list \<Rightarrow> auction_element" where
  "from_indexed_bytes bytes =
     \<lparr>sell_token_balance = from_be_bytes (slice 20 52 bytes),
      ae_order =
        \<lparr>oid = from_le_bytes [bytes ! 113, bytes ! 112],
         account_id = from_be_bytes (slice 0 20 bytes),
         buy_token = from_le_bytes [bytes ! 53, bytes ! 52],
         sell_token = from_le_bytes [bytes ! 55, bytes ! 54],
         numerator = from_be_bytes (slice 64 80 bytes),
         denominator = from_be_bytes (slice 80 96 bytes),
         remaining_sell_amount = from_be_bytes (slice 96 112 bytes),
         valid_from = from_le_bytes [bytes ! 59, bytes ! 58, bytes ! 57, bytes ! 56],
         valid_until = from_le_bytes [bytes ! 63, bytes ! 62, bytes ! 61, bytes ! 60]\<rparr>\<rparr>"

definition from_bytes :: "u8 list \<Rightarrow> auction_element" where
  "from_bytes bytes = from_indexed_bytes (bytes @ [0, 0])"

section \<open>Fixed width codecs\<close>

locale fixed_codec =
  fixes width :: nat and enc :: "'a \<Rightarrow> u8 list" and dec :: "u8 list \<Rightarrow> 'a"
  assumes enc_length: "length (enc x) = width"
    and dec_enc: "dec (enc x) = x"
    and enc_dec: "length bs = width \<Longrightarrow> enc (dec bs) = bs"
    and width_pos: "0 < width"
begin

lemma chunks_enc: "map dec (chunks width (concat (map enc xs))) = xs"
  by (subst chunks_concat) (auto simp: width_pos enc_length dec_enc comp_def)

lemma enc_chunks:
  assumes "length bs mod width = 0"
  shows "concat (map enc (map dec (chunks width bs))) = bs"
proof -
  have "map enc (map dec (chunks width bs)) = chunks width bs"
    unfolding map_map o_def by (rule map_idI) (rule enc_dec, rule chunks_lengths [OF assms])
  then show ?thesis
    by (simp only: concat_chunks [OF width_pos])
qed

lemma dec_front: "dec (take width (enc x @ bs)) = x" "drop width (enc x @ bs) = bs"
  by (simp_all add: enc_length dec_enc)

end

lemma from_be_bytes_codec:
  assumes "LENGTH('a::len) = 8 * k" "0 < k"
  shows "fixed_codec k (\<lambda>w :: 'a word. be_bytes k (unat w)) from_be_bytes"
proof
  have pow: "(256 :: nat) ^ k = 2 ^ LENGTH('a)"
    using power_mult [of "2 :: nat" 8 k] assms(1) by simp
  show "from_be_bytes (be_bytes k (unat w)) = w" for w :: "'a word"
    using unat_less [of w] by (simp add: from_be_bytes_def be_value_be_bytes pow)
  show "be_bytes k (unat (from_be_bytes bs :: 'a word)) = bs" if "length bs = k" for bs
    using be_value_less [of bs] that
    by (simp add: from_be_bytes_def unat_of_nat pow be_bytes_be_value)
qed (use assms in simp_all)

interpretation be16: fixed_codec 2 "\<lambda>w :: u16. be_bytes 2 (unat w)" from_be_bytes
  by (rule from_be_bytes_codec) simp_all
interpretation be32: fixed_codec 4 "\<lambda>w :: u32. be_bytes 4 (unat w)" from_be_bytes
  by (rule from_be_bytes_codec) simp_all
interpretation be128: fixed_codec 16 "\<lambda>w :: u128. be_bytes 16 (unat w)" from_be_bytes
  by (rule from_be_bytes_codec) simp_all
interpretation be160: fixed_codec 20 "\<lambda>w :: address. be_bytes 20 (unat w)" from_be_bytes
  by (rule from_be_bytes_codec) simp_all
interpretation be256: fixed_codec 32 "\<lambda>w :: u256. be_bytes 32 (unat w)" from_be_bytes
  by (rule from_be_bytes_codec) simp_all

lemmas be_codecs =
  be16.dec_enc be32.dec_enc be128.dec_enc be160.dec_enc be256.dec_enc

lemmas be_codecs_inv =
  be16.enc_dec be32.enc_dec be128.enc_dec be160.enc_dec be256.enc_dec

section \<open>The encoding of the contract\<close>

text \<open>
  The specification of the encoding: the fields in their order, packed, each as a big endian number.
  This is what the decoder of \<open>encoding.rs\<close> reads (\<open>from_be_bytes\<close>); the doc comments of \<open>Pricegraph::read\<close> and
  of its WASM wrapper call the encoding little endian.
\<close>

definition element_bytes :: "element \<Rightarrow> u8 list" where
  "element_bytes e =
     be_bytes 20 (unat (el_user e)) @ be_bytes 32 (unat (el_balance e)) @
     be_bytes 2 (unat (pair_buy (el_pair e))) @ be_bytes 2 (unat (pair_sell (el_pair e))) @
     be_bytes 4 (unat (valid_from_batch (el_valid e))) @ be_bytes 4 (unat (valid_to_batch (el_valid e))) @
     be_bytes 16 (unat (price_numer (el_price e))) @ be_bytes 16 (unat (price_denom (el_price e))) @
     be_bytes 16 (unat (el_remaining_sell_amount e)) @ be_bytes 2 (unat (el_id e))"

text \<open>The decoded element in terms of slices.\<close>

definition decode_element :: "u8 list \<Rightarrow> element" where
  "decode_element bs =
     \<lparr>el_user = from_be_bytes (slice 0 20 bs), el_balance = from_be_bytes (slice 20 52 bs),
      el_pair = \<lparr>pair_buy = from_be_bytes (slice 52 54 bs), pair_sell = from_be_bytes (slice 54 56 bs)\<rparr>,
      el_valid = \<lparr>valid_from_batch = from_be_bytes (slice 56 60 bs), valid_to_batch = from_be_bytes (slice 60 64 bs)\<rparr>,
      el_price = \<lparr>price_numer = from_be_bytes (slice 64 80 bs), price_denom = from_be_bytes (slice 80 96 bs)\<rparr>,
      el_remaining_sell_amount = from_be_bytes (slice 96 112 bs), el_id = from_be_bytes (slice 112 114 bs)\<rparr>"

lemma read_element_eq: "length bs = 114 \<Longrightarrow> read_element bs = Ok (decode_element bs)"
  by (simp add: read_element_def read_bytes_def decode_element_def slice_def)

lemma slices_114:
  assumes "length bs = 114"
  shows "slice 0 20 bs @ slice 20 52 bs @ slice 52 54 bs @ slice 54 56 bs @ slice 56 60 bs @
    slice 60 64 bs @ slice 64 80 bs @ slice 80 96 bs @ slice 96 112 bs @ slice 112 114 bs = bs"
proof -
  have step: "slice i j bs @ drop j bs = drop i bs" if "i \<le> j" for i j
    using that append_take_drop_id [of "j - i" "drop i bs"] by (simp add: slice_def)
  have "slice 112 114 bs = drop 112 bs"
    using assms by (simp add: slice_def)
  then show ?thesis
    using step [of 0 20] by (simp add: step)
qed

interpretation element_codec: fixed_codec ELEMENT_STRIDE element_bytes decode_element
proof
  show "length (element_bytes e) = ELEMENT_STRIDE" for e
    by (simp add: element_bytes_def ELEMENT_STRIDE_def)
  show "decode_element (element_bytes e) = e" for e
    by (simp add: decode_element_def element_bytes_def slice_def be_codecs)
  show "element_bytes (decode_element bs) = bs" if "length bs = ELEMENT_STRIDE" for bs
    using slices_114 [of bs] that
    by (simp add: decode_element_def element_bytes_def be_codecs_inv ELEMENT_STRIDE_def slice_def)
  show "0 < ELEMENT_STRIDE"
    by (simp add: ELEMENT_STRIDE_def)
qed

lemma traverse_read_element:
  "\<forall>c \<in> set css. length c = 114 \<Longrightarrow> traverse read_element css = Ok (map decode_element css)"
  by (induction css) (simp_all add: read_element_eq)

lemma read_all_eq:
  assumes "length bs mod ELEMENT_STRIDE = 0"
  shows "read_all bs = Ok (map decode_element (chunks ELEMENT_STRIDE bs))"
proof -
  have "\<forall>c \<in> set (chunks ELEMENT_STRIDE bs). length c = 114"
    using chunks_lengths [OF assms] unfolding ELEMENT_STRIDE_def by blast
  from traverse_read_element [OF this] show ?thesis
    using assms by (simp add: read_all_def)
qed

text \<open>
  C36: decoding inverts the packed big endian encoding of orders in both directions: every encoded
  list of elements is read back, a byte string whose length is a multiple of the stride is the
  encoding of the elements that are read from it, and any other byte string is rejected with its
  length.  The decoder never panics.  The doc comments of the readers speak of a little endian
  encoding; the decoder reads every value as big endian.
\<close>

theorem read_all_inverts_encoding:
  "read_all (concat (map element_bytes es)) = Ok es \<and>
   (read_all bs = (if length bs mod ELEMENT_STRIDE = 0
      then Ok (map decode_element (chunks ELEMENT_STRIDE bs)) else Err (InvalidLength (length bs)))) \<and>
   (read_all bs = Ok es' \<longleftrightarrow> concat (map element_bytes es') = bs)"
proof (intro conjI)
  have enc: "read_all (concat (map element_bytes es)) = Ok es" for es
  proof -
    have "length (concat (map element_bytes es)) mod ELEMENT_STRIDE = 0"
      by (induction es) (simp_all add: element_codec.enc_length)
    from read_all_eq [OF this] show ?thesis
      by (simp only: element_codec.chunks_enc)
  qed
  then show "read_all (concat (map element_bytes es)) = Ok es" .
  show cases: "read_all bs = (if length bs mod ELEMENT_STRIDE = 0
      then Ok (map decode_element (chunks ELEMENT_STRIDE bs)) else Err (InvalidLength (length bs)))"
    using read_all_eq [of bs] by (simp add: read_all_def)
  show "read_all bs = Ok es' \<longleftrightarrow> concat (map element_bytes es') = bs"
  proof
    assume *: "read_all bs = Ok es'"
    then have "length bs mod ELEMENT_STRIDE = 0"
      by (simp add: cases split: if_splits)
    moreover from this * have "es' = map decode_element (chunks ELEMENT_STRIDE bs)"
      by (simp add: read_all_eq)
    ultimately show "concat (map element_bytes es') = bs"
      using element_codec.enc_chunks [of bs] by simp
  qed (use enc in blast)
qed

lemma from_le_bytes_rev: "from_le_bytes bs = from_be_bytes (rev bs)"
  by (simp add: from_le_bytes_def from_be_bytes_def be_value_def)

lemma slice_2: "i + 2 \<le> length bs \<Longrightarrow> slice i (i + 2) bs = [bs ! i, bs ! (i + 1)]"
  by (simp add: slice_def Cons_nth_drop_Suc [symmetric] numeral_2_eq_2)

lemma slice_4:
  "i + 4 \<le> length bs \<Longrightarrow> slice i (i + 4) bs = [bs ! i, bs ! (i + 1), bs ! (i + 2), bs ! (i + 3)]"
  by (simp add: slice_def Cons_nth_drop_Suc [symmetric] eval_nat_numeral)

text \<open>
  Both decoders of the repository agree on every 114 byte element: converting the order that
  \<open>services-core\<close> decodes, with the balance next to it, gives the element that \<open>pricegraph\<close>
  decodes from the same bytes.
\<close>

theorem decoders_agree:
  assumes "length bs = INDEXED_AUCTION_ELEMENT_WIDTH"
  shows "read_all bs =
    Ok [to_element (ae_order (from_indexed_bytes bs)) (sell_token_balance (from_indexed_bytes bs))]"
proof -
  have len: "length bs = 114"
    using assms by (simp add: INDEXED_AUCTION_ELEMENT_WIDTH_def AUCTION_ELEMENT_WIDTH_def)
  have "chunks ELEMENT_STRIDE bs = [bs]"
    using chunks_concat [of 114 "[bs]"] len by (simp add: ELEMENT_STRIDE_def)
  then have "read_all bs = Ok [decode_element bs]"
    using read_all_eq [of bs] len by (simp add: ELEMENT_STRIDE_def)
  moreover have "decode_element bs =
      to_element (ae_order (from_indexed_bytes bs)) (sell_token_balance (from_indexed_bytes bs))"
    using slice_2 [of 52 bs] slice_2 [of 54 bs] slice_2 [of 112 bs] slice_4 [of 56 bs] slice_4 [of 60 bs] len
    by (simp add: decode_element_def to_element_def from_indexed_bytes_def from_le_bytes_rev)
  ultimately show ?thesis by simp
qed

lemma decoders_agree_witness:
  "read_all (replicate 113 0 @ [5]) =
     Ok [to_element (ae_order (from_indexed_bytes (replicate 113 0 @ [5]))) 
          (sell_token_balance (from_indexed_bytes (replicate 113 0 @ [5])))]"
  by (rule decoders_agree) (simp add: INDEXED_AUCTION_ELEMENT_WIDTH_def AUCTION_ELEMENT_WIDTH_def)

end
