(* ===== verification/History.thy ===== *)
theory History
  imports EventRegistry AuctionElement
begin

text \<open>
  Queries for historic exchange data (\<open>src/services-core/src/history.rs\<close>) and the iterator over
  batches (\<open>src/services-core/src/history/batches.rs\<close>).  The lemmas relate the settlement of a
  batch, computed by one pass over its events, to the events after the last reversion, and show
  that iterating over batches from either end visits every batch of the range once.
\<close>

section \<open>Batch ranges\<close>

text \<open>The state of \<open>RangeInclusive<u64>\<close>.\<close>

record batches =
  range_start :: u64
  range_end :: u64
  range_exhausted :: bool

definition batch_now :: "system_time \<Rightarrow> batch_id res" where
  "batch_now now = (case batch_current now of Ok b \<Rightarrow> Ok b | _ \<Rightarrow> Panic)"

definition batches_from_batch :: "system_time \<Rightarrow> batch_id \<Rightarrow> batches res" where
  "batches_from_batch now start =
     rmap (\<lambda>end. \<lparr>range_start = start, range_end = end, range_exhausted = False\<rparr>) (batch_now now)"

definition batches_empty :: batches where
  "batches_empty = \<lparr>range_start = 1, range_end = 0, range_exhausted = False\<rparr>"

definition batch_count :: "batches \<Rightarrow> u64" where
  "batch_count bs = saturating_sub (range_end bs) (range_start bs)"

definition range_is_empty :: "batches \<Rightarrow> bool" where
  "range_is_empty bs \<longleftrightarrow> range_exhausted bs \<or> range_end bs < range_start bs"

definition batches_next :: "batches \<Rightarrow> batch_id option \<times> batches" where
  "batches_next bs =
     (if range_is_empty bs then (None, bs)
      else (Some (range_start bs),
            if range_start bs < range_end bs then bs\<lparr>range_start := range_start bs + 1\<rparr>
            else bs\<lparr>range_exhausted := True\<rparr>))"

definition batches_next_back :: "batches \<Rightarrow> batch_id option \<times> batches" where
  "batches_next_back bs =
     (if range_is_empty bs then (None, bs)
      else (Some (range_end bs),
            if range_start bs < range_end bs then bs\<lparr>range_end := range_end bs - 1\<rparr>
            else bs\<lparr>range_exhausted := True\<rparr>))"

section \<open>Exchange history\<close>

definition first_batch :: "event_registry \<Rightarrow> batch_id option" where
  "first_batch m = (case events m of [] \<Rightarrow> None | e # _ \<Rightarrow> Some (snd e))"

definition batches_until_now :: "system_time \<Rightarrow> event_registry \<Rightarrow> batches res" where
  "batches_until_now now m =
     (case first_batch m of
        Some start \<Rightarrow> batches_from_batch now start
      | None \<Rightarrow> Ok batches_empty)"

definition auction_elements_for_batch :: "event_registry \<Rightarrow> batch_id \<Rightarrow> element list res" where
  "auction_elements_for_batch m b =
     rmap (\<lambda>(accounts, os). map (\<lambda>ord. to_element_with_accounts ord accounts) os)
       (auction_state_for_batch m b)"

record settlement =
  stl_trades :: "event list"
  stl_solution :: event

fun settlement_step :: "event \<Rightarrow> event list \<times> event option \<Rightarrow> event list \<times> event option" where
  "settlement_step (TradeEvent owner i sell buy) (trades, solution) =
     (trades @ [TradeEvent owner i sell buy], solution)"
| "settlement_step (TradeReversionEvent owner i sell buy) (trades, solution) = ([], None)"
| "settlement_step (SolutionSubmissionEvent submitter fees) (trades, solution) =
     (trades, Some (SolutionSubmissionEvent submitter fees))"
| "settlement_step _ (trades, solution) = (trades, solution)"

definition settlement_for_batch :: "event_registry \<Rightarrow> batch_id \<Rightarrow> settlement option res" where
  "settlement_for_batch m b =
     rmap (\<lambda>next.
         case fold settlement_step (events_for_batch m next) ([], None) of
           (trades, Some solution) \<Rightarrow> Some \<lparr>stl_trades = trades, stl_solution = solution\<rparr>
         | (_, None) \<Rightarrow> None)
       (batch_next b)"

section \<open>Settlements\<close>

fun is_trade :: "event \<Rightarrow> bool" where
  "is_trade (TradeEvent _ _ _ _) = True"
| "is_trade _ = False"

fun is_reversion :: "event \<Rightarrow> bool" where
  "is_reversion (TradeReversionEvent _ _ _ _) = True"
| "is_reversion _ = False"

fun is_submission :: "event \<Rightarrow> bool" where
  "is_submission (SolutionSubmissionEvent _ _) = True"
| "is_submission _ = False"

text \<open>The events after the last reversion.\<close>

definition final_events :: "event list \<Rightarrow> event list" where
  "final_events evs = rev (takeWhile (\<lambda>e. \<not> is_reversion e) (rev evs))"

definition last_submission :: "event list \<Rightarrow> event option" where
  "last_submission evs = List.find is_submission (rev evs)"

lemma settlement_step_cases:
  "settlement_step e ts =
     (if is_reversion e then ([], None)
      else (if is_trade e then fst ts @ [e] else fst ts, if is_submission e then Some e else snd ts))"
  by (cases ts; cases e) simp_all

lemma settlement_fold:
  "fold settlement_step evs ([], None) = (filter is_trade (final_events evs), last_submission (final_events evs))"
proof (induction evs rule: rev_induct)
  case (snoc e evs)
  have "last_submission (evs @ [e]) = (if is_submission e then Some e else last_submission evs)" for evs
    by (simp add: last_submission_def)
  with snoc show ?case
    by (cases "is_reversion e") (simp_all add: settlement_step_cases final_events_def last_submission_def)
qed (simp add: final_events_def last_submission_def)

text \<open>
  The settlement of a batch consists of the trades and of the last solution submission after
  the last reversion among the events of the following batch, and there is none exactly when no
  solution was submitted after the last reversion.
\<close>

theorem settlement_for_batch_eq:
  assumes "b \<noteq> - 1"
  shows "settlement_for_batch m b =
    Ok (map_option (\<lambda>sol. \<lparr>stl_trades = filter is_trade (final_events (events_for_batch m (b + 1))), stl_solution = sol\<rparr>)
          (last_submission (final_events (events_for_batch m (b + 1)))))"
proof -
  have "batch_next b = Ok (b + 1)"
    using unat_not_max [OF assms] by (simp add: batch_next_def unwrap_def checked_add_def)
  then show ?thesis
    by (simp add: settlement_for_batch_def settlement_fold split: option.split)
qed

lemma settlement_for_batch_eq_witness:
  "settlement_for_batch
     [(EventSortKey 4 9 1, \<lparr>rv_event = TradeEvent 7 0 60 60, rv_batch_id = 4\<rparr>),
      (EventSortKey 4 9 2, \<lparr>rv_event = SolutionSubmissionEvent 9 3, rv_batch_id = 4\<rparr>),
      (EventSortKey 5 8 0, \<lparr>rv_event = TradeReversionEvent 7 0 60 60, rv_batch_id = 4\<rparr>),
      (EventSortKey 5 8 1, \<lparr>rv_event = TradeEvent 7 0 70 70, rv_batch_id = 4\<rparr>),
      (EventSortKey 5 8 2, \<lparr>rv_event = SolutionSubmissionEvent 9 5, rv_batch_id = 4\<rparr>)] 3 =
   Ok (Some \<lparr>stl_trades = [TradeEvent 7 0 70 70], stl_solution = SolutionSubmissionEvent 9 5\<rparr>)"
  by (subst settlement_for_batch_eq)
    (simp_all add: events_for_batch_def events_def final_events_def last_submission_def)

section \<open>Iterating over batches\<close>

definition remaining_batches :: "batches \<Rightarrow> batch_id list" where
  "remaining_batches bs =
     (if range_is_empty bs then [] else map word_of_nat [unat (range_start bs) ..< Suc (unat (range_end bs))])"

lemma unat_succ_less: "unat (a + 1) = Suc (unat a)" if "a < b" for a b :: u64
proof -
  have "unat a + 1 < 2 ^ 64"
    using that unat_less [of b] by (simp add: word_less_nat_alt)
  then show ?thesis
    by (simp add: unat_word_ariths)
qed

text \<open>
  Iterating from the front yields the first of the remaining batches and keeps the others,
  iterating from the back the last one; both end exactly when none remain.  So the iteration
  terminates and visits every batch from the start to the end of the range once.
\<close>

theorem batches_iteration:
  "(case batches_next bs of
      (None, bs') \<Rightarrow> remaining_batches bs = [] \<and> bs' = bs
    | (Some b, bs') \<Rightarrow> remaining_batches bs = b # remaining_batches bs') \<and>
   (case batches_next_back bs of
      (None, bs') \<Rightarrow> remaining_batches bs = [] \<and> bs' = bs
    | (Some b, bs') \<Rightarrow> remaining_batches bs = remaining_batches bs' @ [b])"
proof (cases "range_is_empty bs")
  case True
  then show ?thesis
    by (simp add: batches_next_def batches_next_back_def remaining_batches_def)
next
  case False
  show ?thesis
  proof (cases "range_start bs < range_end bs")
    case True
    let ?s = "unat (range_start bs)" and ?e = "unat (range_end bs)"
    have less: "?s < ?e"
      using True by (simp add: word_less_nat_alt)
    have succ: "unat (range_start bs + 1) = Suc ?s"
      by (rule unat_succ_less [OF True])
    have pred: "Suc (unat (range_end bs - 1)) = ?e"
    proof -
      have "0 < range_end bs"
        using less by (simp add: word_less_nat_alt)
      then show ?thesis
        using less by (simp add: unat_sub_one)
    qed
    have ne: "\<not> range_is_empty (bs\<lparr>range_start := range_start bs + 1\<rparr>)"
      "\<not> range_is_empty (bs\<lparr>range_end := range_end bs - 1\<rparr>)"
      using False less succ pred by (simp_all add: range_is_empty_def word_less_nat_alt)
    have "[?s ..< Suc ?e] = ?s # [Suc ?s ..< Suc ?e]"
      using less by (intro upt_conv_Cons) simp
    then have front: "remaining_batches bs = range_start bs # remaining_batches (bs\<lparr>range_start := range_start bs + 1\<rparr>)"
      using False ne by (simp add: remaining_batches_def succ del: upt_Suc)
    have "[?s ..< Suc ?e] = [?s ..< ?e] @ [?e]"
      using less by simp
    then have last: "remaining_batches bs = remaining_batches (bs\<lparr>range_end := range_end bs - 1\<rparr>) @ [range_end bs]"
      using False ne by (simp add: remaining_batches_def pred del: upt_Suc)
    show ?thesis
      unfolding batches_next_def batches_next_back_def using False True front last by simp
  next
    case le: False
    with False have "range_end bs = range_start bs"
      by (simp add: range_is_empty_def)
    with False le show ?thesis
      by (simp add: batches_next_def batches_next_back_def remaining_batches_def range_is_empty_def)
  qed
qed

text \<open>
  The batch count of a range is one less than the number of batches that its iteration
  visits.
\<close>

lemma batch_count_off_by_one:
  assumes "batches_from_batch now start = Ok bs" "start \<le> range_end bs"
  shows "length (remaining_batches bs) = unat (batch_count bs) + 1"
proof -
  have "range_start bs = start" "\<not> range_exhausted bs"
    using assms(1) by (auto simp: batches_from_batch_def)
  with assms(2) show ?thesis
    by (simp add: remaining_batches_def range_is_empty_def batch_count_def saturating_sub_def
        word_le_nat_alt unat_sub_if' word_less_nat_alt)
qed

lemma batch_count_off_by_one_witness:
  "length (remaining_batches \<lparr>range_start = 3, range_end = 5, range_exhausted = False\<rparr>) = 3"
proof -
  have "batches_from_batch (int (from_secs 1500)) 3 = Ok \<lparr>range_start = 3, range_end = 5, range_exhausted = False\<rparr>"
    by (simp add: batches_from_batch_def batch_now_def batch_current_def as_timestamp_def
        duration_since_def batch_from_timestamp_def from_secs_def)
  from batch_count_off_by_one [OF this] show ?thesis
    by (simp add: batch_count_def saturating_sub_def)
qed

end
