(* ===== verification/SearchBatches.thy ===== *)
theory SearchBatches
  imports BlockTimestamps
begin

text \<open>
  The search for the last block of a batch
  (\<open>src/services-core/src/contracts/stablex_contract/search_batches.rs\<close>): steps of doubling size
  back from the current block to a lower bound, and a binary search from there.  Arithmetic on
  \<open>u64\<close> wraps.  Both loops are partial functions, \<open>None\<close> being a search that does not return; the
  lemmas show that on a chain whose batches do not decrease with the block number the search
  returns, and returns the last block whose batch is not later than the requested one.
\<close>

section \<open>Batches of blocks\<close>

definition get_block_batch_id :: "block \<Rightarrow> u32 res" where
  "get_block_batch_id blk = rmap (\<lambda>t. ucast (t div 300)) (as_u64 (blk_timestamp blk))"

definition get_block :: "(block_number \<Rightarrow> block option res) \<Rightarrow> block_number \<Rightarrow> block res" where
  "get_block node bn = rbind (node bn) (\<lambda>blk. ok_or blk ''block is missing'')"

definition batch_id_from_block :: "(block_number \<Rightarrow> block option res) \<Rightarrow> block_number \<Rightarrow> u32 res" where
  "batch_id_from_block node bn = rbind (get_block node bn) get_block_batch_id"

definition current_batch_id_and_block_number :: "(block_number \<Rightarrow> block option res) \<Rightarrow> (u32 \<times> u64) res" where
  "current_batch_id_and_block_number node =
     rbind (get_block node Latest) (\<lambda>blk.
     rbind (get_block_batch_id blk) (\<lambda>b.
     rmap (Pair b) (ok_or (blk_number blk) ''latest block has no block number'')))"

section \<open>The search\<close>

record bounds =
  bound_lower :: u64
  bound_upper :: u64

definition bounds_diff :: "bounds \<Rightarrow> u64" where
  "bounds_diff bs = bound_upper bs - bound_lower bs"

definition bounds_mid :: "bounds \<Rightarrow> u64" where
  "bounds_mid bs = (bound_upper bs + bound_lower bs) div 2"

text \<open>The first loop: the bounds, the batch of the lower bound and the step.\<close>

partial_function (option) lower_loop ::
    "(u64 \<Rightarrow> u32 res) \<Rightarrow> u32 \<Rightarrow> bounds \<Rightarrow> u32 \<Rightarrow> u64 \<Rightarrow> bounds res option" where
  "lower_loop batch_of batch_id bs lower_batch_id step =
     (if batch_id < lower_batch_id then
        (let bs = bs\<lparr>bound_upper := bound_lower bs\<rparr> in
         if bound_lower bs \<le> step then Some (Ok (bs\<lparr>bound_lower := 0\<rparr>))
         else
           (let bs = bs\<lparr>bound_lower := bound_lower bs - step\<rparr> in
            (case batch_of (bound_lower bs) of
               Ok b \<Rightarrow> lower_loop batch_of batch_id bs b (step * 2)
             | Err e \<Rightarrow> Some (Err e)
             | Panic \<Rightarrow> Some Panic)))
      else Some (Ok bs))"

text \<open>The second loop.\<close>

partial_function (option) bisect_loop ::
    "(u64 \<Rightarrow> u32 res) \<Rightarrow> u32 \<Rightarrow> bounds \<Rightarrow> u64 res option" where
  "bisect_loop batch_of batch_id bs =
     (if 1 < bounds_diff bs then
        (let mid = bounds_mid bs in
         (case batch_of mid of
            Ok mid_batch_id \<Rightarrow>
              bisect_loop batch_of batch_id
                (if mid_batch_id \<le> batch_id then bs\<lparr>bound_lower := mid\<rparr> else bs\<lparr>bound_upper := mid\<rparr>)
          | Err e \<Rightarrow> Some (Err e)
          | Panic \<Rightarrow> Some Panic))
      else Some (Ok (bound_lower bs)))"

definition search_last_block_for_batch ::
    "(u64 \<Rightarrow> u32 res) \<Rightarrow> (u32 \<times> u64) res \<Rightarrow> u32 \<Rightarrow> u64 res option" where
  "search_last_block_for_batch batch_of current batch_id =
     (case current of
        Ok (current_batch_id, current_block_number) \<Rightarrow>
          (case lower_loop batch_of batch_id
                  \<lparr>bound_lower = current_block_number, bound_upper = current_block_number\<rparr> current_batch_id 1 of
             Some (Ok bs) \<Rightarrow> bisect_loop batch_of batch_id bs
           | Some (Err e) \<Rightarrow> Some (Err e)
           | Some Panic \<Rightarrow> Some Panic
           | None \<Rightarrow> None)
      | Err e \<Rightarrow> Some (Err e)
      | Panic \<Rightarrow> Some Panic)"

section \<open>Correctness\<close>

text \<open>A chain with the given current block, whose batches do not decrease.\<close>

definition monotone_chain :: "(u64 \<Rightarrow> u32 res) \<Rightarrow> (u64 \<Rightarrow> u32) \<Rightarrow> u64 \<Rightarrow> bool" where
  "monotone_chain batch_of batch cur \<longleftrightarrow>
     (\<forall>n \<le> cur. batch_of n = Ok (batch n)) \<and> (\<forall>n m. n \<le> m \<longrightarrow> m \<le> cur \<longrightarrow> batch n \<le> batch m)"

text \<open>The bounds enclose the end of the batch.\<close>

definition encloses :: "(u64 \<Rightarrow> u32) \<Rightarrow> u64 \<Rightarrow> u32 \<Rightarrow> bounds \<Rightarrow> bool" where
  "encloses batch cur b bs \<longleftrightarrow>
     batch (bound_lower bs) \<le> b \<and> bound_upper bs \<le> cur \<and>
     (bound_lower bs = bound_upper bs \<and> (bound_upper bs = cur \<or> b < batch (bound_upper bs)) \<or>
      bound_lower bs < bound_upper bs \<and> b < batch (bound_upper bs))"

lemma mid_bounds:
  assumes "lower < upper" "1 < upper - lower" "upper < 2 ^ 63"
  shows "lower < (upper + lower) div 2 \<and> (upper + lower) div 2 < (upper :: u64)"
proof -
  have lt: "unat lower < unat upper" "unat upper < 2 ^ 63"
    using assms(1,3) by (simp_all add: word_less_nat_alt)
  then have "unat (upper + lower) = unat upper + unat lower" "unat (upper - lower) = unat upper - unat lower"
    using assms(1) by (simp_all add: unat_word_ariths unat_sub word_le_nat_alt)
  then show ?thesis
    using lt assms(2) by (simp add: word_less_nat_alt unat_div) linarith
qed

lemma bisect_loop_returns:
  assumes "monotone_chain batch_of batch cur" "cur < 2 ^ 63" "encloses batch cur b bs"
    and "bound_lower bs < bound_upper bs"
  shows "\<exists>r. bisect_loop batch_of b bs = Some (Ok r) \<and> batch r \<le> b \<and> r < cur \<and> b < batch (r + 1)"
  using assms(3,4)
proof (induction "unat (bound_upper bs) - unat (bound_lower bs)" arbitrary: bs rule: less_induct)
  case less
  let ?l = "bound_lower bs" and ?u = "bound_upper bs"
  have u: "?u \<le> cur" "batch ?l \<le> b" "b < batch ?u"
    using less.prems by (auto simp: encloses_def)
  have lt: "unat ?l < unat ?u"
    using less.prems(2) by (simp add: word_less_nat_alt)
  have diff: "unat (?u - ?l) = unat ?u - unat ?l"
    using less.prems(2) by (simp add: unat_sub word_le_nat_alt word_less_nat_alt)
  show ?case
  proof (cases "1 < bounds_diff bs")
    case False
    then have "unat ?u = Suc (unat ?l)"
      using lt diff by (simp add: bounds_diff_def word_less_nat_alt)
    then have "?u = ?l + 1"
      using unat_less [of ?u] by (simp add: word_unat_eq_iff unat_word_ariths)
    moreover have "?l < cur"
      using less.prems(2) u(1) by (rule less_le_trans)
    moreover have "bisect_loop batch_of b bs = Some (Ok ?l)"
      using False by (subst bisect_loop.simps) simp
    ultimately show ?thesis
      using u by simp
  next
    case True
    let ?mid = "bounds_mid bs"
    have mid: "?l < ?mid" "?mid < ?u"
      using mid_bounds [of ?l ?u] less.prems(2) True u(1) assms(2)
      by (simp_all add: bounds_diff_def bounds_mid_def)
    then have q: "batch_of ?mid = Ok (batch ?mid)"
      using assms(1) u(1) by (simp add: monotone_chain_def)
    let ?bs = "if batch ?mid \<le> b then bs\<lparr>bound_lower := ?mid\<rparr> else bs\<lparr>bound_upper := ?mid\<rparr>"
    have "bisect_loop batch_of b bs = bisect_loop batch_of b ?bs"
      using True q by (subst bisect_loop.simps) (simp add: Let_def)
    moreover have "encloses batch cur b ?bs" "bound_lower ?bs < bound_upper ?bs"
      using u mid by (auto simp: encloses_def not_le intro: order.trans less_imp_le)
    moreover have "unat (bound_upper ?bs) - unat (bound_lower ?bs) < unat ?u - unat ?l"
      using mid by (auto simp: word_less_nat_alt)
    ultimately show ?thesis
      using less.hyps [of ?bs] by simp
  qed
qed

lemma bounds_updates:
  "(bs :: bounds)\<lparr>bound_upper := u, bound_lower := l\<rparr> = \<lparr>bound_lower = l, bound_upper = u\<rparr>"
  by simp

lemma lower_loop_returns:
  assumes "monotone_chain batch_of batch cur" "cur < 2 ^ 63" "batch 0 \<le> b"
    and "bound_lower bs \<le> cur" "bound_upper bs \<le> cur" "0 < step" "unat step + unat (bound_lower bs) \<le> unat cur + 1"
    and "bound_lower bs = cur \<and> bound_upper bs = cur \<or>
         bound_lower bs < bound_upper bs \<and> b < batch (bound_upper bs)"
  shows "\<exists>bs'. lower_loop batch_of b bs (batch (bound_lower bs)) step = Some (Ok bs') \<and> encloses batch cur b bs'"
  using assms(4-)
proof (induction "unat (bound_lower bs)" arbitrary: bs step rule: less_induct)
  case less
  let ?l = "bound_lower bs"
  show ?case
  proof (cases "b < batch ?l")
    case False
    then have "lower_loop batch_of b bs (batch ?l) step = Some (Ok bs)"
      by (subst lower_loop.simps) simp
    then show ?thesis
      using False less.prems by (auto simp: encloses_def)
  next
    case True
    show ?thesis
    proof (cases "?l \<le> step")
      case le: True
      then have "lower_loop batch_of b bs (batch ?l) step = Some (Ok \<lparr>bound_lower = 0, bound_upper = ?l\<rparr>)"
        using True by (subst lower_loop.simps) (simp add: Let_def bounds_updates)
      moreover have "0 < ?l"
        using True assms(3) by (metis leD word_gt_0)
      ultimately show ?thesis
        using True less.prems(1) assms(3) by (auto simp: encloses_def)
    next
      case gt: False
      let ?l' = "?l - step" and ?bs = "\<lparr>bound_lower = ?l - step, bound_upper = ?l\<rparr>"
      have l': "unat ?l' = unat ?l - unat step" "unat step < unat ?l" "0 < unat step"
        using gt less.prems(3) by (simp_all add: unat_sub word_le_nat_alt word_less_nat_alt)
      then have less': "?l' < ?l"
        by (simp add: word_less_nat_alt)
      have "unat cur < 2 ^ 63"
        using assms(2) by (simp add: word_less_nat_alt)
      then have step: "unat (step * 2) = unat step * 2"
        using less.prems(4) l' by (simp add: unat_word_ariths)
      have q: "batch_of ?l' = Ok (batch ?l')"
        using assms(1) less' less.prems(1) unfolding monotone_chain_def by (meson less_imp_le order.trans)
      have "lower_loop batch_of b bs (batch ?l) step = lower_loop batch_of b ?bs (batch ?l') (step * 2)"
        using True gt q by (subst lower_loop.simps) (simp add: Let_def bounds_updates)
      moreover have "\<exists>bs'. lower_loop batch_of b ?bs (batch (bound_lower ?bs)) (step * 2) = Some (Ok bs') \<and>
          encloses batch cur b bs'"
      proof (rule less.hyps)
        show "unat (bound_lower ?bs) < unat ?l" "bound_lower ?bs \<le> cur" "bound_upper ?bs \<le> cur"
          using l' less' less.prems(1) by auto
        show "0 < step * 2" "unat (step * 2) + unat (bound_lower ?bs) \<le> unat cur + 1"
          using l' step less.prems(4) by (simp_all add: word_less_nat_alt)
      qed (use less' True in simp)
      ultimately show ?thesis by simp
    qed
  qed
qed

lemma monotone_chainD:
  "monotone_chain batch_of batch cur \<Longrightarrow> n \<le> m \<Longrightarrow> m \<le> cur \<Longrightarrow> batch n \<le> batch m"
  by (simp add: monotone_chain_def)

lemma succ_le: "r < n \<Longrightarrow> r + 1 \<le> n" for r n :: u64
  by (metis inc_le)

text \<open>
  C18: on a chain whose batches do not decrease and whose first block is not later than the
  requested batch, the search returns, whatever the current block, and the block it returns is the
  last one whose batch is not later than the requested batch.
\<close>

theorem search_last_block_correct:
  assumes "monotone_chain batch_of batch cur" "cur < 2 ^ 63" "batch 0 \<le> b"
  shows "\<exists>r. search_last_block_for_batch batch_of (Ok (batch cur, cur)) b = Some (Ok r) \<and>
    r \<le> cur \<and> batch r \<le> b \<and> (\<forall>n \<le> cur. batch n \<le> b \<longrightarrow> n \<le> r)"
proof -
  let ?start = "\<lparr>bound_lower = cur, bound_upper = cur\<rparr>"
  obtain bs where bs: "lower_loop batch_of b ?start (batch cur) 1 = Some (Ok bs)" "encloses batch cur b bs"
    using lower_loop_returns [OF assms, of ?start 1] by auto
  show ?thesis
  proof (cases "bound_lower bs < bound_upper bs")
    case True
    obtain r where r: "bisect_loop batch_of b bs = Some (Ok r)" "batch r \<le> b" "r < cur" "b < batch (r + 1)"
      using bisect_loop_returns [OF assms(1,2) bs(2) True] by blast
    have "n \<le> r" if "n \<le> cur" "batch n \<le> b" for n
    proof (rule ccontr)
      assume "\<not> n \<le> r"
      then have "r + 1 \<le> n"
        by (simp add: succ_le)
      then have "batch (r + 1) \<le> batch n"
        by (rule monotone_chainD [OF assms(1) _ that(1)])
      with that(2) r(4) show False by simp
    qed
    then show ?thesis
      using bs(1) r by (auto simp: search_last_block_for_batch_def)
  next
    case False
    then have eq: "bound_lower bs = cur" "bound_upper bs = cur" "batch cur \<le> b"
      using bs(2) by (auto simp: encloses_def)
    then have "bisect_loop batch_of b bs = Some (Ok cur)"
      by (subst bisect_loop.simps) (simp add: bounds_diff_def)
    then show ?thesis
      using bs(1) eq by (simp add: search_last_block_for_batch_def)
  qed
qed

lemma search_last_block_correct_witness:
  "\<exists>r. search_last_block_for_batch (\<lambda>n. Ok (ucast (n div 20))) (Ok (ucast (1000 div 20 :: u64), 1000)) 7 = Some (Ok r) \<and>
     (\<forall>n \<le> 1000. ucast (n div 20 :: u64) \<le> (7 :: u32) \<longrightarrow> n \<le> r)"
proof -
  have small: "unat (ucast (n div 20) :: u32) = unat n div 20" if "n \<le> 1000" for n :: u64
    using that by (simp add: unsigned_ucast_eq unat_div word_le_nat_alt take_bit_nat_eq_self)
  have "(ucast (n div 20) :: u32) \<le> ucast (m div 20)" if "n \<le> m" "m \<le> 1000" for n m :: u64
    using that small [of n] small [of m] by (simp add: word_le_nat_alt div_le_mono)
  then have "monotone_chain (\<lambda>n. Ok (ucast (n div 20))) (\<lambda>n. ucast (n div 20)) 1000"
    by (simp add: monotone_chain_def)
  from search_last_block_correct [OF this, of 7] show ?thesis
    by auto
qed

end
