(* ===== verification/TokenInfo.thy ===== *)
theory TokenInfo
  imports Models F64
begin

text \<open>
  Token information (\<open>token_info.rs\<close>, \<open>token_info/{cached,hardcoded,onchain}.rs\<close>): the data of an ERC20
  token, the trait \<open>TokenInfoFetching\<close> with its default methods, the cache around another fetcher
  and the hardcoded token data.  A fetcher is a record of operations on a state that stands for
  everything behind it (a node, a cache); what it answers may change from call to call.  The cache
  is shown to present an unchanging view of the tokens, and lookups by symbol to find the token
  with the lowest identifier.
\<close>

section \<open>Tokens\<close>

record token_base_info =
  tbi_address :: address
  tbi_alias :: string
  tbi_decimals :: u8

definition SYMBOL_OVERRIDES :: "(string \<times> string) list" where
  "SYMBOL_OVERRIDES = [(''WETH'', ''ETH'')]"

definition token_symbol :: "token_base_info \<Rightarrow> string" where
  "token_symbol info =
     (case hm_get SYMBOL_OVERRIDES (tbi_alias info) of Some symb \<Rightarrow> symb | None \<Rightarrow> tbi_alias info)"

text \<open>\<open>10u128.pow(decimals)\<close> wraps around; \<open>NonZeroU128::new\<close> refuses zero.\<close>

definition base_unit_in_atoms :: "token_base_info \<Rightarrow> ('e, u128) result" where
  "base_unit_in_atoms info =
     (let atoms = (10 :: u128) ^ unat (tbi_decimals info) in if atoms = 0 then Panic else Ok atoms)"

definition get_owl_price :: "token_base_info \<Rightarrow> f64 \<Rightarrow> u128" where
  "get_owl_price info usd_price =
     (let pow = 36 - int (unat (tbi_decimals info))
      in f64_as_u128 (f64_mul usd_price (f64_powi (Num 10) pow)))"

definition matches_symbol :: "token_base_info \<Rightarrow> string \<Rightarrow> bool" where
  "matches_symbol info symb \<longleftrightarrow> tbi_alias info = symb \<or> token_symbol info = symb"

section \<open>Searching\<close>

text \<open>\<open>Iterator::min_by_key\<close>: the first of the least elements.\<close>

fun min_by_key :: "('a \<Rightarrow> 'k::linorder) \<Rightarrow> 'a list \<Rightarrow> 'a option" where
  "min_by_key key [] = None"
| "min_by_key key (x # xs) = Some (fold (\<lambda>y m. if key y < key m then y else m) xs x)"

definition search_for_token_by_symbol ::
    "(u16 \<times> token_base_info) list \<Rightarrow> string \<Rightarrow> (u16 \<times> token_base_info) option" where
  "search_for_token_by_symbol tokens symb =
     min_by_key fst (filter (\<lambda>(_, info). matches_symbol info symb) tokens)"

definition find_token_by_address ::
    "(u16 \<times> token_base_info) list \<Rightarrow> address \<Rightarrow> (u16 \<times> token_base_info) option" where
  "find_token_by_address infos addr = List.find (\<lambda>(_, info). tbi_address info = addr) infos"

section \<open>Fetchers\<close>

text \<open>
  The errors of a fetcher: a contract call that reverted, or anything else.  A context replaces the
  message and can still be downcast to the error below it.
\<close>

datatype fetch_error = Revert (fetch_message: string) | Failure (fetch_message: string)

fun is_revert :: "fetch_error \<Rightarrow> bool" where
  "is_revert (Revert _) = True"
| "is_revert (Failure _) = False"

fun fetch_context :: "string \<Rightarrow> fetch_error \<Rightarrow> fetch_error" where
  "fetch_context msg (Revert _) = Revert msg"
| "fetch_context msg (Failure _) = Failure msg"

type_synonym ('s, 'a) fetch = "(fetch_error, 's, 'a) fallible"

record 's token_info_fetching =
  get_token_info :: "u16 \<Rightarrow> ('s, token_base_info) fetch"
  get_token_infos :: "u16 list \<Rightarrow> ('s, (u16 \<times> token_base_info) list) fetch"
  all_ids :: "('s, u16 list) fetch"
  find_by_symbol :: "string \<Rightarrow> ('s, (u16 \<times> token_base_info) option) fetch"
  find_by_address :: "address \<Rightarrow> ('s, (u16 \<times> token_base_info) option) fetch"

text \<open>The default methods.  The loop ignores the tokens whose information cannot be fetched.\<close>

fun infos_loop ::
    "(u16 \<Rightarrow> ('s, token_base_info) fetch) \<Rightarrow> u16 list \<Rightarrow> (u16 \<times> token_base_info) list \<Rightarrow>
     ('s, (u16 \<times> token_base_info) list) fetch" where
  "infos_loop get [] infos s = (Ok infos, s)"
| "infos_loop get (tid # ids) infos s =
     (case get tid s of
        (Ok info, s) \<Rightarrow> infos_loop get ids (hm_insert tid info infos) s
      | (Err _, s) \<Rightarrow> infos_loop get ids infos s
      | (Panic, s) \<Rightarrow> (Panic, s))"

definition default_get_token_infos ::
    "(u16 \<Rightarrow> ('s, token_base_info) fetch) \<Rightarrow> u16 list \<Rightarrow> ('s, (u16 \<times> token_base_info) list) fetch" where
  "default_get_token_infos get ids = infos_loop get ids []"

definition default_find_token_by_symbol ::
    "('s, u16 list) fetch \<Rightarrow> (u16 list \<Rightarrow> ('s, (u16 \<times> token_base_info) list) fetch) \<Rightarrow> string \<Rightarrow>
     ('s, (u16 \<times> token_base_info) option) fetch" where
  "default_find_token_by_symbol ids infos symb =
     ebind ids (\<lambda>ids. ebind (infos ids) (\<lambda>infos. elift (Ok (search_for_token_by_symbol infos symb))))"

definition default_find_token_by_address ::
    "('s, u16 list) fetch \<Rightarrow> (u16 list \<Rightarrow> ('s, (u16 \<times> token_base_info) list) fetch) \<Rightarrow> address \<Rightarrow>
     ('s, (u16 \<times> token_base_info) option) fetch" where
  "default_find_token_by_address ids infos addr =
     ebind ids (\<lambda>ids. ebind (infos ids) (\<lambda>infos. elift (Ok (find_token_by_address infos addr))))"

text \<open>An implementation of the trait that keeps all default methods.\<close>

definition default_fetching ::
    "(u16 \<Rightarrow> ('s, token_base_info) fetch) \<Rightarrow> ('s, u16 list) fetch \<Rightarrow> 's token_info_fetching" where
  "default_fetching get ids =
     (let infos = default_get_token_infos get
      in \<lparr>get_token_info = get, get_token_infos = infos, all_ids = ids,
          find_by_symbol = default_find_token_by_symbol ids infos,
          find_by_address = default_find_token_by_address ids infos\<rparr>)"

section \<open>The contract\<close>

text \<open>The exchange contract's calls are parameters; identifiers are numbered from zero.\<close>

definition contract_get_token_info ::
    "(u16 \<Rightarrow> ('s, address \<times> string \<times> u8) fetch) \<Rightarrow> u16 \<Rightarrow> ('s, token_base_info) fetch" where
  "contract_get_token_info call tid =
     ebind (call tid) (\<lambda>(addr, alias, decimals).
       elift (Ok \<lparr>tbi_address = addr, tbi_alias = alias, tbi_decimals = decimals\<rparr>))"

definition contract_all_ids :: "('s, u16) fetch \<Rightarrow> ('s, u16 list) fetch" where
  "contract_all_ids num_tokens =
     ebind num_tokens (\<lambda>n. elift (Ok (map word_of_nat [0..<unat n])))"

definition contract_fetching ::
    "(u16 \<Rightarrow> ('s, address \<times> string \<times> u8) fetch) \<Rightarrow> ('s, u16) fetch \<Rightarrow> 's token_info_fetching" where
  "contract_fetching call num_tokens =
     default_fetching (contract_get_token_info call) (contract_all_ids num_tokens)"

section \<open>Hardcoded token data\<close>

record token_info_override =
  tio_address :: address
  tio_alias :: string
  tio_decimals :: u8
  tio_external_price :: "u128 option"

definition override_into_base_info :: "token_info_override \<Rightarrow> token_base_info" where
  "override_into_base_info info =
     \<lparr>tbi_address = tio_address info, tbi_alias = tio_alias info, tbi_decimals = tio_decimals info\<rparr>"

type_synonym token_data = "(u16 \<times> token_info_override) list"

definition data_get_token_info :: "token_data \<Rightarrow> u16 \<Rightarrow> ('s, token_base_info) fetch" where
  "data_get_token_info td tid =
     elift (rmap override_into_base_info
       (ok_or (hm_get td tid) (Failure (''Token TokenId('' @ show_nat (unat tid) @ '') not found in hardcoded data''))))"

definition data_all_ids :: "token_data \<Rightarrow> ('s, u16 list) fetch" where
  "data_all_ids td = elift (Ok (map fst td))"

definition data_fetching :: "token_data \<Rightarrow> 's token_info_fetching" where
  "data_fetching td = default_fetching (data_get_token_info td) (data_all_ids td)"

text \<open>The conversion that fills the cache; it does not keep the addresses.\<close>

definition data_into_infos :: "token_data \<Rightarrow> (u16 \<times> token_base_info) list" where
  "data_into_infos td =
     hm_collect (map (\<lambda>(tid, info).
       (tid, \<lparr>tbi_address = 0, tbi_alias = tio_alias info, tbi_decimals = tio_decimals info\<rparr>)) td)"

section \<open>The cache\<close>

datatype cache_entry = CachedInfo token_base_info | UnretryableError string

record 's token_info_cache =
  info_cache :: "(u16 \<times> cache_entry) list"
  cache_inner :: 's

definition info_cache_new :: "'s \<Rightarrow> 's token_info_cache" where
  "info_cache_new inner = \<lparr>info_cache = [], cache_inner = inner\<rparr>"

definition with_cache :: "'s \<Rightarrow> (u16 \<times> token_base_info) list \<Rightarrow> 's token_info_cache" where
  "with_cache inner infos =
     \<lparr>info_cache = hm_collect (map (\<lambda>(key, info). (key, CachedInfo info)) infos), cache_inner = inner\<rparr>"

abbreviation on_inner :: "('s, 'a) fetch \<Rightarrow> ('s token_info_cache, 'a) fetch" where
  "on_inner \<equiv> ezoom cache_inner (\<lambda>s c. c\<lparr>cache_inner := s\<rparr>)"

definition cache_insert :: "u16 \<Rightarrow> cache_entry \<Rightarrow> 's token_info_cache \<Rightarrow> 's token_info_cache" where
  "cache_insert tid entry c = c\<lparr>info_cache := hm_insert tid entry (info_cache c)\<rparr>"

fun cache_entry_to_result :: "cache_entry \<Rightarrow> (fetch_error, token_base_info) result" where
  "cache_entry_to_result (CachedInfo info) = Ok info"
| "cache_entry_to_result (UnretryableError reason) = Err (fetch_context ''cached error'' (Failure reason))"

definition cached_get_token_info ::
    "'s token_info_fetching \<Rightarrow> u16 \<Rightarrow> ('s token_info_cache, token_base_info) fetch" where
  "cached_get_token_info f tid c =
     (case hm_get (info_cache c) tid of
        Some entry \<Rightarrow> (cache_entry_to_result entry, c)
      | None \<Rightarrow>
          (case on_inner (get_token_info f tid) c of
             (Ok info, c) \<Rightarrow> (Ok info, cache_insert tid (CachedInfo info) c)
           | (Err err, c) \<Rightarrow>
               (Err err, if is_revert err then cache_insert tid (UnretryableError (fetch_message err)) c else c)
           | (Panic, c) \<Rightarrow> (Panic, c)))"

definition uncached_tokens :: "u16 list \<Rightarrow> 's token_info_cache \<Rightarrow> u16 list" where
  "uncached_tokens ids c = filter (\<lambda>tid. hm_get (info_cache c) tid = None) ids"

text \<open>\<open>let _ = get_token_info(tid)\<close> for each of the identifiers.\<close>

fun fetch_each ::
    "'s token_info_fetching \<Rightarrow> u16 list \<Rightarrow> ('s token_info_cache, unit) fetch" where
  "fetch_each f [] c = (Ok (), c)"
| "fetch_each f (tid # ids) c =
     (case cached_get_token_info f tid c of
        (Panic, c) \<Rightarrow> (Panic, c)
      | (_, c) \<Rightarrow> fetch_each f ids c)"

definition cached_infos :: "u16 list \<Rightarrow> 's token_info_cache \<Rightarrow> (u16 \<times> token_base_info) list" where
  "cached_infos ids c =
     hm_collect (List.map_filter (\<lambda>tid.
       case hm_get (info_cache c) tid of
         None \<Rightarrow> None
       | Some entry \<Rightarrow> (case cache_entry_to_result entry of Ok info \<Rightarrow> Some (tid, info) | _ \<Rightarrow> None)) ids)"

definition cached_get_token_infos ::
    "'s token_info_fetching \<Rightarrow> u16 list \<Rightarrow> ('s token_info_cache, (u16 \<times> token_base_info) list) fetch" where
  "cached_get_token_infos f ids =
     ebind (eget (uncached_tokens ids)) (\<lambda>uncached_token_ids.
     ebind (fetch_each f uncached_token_ids) (\<lambda>_.
     eget (cached_infos ids)))"

definition cached_all_ids :: "'s token_info_fetching \<Rightarrow> ('s token_info_cache, u16 list) fetch" where
  "cached_all_ids f = on_inner (all_ids f)"

text \<open>
  Several requests are under way at a time; \<open>schedule\<close> gives the order in which they are answered,
  for a bound on their number and the tokens asked for.
\<close>

type_synonym schedule = "nat \<Rightarrow> u16 list \<Rightarrow> u16 list"

definition context_of :: "string \<Rightarrow> ('s, 'a) fetch \<Rightarrow> ('s, 'a) fetch" where
  "context_of msg m s =
     (case m s of (Err e, s) \<Rightarrow> (Err (fetch_context msg e), s) | r \<Rightarrow> r)"

definition cache_all_with_concurrent_requests ::
    "'s token_info_fetching \<Rightarrow> schedule \<Rightarrow> nat \<Rightarrow> ('s token_info_cache, unit) fetch" where
  "cache_all_with_concurrent_requests f schedule number_of_parallel_requests =
     ebind (context_of ''failed to get all ids'' (cached_all_ids f)) (\<lambda>ids.
     ebind (eget (uncached_tokens ids)) (\<lambda>uncached.
     fetch_each f (schedule number_of_parallel_requests uncached)))"

definition DEFAULT_CACHE_CONCURRENT_REQUESTS :: nat where
  "DEFAULT_CACHE_CONCURRENT_REQUESTS = 10"

definition cache_all :: "'s token_info_fetching \<Rightarrow> schedule \<Rightarrow> ('s token_info_cache, unit) fetch" where
  "cache_all f schedule = cache_all_with_concurrent_requests f schedule DEFAULT_CACHE_CONCURRENT_REQUESTS"

definition find_cached_token_by_symbol ::
    "string \<Rightarrow> 's token_info_cache \<Rightarrow> (u16 \<times> token_base_info) option" where
  "find_cached_token_by_symbol symb c =
     search_for_token_by_symbol
       (List.map_filter (\<lambda>(tid, entry). case entry of CachedInfo info \<Rightarrow> Some (tid, info) | _ \<Rightarrow> None) (info_cache c)) symb"

text \<open>\<open>Iterator::find_map\<close>\<close>

fun find_map :: "('a \<Rightarrow> 'b option) \<Rightarrow> 'a list \<Rightarrow> 'b option" where
  "find_map f [] = None"
| "find_map f (x # xs) = (case f x of Some y \<Rightarrow> Some y | None \<Rightarrow> find_map f xs)"

definition find_cached_token_by_address ::
    "address \<Rightarrow> 's token_info_cache \<Rightarrow> (u16 \<times> token_base_info) option" where
  "find_cached_token_by_address addr c =
     find_map (\<lambda>(tid, entry).
       case entry of
         CachedInfo info \<Rightarrow> if tbi_address info = addr then Some (tid, info) else None
       | _ \<Rightarrow> None) (info_cache c)"

definition cached_find_token_by_symbol ::
    "'s token_info_fetching \<Rightarrow> schedule \<Rightarrow> string \<Rightarrow> ('s token_info_cache, (u16 \<times> token_base_info) option) fetch" where
  "cached_find_token_by_symbol f schedule symb =
     ebind (eget (find_cached_token_by_symbol symb)) (\<lambda>found.
     ebind (case found of
              Some (tid, _) \<Rightarrow>
                ebind (cached_get_token_infos f (map word_of_nat [0..<unat tid])) (\<lambda>_. elift (Ok ()))
            | None \<Rightarrow> cache_all f schedule) (\<lambda>_.
     eget (find_cached_token_by_symbol symb)))"

definition cached_find_token_by_address ::
    "'s token_info_fetching \<Rightarrow> schedule \<Rightarrow> address \<Rightarrow> ('s token_info_cache, (u16 \<times> token_base_info) option) fetch" where
  "cached_find_token_by_address f schedule addr =
     ebind (eget (find_cached_token_by_address addr)) (\<lambda>cached_info.
     case cached_info of
       None \<Rightarrow> ebind (cache_all f schedule) (\<lambda>_. eget (find_cached_token_by_address addr))
     | some \<Rightarrow> elift (Ok some))"

definition cached_fetching :: "'s token_info_fetching \<Rightarrow> schedule \<Rightarrow> 's token_info_cache token_info_fetching" where
  "cached_fetching f schedule =
     \<lparr>get_token_info = cached_get_token_info f, get_token_infos = cached_get_token_infos f,
      all_ids = cached_all_ids f, find_by_symbol = cached_find_token_by_symbol f schedule,
      find_by_address = cached_find_token_by_address f schedule\<rparr>"

section \<open>Base units\<close>

lemma ten_power_dvd: "2 ^ 128 dvd (10 :: nat) ^ d \<longleftrightarrow> 128 \<le> d"
proof
  assume "2 ^ 128 dvd (10 :: nat) ^ d"
  moreover have "(10 :: nat) ^ d = 2 ^ d * 5 ^ d"
    by (simp flip: power_mult_distrib)
  moreover have "coprime ((2 :: nat) ^ 128) (5 ^ d)"
  proof -
    have "coprime (2 :: nat) 5"
      by (simp add: coprime_left_2_iff_odd)
    then show ?thesis
      by (simp only: coprime_power_left_iff coprime_power_right_iff) simp
  qed
  ultimately have "(2 :: nat) ^ 128 dvd 2 ^ d"
    by (simp only: coprime_dvd_mult_left_iff)
  then show "128 \<le> d"
    by (simp only: power_dvd_imp_le [of "2 :: nat"])
next
  assume "128 \<le> d"
  then have "(2 :: nat) ^ 128 dvd 2 ^ d"
    by (rule le_imp_power_dvd)
  also have "(2 :: nat) ^ d dvd 10 ^ d"
    by (rule dvd_power_same) simp
  finally show "2 ^ 128 dvd (10 :: nat) ^ d" .
qed

lemma unat_ten_power: "unat ((10 :: u128) ^ d) = 10 ^ d mod 2 ^ 128"
proof -
  have "(10 :: u128) ^ d = word_of_nat (10 ^ d)"
    by simp
  then show ?thesis
    by (simp only: unat_of_nat) simp
qed

lemma base_unit_panics_iff: "base_unit_in_atoms info = Panic \<longleftrightarrow> 128 \<le> unat (tbi_decimals info)"
proof -
  have "(10 :: u128) ^ d = 0 \<longleftrightarrow> 128 \<le> d" for d
    using ten_power_dvd [of d] by (simp only: unat_eq_zero [symmetric] unat_ten_power mod_eq_0_iff_dvd)
  then show ?thesis
    by (simp add: base_unit_in_atoms_def Let_def)
qed

lemma base_unit_exact_iff:
  "(\<exists>atoms. base_unit_in_atoms info = Ok atoms \<and> unat atoms = 10 ^ unat (tbi_decimals info)) \<longleftrightarrow>
   unat (tbi_decimals info) \<le> 38" (is "?l \<longleftrightarrow> ?d \<le> 38")
proof
  assume ?l
  then have "(10 :: nat) ^ ?d < 2 ^ 128"
    using unat_less [of "(10 :: u128) ^ ?d"] by (auto simp: base_unit_in_atoms_def Let_def split: if_splits)
  also have "(2 :: nat) ^ 128 < 10 ^ 39"
    by simp
  finally have "?d < 39"
    by (rule power_less_imp_less_exp [rotated]) simp
  then show "?d \<le> 38"
    by simp
next
  assume d: "?d \<le> 38"
  then have "(10 :: nat) ^ ?d \<le> 10 ^ 38"
    by (intro power_increasing) auto
  also have "(10 :: nat) ^ 38 < 2 ^ 128"
    by simp
  finally have "unat ((10 :: u128) ^ ?d) = 10 ^ ?d"
    by (simp only: unat_ten_power mod_less)
  moreover from this have "(10 :: u128) ^ ?d \<noteq> 0"
    by (metis unat_0 power_not_zero zero_neq_numeral)
  ultimately show ?l
    by (simp add: base_unit_in_atoms_def Let_def)
qed

lemma get_owl_price_exact:
  assumes d: "14 \<le> unat (tbi_decimals info)" "unat (tbi_decimals info) \<le> 36"
    and n: "0 < n" "n * 5 ^ (36 - unat (tbi_decimals info)) < 2 ^ 53"
  shows "unat (get_owl_price info (f64_of_nat n)) = n * 10 ^ (36 - unat (tbi_decimals info))"
proof -
  define k where "k = 36 - unat (tbi_decimals info)"
  have k: "k \<le> 22" "36 - int (unat (tbi_decimals info)) = int k"
    using d by (simp_all add: k_def)
  have "n \<le> n * 5 ^ k"
    by simp
  also have "\<dots> < 2 ^ 53"
    using n(2) by (simp add: k_def)
  finally have n53: "n < 2 ^ 53" .
  have price: "get_owl_price info (f64_of_nat n) = f64_as_u128 (Num (of_nat n * 10 ^ k))"
    using n f64_round_ten_power [of n k] k powi_ten [OF k(1)]
    by (simp add: get_owl_price_def Let_def f64_of_nat_exact [OF n(1) n53] f64_mul_def k_def)
  have "n * 10 ^ k = n * 5 ^ k * 2 ^ k"
    by (simp flip: power_mult_distrib)
  also have "\<dots> < 2 ^ 53 * 2 ^ k"
    using n(2) by (simp add: k_def)
  also have "\<dots> \<le> 2 ^ 53 * 2 ^ 22"
    using k(1) by (intro mult_left_mono power_increasing) auto
  finally have bound: "n * 10 ^ k < 2 ^ 128"
    by simp
  have q: "(of_nat n * 10 ^ k :: rat) = of_int (int (n * 10 ^ k))"
    by simp
  have "f64_as_u128 (Num (of_nat n * 10 ^ k)) = word_of_int (int (n * 10 ^ k))"
  proof -
    have "(of_nat (n * 10 ^ k) :: rat) < of_nat (2 ^ 128)"
      using bound by (simp only: of_nat_less_iff)
    then have "\<not> 2 ^ 128 \<le> (of_nat n * 10 ^ k :: rat)" "\<not> (of_nat n * 10 ^ k :: rat) < 0"
      by (simp_all add: not_less)
    then show ?thesis
      unfolding q by (simp only: f64_as_u128.simps floor_of_int) simp
  qed
  moreover have "unat (word_of_nat (n * 10 ^ k) :: u128) = n * 10 ^ k"
    using bound by (simp only: unat_of_nat take_bit_eq_mod len_of_numeral_defs) simp
  ultimately show ?thesis
    unfolding price k_def [symmetric] by (metis of_int_of_nat_eq)
qed

section \<open>The contract of a fetcher\<close>

text \<open>
  \<open>fetch_ok keeps m Q E\<close>: started in a state that satisfies the invariant, \<open>m\<close> does not panic, keeps the
  invariant, and its value or its error satisfies the given predicate.
\<close>

definition fetch_ok :: "('s \<Rightarrow> bool) \<Rightarrow> ('e, 's, 'a) fallible \<Rightarrow> ('a \<Rightarrow> bool) \<Rightarrow> ('e \<Rightarrow> bool) \<Rightarrow> bool" where
  "fetch_ok keeps m Q E \<longleftrightarrow>
     (\<forall>s. keeps s \<longrightarrow> (case m s of (r, s') \<Rightarrow> keeps s' \<and> (case r of Ok a \<Rightarrow> Q a | Err e \<Rightarrow> E e | Panic \<Rightarrow> False)))"

lemma fetch_okI:
  assumes "\<And>s r s'. keeps s \<Longrightarrow> m s = (r, s') \<Longrightarrow> keeps s' \<and> (case r of Ok a \<Rightarrow> Q a | Err e \<Rightarrow> E e | Panic \<Rightarrow> False)"
  shows "fetch_ok keeps m Q E"
  using assms by (auto simp: fetch_ok_def split: prod.split)

lemma fetch_okD:
  assumes "fetch_ok keeps m Q E" "keeps s" "m s = (r, s')"
  shows "keeps s'" "r = Ok a \<Longrightarrow> Q a" "r = Err e \<Longrightarrow> E e" "r \<noteq> Panic"
  using assms by (auto simp: fetch_ok_def split: result.splits)

lemma fetch_ok_mono:
  assumes "fetch_ok keeps m Q E" "\<And>a. Q a \<Longrightarrow> Q' a" "\<And>e. E e \<Longrightarrow> E' e"
  shows "fetch_ok keeps m Q' E'"
  using assms by (fastforce simp: fetch_ok_def split: result.splits)

lemma fetch_ok_bind:
  assumes "fetch_ok keeps m Q E" "\<And>a. Q a \<Longrightarrow> fetch_ok keeps (k a) R E"
  shows "fetch_ok keeps (ebind m k) R E"
proof (rule fetch_okI)
  fix s r s' assume s: "keeps s" "ebind m k s = (r, s')"
  obtain r1 s1 where m: "m s = (r1, s1)"
    by (cases "m s")
  note m' = fetch_okD [OF assms(1) s(1) m]
  show "keeps s' \<and> (case r of Ok a \<Rightarrow> R a | Err e \<Rightarrow> E e | Panic \<Rightarrow> False)"
  proof (cases r1)
    case (Ok a)
    then show ?thesis
      using assms(2) [of a] m' m s by (auto simp: ebind_def fetch_ok_def split: result.splits)
  next
    case (Err e)
    then show ?thesis
      using m' m s by (auto simp: ebind_def)
  next
    case Panic
    then show ?thesis
      using m' by simp
  qed
qed

lemma fetch_ok_lift: "(case r of Ok a \<Rightarrow> Q a | Err e \<Rightarrow> E e | Panic \<Rightarrow> False) \<Longrightarrow> fetch_ok keeps (elift r) Q E"
  by (simp add: fetch_ok_def elift_def)

lemma fetch_ok_get: "(\<And>s. keeps s \<Longrightarrow> Q (g s)) \<Longrightarrow> fetch_ok keeps (eget g) Q E"
  by (simp add: fetch_ok_def eget_def)

definition infos_of :: "(u16 \<Rightarrow> token_base_info option) \<Rightarrow> u16 list \<Rightarrow> (u16 \<times> token_base_info) list \<Rightarrow> bool" where
  "infos_of tok ids infos \<longleftrightarrow>
     hm_wf infos \<and> (\<forall>i info. hm_get infos i = Some info \<longrightarrow> i \<in> set ids \<and> tok i = Some info)"

text \<open>
  A source of token information knows the tokens \<open>tok\<close>: what it answers is what it knows, and a call
  reverts only for a token it does not know.  Other errors may happen at any time.
\<close>

locale token_source =
  fixes f :: "'s token_info_fetching"
    and tok :: "u16 \<Rightarrow> token_base_info option"
    and keeps :: "'s \<Rightarrow> bool"
  assumes get_token_info_ok:
      "fetch_ok keeps (get_token_info f i) (\<lambda>info. tok i = Some info) (\<lambda>e. is_revert e \<longrightarrow> tok i = None)"
    and get_token_infos_ok: "fetch_ok keeps (get_token_infos f ids) (infos_of tok ids) (\<lambda>_. True)"
    and all_ids_ok: "fetch_ok keeps (all_ids f) (\<lambda>_. True) (\<lambda>_. True)"
    and find_by_symbol_ok:
      "fetch_ok keeps (find_by_symbol f name)
         (\<lambda>found. \<forall>i info. found = Some (i, info) \<longrightarrow> tok i = Some info \<and> matches_symbol info name) (\<lambda>_. True)"
    and find_by_address_ok:
      "fetch_ok keeps (find_by_address f addr)
         (\<lambda>found. \<forall>i info. found = Some (i, info) \<longrightarrow> tok i = Some info \<and> tbi_address info = addr) (\<lambda>_. True)"

lemma fold_min_by_key:
  fixes key :: "'a \<Rightarrow> 'k::linorder"
  defines "step \<equiv> \<lambda>y m. if key y < key m then y else m"
  shows "fold step xs x \<in> insert x (set xs) \<and> (\<forall>y \<in> insert x (set xs). key (fold step xs x) \<le> key y)"
proof (induction xs arbitrary: x)
  case (Cons z zs)
  have "key (step z x) \<le> key z" "key (step z x) \<le> key x" "step z x \<in> {z, x}"
    by (auto simp: step_def)
  then show ?case
    using Cons [of "step z x"] by (auto intro: order_trans)
qed simp

lemma min_by_key_eq_None [simp]: "min_by_key key xs = None \<longleftrightarrow> xs = []"
  by (cases xs) auto

lemma min_by_key_Some:
  "min_by_key key xs = Some x \<Longrightarrow> x \<in> set xs \<and> (\<forall>y \<in> set xs. key x \<le> key y)"
  using fold_min_by_key [of key "tl xs" "hd xs"] by (cases xs) (auto simp del: insert_iff)

lemma search_for_token_by_symbol_Some:
  assumes "search_for_token_by_symbol tokens name = Some (i, info)"
  shows "(i, info) \<in> set tokens" "matches_symbol info name"
    "(j, info') \<in> set tokens \<Longrightarrow> matches_symbol info' name \<Longrightarrow> i \<le> j"
  using min_by_key_Some [OF assms [unfolded search_for_token_by_symbol_def]] by auto

lemma search_for_token_by_symbol_None:
  "search_for_token_by_symbol tokens name = None \<longleftrightarrow> (\<forall>(i, info) \<in> set tokens. \<not> matches_symbol info name)"
  by (auto simp: search_for_token_by_symbol_def filter_empty_conv)

lemma find_token_by_address_Some:
  "find_token_by_address infos addr = Some (i, info) \<Longrightarrow> (i, info) \<in> set infos \<and> tbi_address info = addr"
  by (auto simp: find_token_by_address_def find_Some_iff dest: nth_mem)

section \<open>Default methods\<close>

lemma infos_loop_ok:
  assumes get: "\<And>i. fetch_ok keeps (get i) (\<lambda>info. tok i = Some info) (\<lambda>_. True)"
  shows "infos_of tok known infos \<Longrightarrow> set ids \<subseteq> set known \<Longrightarrow>
    fetch_ok keeps (infos_loop get ids infos) (infos_of tok known) (\<lambda>_. True)"
proof (induction ids arbitrary: infos)
  case Nil
  then show ?case by (simp add: fetch_ok_def)
next
  case (Cons i ids)
  show ?case
  proof (rule fetch_okI)
    fix s r s' assume s: "keeps s" "infos_loop get (i # ids) infos s = (r, s')"
    obtain r1 s1 where m: "get i s = (r1, s1)"
      by (cases "get i s")
    note g = fetch_okD [OF get s(1) m]
    have rest: "keeps s' \<and> (case r of Ok a \<Rightarrow> infos_of tok known a | Err e \<Rightarrow> True | Panic \<Rightarrow> False)"
      if "infos_of tok known infos'" "infos_loop get ids infos' s1 = (r, s')" for infos'
      using Cons.IH [OF that(1)] Cons.prems(2) g(1) that(2) by (simp add: fetch_ok_def split: prod.splits)
    show "keeps s' \<and> (case r of Ok a \<Rightarrow> infos_of tok known a | Err e \<Rightarrow> True | Panic \<Rightarrow> False)"
    proof (cases r1)
      case (Ok info)
      moreover have "infos_of tok known (hm_insert i info infos)"
        using Cons.prems g(2) [OF Ok] by (auto simp: infos_of_def)
      ultimately show ?thesis
        using rest m s(2) by simp
    next
      case (Err e)
      then show ?thesis
        using rest Cons.prems(1) m s(2) by simp
    next
      case Panic
      then show ?thesis
        using g(4) by simp
    qed
  qed
qed

lemma default_source:
  assumes get: "\<And>i. fetch_ok keeps (get i) (\<lambda>info. tok i = Some info) (\<lambda>e. is_revert e \<longrightarrow> tok i = None)"
    and ids: "fetch_ok keeps ids (\<lambda>_. True) (\<lambda>_. True)"
  shows "token_source (default_fetching get ids) tok keeps"
proof -
  have infos: "fetch_ok keeps (default_get_token_infos get is) (infos_of tok is) (\<lambda>_. True)" for "is"
    unfolding default_get_token_infos_def using get
    by (intro infos_loop_ok) (auto intro: fetch_ok_mono simp: infos_of_def)
  have by_symbol: "tok i = Some info \<and> matches_symbol info name"
    if "infos_of tok is infos" "search_for_token_by_symbol infos name = Some (i, info)" for "is" infos i info name
    using that(1) search_for_token_by_symbol_Some(1,2) [OF that(2)] by (simp add: infos_of_def)
  have by_address: "tok i = Some info \<and> tbi_address info = addr"
    if "infos_of tok is infos" "find_token_by_address infos addr = Some (i, info)" for "is" infos i info addr
    using that(1) find_token_by_address_Some [OF that(2)] by (simp add: infos_of_def)
  show ?thesis
    by unfold_locales (auto simp: default_fetching_def Let_def default_find_token_by_symbol_def
        default_find_token_by_address_def get ids infos dest: by_symbol by_address
        intro!: fetch_ok_bind [OF ids] fetch_ok_bind [OF infos] fetch_ok_lift)
qed

lemma contract_source:
  assumes "\<And>i. fetch_ok keeps (call i)
      (\<lambda>(addr, alias, decimals). tok i = Some \<lparr>tbi_address = addr, tbi_alias = alias, tbi_decimals = decimals\<rparr>)
      (\<lambda>e. is_revert e \<longrightarrow> tok i = None)"
    and "fetch_ok keeps num_tokens (\<lambda>_. True) (\<lambda>_. True)"
  shows "token_source (contract_fetching call num_tokens) tok keeps"
  unfolding contract_fetching_def contract_get_token_info_def contract_all_ids_def using assms
  by (intro default_source) (auto intro!: fetch_ok_bind [OF assms(1)] fetch_ok_bind [OF assms(2)] fetch_ok_lift)

definition data_tokens :: "token_data \<Rightarrow> u16 \<Rightarrow> token_base_info option" where
  "data_tokens td i = map_option override_into_base_info (hm_get td i)"

lemma data_source: "token_source (data_fetching td) (data_tokens td) (\<lambda>_. True)"
  unfolding data_fetching_def data_get_token_info_def data_all_ids_def
  by (intro default_source fetch_ok_lift) (auto simp: data_tokens_def ok_or_def split: option.split)

section \<open>The cache presents an unchanging view\<close>

text \<open>What a cache in front of a source that knows \<open>tok\<close> knows: the cached entries come first.\<close>

definition cache_view :: "(u16 \<Rightarrow> token_base_info option) \<Rightarrow> 's token_info_cache \<Rightarrow> u16 \<Rightarrow> token_base_info option" where
  "cache_view tok c i =
     (case hm_get (info_cache c) i of
        Some (CachedInfo info) \<Rightarrow> Some info
      | Some (UnretryableError _) \<Rightarrow> None
      | None \<Rightarrow> tok i)"

definition cache_keeps ::
    "(u16 \<Rightarrow> token_base_info option) \<Rightarrow> ('s \<Rightarrow> bool) \<Rightarrow> (u16 \<Rightarrow> token_base_info option) \<Rightarrow> 's token_info_cache \<Rightarrow> bool" where
  "cache_keeps tok keeps view c \<longleftrightarrow> keeps (cache_inner c) \<and> hm_wf (info_cache c) \<and> cache_view tok c = view"

abbreviation cache_le :: "'s token_info_cache \<Rightarrow> 's token_info_cache \<Rightarrow> bool" where
  "cache_le c c' \<equiv> map_of (info_cache c) \<subseteq>\<^sub>m map_of (info_cache c')"

lemma cache_view_insert:
  "cache_view tok (cache_insert i (CachedInfo info) c) = (cache_view tok c)(i := Some info)"
  "cache_view tok (cache_insert i (UnretryableError reason) c) = (cache_view tok c)(i := None)"
  by (auto simp: cache_view_def cache_insert_def)

lemma cache_insert_simps [simp]:
  "cache_inner (cache_insert i e c) = cache_inner c"
  "info_cache (cache_insert i e c) = hm_insert i e (info_cache c)"
  by (simp_all add: cache_insert_def)

lemma cache_view_inner [simp]: "cache_view tok (c\<lparr>cache_inner := s\<rparr>) = cache_view tok c"
  by (simp add: cache_view_def fun_eq_iff)

lemma cache_entry_cases:
  "cache_entry_to_result e = Ok info \<longleftrightarrow> e = CachedInfo info"
  "cache_entry_to_result e \<noteq> Panic"
  "cache_entry_to_result e = Err err \<Longrightarrow> \<not> is_revert err"
  by (cases e; auto)+

context token_source
begin

lemma cached_get_token_info_spec:
  assumes c: "cache_keeps tok keeps view c" and get: "cached_get_token_info f i c = (r, c')"
  shows "cache_keeps tok keeps view c'" "cache_le c c'"
    and "r = Ok info \<Longrightarrow> hm_get (info_cache c') i = Some (CachedInfo info)"
    and "r = Err e \<Longrightarrow> is_revert e \<Longrightarrow> view i = None" "r \<noteq> Panic"
proof -
  have "cache_keeps tok keeps view c' \<and> cache_le c c' \<and>
      (case r of Ok info \<Rightarrow> hm_get (info_cache c') i = Some (CachedInfo info)
       | Err e \<Rightarrow> is_revert e \<longrightarrow> view i = None | Panic \<Rightarrow> False)"
  proof (cases "hm_get (info_cache c) i")
    case (Some e)
    then show ?thesis
      using c get cache_entry_cases [of e] by (auto simp: cached_get_token_info_def split: result.split)
  next
    case None
    obtain r1 s1 where m: "get_token_info f i (cache_inner c) = (r1, s1)"
      by (cases "get_token_info f i (cache_inner c)")
    have k: "keeps (cache_inner c)" "hm_wf (info_cache c)" "cache_view tok c = view" "view i = tok i"
      using c None by (auto simp: cache_keeps_def cache_view_def)
    note ok = fetch_okD [OF get_token_info_ok k(1) m]
    have "view(i := tok i) = view"
      using k(4) by auto
    then show ?thesis
      using ok k None get m
      by (cases r1) (auto simp: cached_get_token_info_def ezoom_def cache_keeps_def cache_view_insert map_le_def
          split: if_splits)
  qed
  then show "cache_keeps tok keeps view c'" "cache_le c c'"
    and "r = Ok info \<Longrightarrow> hm_get (info_cache c') i = Some (CachedInfo info)"
    and "r = Err e \<Longrightarrow> is_revert e \<Longrightarrow> view i = None" "r \<noteq> Panic"
    by auto
qed

lemma fetch_each_spec:
  assumes "cache_keeps tok keeps view c" "fetch_each f ids c = (r, c')"
  shows "r = Ok () \<and> cache_keeps tok keeps view c' \<and> cache_le c c'"
  using assms
proof (induction ids arbitrary: c)
  case (Cons i ids)
  obtain r1 c1 where m: "cached_get_token_info f i c = (r1, c1)"
    by (cases "cached_get_token_info f i c")
  note g = cached_get_token_info_spec [OF Cons.prems(1) m]
  have "fetch_each f ids c1 = (r, c')"
    using Cons.prems(2) m g(5) by (auto split: result.splits)
  with Cons.IH [OF g(1)] g(2) show ?case
    by (auto intro: map_le_trans)
qed simp

lemma cached_view: "cache_keeps tok keeps view c \<Longrightarrow> hm_get (info_cache c) i = Some (CachedInfo info) \<Longrightarrow> view i = Some info"
  by (auto simp: cache_keeps_def cache_view_def)

end

lemma cached_token_iff:
  assumes "hm_wf (info_cache c)"
  shows "(i, info) \<in> set (List.map_filter (\<lambda>(tid, entry). case entry of CachedInfo info \<Rightarrow> Some (tid, info) | _ \<Rightarrow> None) (info_cache c))
    \<longleftrightarrow> hm_get (info_cache c) i = Some (CachedInfo info)"
  by (force simp: List.map_filter_def hm_entry_iff [OF assms, symmetric] split: cache_entry.splits prod.splits)

lemma find_cached_token_by_symbol_Some:
  assumes "hm_wf (info_cache c)" "find_cached_token_by_symbol name c = Some (i, info)"
  shows "hm_get (info_cache c) i = Some (CachedInfo info)" "matches_symbol info name"
    "hm_get (info_cache c) j = Some (CachedInfo info') \<Longrightarrow> matches_symbol info' name \<Longrightarrow> i \<le> j"
  using search_for_token_by_symbol_Some [OF assms(2) [unfolded find_cached_token_by_symbol_def]]
  unfolding cached_token_iff [OF assms(1)] by blast+

lemma find_cached_token_by_symbol_None:
  assumes "hm_wf (info_cache c)" "find_cached_token_by_symbol name c = None"
    and "hm_get (info_cache c) i = Some (CachedInfo info)"
  shows "\<not> matches_symbol info name"
  using assms(2,3) unfolding find_cached_token_by_symbol_def search_for_token_by_symbol_None
  by (auto dest: cached_token_iff [OF assms(1), THEN iffD2])

lemma find_map_Some: "find_map g xs = Some y \<Longrightarrow> \<exists>x \<in> set xs. g x = Some y"
  by (induction xs) (auto split: option.splits)

lemma find_map_None: "find_map g xs = None \<longleftrightarrow> (\<forall>x \<in> set xs. g x = None)"
  by (induction xs) (auto split: option.splits)

lemma find_cached_token_by_address_Some:
  assumes "hm_wf (info_cache c)" "find_cached_token_by_address addr c = Some (i, info)"
  shows "hm_get (info_cache c) i = Some (CachedInfo info) \<and> tbi_address info = addr"
  using find_map_Some [OF assms(2) [unfolded find_cached_token_by_address_def]]
  by (auto simp: hm_entry_iff [OF assms(1), symmetric] split: cache_entry.splits if_splits)

lemma find_cached_token_by_address_None:
  assumes "hm_wf (info_cache c)" "find_cached_token_by_address addr c = None"
    and "hm_get (info_cache c) i = Some (CachedInfo info)"
  shows "tbi_address info \<noteq> addr"
  using assms(2,3) by (fastforce simp: find_cached_token_by_address_def find_map_None hm_entry_iff [OF assms(1), symmetric])

lemma cached_infos_get:
  "hm_get (cached_infos ids c) i =
     (if i \<in> set ids then case hm_get (info_cache c) i of Some (CachedInfo info) \<Rightarrow> Some info | _ \<Rightarrow> None else None)"
proof -
  let ?g = "\<lambda>tid. case hm_get (info_cache c) tid of None \<Rightarrow> None
    | Some entry \<Rightarrow> (case cache_entry_to_result entry of Ok info \<Rightarrow> Some (tid, info) | _ \<Rightarrow> None)"
  have "hm_get (rev (List.map_filter ?g ids)) i =
     (if i \<in> set ids then case hm_get (info_cache c) i of Some (CachedInfo info) \<Rightarrow> Some info | _ \<Rightarrow> None else None)"
    by (induction ids) (auto simp: List.map_filter_simps map_add_def split: option.splits cache_entry.splits if_splits)
  then show ?thesis
    by (simp add: cached_infos_def map_of_hm_collect)
qed

context token_source
begin

lemma cached_get_token_infos_spec:
  assumes c: "cache_keeps tok keeps view c" and get: "cached_get_token_infos f ids c = (r, c')"
  obtains infos where "r = Ok infos" "infos_of view ids infos" "cache_keeps tok keeps view c'" "cache_le c c'"
    "fetch_each f (uncached_tokens ids c) c = (Ok (), c')"
proof -
  obtain r1 c1 where each: "fetch_each f (uncached_tokens ids c) c = (r1, c1)"
    by (cases "fetch_each f (uncached_tokens ids c) c")
  note spec = fetch_each_spec [OF c each]
  then have r: "r = Ok (cached_infos ids c')" "c' = c1"
    using get each by (auto simp: cached_get_token_infos_def ebind_def eget_def)
  have "infos_of view ids (cached_infos ids c')"
    using spec hm_wf_collect unfolding infos_of_def cached_infos_get r(2)
    by (auto simp: cached_infos_def dest: cached_view split: if_splits option.splits cache_entry.splits)
  with spec r each that show ?thesis
    by simp
qed

lemma cache_all_spec:
  assumes c: "cache_keeps tok keeps view c" and all: "cache_all f schedule c = (r, c')"
  shows "cache_keeps tok keeps view c'" "cache_le c c'" "r \<noteq> Panic"
proof -
  obtain r1 s1 where ids: "all_ids f (cache_inner c) = (r1, s1)"
    by (cases "all_ids f (cache_inner c)")
  have k: "keeps (cache_inner c)"
    using c by (simp add: cache_keeps_def)
  note ok = fetch_okD [OF all_ids_ok k ids]
  have c1: "cache_keeps tok keeps view (c\<lparr>cache_inner := s1\<rparr>)"
    using c ok(1) by (simp add: cache_keeps_def)
  have all': "(case r1 of Ok ids \<Rightarrow> fetch_each f (schedule 10 (uncached_tokens ids c)) (c\<lparr>cache_inner := s1\<rparr>)
      | Err e \<Rightarrow> (Err (fetch_context ''failed to get all ids'' e), c\<lparr>cache_inner := s1\<rparr>) | Panic \<Rightarrow> (Panic, c\<lparr>cache_inner := s1\<rparr>)) = (r, c')"
    using all ids by (auto simp: cache_all_def cache_all_with_concurrent_requests_def cached_all_ids_def context_of_def
        ezoom_def ebind_def eget_def uncached_tokens_def DEFAULT_CACHE_CONCURRENT_REQUESTS_def split: result.splits)
  have "cache_keeps tok keeps view c' \<and> cache_le c c' \<and> r \<noteq> Panic"
    using all' ok(4) c1 fetch_each_spec [OF c1] by (cases r1) auto
  then show "cache_keeps tok keeps view c'" "cache_le c c'" "r \<noteq> Panic"
    by auto
qed

lemma cache_all_eq:
  "all_ids f (cache_inner c) = (Ok ids, s1) \<Longrightarrow>
   cache_all f schedule c = fetch_each f (schedule 10 (uncached_tokens ids c)) (c\<lparr>cache_inner := s1\<rparr>)"
  by (simp add: cache_all_def cache_all_with_concurrent_requests_def cached_all_ids_def context_of_def
      ezoom_def ebind_def eget_def uncached_tokens_def DEFAULT_CACHE_CONCURRENT_REQUESTS_def)

text \<open>The two lookups, as far as they depend on the cache only.\<close>

lemma cached_find_token_by_symbol_spec:
  assumes c: "cache_keeps tok keeps view c" and find: "cached_find_token_by_symbol f schedule name c = (r, c')"
  shows "cache_keeps tok keeps view c'" "cache_le c c'" "r \<noteq> Panic"
    "r = Ok found \<Longrightarrow> found = find_cached_token_by_symbol name c'"
    "r = Ok found \<Longrightarrow> find_cached_token_by_symbol name c = Some (i, info) \<Longrightarrow>
       fetch_each f (uncached_tokens (map word_of_nat [0..<unat i]) c) c = (Ok (), c')"
    "find_cached_token_by_symbol name c = None \<Longrightarrow>
       cache_all f schedule c = (rmap (\<lambda>_. ()) r, c')"
proof -
  have "cache_keeps tok keeps view c' \<and> cache_le c c' \<and> r \<noteq> Panic \<and>
      (\<forall>found. r = Ok found \<longrightarrow> found = find_cached_token_by_symbol name c') \<and>
      (\<forall>i info. find_cached_token_by_symbol name c = Some (i, info) \<longrightarrow>
        fetch_each f (uncached_tokens (map word_of_nat [0..<unat i]) c) c = (Ok (), c')) \<and>
      (find_cached_token_by_symbol name c = None \<longrightarrow> cache_all f schedule c = (rmap (\<lambda>_. ()) r, c'))"
  proof (cases "find_cached_token_by_symbol name c")
    case None
    obtain r1 c1 where all: "cache_all f schedule c = (r1, c1)"
      by (cases "cache_all f schedule c")
    note spec = cache_all_spec [OF c all]
    with None find all show ?thesis
      by (cases r1) (auto simp: cached_find_token_by_symbol_def ebind_def eget_def)
  next
    case (Some p)
    obtain i info where p: "p = (i, info)"
      by (cases p)
    obtain r1 c1 where get: "cached_get_token_infos f (map word_of_nat [0..<unat i]) c = (r1, c1)"
      by (cases "cached_get_token_infos f (map word_of_nat [0..<unat i]) c")
    obtain infos where "r1 = Ok infos" "cache_keeps tok keeps view c1" "cache_le c c1"
        "fetch_each f (uncached_tokens (map word_of_nat [0..<unat i]) c) c = (Ok (), c1)"
      by (rule cached_get_token_infos_spec [OF c get])
    then show ?thesis
      using find get Some p by (auto simp: cached_find_token_by_symbol_def ebind_def eget_def elift_def)
  qed
  then show "cache_keeps tok keeps view c'" "cache_le c c'" "r \<noteq> Panic"
    "r = Ok found \<Longrightarrow> found = find_cached_token_by_symbol name c'"
    "r = Ok found \<Longrightarrow> find_cached_token_by_symbol name c = Some (i, info) \<Longrightarrow>
       fetch_each f (uncached_tokens (map word_of_nat [0..<unat i]) c) c = (Ok (), c')"
    "find_cached_token_by_symbol name c = None \<Longrightarrow>
       cache_all f schedule c = (rmap (\<lambda>_. ()) r, c')"
    by auto
qed

lemma cached_find_token_by_address_spec:
  assumes c: "cache_keeps tok keeps view c" and find: "cached_find_token_by_address f schedule addr c = (r, c')"
  shows "cache_keeps tok keeps view c'" "r \<noteq> Panic"
    "r = Ok found \<Longrightarrow> found = find_cached_token_by_address addr c'"
proof -
  obtain r1 c1 where all: "cache_all f schedule c = (r1, c1)"
    by (cases "cache_all f schedule c")
  note spec = cache_all_spec [OF c all]
  have "cache_keeps tok keeps view c' \<and> r \<noteq> Panic \<and> (r = Ok found \<longrightarrow> found = find_cached_token_by_address addr c')"
    using c find all spec
    by (cases r1; cases "find_cached_token_by_address addr c")
      (auto simp: cached_find_token_by_address_def ebind_def eget_def elift_def)
  then show "cache_keeps tok keeps view c'" "r \<noteq> Panic"
    "r = Ok found \<Longrightarrow> found = find_cached_token_by_address addr c'"
    by auto
qed

end

section \<open>The cache is a source\<close>

context token_source
begin

lemma cached_source: "token_source (cached_fetching f schedule) view (cache_keeps tok keeps view)"
proof
  show "fetch_ok (cache_keeps tok keeps view) (get_token_info (cached_fetching f schedule) i)
      (\<lambda>info. view i = Some info) (\<lambda>e. is_revert e \<longrightarrow> view i = None)" for i
  proof (rule fetch_okI)
    fix c r c' assume c: "cache_keeps tok keeps view c" and get: "get_token_info (cached_fetching f schedule) i c = (r, c')"
    then have "cached_get_token_info f i c = (r, c')"
      by (simp add: cached_fetching_def)
    note spec = cached_get_token_info_spec [OF c this]
    show "cache_keeps tok keeps view c' \<and>
        (case r of Ok info \<Rightarrow> view i = Some info | Err e \<Rightarrow> is_revert e \<longrightarrow> view i = None | Panic \<Rightarrow> False)"
      using spec cached_view [OF spec(1)] by (cases r) simp_all
  qed
  show "fetch_ok (cache_keeps tok keeps view) (get_token_infos (cached_fetching f schedule) ids)
      (infos_of view ids) (\<lambda>_. True)" for ids
    by (intro fetch_okI) (auto simp: cached_fetching_def elim: cached_get_token_infos_spec)
  show "fetch_ok (cache_keeps tok keeps view) (all_ids (cached_fetching f schedule)) (\<lambda>_. True) (\<lambda>_. True)"
    using all_ids_ok
    by (fastforce simp: fetch_ok_def cached_fetching_def cached_all_ids_def ezoom_def cache_keeps_def split: prod.splits result.splits)
  show "fetch_ok (cache_keeps tok keeps view) (find_by_symbol (cached_fetching f schedule) name)
      (\<lambda>found. \<forall>i info. found = Some (i, info) \<longrightarrow> view i = Some info \<and> matches_symbol info name) (\<lambda>_. True)" for name
  proof (rule fetch_okI)
    fix c r c' assume c: "cache_keeps tok keeps view c" and "find_by_symbol (cached_fetching f schedule) name c = (r, c')"
    then have find: "cached_find_token_by_symbol f schedule name c = (r, c')"
      by (simp add: cached_fetching_def)
    note spec = cached_find_token_by_symbol_spec(1,3,4) [OF c find]
    have wf: "hm_wf (info_cache c')"
      using spec(1) by (simp add: cache_keeps_def)
    have "view i = Some info \<and> matches_symbol info name" if "r = Ok (Some (i, info))" for i info
      using find_cached_token_by_symbol_Some(1,2) [OF wf, of name i info] spec(3) [OF that] cached_view [OF spec(1)] by auto
    with spec(1,2) show "cache_keeps tok keeps view c' \<and> (case r of
        Ok found \<Rightarrow> \<forall>i info. found = Some (i, info) \<longrightarrow> view i = Some info \<and> matches_symbol info name
        | Err _ \<Rightarrow> True | Panic \<Rightarrow> False)"
      by (cases r) auto
  qed
  show "fetch_ok (cache_keeps tok keeps view) (find_by_address (cached_fetching f schedule) addr)
      (\<lambda>found. \<forall>i info. found = Some (i, info) \<longrightarrow> view i = Some info \<and> tbi_address info = addr) (\<lambda>_. True)" for addr
  proof (rule fetch_okI)
    fix c r c' assume c: "cache_keeps tok keeps view c" and "find_by_address (cached_fetching f schedule) addr c = (r, c')"
    then have find: "cached_find_token_by_address f schedule addr c = (r, c')"
      by (simp add: cached_fetching_def)
    note spec = cached_find_token_by_address_spec [OF c find]
    have wf: "hm_wf (info_cache c')"
      using spec(1) by (simp add: cache_keeps_def)
    have "view i = Some info \<and> tbi_address info = addr" if "r = Ok (Some (i, info))" for i info
      using find_cached_token_by_address_Some [OF wf, of addr i info] spec(3) [OF that] cached_view [OF spec(1)] by auto
    with spec(1,2) show "cache_keeps tok keeps view c' \<and> (case r of
        Ok found \<Rightarrow> \<forall>i info. found = Some (i, info) \<longrightarrow> view i = Some info \<and> tbi_address info = addr
        | Err _ \<Rightarrow> True | Panic \<Rightarrow> False)"
      by (cases r) auto
  qed
qed

end

text \<open>
  A source that is always reachable: it answers for every token it knows, and lists all of them.
\<close>

locale reliable_token_source = token_source +
  assumes total: "keeps s \<Longrightarrow> tok i = Some info \<Longrightarrow> fst (get_token_info f i s) = Ok info"
    and complete: "keeps s \<Longrightarrow> \<exists>ids s'. all_ids f s = (Ok ids, s') \<and> dom tok \<subseteq> set ids"
begin

lemma cached_get_token_info_total:
  assumes c: "cache_keeps tok keeps view c" and get: "cached_get_token_info f i c = (r, c')" and i: "view i = Some info"
  shows "hm_get (info_cache c') i = Some (CachedInfo info)"
proof (cases "hm_get (info_cache c) i")
  case None
  then have "tok i = Some info" "keeps (cache_inner c)"
    using c i by (auto simp: cache_keeps_def cache_view_def)
  then show ?thesis
    using total [of "cache_inner c" i info] get None
    by (cases "get_token_info f i (cache_inner c)") (auto simp: cached_get_token_info_def ezoom_def)
next
  case (Some e)
  then show ?thesis
    using c i get by (auto simp: cache_keeps_def cache_view_def cached_get_token_info_def split: cache_entry.splits)
qed

lemma fetch_each_total:
  assumes "cache_keeps tok keeps view c" "fetch_each f ids c = (r, c')" "i \<in> set ids" "view i = Some info"
  shows "hm_get (info_cache c') i = Some (CachedInfo info)"
  using assms
proof (induction ids arbitrary: c)
  case (Cons j ids)
  obtain r1 c1 where m: "cached_get_token_info f j c = (r1, c1)"
    by (cases "cached_get_token_info f j c")
  note g = cached_get_token_info_spec [OF Cons.prems(1) m]
  have rest: "fetch_each f ids c1 = (r, c')"
    using Cons.prems(2) m g(5) by (auto split: result.splits)
  show ?case
  proof (cases "i = j")
    case True
    then have "hm_get (info_cache c1) i = Some (CachedInfo info)"
      using cached_get_token_info_total [OF Cons.prems(1) m] Cons.prems(4) by simp
    with fetch_each_spec [OF g(1) rest] show ?thesis
      by (auto simp: map_le_def dom_def)
  next
    case False
    with Cons g(1) rest show ?thesis
      by simp
  qed
qed simp

text \<open>Whatever is not yet cached has been fetched afterwards.\<close>

lemma fetch_uncached_total:
  assumes c: "cache_keeps tok keeps view c" and c1: "c1 = c\<lparr>cache_inner := s1\<rparr>" "keeps s1"
    and each: "fetch_each f ids' c1 = (r, c')" and ids': "set ids' = set (uncached_tokens ids c)"
    and i: "i \<in> set ids" "view i = Some info"
  shows "hm_get (info_cache c') i = Some (CachedInfo info)"
proof -
  have k: "cache_keeps tok keeps view c1"
    using c c1 by (simp add: cache_keeps_def)
  show ?thesis
  proof (cases "hm_get (info_cache c) i")
    case None
    then have "i \<in> set ids'"
      using i(1) by (simp add: ids' uncached_tokens_def)
    with fetch_each_total [OF k each] i(2) show ?thesis
      by blast
  next
    case (Some e)
    then have "hm_get (info_cache c1) i = Some (CachedInfo info)"
      using c i(2) c1 by (auto simp: cache_keeps_def cache_view_def split: cache_entry.splits)
    with fetch_each_spec [OF k each] show ?thesis
      by (auto simp: map_le_def dom_def)
  qed
qed

end

definition lowest_match :: "(u16 \<Rightarrow> token_base_info option) \<Rightarrow> string \<Rightarrow> (u16 \<times> token_base_info) option \<Rightarrow> bool" where
  "lowest_match view name found \<longleftrightarrow>
     (case found of
        None \<Rightarrow> \<forall>i. case view i of Some info \<Rightarrow> \<not> matches_symbol info name | None \<Rightarrow> True
      | Some (k, info) \<Rightarrow> view k = Some info \<and> matches_symbol info name \<and>
          (\<forall>i < k. case view i of Some info' \<Rightarrow> \<not> matches_symbol info' name | None \<Rightarrow> True))"

lemma lowest_matchI:
  assumes wf: "hm_wf (info_cache c)"
    and sound: "\<And>i info. hm_get (info_cache c) i = Some (CachedInfo info) \<Longrightarrow> view i = Some info"
    and known: "\<And>i info. view i = Some info \<Longrightarrow> matches_symbol info name \<Longrightarrow>
      (case find_cached_token_by_symbol name c of Some (k, _) \<Rightarrow> i < k | None \<Rightarrow> True) \<Longrightarrow>
      hm_get (info_cache c) i = Some (CachedInfo info)"
  shows "lowest_match view name (find_cached_token_by_symbol name c)"
proof (cases "find_cached_token_by_symbol name c")
  case None
  then show ?thesis
  proof -
    have "\<not> matches_symbol info name" if "view i = Some info" for i info
      using known [OF that] find_cached_token_by_symbol_None [OF wf None] None by auto
    then show ?thesis
      by (simp add: lowest_match_def None split: option.split)
  qed
next
  case (Some p)
  obtain k info where p: "p = (k, info)"
    by (cases p)
  note found = find_cached_token_by_symbol_Some [OF wf Some [unfolded p]]
  have "\<not> matches_symbol info' name" if "i < k" "view i = Some info'" for i info'
    using known [of i info'] found(3) [of i info'] that Some p by auto
  with found(1,2) sound show ?thesis
    by (auto simp: lowest_match_def Some p split: option.split)
qed

context reliable_token_source
begin

lemma cached_symbol_is_lowest:
  assumes c: "cache_keeps tok keeps view c" and sched: "\<And>n xs. set (schedule n xs) = set xs"
  shows "case cached_find_token_by_symbol f schedule name c of
      (Ok found, c') \<Rightarrow> lowest_match view name found \<and> cache_keeps tok keeps view c' | _ \<Rightarrow> False"
proof -
  obtain r c' where find: "cached_find_token_by_symbol f schedule name c = (r, c')"
    by (cases "cached_find_token_by_symbol f schedule name c")
  note spec = cached_find_token_by_symbol_spec [OF c find]
  have wf: "hm_wf (info_cache c')" "hm_wf (info_cache c)" and inner: "keeps (cache_inner c)"
    using spec(1) c by (simp_all add: cache_keeps_def)
  show ?thesis
  proof (cases "find_cached_token_by_symbol name c")
    case None
    obtain ids s1 where ids: "all_ids f (cache_inner c) = (Ok ids, s1)" "dom tok \<subseteq> set ids"
      using complete [OF inner] by blast
    note all = spec(6) [OF None]
    have s1: "keeps s1"
      using fetch_okD(1) [OF all_ids_ok inner ids(1)] .
    have c1: "cache_keeps tok keeps view (c\<lparr>cache_inner := s1\<rparr>)"
      using c s1 by (simp add: cache_keeps_def)
    have each': "fetch_each f (schedule 10 (uncached_tokens ids c)) (c\<lparr>cache_inner := s1\<rparr>) = (rmap (\<lambda>_. ()) r, c')"
      using all cache_all_eq [OF ids(1)] by simp
    have "rmap (\<lambda>_. ()) r = Ok ()"
      using fetch_each_spec [OF c1 each'] by blast
    note each = each' [unfolded this]
    have "hm_get (info_cache c') i = Some (CachedInfo info)" if "view i = Some info" for i info
    proof (cases "i \<in> set ids")
      case True
      then show ?thesis
        using fetch_uncached_total [OF c refl s1 each sched] that by blast
    next
      case False
      then have "tok i = None"
        using ids(2) by auto
      then have "hm_get (info_cache c) i = Some (CachedInfo info)"
        using c that by (auto simp: cache_keeps_def cache_view_def split: option.splits cache_entry.splits)
      with spec(2) show ?thesis
        by (auto simp: map_le_def dom_def)
    qed
    with lowest_matchI [OF wf(1) cached_view [OF spec(1)]] spec(1,4) \<open>rmap (\<lambda>_. ()) r = Ok ()\<close> show ?thesis
      by (cases r) (auto simp: find)
  next
    case (Some p)
    obtain k info where p: "p = (k, info)"
      by (cases p)
    obtain found where r: "r = Ok found"
      using find Some p spec(3) by (auto simp: cached_find_token_by_symbol_def ebind_def eget_def elift_def cached_get_token_infos_def
          split: prod.splits result.splits dest!: fetch_each_spec [OF c])
    note each = spec(5) [OF r Some [unfolded p]]
    have cached: "hm_get (info_cache c') i = Some (CachedInfo info')" if "i < k" "view i = Some info'" for i info'
    proof (rule fetch_uncached_total [OF c _ inner each])
      show "i \<in> set (map word_of_nat [0..<unat k])"
        using that(1) by (auto simp: word_less_nat_alt intro!: image_eqI [of _ _ "unat i"])
    qed (simp_all add: that)
    have k': "hm_get (info_cache c') k = Some (CachedInfo info)" "matches_symbol info name"
      using find_cached_token_by_symbol_Some(1,2) [OF wf(2) Some [unfolded p]] spec(2) by (auto simp: map_le_def dom_def)
    have "i < k" if "find_cached_token_by_symbol name c' = Some (k', info')" "i < k'" for i k' info'
      using find_cached_token_by_symbol_Some(3) [OF wf(1) that(1) k'] that(2) by simp
    moreover have "find_cached_token_by_symbol name c' \<noteq> None"
      using find_cached_token_by_symbol_None [OF wf(1) _ k'(1)] k'(2) by blast
    ultimately have "lowest_match view name (find_cached_token_by_symbol name c')"
      using cached by (intro lowest_matchI [OF wf(1) cached_view [OF spec(1)]]) (auto split: option.splits)
    with spec(1,4) r show ?thesis
      by (simp add: find)
  qed
qed

end

lemma data_reliable: "reliable_token_source (data_fetching td) (data_tokens td) (\<lambda>_. True)"
  by (intro reliable_token_source.intro data_source reliable_token_source_axioms.intro)
    (auto simp: data_fetching_def default_fetching_def Let_def data_get_token_info_def data_all_ids_def data_tokens_def
      elift_def simp flip: dom_map_of_conv_image_fst)

interpretation data: reliable_token_source "data_fetching td" "data_tokens td" "\<lambda>_. True"
  by (rule data_reliable)

section \<open>Properties\<close>

definition sample_tokens :: token_data where
  "sample_tokens =
     [(3, \<lparr>tio_address = 30, tio_alias = ''ETH'', tio_decimals = 18, tio_external_price = None\<rparr>),
      (1, \<lparr>tio_address = 10, tio_alias = ''WETH'', tio_decimals = 18, tio_external_price = Some 5\<rparr>)]"

lemma cache_keeps_new: "keeps s \<Longrightarrow> cache_keeps tok keeps tok (info_cache_new s)"
  by (simp add: cache_keeps_def info_cache_new_def cache_view_def fun_eq_iff)

text \<open>
  C19: the cache in front of any source of token information is itself such a source, of the tokens
  \<open>view\<close> that the cached entries and the inner source present together: every operation answers from the
  view, reverts only for tokens that the view does not have, never panics, and leaves the view as it was.
\<close>

theorem cached_fetching_refines:
  assumes "token_source f tok keeps"
  shows "token_source (cached_fetching f schedule) view (cache_keeps tok keeps view)"
  using assms by (rule token_source.cached_source)

theorem cached_fetching_refines_witness:
  "token_source (cached_fetching (data_fetching sample_tokens) (\<lambda>_ xs. xs)) (data_tokens sample_tokens)
     (cache_keeps (data_tokens sample_tokens) (\<lambda>_. True) (data_tokens sample_tokens)) \<and>
   cache_keeps (data_tokens sample_tokens) (\<lambda>_. True) (data_tokens sample_tokens) (info_cache_new ())"
  using cached_fetching_refines [OF data_source] by (simp add: cache_keeps_new)

text \<open>
  C25: when the inner source is reachable, looking a token up by its symbol through the cache finds the
  token with the lowest identifier whose alias or symbol matches, whatever was cached before and in
  whatever order the concurrent requests are answered; it finds none only when none matches.
\<close>

theorem cached_symbol_lowest:
  assumes "reliable_token_source f tok keeps" "cache_keeps tok keeps view c" "\<And>n xs. set (schedule n xs) = set xs"
  shows "case cached_find_token_by_symbol f schedule name c of
      (Ok found, c') \<Rightarrow> lowest_match view name found \<and> cache_keeps tok keeps view c' | _ \<Rightarrow> False"
  using assms by (rule reliable_token_source.cached_symbol_is_lowest)

theorem cached_symbol_lowest_witness:
  "case cached_find_token_by_symbol (data_fetching sample_tokens) (\<lambda>_ xs. rev xs) ''ETH'' (info_cache_new ()) of
      (Ok found, c') \<Rightarrow> lowest_match (data_tokens sample_tokens) ''ETH'' found \<and>
        cache_keeps (data_tokens sample_tokens) (\<lambda>_. True) (data_tokens sample_tokens) c' | _ \<Rightarrow> False"
  by (rule cached_symbol_lowest [OF data_reliable cache_keeps_new]) simp_all

text \<open>
  A token is asked for until there is a definite answer and then never again: after the
  information was returned or the call reverted, asking again gives the same answer (the cached error after
  a revert) without reaching the inner source or changing anything; any other error caches nothing.
\<close>

theorem cached_get_token_info_once:
  "case cached_get_token_info f i c of
     (Ok info, c') \<Rightarrow> cached_get_token_info f i c' = (Ok info, c')
   | (Err e, c') \<Rightarrow>
       (if is_revert e then cached_get_token_info f i c' = (Err (Failure ''cached error''), c')
        else info_cache c' = info_cache c)
   | (Panic, c') \<Rightarrow> info_cache c' = info_cache c"
proof (cases "hm_get (info_cache c) i")
  case None
  obtain r s where "get_token_info f i (cache_inner c) = (r, s)"
    by (cases "get_token_info f i (cache_inner c)")
  then show ?thesis
    by (cases r) (simp_all add: cached_get_token_info_def None ezoom_def)
next
  case (Some e)
  then show ?thesis
    by (cases e) (simp_all add: cached_get_token_info_def)
qed

text \<open>
  One unit of a token is computed exactly for at most 38 decimals, wraps around above, and panics from 128
  decimals on.
\<close>

theorem base_unit_in_atoms_range:
  "(base_unit_in_atoms info = Panic \<longleftrightarrow> 128 \<le> unat (tbi_decimals info)) \<and>
   ((\<exists>atoms. base_unit_in_atoms info = Ok atoms \<and> unat atoms = 10 ^ unat (tbi_decimals info)) \<longleftrightarrow>
    unat (tbi_decimals info) \<le> 38)"
  by (simp add: base_unit_panics_iff base_unit_exact_iff)

lemma hm_collect_map_values:
  "hm_wf m \<Longrightarrow> hm_get (hm_collect (map (\<lambda>(k, v). (k, g v)) m)) = map_option g \<circ> hm_get m"
proof -
  assume "hm_wf m"
  then have "hm_wf (map (\<lambda>(k, v). (k, g v)) m)"
    by (simp add: comp_def case_prod_beta')
  then show ?thesis
    by (simp add: map_of_hm_collect_distinct map_of_map)
qed

lemma data_into_infos_get:
  "hm_wf td \<Longrightarrow> hm_get (data_into_infos td) =
     map_option (\<lambda>info. \<lparr>tbi_address = 0, tbi_alias = tio_alias info, tbi_decimals = tio_decimals info\<rparr>) \<circ> hm_get td"
  unfolding data_into_infos_def by (rule hm_collect_map_values)

lemma with_cache_get:
  "hm_wf infos \<Longrightarrow> hm_get (info_cache (with_cache s infos)) = map_option CachedInfo \<circ> hm_get infos"
  "hm_wf (info_cache (with_cache s infos))"
  by (simp_all add: with_cache_def hm_collect_map_values hm_wf_collect)

lemma hardcoded_view:
  assumes "hm_wf td" "hm_get td i = Some info"
  shows "cache_view tok (with_cache s (data_into_infos td)) i =
    Some \<lparr>tbi_address = 0, tbi_alias = tio_alias info, tbi_decimals = tio_decimals info\<rparr>"
proof -
  have "hm_wf (data_into_infos td)"
    by (simp add: data_into_infos_def hm_wf_collect)
  then show ?thesis
    using assms by (simp add: cache_view_def with_cache_get data_into_infos_get)
qed

text \<open>
  C26: the hardcoded data enters the cache without its addresses: a lookup by a nonzero address never
  returns one of the hardcoded tokens, not even for the address that was configured for it.
\<close>

theorem hardcoded_address_lost:
  assumes "token_source f tok keeps" "keeps s" "hm_wf td" "addr \<noteq> 0"
    and "cached_find_token_by_address f schedule addr (with_cache s (data_into_infos td)) = (Ok (Some (i, info)), c')"
  shows "hm_get td i = None"
proof (rule ccontr)
  assume "hm_get td i \<noteq> None"
  let ?c = "with_cache s (data_into_infos td)"
  have "hm_wf (data_into_infos td)"
    by (simp add: data_into_infos_def hm_wf_collect)
  then have "cache_keeps tok keeps (cache_view tok ?c) ?c"
    using assms(2) with_cache_get(2) by (simp add: cache_keeps_def with_cache_def)
  note spec = token_source.cached_find_token_by_address_spec [OF assms(1) this assms(5)]
  have "hm_get (info_cache c') i = Some (CachedInfo info) \<and> tbi_address info = addr"
    using spec(1) spec(3) [OF refl] by (intro find_cached_token_by_address_Some) (simp_all add: cache_keeps_def)
  then have "cache_view tok c' i = Some info" "tbi_address info = addr"
    by (simp_all add: cache_view_def)
  moreover have "cache_view tok c' = cache_view tok ?c"
    using spec(1) by (simp add: cache_keeps_def)
  moreover obtain info' where "hm_get td i = Some info'"
    using \<open>hm_get td i \<noteq> None\<close> by blast
  ultimately show False
    using hardcoded_view [OF assms(3), of i info' tok s] assms(4) by auto
qed

theorem hardcoded_address_lost_witness:
  "hm_get (tl sample_tokens) 3 = None \<and>
   fst (cached_find_token_by_address (data_fetching sample_tokens) (\<lambda>_ xs. xs) 10
     (with_cache () (data_into_infos sample_tokens))) = Ok None \<and>
   data_tokens sample_tokens 1 = Some \<lparr>tbi_address = 10, tbi_alias = ''WETH'', tbi_decimals = 18\<rparr>"
proof -
  let ?run = "cached_find_token_by_address (data_fetching sample_tokens) (\<lambda>_ xs. xs) 30
     (with_cache () (data_into_infos (tl sample_tokens)))"
  have "fst ?run = Ok (Some (3, \<lparr>tbi_address = 30, tbi_alias = ''ETH'', tbi_decimals = 18\<rparr>))"
    by code_simp
  then have "hm_get (tl sample_tokens) 3 = None"
    by (intro hardcoded_address_lost [OF data_source, where s = "()" and addr = 30 and c' = "snd ?run"])
      (simp_all add: sample_tokens_def prod_eq_iff)
  moreover have "fst (cached_find_token_by_address (data_fetching sample_tokens) (\<lambda>_ xs. xs) 10
     (with_cache () (data_into_infos sample_tokens))) = Ok None"
    by code_simp
  moreover have "data_tokens sample_tokens 1 = Some \<lparr>tbi_address = 10, tbi_alias = ''WETH'', tbi_decimals = 18\<rparr>"
    by code_simp
  ultimately show ?thesis by blast
qed

end
