(* ===== verification/GraphPaths.thy ===== *)
theory GraphPaths
  imports Prelude
begin

text \<open>
  Paths, cycles and subgraphs of the order graph (\<open>src/pricegraph/src/graph/path.rs\<close> and
  \<open>src/pricegraph/src/graph/subgraph.rs\<close>).  Nodes are the indices of the graph library, so that
  \<open>to_index\<close> and \<open>from_index\<close> are the identity.  Indexing a vector out of range panics.
\<close>

section \<open>Paths and cycles\<close>

type_synonym node = nat
type_synonym path = "node list"
type_synonym negative_cycle = "node list"

text \<open>\<open>Iterator::position\<close>\<close>

fun position :: "('a \<Rightarrow> bool) \<Rightarrow> 'a list \<Rightarrow> nat option" where
  "position P [] = None"
| "position P (x # xs) = (if P x then Some 0 else map_option Suc (position P xs))"

definition with_starting_node :: "node \<Rightarrow> negative_cycle \<Rightarrow> (negative_cycle, negative_cycle) result" where
  "with_starting_node start cycle =
     (case position (\<lambda>i. i = start) cycle of
        None \<Rightarrow> Err cycle
      | Some pos \<Rightarrow> if pos = 0 then Ok cycle else Ok (rotate pos (butlast cycle) @ [start]))"

definition cycle_split_at :: "node \<Rightarrow> negative_cycle \<Rightarrow> (negative_cycle, path \<times> path) result" where
  "cycle_split_at nd cycle =
     (case position (\<lambda>entry. entry = nd) cycle of
        Some index \<Rightarrow> Ok (take index cycle @ [nd], drop index cycle)
      | None \<Rightarrow> Err cycle)"

text \<open>
  The search for a cycle.  The first loop walks along the predecessors and numbers the nodes it
  visits, until it reaches a node for the second time or one without a predecessor.
\<close>

function visit_loop :: "node option list \<Rightarrow> nat list \<Rightarrow> node \<Rightarrow> nat \<Rightarrow> (nat list \<times> node \<times> nat) option res" where
  "visit_loop predecessor visited cursor step =
     (if cursor < length predecessor then
        (case predecessor ! cursor of
           None \<Rightarrow> Ok None
         | Some cursor \<Rightarrow>
             if cursor < length visited then
               (if 0 < visited ! cursor then Ok (Some (visited, cursor, step))
                else visit_loop predecessor (visited[cursor := step + 1]) cursor (step + 1))
             else Panic)
      else Panic)"
  by pat_completeness auto
termination
proof (relation "measure (\<lambda>(predecessor, visited, cursor, step). length (filter (\<lambda>v. v = 0) visited))")
  fix predecessor :: "node option list" and visited :: "nat list" and cursor step c
  assume "c < length visited" "\<not> 0 < visited ! c"
  then have "filter (\<lambda>v. v = 0) visited =
      filter (\<lambda>v. v = 0) (take c visited) @ 0 # filter (\<lambda>v. v = 0) (drop (Suc c) visited)"
    by (subst id_take_nth_drop [of c visited]) auto
  with \<open>c < length visited\<close>
  show "((predecessor, visited[c := step + 1], c, step + 1), (predecessor, visited, cursor, step))
      \<in> measure (\<lambda>(predecessor, visited, cursor, step). length (filter (\<lambda>v. v = 0) visited))"
    by (simp add: upd_conv_take_nth_drop)
qed auto

declare visit_loop.simps [simp del]

text \<open>The second loop walks backwards from the start until it is back.\<close>

partial_function (option) cycle_loop :: "node option list \<Rightarrow> node \<Rightarrow> node \<Rightarrow> path \<Rightarrow> path option res option" where
  "cycle_loop predecessor start cursor path =
     (if cursor < length predecessor then
        (case predecessor ! cursor of
           None \<Rightarrow> Some (Ok None)
         | Some cursor \<Rightarrow>
             (let path = path @ [cursor] in
              if cursor = start then Some (Ok (Some path)) else cycle_loop predecessor start cursor path))
      else Some Panic)"

declare cycle_loop.simps [code]

definition find_cycle :: "node option list \<Rightarrow> node \<Rightarrow> node option \<Rightarrow> negative_cycle option res option" where
  "find_cycle predecessor search origin =
     (let visited = replicate (length predecessor) (0::nat) in
      if \<not> search < length visited then Some Panic
      else
        (case visit_loop predecessor (visited[search := 1]) search 1 of
           Ok (Some (visited, cursor, step)) \<Rightarrow>
             (case origin of
                None \<Rightarrow> map_option (rmap (map_option rev)) (cycle_loop predecessor cursor cursor [cursor])
              | Some origin \<Rightarrow>
                  if \<not> origin < length visited then Some Panic
                  else
                    (let start = (if visited ! cursor < visited ! origin then origin else cursor)
                     in map_option (rmap (map_option rev)) (cycle_loop predecessor start start [start])))
         | Ok None \<Rightarrow> Some (Ok None)
         | Err e \<Rightarrow> Some (Err e)
         | Panic \<Rightarrow> Some Panic))"

section \<open>Subgraphs\<close>

text \<open>The closure is stateful: it gets and returns a state.  A \<open>BTreeSet\<close> is its sorted list.\<close>

datatype ('n, 't) control_flow = Continue "'n list" | Break 't

function for_each_until ::
    "('s \<Rightarrow> 'n::linorder \<Rightarrow> ('n, 't) control_flow \<times> 's) \<Rightarrow> 's \<Rightarrow> 'n list \<Rightarrow> 't option \<times> 's" where
  "for_each_until f s [] = (None, s)"
| "for_each_until f s (token # remaining_tokens) =
     (case f s token of
        (Continue connected_nodes, s) \<Rightarrow>
          for_each_until f s (filter (\<lambda>t. t \<notin> set connected_nodes) remaining_tokens)
      | (Break result, s) \<Rightarrow> (Some result, s))"
  by pat_completeness auto
termination
  by (relation "measure (\<lambda>(f, s, xs). length xs)") (auto simp: le_imp_less_Suc)

definition subgraphs_new :: "'n::linorder list \<Rightarrow> 'n list" where
  "subgraphs_new nodes = sorted_list_of_set (set nodes)"

section \<open>Rotating and splitting cycles\<close>

definition links :: "'a list \<Rightarrow> ('a \<times> 'a) list" where
  "links p = zip p (tl p)"

definition closed_cycle :: "'a list \<Rightarrow> bool" where
  "closed_cycle c \<longleftrightarrow> 2 \<le> length c \<and> hd c = last c \<and> distinct (tl c)"

lemma position_eq_Some:
  "position P xs = Some i \<longleftrightarrow> i < length xs \<and> P (xs ! i) \<and> (\<forall>j<i. \<not> P (xs ! j))"
proof (induction xs arbitrary: i)
  case (Cons x xs)
  then show ?case
    by (cases i) (auto simp: less_Suc_eq_0_disj)
qed simp

lemma position_eq_None: "position P xs = None \<longleftrightarrow> (\<forall>x\<in>set xs. \<not> P x)"
  by (induction xs) auto

lemma rotate1_zip: "length xs = length ys \<Longrightarrow> rotate1 (zip xs ys) = zip (rotate1 xs) (rotate1 ys)"
  by (cases xs; cases ys) auto

lemma rotate_zip: "length xs = length ys \<Longrightarrow> rotate n (zip xs ys) = zip (rotate n xs) (rotate n ys)"
  by (induction n) (simp_all add: rotate1_zip)

lemma links_closed: "b \<noteq> [] \<Longrightarrow> links (b @ [hd b]) = zip b (rotate1 b)"
  using zip_append [of b "rotate1 b" "[hd b]" "[]"] by (cases b) (auto simp: links_def)

lemma closed_cycle_iff: "closed_cycle c \<longleftrightarrow> (\<exists>b. b \<noteq> [] \<and> distinct b \<and> c = b @ [hd b])"
proof
  assume c: "closed_cycle c"
  then have "c = butlast c @ [hd (butlast c)]" "butlast c \<noteq> []"
    by (cases c; cases "tl c"; auto simp: closed_cycle_def)+
  moreover have "distinct (butlast c)"
  proof -
    obtain x xs where "c = x # xs @ [x]"
      using c by (cases c; cases "tl c" rule: rev_cases; auto simp: closed_cycle_def)
    then show ?thesis using c by (auto simp: closed_cycle_def)
  qed
  ultimately show "\<exists>b. b \<noteq> [] \<and> distinct b \<and> c = b @ [hd b]" by blast
next
  assume "\<exists>b. b \<noteq> [] \<and> distinct b \<and> c = b @ [hd b]"
  then obtain x xs where "c = x # xs @ [x]" "distinct (x # xs)"
    by (metis append_Cons list.exhaust_sel)
  then show "closed_cycle c" by (auto simp: closed_cycle_def)
qed

lemma links_rotate: "b \<noteq> [] \<Longrightarrow> set (links (rotate n b @ [hd (rotate n b)])) = set (links (b @ [hd b]))"
  by (simp add: links_closed rotate1_rotate_swap rotate_zip [symmetric])

text \<open>
  Giving a cycle a new starting node fails, with the cycle, exactly when the node is not on it;
  otherwise the result is the same cycle: as long, with the same links, and starting and ending at
  the node.  Splitting a cycle at a node on it gives two paths that meet there and join to the
  cycle.
\<close>

lemma cycle_start_and_split:
  assumes "closed_cycle c"
  shows "(if start \<in> set c
     then \<exists>c'. with_starting_node start c = Ok c' \<and> closed_cycle c' \<and> hd c' = start \<and> length c' = length c \<and>
        set (links c') = set (links c)
     else with_starting_node start c = Err c) \<and>
   (if nd \<in> set c
     then \<exists>p q. cycle_split_at nd c = Ok (p, q) \<and> p \<noteq> [] \<and> p @ tl q = c \<and> last p = nd \<and> hd q = nd \<and> hd p = hd c \<and> last q = last c
     else cycle_split_at nd c = Err c)"
proof
  obtain b where b: "b \<noteq> []" "distinct b" "c = b @ [hd b]"
    using assms by (auto simp: closed_cycle_iff)
  show "if start \<in> set c
     then \<exists>c'. with_starting_node start c = Ok c' \<and> closed_cycle c' \<and> hd c' = start \<and> length c' = length c \<and>
        set (links c') = set (links c)
     else with_starting_node start c = Err c"
  proof (cases "position (\<lambda>i. i = start) c")
    case None
    then show ?thesis
      using position_eq_None [of "\<lambda>i. i = start" c] by (auto simp: with_starting_node_def)
  next
    case (Some pos)
    then have pos: "pos < length c" "c ! pos = start" "\<forall>j<pos. c ! j \<noteq> start"
      by (auto simp: position_eq_Some)
    have "pos < length b"
    proof (rule ccontr)
      assume "\<not> pos < length b"
      then have "pos = length b" using pos(1) b(3) by simp
      then show False using pos(2,3) b by (auto simp: nth_append hd_conv_nth)
    qed
    then have "b ! pos = start" "start \<in> set c"
      using pos b(3) by (auto simp: nth_append)
    moreover have "hd (rotate pos b) = b ! pos"
      using \<open>pos < length b\<close> by (simp add: hd_rotate_conv_nth b(1))
    ultimately show ?thesis
      using Some b links_rotate [OF b(1), of pos] assms
      by (auto simp: with_starting_node_def closed_cycle_iff intro!: exI [of _ "rotate pos b"])
  qed
  show "if nd \<in> set c
     then \<exists>p q. cycle_split_at nd c = Ok (p, q) \<and> p \<noteq> [] \<and> p @ tl q = c \<and> last p = nd \<and> hd q = nd \<and> hd p = hd c \<and> last q = last c
     else cycle_split_at nd c = Err c"
  proof (cases "position (\<lambda>i. i = nd) c")
    case None
    then show ?thesis
      using position_eq_None [of "\<lambda>i. i = nd" c] by (auto simp: cycle_split_at_def)
  next
    case (Some i)
    then have i: "i < length c" "c ! i = nd"
      by (auto simp: position_eq_Some)
    then have "drop i c = nd # drop (Suc i) c" "take i c @ [nd] @ drop (Suc i) c = c"
      using Cons_nth_drop_Suc [of i c] append_take_drop_id [of i c] by auto
    moreover from this have "hd (take i c @ [nd]) = hd c"
      by (metis append_Cons append_is_Nil_conv append_assoc hd_append2 list.distinct(1))
    ultimately show ?thesis
      using Some i last_drop [OF i(1)] by (auto simp: cycle_split_at_def)
  qed
qed

lemma cycle_start_and_split_witness:
  "\<exists>c'. with_starting_node 5 [3, 4, 5, 3] = Ok c' \<and> closed_cycle c' \<and> hd c' = 5"
  using cycle_start_and_split [of "[3, 4, 5, 3]" 5 4] by (auto simp: closed_cycle_def)

section \<open>Finding cycles\<close>

definition preds_wf :: "node option list \<Rightarrow> bool" where
  "preds_wf pred \<longleftrightarrow> (\<forall>p\<in>set pred. case p of None \<Rightarrow> True | Some i \<Rightarrow> i < length pred)"

text \<open>A walk along predecessors through distinct nodes.\<close>

definition back_walk :: "node option list \<Rightarrow> node list \<Rightarrow> bool" where
  "back_walk pred xs \<longleftrightarrow> xs \<noteq> [] \<and> distinct xs \<and> set xs \<subseteq> {..<length pred} \<and>
     successively (\<lambda>a b. pred ! a = Some b) xs"

definition numbered :: "node list \<Rightarrow> nat list \<Rightarrow> bool" where
  "numbered xs visited \<longleftrightarrow> (\<forall>i<length xs. visited ! (xs ! i) = i + 1) \<and>
     (\<forall>x<length visited. x \<notin> set xs \<longrightarrow> visited ! x = 0)"

lemma preds_wf_Some: "preds_wf pred \<Longrightarrow> i < length pred \<Longrightarrow> pred ! i = Some j \<Longrightarrow> j < length pred"
  unfolding preds_wf_def by (metis nth_mem option.simps(5))

lemma back_walk_last: "back_walk pred xs \<Longrightarrow> last xs < length pred"
  by (metis back_walk_def last_in_set lessThan_iff subsetD)

lemma back_walk_snoc:
  "back_walk pred xs \<Longrightarrow> preds_wf pred \<Longrightarrow> pred ! last xs = Some c \<Longrightarrow> c \<notin> set xs \<Longrightarrow> back_walk pred (xs @ [c])"
  using preds_wf_Some [of pred "last xs" c] back_walk_last [of pred xs]
  by (auto simp: back_walk_def successively_append_iff)

lemma numbered_snoc:
  assumes "numbered xs visited" "distinct xs" "set xs \<subseteq> {..<length visited}" "c \<notin> set xs" "c < length visited"
  shows "numbered (xs @ [c]) (visited[c := length xs + 1])"
proof -
  have "xs ! i \<noteq> c" if "i < length xs" for i
    using that assms(4) nth_mem by blast
  then show ?thesis
    using assms by (auto simp: numbered_def nth_append nth_list_update less_Suc_eq)
qed

lemma numbered_suffix:
  assumes "numbered (us @ zs) visited" "i < length visited"
  shows "i \<in> set zs \<or> i \<in> set us \<and> visited ! i \<le> length us \<or> visited ! i = 0"
    and "i \<in> set zs \<Longrightarrow> length us < visited ! i"
proof -
  have "visited ! i \<le> length us" if us: "i \<in> set us"
  proof -
    obtain k where "k < length us" "us ! k = i" using us by (auto simp: in_set_conv_nth)
    then show ?thesis using assms(1) by (auto simp: numbered_def nth_append dest: spec [of _ k])
  qed
  then show "i \<in> set zs \<or> i \<in> set us \<and> visited ! i \<le> length us \<or> visited ! i = 0"
    using assms by (auto simp: numbered_def)
  assume "i \<in> set zs"
  then obtain k where "k < length zs" "zs ! k = i" by (auto simp: in_set_conv_nth)
  then show "length us < visited ! i"
    using assms(1) by (auto simp: numbered_def nth_append dest: spec [of _ "length us + k"])
qed

lemma numbered_inj:
  "numbered xs visited \<Longrightarrow> i \<in> set xs \<Longrightarrow> j \<in> set xs \<Longrightarrow> i \<noteq> j \<Longrightarrow> visited ! i \<noteq> visited ! j"
  by (auto simp: numbered_def in_set_conv_nth)

lemma visit_loop_eq:
  assumes "back_walk pred xs" "numbered xs visited" "length visited = length pred" "preds_wf pred"
  shows "\<exists>ys. back_walk pred (xs @ ys) \<and>
    (case pred ! last (xs @ ys) of
       None \<Rightarrow> visit_loop pred visited (last xs) (length xs) = Ok None
     | Some c \<Rightarrow> c \<in> set (xs @ ys) \<and> (\<exists>visited'. numbered (xs @ ys) visited' \<and> length visited' = length pred \<and>
         visit_loop pred visited (last xs) (length xs) = Ok (Some (visited', c, length (xs @ ys)))))"
  using assms
proof (induction "length pred - length xs" arbitrary: xs visited rule: less_induct)
  case less
  have last: "last xs < length pred"
    using less.prems(1) by (rule back_walk_last)
  show ?case
  proof (cases "pred ! last xs")
    case None
    then have "visit_loop pred visited (last xs) (length xs) = Ok None"
      using last by (subst visit_loop.simps) simp
    then show ?thesis
      using less.prems None by (intro exI [of _ "[]"]) simp
  next
    case (Some c)
    have c: "c < length pred"
      using preds_wf_Some [OF less.prems(4) last Some] .
    show ?thesis
    proof (cases "c \<in> set xs")
      case True
      then have "0 < visited ! c"
        using less.prems(2) by (auto simp: numbered_def in_set_conv_nth)
      then show ?thesis
        using less.prems last Some True c by (intro exI [of _ "[]"], subst visit_loop.simps) auto
    next
      case False
      let ?xs = "xs @ [c]" and ?v = "visited[c := length xs + 1]"
      have walk: "back_walk pred ?xs"
        using back_walk_snoc [OF less.prems(1,4) Some False] .
      have v: "numbered ?xs ?v"
        using less.prems False c by (intro numbered_snoc) (auto simp: back_walk_def)
      have "length ?xs \<le> length pred"
        using walk card_mono [of "{..<length pred}" "set ?xs"] distinct_card [of ?xs] by (simp add: back_walk_def)
      then have "length pred - length ?xs < length pred - length xs" by simp
      from less.hyps [OF this walk v _ less.prems(4)] obtain ys where ys: "back_walk pred (?xs @ ys)"
        "case pred ! last (?xs @ ys) of
           None \<Rightarrow> visit_loop pred ?v (last ?xs) (length ?xs) = Ok None
         | Some c \<Rightarrow> c \<in> set (?xs @ ys) \<and> (\<exists>visited'. numbered (?xs @ ys) visited' \<and> length visited' = length pred \<and>
             visit_loop pred ?v (last ?xs) (length ?xs) = Ok (Some (visited', c, length (?xs @ ys))))"
        using less.prems(3) by auto
      have "visited ! c = 0"
        using less.prems(2,3) False c by (simp add: numbered_def)
      then have eq: "visit_loop pred visited (last xs) (length xs) = visit_loop pred ?v (last ?xs) (length ?xs)"
        using last Some c less.prems(3) by (subst visit_loop.simps) simp
      have "xs @ c # ys = ?xs @ ys" by simp
      with ys show ?thesis
        unfolding eq by (intro exI [of _ "c # ys"]) (simp only: simp_thms)
    qed
  qed
qed

lemma visit_loop_start:
  assumes "preds_wf pred" "search < length pred"
  shows "\<exists>zs. back_walk pred zs \<and> hd zs = search \<and>
    (case pred ! last zs of
       None \<Rightarrow> visit_loop pred ((replicate (length pred) 0)[search := 1]) search 1 = Ok None
     | Some c \<Rightarrow> c \<in> set zs \<and> (\<exists>visited'. numbered zs visited' \<and> length visited' = length pred \<and>
         visit_loop pred ((replicate (length pred) 0)[search := 1]) search 1 = Ok (Some (visited', c, length zs))))"
proof -
  let ?v = "(replicate (length pred) 0)[search := 1]"
  have "back_walk pred [search]" "numbered [search] ?v" "length ?v = length pred"
    using assms(2) by (auto simp: back_walk_def numbered_def nth_list_update)
  from visit_loop_eq [OF this assms(1)] obtain ys where "back_walk pred ([search] @ ys)"
    "case pred ! last ([search] @ ys) of
       None \<Rightarrow> visit_loop pred ?v (last [search]) (length [search]) = Ok None
     | Some c \<Rightarrow> c \<in> set ([search] @ ys) \<and> (\<exists>visited'. numbered ([search] @ ys) visited' \<and> length visited' = length pred \<and>
         visit_loop pred ?v (last [search]) (length [search]) = Ok (Some (visited', c, length ([search] @ ys))))"
    by blast
  moreover have "last [search] = search" "length [search] = 1" "hd ([search] @ ys) = search"
    by simp_all
  ultimately show ?thesis
    by (intro exI [of _ "[search] @ ys"]) (simp only: simp_thms)
qed

lemma cycle_loop_eq:
  "successively (\<lambda>a b. pred ! a = Some b) (cursor # xs @ [start]) \<Longrightarrow> start \<notin> set xs \<Longrightarrow>
   set (cursor # xs) \<subseteq> {..<length pred} \<Longrightarrow>
   cycle_loop pred start cursor path = Some (Ok (Some (path @ xs @ [start])))"
proof (induction xs arbitrary: cursor path)
  case Nil
  then show ?case by (subst cycle_loop.simps) simp
next
  case (Cons x xs)
  then show ?case by (subst cycle_loop.simps) (auto simp: Let_def)
qed

text \<open>The end of the first loop: the walk runs into itself.\<close>

lemma cycle_found:
  assumes "back_walk pred (us @ c # vs)" "pred ! last (us @ c # vs) = Some c" "start \<in> set (c # vs)"
  shows "\<exists>p. cycle_loop pred start start [start] = Some (Ok (Some (rev p))) \<and> closed_cycle p \<and>
    successively (\<lambda>a b. pred ! b = Some a) p \<and> set p = set (c # vs) \<and> hd p = start"
proof -
  obtain as bs where cy: "c # vs = as @ start # bs"
    using assms(3) by (meson split_list)
  have dist: "distinct (as @ start # bs)" and rng: "set (as @ start # bs) \<subseteq> {..<length pred}"
    and succ: "successively (\<lambda>a b. pred ! a = Some b) (as @ start # bs)"
    using assms(1) unfolding back_walk_def cy by (auto simp: successively_append_iff)
  have "last (us @ c # vs) = last (start # bs)"
    unfolding cy by simp
  then have "pred ! last (start # bs) = Some (hd (as @ [start]))"
    using assms(2) cy by (cases as) auto
  then have ring: "successively (\<lambda>a b. pred ! a = Some b) (start # (bs @ as) @ [start])"
    using succ by (cases "as = []") (auto simp: successively_append_iff successively_Cons split: if_splits)
  have loop: "cycle_loop pred start start [start] = Some (Ok (Some ([start] @ (bs @ as) @ [start])))"
    using ring dist rng by (intro cycle_loop_eq) auto
  let ?p = "rev (start # (bs @ as) @ [start])"
  have "closed_cycle ?p"
    using dist by (auto simp: closed_cycle_def)
  moreover have "successively (\<lambda>a b. pred ! b = Some a) ?p"
    using ring by (subst successively_rev) simp
  moreover have "set ?p = set (c # vs)"
    unfolding cy by auto
  ultimately show ?thesis
    using loop assms(3) by (intro exI [of _ ?p]) (simp add: insert_absorb)
qed

lemma find_cycle_spec:
  assumes "preds_wf pred" "search < length pred" "case origin of Some i \<Rightarrow> i < length pred | None \<Rightarrow> True"
  shows "\<exists>r. find_cycle pred search origin = Some (Ok r) \<and>
    (\<exists>xs. back_walk pred xs \<and> hd xs = search \<and>
      (case r of
         None \<Rightarrow> pred ! last xs = None
       | Some cyc \<Rightarrow> closed_cycle cyc \<and> successively (\<lambda>a b. pred ! b = Some a) cyc \<and> set cyc \<subseteq> set xs \<and>
           (\<forall>i \<in> set cyc. origin = Some i \<longrightarrow> hd cyc = i)))"
proof -
  let ?v = "(replicate (length pred) 0)[search := 1]"
  obtain zs where walk: "back_walk pred zs" "hd zs = search"
    and zs: "case pred ! last zs of
       None \<Rightarrow> visit_loop pred ?v search 1 = Ok None
     | Some c \<Rightarrow> c \<in> set zs \<and> (\<exists>visited'. numbered zs visited' \<and> length visited' = length pred \<and>
         visit_loop pred ?v search 1 = Ok (Some (visited', c, length zs)))"
    using visit_loop_start [OF assms(1,2)] by blast
  show ?thesis
  proof (cases "pred ! last zs")
    case None
    then show ?thesis
      using zs walk assms(2) by (intro exI [of _ None]) (auto simp: find_cycle_def Let_def)
  next
    case (Some c)
    then obtain visited' us vs where v: "numbered zs visited'" "length visited' = length pred"
        "visit_loop pred ?v search 1 = Ok (Some (visited', c, length zs))"
      and split: "zs = us @ c # vs"
      using zs split_list [of c zs] by auto
    define start where "start = (case origin of Some i \<Rightarrow> if visited' ! c < visited' ! i then i else c | None \<Rightarrow> c)"
    have vc: "visited' ! c = length us + 1"
      using v(1) unfolding split numbered_def by (auto dest: spec [of _ "length us"])
    have later: "i \<in> set (c # vs) \<longleftrightarrow> visited' ! c \<le> visited' ! i" if "i < length pred" for i
      using numbered_suffix [OF v(1) [unfolded split], of i] that v(2) vc by fastforce
    have "start \<in> set (c # vs)"
      using assms(3) later by (auto simp: start_def split: option.splits)
    then obtain p where p: "cycle_loop pred start start [start] = Some (Ok (Some (rev p)))" "closed_cycle p"
        "successively (\<lambda>a b. pred ! b = Some a) p" "set p = set (c # vs)" "hd p = start"
      using cycle_found [of pred us c vs start] walk Some unfolding split by auto
    have "find_cycle pred search origin = Some (Ok (Some p))"
      using v p(1) assms(2,3) by (auto simp: find_cycle_def Let_def start_def split: option.splits)
    moreover have "hd p = i" if "i \<in> set p" "origin = Some i" for i
    proof -
      have "i < length pred" using that assms(3) by simp
      then have "visited' ! c \<le> visited' ! i" using later that p(4) by blast
      moreover have "visited' ! c \<noteq> visited' ! i" if "i \<noteq> c"
        using numbered_inj [OF v(1), of i c] that split \<open>i \<in> set p\<close> p(4) by auto
      ultimately show ?thesis
        using that p(5) by (auto simp: start_def)
    qed
    ultimately show ?thesis
      using p walk split by (intro exI [of _ "Some p"]) (auto intro!: exI [of _ zs])
  qed
qed

text \<open>
  On a vector of predecessors whose entries are nodes, the search for a cycle returns and does
  not panic.  Without a result the predecessors of the node lead to one that has none.  Otherwise
  the result is a cycle of the predecessor relation that runs through distinct nodes, starts and
  ends at the same node, and is reached from the node that the search starts from; and it starts
  at \<open>origin\<close> when that is on the cycle.
\<close>

theorem find_cycle_correct:
  assumes "preds_wf pred" "search < length pred" "case origin of Some i \<Rightarrow> i < length pred | None \<Rightarrow> True"
  shows "\<exists>r. find_cycle pred search origin = Some (Ok r) \<and>
    (\<exists>xs. back_walk pred xs \<and> hd xs = search \<and>
      (case r of
         None \<Rightarrow> pred ! last xs = None
       | Some cyc \<Rightarrow> closed_cycle cyc \<and> successively (\<lambda>a b. pred ! b = Some a) cyc \<and> set cyc \<subseteq> set xs \<and>
           (\<forall>i \<in> set cyc. origin = Some i \<longrightarrow> hd cyc = i)))"
  using assms by (rule find_cycle_spec)

lemma find_cycle_correct_witness:
  "\<exists>r. find_cycle [Some 2, Some 0, Some 1, Some 0] 3 (Some 1) = Some (Ok r)"
  using find_cycle_correct [of "[Some 2, Some 0, Some 1, Some 0]" 3 "Some 1"] by (auto simp: preds_wf_def)

section \<open>Visiting subgraphs\<close>

text \<open>The nodes for which the closure was called, when it always continues.\<close>

fun visits :: "('n \<Rightarrow> 'n list) \<Rightarrow> nat \<Rightarrow> 'n::linorder list \<Rightarrow> 'n list" where
  "visits component 0 xs = []"
| "visits component (Suc k) [] = []"
| "visits component (Suc k) (x # xs) = x # visits component k (filter (\<lambda>t. t \<notin> set (component x)) xs)"

lemma for_each_until_visits:
  "length xs \<le> k \<Longrightarrow>
   for_each_until (\<lambda>s n. (Continue (component n), s @ [n])) acc xs = (None, acc @ visits component k xs)"
proof (induction component k xs arbitrary: acc rule: visits.induct)
  case (3 component k x xs)
  moreover from this have "length (filter (\<lambda>t. t \<notin> set (component x)) xs) \<le> k"
    by (intro order_trans [OF length_filter_le]) simp
  ultimately show ?case by simp
qed auto

lemma visits_cover:
  "length xs \<le> k \<Longrightarrow> x \<in> set xs \<Longrightarrow>
   x \<in> set (visits component k xs) \<or> (\<exists>y\<in>set (visits component k xs). x \<in> set (component y))"
proof (induction component k xs rule: visits.induct)
  case (3 component k y xs)
  moreover from this have "length (filter (\<lambda>t. t \<notin> set (component y)) xs) \<le> k"
    by (intro order_trans [OF length_filter_le]) simp
  ultimately show ?case by auto
qed auto

lemma visits_subset: "set (visits component k xs) \<subseteq> set xs"
  by (induction component k xs rule: visits.induct) auto

lemma visits_apart:
  "sorted_wrt (<) xs \<Longrightarrow> sorted_wrt (\<lambda>y x. y < x \<and> x \<notin> set (component y)) (visits component k xs)"
proof (induction component k xs rule: visits.induct)
  case (3 component k y xs)
  then show ?case
    using visits_subset [of component k "filter (\<lambda>t. t \<notin> set (component y)) xs"]
    by (auto simp: sorted_wrt_filter)
qed auto

text \<open>
  Going through the subgraphs ends.  When the closure always continues, it is called for nodes
  in increasing order, never for a node that an earlier call reported as connected, and every node
  is called for or was reported.
\<close>

lemma subgraphs_visit_all:
  "\<exists>visited. for_each_until (\<lambda>s n. (Continue (component n), s @ [n])) [] (subgraphs_new nodes) = (None, visited) \<and>
     sorted_wrt (\<lambda>y x. y < x \<and> x \<notin> set (component y)) visited \<and> set visited \<subseteq> set nodes \<and>
     set nodes \<subseteq> set visited \<union> (\<Union>y \<in> set visited. set (component y))"
proof -
  let ?xs = "subgraphs_new nodes"
  have "sorted_wrt (<) ?xs" "set ?xs = set nodes"
    by (simp_all add: subgraphs_new_def strict_sorted_iff)
  then show ?thesis
    using for_each_until_visits [of ?xs "length ?xs" component "[]"] visits_apart [of ?xs component "length ?xs"]
      visits_cover [of ?xs "length ?xs" _ component] visits_subset [of component "length ?xs" ?xs]
    by (intro exI [of _ "visits component (length ?xs) ?xs"]) auto
qed

end
