(* ===== verification/ShortestPaths.thy ===== *)
theory ShortestPaths
  imports GraphPaths
begin

text \<open>
  Shortest paths in the order graph (\<open>src/pricegraph/src/graph/shortest_paths.rs\<close> with
  \<open>shortest_paths/bounded.rs\<close> and \<open>shortest_paths/unbounded.rs\<close>): the Bellman-Ford search, with or
  without a bound on the number of hops.  The search is generic in the type of weights, of which
  it uses a zero, an infinite value, addition and comparison (\<open>FloatMeasure\<close> of the graph library).
  A graph has the nodes \<open>0..<node_count\<close> and, for every node, its outgoing edges in the order in
  which the graph library lists them; edges end at nodes, which \<open>graph_wf\<close> states.
\<close>

section \<open>Graphs and stores\<close>

record 'w measure =
  m_zero :: 'w
  m_infinite :: 'w
  m_add :: "'w \<Rightarrow> 'w \<Rightarrow> 'w"
  m_less :: "'w \<Rightarrow> 'w \<Rightarrow> bool"

record 'w graph =
  node_count :: nat
  out_edges :: "node \<Rightarrow> (node \<times> 'w) list"

record 'w unbounded =
  predecessors :: "node option list"
  distances :: "'w list"

record 'w bounded =
  predecessors_at_step :: "node option list list"
  current_distances :: "'w list"
  pending_distances :: "'w list"

text \<open>The trait object: one of the two stores.\<close>

datatype 'w store = UnboundedStore "'w unbounded" | BoundedStore "'w bounded"

definition bounded_new :: "node option list \<Rightarrow> 'w list \<Rightarrow> 'w bounded" where
  "bounded_new preds dists =
     \<lparr>predecessors_at_step = [preds], current_distances = dists, pending_distances = dists\<rparr>"

fun store_distance :: "'w store \<Rightarrow> node \<Rightarrow> 'w" where
  "store_distance (UnboundedStore u) i = distances u ! i"
| "store_distance (BoundedStore b) i = current_distances b ! i"

fun update_distance :: "node \<Rightarrow> 'w \<Rightarrow> 'w store \<Rightarrow> 'w store" where
  "update_distance i d (UnboundedStore u) = UnboundedStore (u\<lparr>distances := (distances u)[i := d]\<rparr>)"
| "update_distance i d (BoundedStore b) = BoundedStore (b\<lparr>pending_distances := (pending_distances b)[i := d]\<rparr>)"

fun update_predecessor :: "node \<Rightarrow> node option \<Rightarrow> 'w store \<Rightarrow> 'w store" where
  "update_predecessor i p (UnboundedStore u) = UnboundedStore (u\<lparr>predecessors := (predecessors u)[i := p]\<rparr>)"
| "update_predecessor i p (BoundedStore b) =
     BoundedStore (b\<lparr>predecessors_at_step :=
       butlast (predecessors_at_step b) @ [(last (predecessors_at_step b))[i := p]]\<rparr>)"

fun prepare_next_relaxation_step :: "'w store \<Rightarrow> 'w store" where
  "prepare_next_relaxation_step (UnboundedStore u) = UnboundedStore u"
| "prepare_next_relaxation_step (BoundedStore b) =
     BoundedStore (b\<lparr>predecessors_at_step := predecessors_at_step b @ [replicate (length (hd (predecessors_at_step b))) None],
                    current_distances := pending_distances b\<rparr>)"

section \<open>Paths and cycles of a store\<close>

text \<open>The walk back from a node; its length is checked so that it ends.\<close>

function unbounded_walk :: "node option list \<Rightarrow> node \<Rightarrow> node \<Rightarrow> path \<Rightarrow> path option res" where
  "unbounded_walk preds source current path =
     (if current = source then Ok (Some (rev (path @ [source])))
      else if \<not> length path \<le> length preds then Panic
      else if current < length preds then
        (case preds ! current of
           None \<Rightarrow> Ok None
         | Some p \<Rightarrow> unbounded_walk preds source p (path @ [current]))
      else Panic)"
  by pat_completeness auto
termination
  by (relation "measure (\<lambda>(preds, source, current, path). Suc (length preds) - length path)") auto

declare unbounded_walk.simps [simp del]

text \<open>The steps of the bounded store are gone through from the last to the first.\<close>

fun bounded_walk :: "node option list list \<Rightarrow> node \<Rightarrow> node \<Rightarrow> path \<Rightarrow> path option" where
  "bounded_walk [] target current path = None"
| "bounded_walk (preds # steps) target current path =
     (case preds ! current of
        Some p \<Rightarrow>
          (if p = target then Some (rev (path @ [current, target]))
           else bounded_walk steps target p (path @ [current]))
      | None \<Rightarrow> bounded_walk steps target current path)"

fun path_to :: "'w store \<Rightarrow> node \<Rightarrow> node \<Rightarrow> path option res" where
  "path_to (UnboundedStore u) source dest = unbounded_walk (predecessors u) source dest []"
| "path_to (BoundedStore b) source dest = Ok (bounded_walk (rev (predecessors_at_step b)) source dest [])"

definition nodes_from_predecessors :: "node option list \<Rightarrow> node list" where
  "nodes_from_predecessors preds = filter (\<lambda>i. preds ! i \<noteq> None) [0..<length preds]"

fun connected_nodes :: "'w store \<Rightarrow> node \<Rightarrow> node list" where
  "connected_nodes (UnboundedStore u) source = nodes_from_predecessors (predecessors u) @ [source]"
| "connected_nodes (BoundedStore b) source =
     remdups (concat (map nodes_from_predecessors (predecessors_at_step b))) @ [source]"

definition edge_list :: "'w graph \<Rightarrow> (node \<times> node \<times> 'w) list" where
  "edge_list g = concat (map (\<lambda>i. map (\<lambda>(j, w). (i, j, w)) (out_edges g i)) [0..<node_count g])"

text \<open>\<open>mark_cycle\<close>: the node at which a cycle was detected, and the changed store.\<close>

fun mark_cycle :: "'w measure \<Rightarrow> 'w graph \<Rightarrow> 'w store \<Rightarrow> node option \<times> 'w store" where
  "mark_cycle ms g (UnboundedStore u) =
     (case List.find (\<lambda>(i, j, w). m_less ms (m_add ms (distances u ! i) w) (distances u ! j)) (edge_list g) of
        Some (i, j, w) \<Rightarrow> (Some j, update_predecessor j (Some i) (UnboundedStore u))
      | None \<Rightarrow> (None, UnboundedStore u))"
| "mark_cycle ms g (BoundedStore b) =
     (List.find (\<lambda>i. bounded_walk (rev (predecessors_at_step b)) i i [] \<noteq> None) [0..<node_count g], BoundedStore b)"

fun store_find_cycle :: "'w store \<Rightarrow> node \<Rightarrow> negative_cycle option res option" where
  "store_find_cycle (UnboundedStore u) search_start = find_cycle (predecessors u) search_start None"
| "store_find_cycle (BoundedStore b) search_start =
     (case bounded_walk (rev (predecessors_at_step b)) search_start search_start [] of
        Some cycle \<Rightarrow> Some (Ok (Some cycle))
      | None \<Rightarrow> Some Panic)"

section \<open>The search\<close>

definition relax_edge :: "'w measure \<Rightarrow> 'w store \<times> bool \<Rightarrow> node \<times> node \<times> 'w \<Rightarrow> 'w store \<times> bool" where
  "relax_edge ms = (\<lambda>(st, did_update) (i, j, w).
     if m_less ms (m_add ms (store_distance st i) w) (store_distance st j)
     then (update_predecessor j (Some i) (update_distance j (m_add ms (store_distance st i) w) st), True)
     else (st, did_update))"

fun relax_passes :: "'w measure \<Rightarrow> 'w graph \<Rightarrow> nat \<Rightarrow> 'w store \<Rightarrow> 'w store" where
  "relax_passes ms g 0 st = st"
| "relax_passes ms g (Suc k) st =
     (case foldl (relax_edge ms) (st, False) (edge_list g) of
        (st, did_update) \<Rightarrow>
          (let st = prepare_next_relaxation_step st
           in if did_update then relax_passes ms g k st else st))"

definition graph_find_cycle :: "'w measure \<Rightarrow> 'w graph \<Rightarrow> 'w store \<Rightarrow> negative_cycle option res option \<times> 'w store" where
  "graph_find_cycle ms g st =
     (case mark_cycle ms g st of
        (Some search_start, st) \<Rightarrow> (store_find_cycle st search_start, st)
      | (None, st) \<Rightarrow> (Some (Ok None), st))"

definition bellman_ford :: "'w measure \<Rightarrow> 'w graph \<Rightarrow> nat option \<Rightarrow> 'w store \<Rightarrow> (negative_cycle, 'w store) result option" where
  "bellman_ford ms g hops st =
     (let st = relax_passes ms g (case hops of Some h \<Rightarrow> h | None \<Rightarrow> node_count g - 1) st in
      (case graph_find_cycle ms g st of
         (None, st) \<Rightarrow> None
       | (Some (Ok (Some cycle)), st) \<Rightarrow> Some (Err cycle)
       | (Some (Ok None), st) \<Rightarrow> Some (Ok st)
       | (Some _, st) \<Rightarrow> Some Panic))"

definition shortest_path :: "'w measure \<Rightarrow> 'w graph \<Rightarrow> node \<Rightarrow> nat option \<Rightarrow> (negative_cycle, 'w store) result option" where
  "shortest_path ms g source hops =
     (if source < node_count g then
        (let preds = replicate (node_count g) None;
             dists = (replicate (node_count g) (m_infinite ms))[source := m_zero ms]
         in (case hops of
               None \<Rightarrow> bellman_ford ms g hops (UnboundedStore \<lparr>predecessors = preds, distances = dists\<rparr>)
             | Some h \<Rightarrow> bellman_ford ms g hops (BoundedStore (bounded_new preds dists))))
      else Some Panic)"

section \<open>Rings of predecessors\<close>

definition ring :: "node option list \<Rightarrow> node list \<Rightarrow> bool" where
  "ring preds xs \<longleftrightarrow> xs \<noteq> [] \<and> distinct xs \<and> successively (\<lambda>a b. preds ! a = Some b) (xs @ [hd xs])"

lemma ring_rotate: "ring preds (as @ bs) \<Longrightarrow> bs \<noteq> [] \<Longrightarrow> ring preds (bs @ as)"
  by (cases "as = []") (auto simp: ring_def successively_append_iff hd_append)

lemma ring_from:
  assumes "ring preds xs" "j \<in> set xs"
  obtains ys where "ring preds (j # ys)" "set (j # ys) = set xs"
proof -
  obtain as bs where "xs = as @ j # bs"
    using assms(2) by (meson split_list)
  with ring_rotate [of preds as "j # bs"] assms(1) that [of "bs @ as"] show ?thesis
    by auto
qed

lemma successively_update:
  "j \<notin> set (butlast xs) \<Longrightarrow> successively (\<lambda>a b. (preds[j := p]) ! a = Some b) xs \<longleftrightarrow> successively (\<lambda>a b. preds ! a = Some b) xs"
proof (induction xs)
  case (Cons x xs)
  then show ?case
    by (cases xs) (auto simp: nth_list_update)
qed simp

lemma preds_wf_update: "preds_wf preds \<Longrightarrow> i < length preds \<Longrightarrow> preds_wf (preds[j := Some i])"
  using set_update_subset_insert [of preds j "Some i"] by (auto simp: preds_wf_def split: option.splits)

lemma ring_of_walk:
  "back_walk preds (us @ c # vs) \<Longrightarrow> preds ! last (us @ c # vs) = Some c \<Longrightarrow> ring preds (c # vs)"
  using successively_append_iff [of "\<lambda>a b. preds ! a = Some b" "c # vs" "[c]"]
  by (auto simp: ring_def back_walk_def successively_append_iff)

text \<open>Without rings the predecessors of a node lead to one that has none.\<close>

lemma back_walk_to_root:
  assumes "preds_wf preds" "v < length preds" "\<And>xs. set xs \<subseteq> {..<length preds} \<Longrightarrow> \<not> ring preds xs"
  obtains zs where "back_walk preds zs" "hd zs = v" "preds ! last zs = None"
proof -
  obtain zs where zs: "back_walk preds zs" "hd zs = v" "\<And>c. preds ! last zs = Some c \<Longrightarrow> c \<in> set zs"
    using visit_loop_start [OF assms(1,2)] by (force split: option.splits)
  moreover have "preds ! last zs = None"
  proof (rule ccontr)
    assume "preds ! last zs \<noteq> None"
    then obtain c where "preds ! last zs = Some c" "c \<in> set zs"
      using zs(3) by auto
    moreover from this obtain us vs where "zs = us @ c # vs"
      by (meson split_list)
    ultimately show False
      using ring_of_walk [of preds us c vs] zs(1) assms(3) [of "c # vs"] by (auto simp: back_walk_def)
  qed
  ultimately show ?thesis using that by blast
qed

lemma unbounded_walk_eq:
  "successively (\<lambda>a b. preds ! a = Some b) zs \<Longrightarrow> zs \<noteq> [] \<Longrightarrow> set zs \<subseteq> {..<length preds} \<Longrightarrow>
   last zs = s \<Longrightarrow> s \<notin> set (butlast zs) \<Longrightarrow> length path + length zs \<le> length preds + 1 \<Longrightarrow>
   unbounded_walk preds s (hd zs) path = Ok (Some (rev (path @ zs)))"
proof (induction zs arbitrary: path)
  case (Cons z zs)
  show ?case
  proof (cases zs)
    case Nil
    then show ?thesis
      using Cons.prems by (subst unbounded_walk.simps) simp
  next
    case (Cons y ys)
    then have "preds ! z = Some y" "z \<noteq> s" "z < length preds" "length path \<le> length preds"
      using Cons.prems by auto
    then have "unbounded_walk preds s z path = unbounded_walk preds s y (path @ [z])"
      by (subst unbounded_walk.simps) simp
    then show ?thesis
      using Cons.IH [of "path @ [z]"] Cons.prems \<open>zs = y # ys\<close> by simp
  qed
qed simp

section \<open>Walks\<close>

text \<open>A walk is the list of its edges.\<close>

fun walk :: "'w graph \<Rightarrow> node \<Rightarrow> (node \<times> node \<times> 'w) list \<Rightarrow> node \<Rightarrow> bool" where
  "walk g u [] v \<longleftrightarrow> u = v"
| "walk g u ((i, j, w) # es) v \<longleftrightarrow> i = u \<and> (i, j, w) \<in> set (edge_list g) \<and> walk g j es v"

definition walk_nodes :: "node \<Rightarrow> (node \<times> node \<times> 'w) list \<Rightarrow> node list" where
  "walk_nodes u es = u # map (\<lambda>(i, j, w). j) es"

definition labelled :: "(node \<Rightarrow> 'w) \<Rightarrow> node list \<Rightarrow> (node \<times> node \<times> 'w) list" where
  "labelled wt p = map (\<lambda>(a, b). (a, b, wt b)) (links p)"

lemma walk_snoc: "walk g u (es @ [(i, j, w)]) v \<longleftrightarrow> walk g u es i \<and> (i, j, w) \<in> set (edge_list g) \<and> j = v"
  by (induction g u es i rule: walk.induct) auto

lemma labelled_simps [simp]: "labelled wt [x] = []" "labelled wt (x # y # xs) = (x, y, wt y) # labelled wt (y # xs)"
  by (simp_all add: labelled_def links_def)

lemma walk_labelled:
  "successively (\<lambda>a b. (a, b, wt b) \<in> set (edge_list g)) (x # xs) \<Longrightarrow>
   walk g x (labelled wt (x # xs)) (last (x # xs)) \<and> walk_nodes x (labelled wt (x # xs)) = x # xs"
  by (induction xs arbitrary: x) (auto simp: walk_nodes_def)

text \<open>
  How much a pass can change distances: the weight of an edge for every edge, and for a graph without
  loops only for every node, since the distance of a node does not change while its edges are relaxed.
\<close>

definition loop_free :: "'w graph \<Rightarrow> bool" where
  "loop_free g \<longleftrightarrow> (\<forall>(i, j, w) \<in> set (edge_list g). i \<noteq> j)"

definition pass_bound :: "'w graph \<Rightarrow> int" where
  "pass_bound g = (if loop_free g then int (node_count g) else int (length (edge_list g)))"

section \<open>Measures with exact arithmetic\<close>

text \<open>
  What the correctness of the search needs of the weights: their values are integers, addition is
  exact as long as the values stay within a bound, comparison follows the values, and the infinite
  weight is greater than all others.
\<close>

locale exact_measure =
  fixes ms :: "'w measure" and val :: "'w \<Rightarrow> int" and B :: int
  assumes zero: "m_zero ms \<noteq> m_infinite ms" "val (m_zero ms) = 0"
    and add_infinite: "m_add ms (m_infinite ms) w = m_infinite ms"
    and add_exact: "a \<noteq> m_infinite ms \<Longrightarrow> b \<noteq> m_infinite ms \<Longrightarrow> \<bar>val a\<bar> + \<bar>val b\<bar> \<le> B \<Longrightarrow>
      m_add ms a b \<noteq> m_infinite ms \<and> val (m_add ms a b) = val a + val b"
    and less_finite: "a \<noteq> m_infinite ms \<Longrightarrow> b \<noteq> m_infinite ms \<Longrightarrow> m_less ms a b \<longleftrightarrow> val a < val b"
    and less_infinite: "a \<noteq> m_infinite ms \<Longrightarrow> m_less ms a (m_infinite ms)" "\<not> m_less ms (m_infinite ms) a"
begin

abbreviation finite_weight :: "'w \<Rightarrow> bool" where
  "finite_weight w \<equiv> w \<noteq> m_infinite ms"

definition edges_within :: "int \<Rightarrow> 'w graph \<Rightarrow> bool" where
  "edges_within W g \<longleftrightarrow> 0 \<le> W \<and> (\<forall>(i, j, w) \<in> set (edge_list g). i < node_count g \<and> j < node_count g \<and> finite_weight w \<and> \<bar>val w\<bar> \<le> W)"

text \<open>
  The predecessors form a forest that explains the distances: \<open>wt v\<close> is the weight of the edge from
  the predecessor of \<open>v\<close>.
\<close>

definition explained :: "'w graph \<Rightarrow> node \<Rightarrow> (node \<Rightarrow> 'w) \<Rightarrow> node option list \<Rightarrow> 'w list \<Rightarrow> bool" where
  "explained g s wt preds ds \<longleftrightarrow>
     (\<forall>v < node_count g. case preds ! v of
        Some p \<Rightarrow> p < node_count g \<and> (p, v, wt v) \<in> set (edge_list g) \<and> finite_weight (ds ! p) \<and> finite_weight (ds ! v) \<and>
          val (ds ! p) + val (wt v) \<le> val (ds ! v)
      | None \<Rightarrow> if v = s then val (ds ! s) = 0 else ds ! v = m_infinite ms)"

definition rings_negative :: "(node \<Rightarrow> 'w) \<Rightarrow> node option list \<Rightarrow> bool" where
  "rings_negative wt preds \<longleftrightarrow>
     (\<forall>xs. ring preds xs \<longrightarrow> set xs \<subseteq> {..<length preds} \<longrightarrow> (\<Sum>v \<in> set xs. val (wt v)) < 0)"

definition search_inv :: "'w graph \<Rightarrow> node \<Rightarrow> int \<Rightarrow> (node \<Rightarrow> 'w) \<Rightarrow> 'w unbounded \<Rightarrow> bool" where
  "search_inv g s bound wt u \<longleftrightarrow>
     length (predecessors u) = node_count g \<and> length (distances u) = node_count g \<and>
     (\<forall>v < node_count g. finite_weight (distances u ! v) \<longrightarrow> \<bar>val (distances u ! v)\<bar> \<le> bound) \<and>
     finite_weight (distances u ! s) \<and> val (distances u ! s) \<le> 0 \<and>
     explained g s wt (predecessors u) (distances u) \<and> rings_negative wt (predecessors u)"

lemma explained_telescope:
  assumes "explained g s wt preds ds" "length preds = node_count g"
  shows "xs \<noteq> [] \<Longrightarrow> successively (\<lambda>a b. preds ! a = Some b) xs \<Longrightarrow> set xs \<subseteq> {..<node_count g} \<Longrightarrow>
    val (ds ! last xs) + (\<Sum>v \<leftarrow> butlast xs. val (wt v)) \<le> val (ds ! hd xs)"
proof (induction xs)
  case (Cons x xs)
  show ?case
  proof (cases xs)
    case (Cons y ys)
    have "preds ! x = Some y" "x < node_count g"
      using Cons.prems \<open>xs = y # ys\<close> by auto
    then have "val (ds ! y) + val (wt x) \<le> val (ds ! x)"
      using assms(1) by (auto simp: explained_def)
    then show ?thesis
      using Cons.IH Cons.prems \<open>xs = y # ys\<close> by auto
  qed simp
qed simp

text \<open>A new predecessor that improves a distance closes only negative rings.\<close>

lemma rings_negative_update:
  assumes expl: "explained g s wt preds ds" and neg: "rings_negative wt preds"
    and len: "length preds = node_count g" and j: "j < node_count g"
    and fin: "finite_weight (ds ! i)"
    and better: "finite_weight (ds ! j) \<Longrightarrow> val (ds ! i) + val w < val (ds ! j)"
  shows "rings_negative (wt(j := w)) (preds[j := Some i])"
  unfolding rings_negative_def
proof (intro allI impI)
  fix xs assume ring: "ring (preds[j := Some i]) xs" and sub: "set xs \<subseteq> {..<length (preds[j := Some i])}"
  show "(\<Sum>v \<in> set xs. val ((wt(j := w)) v)) < 0"
  proof (cases "j \<in> set xs")
    case False
    then have "ring preds xs"
      using ring successively_update [of j "xs @ [hd xs]" preds "Some i"] by (simp add: ring_def)
    then have "(\<Sum>v \<in> set xs. val (wt v)) < 0"
      using neg sub len by (simp add: rings_negative_def)
    moreover have "(\<Sum>v \<in> set xs. val ((wt(j := w)) v)) = (\<Sum>v \<in> set xs. val (wt v))"
      using False by (intro sum.cong) auto
    ultimately show ?thesis by simp
  next
    case True
    then obtain ys where ys: "ring (preds[j := Some i]) (j # ys)" "set (j # ys) = set xs"
      using ring_from [OF ring] by blast
    have dist: "distinct (j # ys)" and succ: "successively (\<lambda>a b. (preds[j := Some i]) ! a = Some b) (j # ys @ [j])"
      using ys(1) by (auto simp: ring_def)
    have i: "hd (ys @ [j]) = i"
      using succ j len by (cases ys) auto
    have chain: "successively (\<lambda>a b. preds ! a = Some b) (ys @ [j])"
      using succ dist successively_update [of j "ys @ [j]" preds "Some i"] by (cases ys) auto
    have rng: "set (ys @ [j]) \<subseteq> {..<node_count g}"
      using sub ys(2) len by auto
    have tele: "val (ds ! j) + (\<Sum>v \<leftarrow> ys. val (wt v)) \<le> val (ds ! i)"
      using explained_telescope [OF expl len, of "ys @ [j]"] chain rng i by simp
    have "finite_weight (ds ! j)"
    proof (cases "ys = []")
      case True
      then show ?thesis using i fin by simp
    next
      case False
      then have "preds ! last ys = Some j"
        using chain by (auto simp: successively_append_iff)
      moreover have "last ys < node_count g"
        using rng last_in_set [OF False] by auto
      ultimately show ?thesis using expl by (auto simp: explained_def)
    qed
    with tele better have "(\<Sum>v \<leftarrow> ys. val (wt v)) + val w < 0"
      by simp
    moreover have "(\<Sum>v \<in> set ys. val ((wt(j := w)) v)) = (\<Sum>v \<in> set ys. val (wt v))"
      using dist by (intro sum.cong) auto
    then have "(\<Sum>v \<in> set xs. val ((wt(j := w)) v)) = val w + (\<Sum>v \<in> set ys. val (wt v))"
      unfolding ys(2) [symmetric] using dist by (simp del: fun_upd_apply add: fun_upd_same)
    ultimately show ?thesis
      using dist by (simp add: sum_list_distinct_conv_sum_set)
  qed
qed

definition relaxed :: "'w unbounded \<Rightarrow> node \<times> node \<times> 'w \<Rightarrow> 'w unbounded" where
  "relaxed u = (\<lambda>(i, j, w).
     if m_less ms (m_add ms (distances u ! i) w) (distances u ! j)
     then u\<lparr>distances := (distances u)[j := m_add ms (distances u ! i) w], predecessors := (predecessors u)[j := Some i]\<rparr>
     else u)"

text \<open>An edge from a node with a small distance is added exactly.\<close>

definition exact_from :: "int \<Rightarrow> int \<Rightarrow> 'w unbounded \<Rightarrow> node \<Rightarrow> bool" where
  "exact_from W b u i \<longleftrightarrow> (finite_weight (distances u ! i) \<longrightarrow> \<bar>val (distances u ! i)\<bar> + W \<le> b)"

lemma exact_fromI: "search_inv g s bound wt u \<Longrightarrow> i < node_count g \<Longrightarrow> bound + W \<le> b \<Longrightarrow> exact_from W b u i"
  by (auto simp: search_inv_def exact_from_def)

lemma relaxable_iff:
  assumes "edges_within W g" "(i, j, w) \<in> set (edge_list g)" "exact_from W B u i"
  shows "m_less ms (m_add ms (distances u ! i) w) (distances u ! j) \<longleftrightarrow>
      finite_weight (distances u ! i) \<and> (finite_weight (distances u ! j) \<longrightarrow> val (distances u ! i) + val w < val (distances u ! j))"
    and "finite_weight (distances u ! i) \<Longrightarrow>
      finite_weight (m_add ms (distances u ! i) w) \<and> val (m_add ms (distances u ! i) w) = val (distances u ! i) + val w"
proof -
  have e: "finite_weight w" "\<bar>val w\<bar> \<le> W"
    using assms(1,2) by (auto simp: edges_within_def)
  show add: "finite_weight (m_add ms (distances u ! i) w) \<and> val (m_add ms (distances u ! i) w) = val (distances u ! i) + val w"
    if "finite_weight (distances u ! i)"
    using that e assms(3) by (intro add_exact) (auto simp: exact_from_def)
  show "m_less ms (m_add ms (distances u ! i) w) (distances u ! j) \<longleftrightarrow>
      finite_weight (distances u ! i) \<and> (finite_weight (distances u ! j) \<longrightarrow> val (distances u ! i) + val w < val (distances u ! j))"
    using add less_finite less_infinite add_infinite
    by (cases "finite_weight (distances u ! i)"; cases "finite_weight (distances u ! j)") auto
qed

lemma explained_update:
  assumes expl: "explained g s wt preds ds" and e: "(i, j, w) \<in> set (edge_list g)"
    and len: "length preds = node_count g" "length ds = node_count g" and ij: "i < node_count g" "j < node_count g"
    and fin: "finite_weight (ds ! i)" and d: "finite_weight d" "val d = val (ds ! i) + val w"
    and better: "finite_weight (ds ! j) \<Longrightarrow> val d < val (ds ! j)"
  shows "explained g s (wt(j := w)) (preds[j := Some i]) (ds[j := d])"
  unfolding explained_def
proof (intro allI impI)
  fix v assume v: "v < node_count g"
  note old = expl [unfolded explained_def, rule_format, OF v]
  show "case preds[j := Some i] ! v of
      Some p \<Rightarrow> p < node_count g \<and> (p, v, (wt(j := w)) v) \<in> set (edge_list g) \<and> finite_weight (ds[j := d] ! p) \<and>
        finite_weight (ds[j := d] ! v) \<and> val (ds[j := d] ! p) + val ((wt(j := w)) v) \<le> val (ds[j := d] ! v)
    | None \<Rightarrow> if v = s then val (ds[j := d] ! s) = 0 else ds[j := d] ! v = m_infinite ms"
  proof (cases "v = j")
    case True
    show ?thesis
    proof (cases "i = j")
      case self: True
      then have "val w < 0" using better d fin by simp
      with True self e ij d len show ?thesis by simp
    next
      case False
      with True e ij d fin len show ?thesis by simp
    qed
  next
    case False
    show ?thesis
    proof (cases "preds ! v")
      case None
      with False old len show ?thesis by (auto simp: nth_list_update split: if_splits)
    next
      case (Some p)
      show ?thesis
      proof (cases "p = j")
        case True
        then have "val d < val (ds ! j)" using better old Some by simp
        with True Some False old d len show ?thesis by simp
      next
        case pj: False
        with Some False old len show ?thesis by simp
      qed
    qed
  qed
qed

lemma search_inv_mono: "search_inv g s b wt u \<Longrightarrow> b \<le> b' \<Longrightarrow> search_inv g s b' wt u"
  by (fastforce simp: search_inv_def)

lemma search_inv_relaxed:
  assumes inv: "search_inv g s bound wt u" and within: "edges_within W g" and e: "(i, j, w) \<in> set (edge_list g)"
    and exact: "exact_from W bound u i" and bound: "bound \<le> B"
  shows "\<exists>wt'. search_inv g s bound wt' (relaxed u (i, j, w))"
proof (cases "m_less ms (m_add ms (distances u ! i) w) (distances u ! j)")
  case False
  with inv show ?thesis
    by (auto simp: relaxed_def)
next
  case True
  have "exact_from W B u i"
    using exact bound by (auto simp: exact_from_def)
  note r = relaxable_iff [OF within e this]
  let ?d = "m_add ms (distances u ! i) w"
  have fin: "finite_weight (distances u ! i)" and better: "finite_weight (distances u ! j) \<Longrightarrow> val ?d < val (distances u ! j)"
    and d: "finite_weight ?d" "val ?d = val (distances u ! i) + val w"
    using True r by auto
  have ij: "i < node_count g" "j < node_count g" "\<bar>val w\<bar> \<le> W" "0 \<le> W"
    using within e by (auto simp: edges_within_def)
  have len: "length (predecessors u) = node_count g" "length (distances u) = node_count g"
    and expl: "explained g s wt (predecessors u) (distances u)" and neg: "rings_negative wt (predecessors u)"
    and bnd: "\<forall>v < node_count g. finite_weight (distances u ! v) \<longrightarrow> \<bar>val (distances u ! v)\<bar> \<le> bound"
    and src: "finite_weight (distances u ! s)" "val (distances u ! s) \<le> 0"
    using inv by (auto simp: search_inv_def)
  have "rings_negative (wt(j := w)) ((predecessors u)[j := Some i])"
    using expl neg len(1) ij(2) fin better d(2) by (intro rings_negative_update [of g s wt _ "distances u"]) auto
  moreover have "explained g s (wt(j := w)) ((predecessors u)[j := Some i]) ((distances u)[j := ?d])"
    using explained_update [OF expl e len ij(1,2) fin d better] .
  moreover have "\<bar>val ?d\<bar> \<le> bound"
    using d(2) exact fin ij by (auto simp: exact_from_def)
  ultimately have "search_inv g s bound (wt(j := w)) (relaxed u (i, j, w))"
    using True len src better d(1) ij bnd by (auto simp: search_inv_def relaxed_def nth_list_update)
  then show ?thesis by blast
qed

subsection \<open>A pass over the edges\<close>

text \<open>Distances do not grow.\<close>

definition improves :: "'w graph \<Rightarrow> 'w unbounded \<Rightarrow> 'w unbounded \<Rightarrow> bool" where
  "improves g u u' \<longleftrightarrow> (\<forall>v < node_count g. finite_weight (distances u ! v) \<longrightarrow>
     finite_weight (distances u' ! v) \<and> val (distances u' ! v) \<le> val (distances u ! v))"

lemma improves_trans: "improves g u v \<Longrightarrow> improves g v w \<Longrightarrow> improves g u w"
  unfolding improves_def by (meson order_trans)

lemma relaxed_improves:
  assumes "length (distances u) = node_count g" "edges_within W g" "(i, j, w) \<in> set (edge_list g)" "exact_from W B u i"
  shows "improves g u (relaxed u (i, j, w))"
    and "finite_weight (distances u ! i) \<Longrightarrow> finite_weight (distances (relaxed u (i, j, w)) ! j) \<and>
      val (distances (relaxed u (i, j, w)) ! j) \<le> val (distances u ! i) + val w"
proof -
  note r = relaxable_iff [OF assms(2-)]
  have j: "j < length (distances u)"
    using assms(1-3) by (auto simp: edges_within_def)
  show "improves g u (relaxed u (i, j, w))"
    using r j by (auto simp: improves_def relaxed_def nth_list_update)
  show "finite_weight (distances (relaxed u (i, j, w)) ! j) \<and>
      val (distances (relaxed u (i, j, w)) ! j) \<le> val (distances u ! i) + val w" if "finite_weight (distances u ! i)"
    using r that j by (auto simp: relaxed_def nth_list_update)
qed

text \<open>A sequence of relaxations all of which are exact, and what it achieves.\<close>

fun exact_steps :: "int \<Rightarrow> 'w unbounded \<Rightarrow> (node \<times> node \<times> 'w) list \<Rightarrow> bool" where
  "exact_steps W u [] \<longleftrightarrow> True"
| "exact_steps W u (e # es) \<longleftrightarrow> exact_from W B u (fst e) \<and> exact_steps W (relaxed u e) es"

lemma length_relaxed [simp]: "length (distances (relaxed u e)) = length (distances u)"
  by (cases e) (simp add: relaxed_def)

lemma exact_steps_append: "exact_steps W u (es @ fs) \<longleftrightarrow> exact_steps W u es \<and> exact_steps W (foldl relaxed u es) fs"
  by (induction es arbitrary: u) auto

lemma pass_effect:
  assumes within: "edges_within W g" and "set es \<subseteq> set (edge_list g)" "length (distances u) = node_count g" "exact_steps W u es"
  shows "improves g u (foldl relaxed u es) \<and>
    (\<forall>(i, j, w) \<in> set es. finite_weight (distances u ! i) \<longrightarrow>
       finite_weight (distances (foldl relaxed u es) ! j) \<and> val (distances (foldl relaxed u es) ! j) \<le> val (distances u ! i) + val w)"
  using assms(2-)
proof (induction es arbitrary: u)
  case Nil
  then show ?case by (auto simp: improves_def)
next
  case (Cons e es)
  obtain i j w where e: "e = (i, j, w)" by (cases e)
  have ee: "(i, j, w) \<in> set (edge_list g)" "exact_from W B u i"
    using Cons.prems(1,3) e by auto
  note imp = relaxed_improves [OF Cons.prems(2) within ee]
  have imp2: "improves g (relaxed u e) (foldl relaxed (relaxed u e) es)"
    and es: "\<forall>(i, j, w) \<in> set es. finite_weight (distances (relaxed u e) ! i) \<longrightarrow>
       finite_weight (distances (foldl relaxed (relaxed u e) es) ! j) \<and>
       val (distances (foldl relaxed (relaxed u e) es) ! j) \<le> val (distances (relaxed u e) ! i) + val w"
    using Cons.IH [of "relaxed u e"] Cons.prems by auto
  have nodes: "\<forall>(i, j, w) \<in> set (e # es). i < node_count g \<and> j < node_count g"
    using within Cons.prems(1) by (force simp: edges_within_def)
  have "\<forall>(i, j, w) \<in> set (e # es). finite_weight (distances u ! i) \<longrightarrow>
       finite_weight (distances (foldl relaxed (relaxed u e) es) ! j) \<and>
       val (distances (foldl relaxed (relaxed u e) es) ! j) \<le> val (distances u ! i) + val w"
  proof (intro ballI, clarify)
    fix i' j' w' assume mem: "(i', j', w') \<in> set (e # es)" and fin: "finite_weight (distances u ! i')"
    have n: "i' < node_count g" "j' < node_count g" using nodes mem by auto
    show "finite_weight (distances (foldl relaxed (relaxed u e) es) ! j') \<and>
       val (distances (foldl relaxed (relaxed u e) es) ! j') \<le> val (distances u ! i') + val w'"
    proof (cases "(i', j', w') = e")
      case True
      then have "finite_weight (distances (relaxed u e) ! j') \<and> val (distances (relaxed u e) ! j') \<le> val (distances u ! i') + val w'"
        using imp(2) e fin by simp
      then show ?thesis using imp2 n by (force simp: improves_def)
    next
      case False
      have "finite_weight (distances (relaxed u e) ! i') \<and> val (distances (relaxed u e) ! i') \<le> val (distances u ! i')"
        using imp(1) e fin n by (simp add: improves_def)
      then show ?thesis using es mem False by fastforce
    qed
  qed
  then show ?case
    using improves_trans [OF _ imp2, of u] imp(1) e by auto
qed

lemma pass_by_edges:
  assumes within: "edges_within W g" and "set es \<subseteq> set (edge_list g)"
    and "search_inv g s bound wt u" "bound + W * int (length es) \<le> B"
  shows "exact_steps W u es \<and> (\<exists>wt'. search_inv g s (bound + W * int (length es)) wt' (foldl relaxed u es))"
  using assms(2-)
proof (induction es arbitrary: u bound wt)
  case (Cons e es)
  obtain i j w where e: "e = (i, j, w)" by (cases e)
  have W: "0 \<le> W" "0 \<le> W * int (length es)" using within by (simp_all add: edges_within_def)
  have b2: "bound + W + W * int (length es) \<le> B" using Cons.prems(3) by (simp add: algebra_simps)
  then have b: "bound + W \<le> B" "bound + W + W * int (length es) \<le> B" using W(2) by linarith+
  have ee: "(i, j, w) \<in> set (edge_list g)" "i < node_count g"
    using Cons.prems(1) within e by (auto simp: edges_within_def)
  have exact: "exact_from W (bound + W) u i" "exact_from W B u i"
    using exact_fromI [OF Cons.prems(2) ee(2)] b(1) by simp_all
  have "search_inv g s (bound + W) wt u"
    using search_inv_mono [OF Cons.prems(2)] W(1) by simp
  then obtain wt1 where "search_inv g s (bound + W) wt1 (relaxed u e)"
    using search_inv_relaxed [OF _ within ee(1) exact(1) b(1)] e by blast
  then show ?case
    using Cons.IH [of "bound + W" wt1 "relaxed u e"] Cons.prems(1) b(2) exact(2) e by (auto simp: algebra_simps)
qed auto

lemma relax_node:
  assumes within: "edges_within W g" and "\<forall>(i', j, w) \<in> set es. (i', j, w) \<in> set (edge_list g) \<and> i' = i \<and> j \<noteq> i"
    and "search_inv g s bound wt u" "exact_from W bound u i" "bound \<le> B"
  shows "exact_steps W u es \<and> (\<exists>wt'. search_inv g s bound wt' (foldl relaxed u es))"
  using assms(2-4)
proof (induction es arbitrary: u wt)
  case (Cons e es)
  obtain j w where e: "e = (i, j, w)" "(i, j, w) \<in> set (edge_list g)" "j \<noteq> i"
    using Cons.prems(1) by (cases e) auto
  have "exact_from W B u i"
    using Cons.prems(3) assms(5) by (auto simp: exact_from_def)
  moreover obtain wt1 where "search_inv g s bound wt1 (relaxed u e)"
    using search_inv_relaxed [OF Cons.prems(2) within e(2) Cons.prems(3) assms(5)] e(1) by blast
  moreover have "exact_from W bound (relaxed u e) i"
    using Cons.prems(3) e by (simp add: exact_from_def relaxed_def)
  ultimately show ?case
    using Cons.IH [of wt1 "relaxed u e"] Cons.prems(1) e(1) by auto
qed auto

lemma pass_by_nodes:
  assumes within: "edges_within W g" and loop_free: "loop_free g" and "set is \<subseteq> {..<node_count g}"
    and "search_inv g s bound wt u" "bound + W * int (length is) \<le> B"
  shows "exact_steps W u (concat (map (\<lambda>i. map (\<lambda>(j, w). (i, j, w)) (out_edges g i)) is)) \<and>
    (\<exists>wt'. search_inv g s (bound + W * int (length is)) wt' (foldl relaxed u (concat (map (\<lambda>i. map (\<lambda>(j, w). (i, j, w)) (out_edges g i)) is))))"
  using assms(3-)
proof (induction "is" arbitrary: u bound wt)
  case (Cons i "is")
  let ?es = "map (\<lambda>(j, w). (i, j, w)) (out_edges g i)"
  have W: "0 \<le> W" "0 \<le> W * int (length is)" using within by (simp_all add: edges_within_def)
  have b2: "bound + W + W * int (length is) \<le> B" using Cons.prems(3) by (simp add: algebra_simps)
  then have b: "bound + W \<le> B" "bound + W + W * int (length is) \<le> B" using W(2) by linarith+
  have "\<forall>(i', j, w) \<in> set ?es. (i', j, w) \<in> set (edge_list g) \<and> i' = i \<and> j \<noteq> i"
    using Cons.prems(1) loop_free by (fastforce simp: edge_list_def loop_free_def)
  moreover have "search_inv g s (bound + W) wt u"
    using search_inv_mono [OF Cons.prems(2)] W(1) by simp
  moreover have "exact_from W (bound + W) u i"
    using exact_fromI [OF Cons.prems(2)] Cons.prems(1) by simp
  ultimately obtain wt1 where "exact_steps W u ?es" "search_inv g s (bound + W) wt1 (foldl relaxed u ?es)"
    using relax_node [OF within _ _ _ b(1)] by blast
  then show ?case
    using Cons.IH [of "bound + W" wt1 "foldl relaxed u ?es"] Cons.prems(1) b(2)
    by (auto simp: algebra_simps exact_steps_append)
qed auto

lemma pass_search_inv:
  assumes "edges_within W g" "search_inv g s bound wt u" "bound + W * pass_bound g \<le> B"
  shows "exact_steps W u (edge_list g)" "\<exists>wt'. search_inv g s (bound + W * pass_bound g) wt' (foldl relaxed u (edge_list g))"
proof -
  have "exact_steps W u (edge_list g) \<and> (\<exists>wt'. search_inv g s (bound + W * pass_bound g) wt' (foldl relaxed u (edge_list g)))"
  proof (cases "loop_free g")
    case True
    then show ?thesis
      using pass_by_nodes [OF assms(1) True _ assms(2), of "[0..<node_count g]"] assms(3)
      by (simp add: pass_bound_def edge_list_def lessThan_atLeast0)
  next
    case False
    then show ?thesis
      using pass_by_edges [OF assms(1) order_refl assms(2)] assms(3) by (simp add: pass_bound_def)
  qed
  then show "exact_steps W u (edge_list g)" "\<exists>wt'. search_inv g s (bound + W * pass_bound g) wt' (foldl relaxed u (edge_list g))"
    by blast+
qed

subsection \<open>All passes\<close>

definition total :: "(node \<times> node \<times> 'w) list \<Rightarrow> int" where
  "total es = (\<Sum>(i, j, w) \<leftarrow> es. val w)"

definition shortest_within :: "'w graph \<Rightarrow> node \<Rightarrow> nat \<Rightarrow> 'w unbounded \<Rightarrow> bool" where
  "shortest_within g s k u \<longleftrightarrow> (\<forall>es v. walk g s es v \<longrightarrow> length es \<le> k \<longrightarrow>
     finite_weight (distances u ! v) \<and> val (distances u ! v) \<le> total es)"

definition settled :: "'w graph \<Rightarrow> 'w unbounded \<Rightarrow> bool" where
  "settled g u \<longleftrightarrow> (\<forall>(i, j, w) \<in> set (edge_list g). \<not> m_less ms (m_add ms (distances u ! i) w) (distances u ! j))"

lemma total_simps [simp]: "total [] = 0" "total (es @ [(i, j, w)]) = total es + val w" "total ((i, j, w) # es) = val w + total es"
  by (simp_all add: total_def)

lemma total_labelled: "total (labelled wt (x # xs)) = (\<Sum>v \<leftarrow> xs. val (wt v))"
  by (induction xs arbitrary: x) auto

lemma settled_edge:
  assumes "search_inv g s bound wt u" "edges_within W g" "bound + W \<le> B" "settled g u" "(i, j, w) \<in> set (edge_list g)"
    and "finite_weight (distances u ! i)"
  shows "finite_weight (distances u ! j) \<and> val (distances u ! j) \<le> val (distances u ! i) + val w"
proof -
  have "exact_from W B u i"
    using exact_fromI [OF assms(1) _ assms(3)] assms(2,5) by (auto simp: edges_within_def)
  from relaxable_iff(1) [OF assms(2,5) this] show ?thesis
    using assms(4-6) by (force simp: settled_def)
qed

lemma settled_shortest:
  assumes "search_inv g s bound wt u" "edges_within W g" "bound + W \<le> B" "settled g u"
  shows "walk g s es v \<Longrightarrow> finite_weight (distances u ! v) \<and> val (distances u ! v) \<le> total es"
proof (induction es arbitrary: v rule: rev_induct)
  case Nil
  then show ?case using assms(1) by (simp add: search_inv_def)
next
  case (snoc e es)
  then show ?case
    using settled_edge [OF assms] by (cases e) (fastforce simp: walk_snoc)
qed

lemma pass_shortest:
  assumes "edges_within W g" "search_inv g s bound wt u" "bound + W * pass_bound g \<le> B"
    and "shortest_within g s k u"
  shows "shortest_within g s (Suc k) (foldl relaxed u (edge_list g))"
  unfolding shortest_within_def
proof (intro allI impI)
  fix es v assume w: "walk g s es v" "length es \<le> Suc k"
  let ?u = "foldl relaxed u (edge_list g)"
  have eff: "improves g u ?u" "\<forall>(i, j, w) \<in> set (edge_list g). finite_weight (distances u ! i) \<longrightarrow>
       finite_weight (distances ?u ! j) \<and> val (distances ?u ! j) \<le> val (distances u ! i) + val w"
    using pass_effect [OF assms(1) order_refl _ pass_search_inv(1) [OF assms(1-3)]] assms(2) by (auto simp: search_inv_def)
  show "finite_weight (distances ?u ! v) \<and> val (distances ?u ! v) \<le> total es"
  proof (cases es rule: rev_cases)
    case Nil
    then show ?thesis
      using w pass_search_inv(2) [OF assms(1-3)] by (auto simp: search_inv_def)
  next
    case (snoc fs e)
    obtain i j w where e: "e = (i, j, w)" by (cases e)
    then have "walk g s fs i" "(i, j, w) \<in> set (edge_list g)" "j = v" "length fs \<le> k"
      using w snoc by (auto simp: walk_snoc)
    then have "finite_weight (distances u ! i) \<and> val (distances u ! i) \<le> total fs" "(i, v, w) \<in> set (edge_list g)"
      using assms(4) by (auto simp: shortest_within_def)
    then show ?thesis
      using eff(2) snoc e by fastforce
  qed
qed

lemma relax_edge_unbounded:
  "relax_edge ms (UnboundedStore u, b) e =
     (UnboundedStore (relaxed u e), b \<or> (case e of (i, j, w) \<Rightarrow> m_less ms (m_add ms (distances u ! i) w) (distances u ! j)))"
  by (cases e) (simp add: relax_edge_def relaxed_def)

lemma relaxed_id: "(case e of (i, j, w) \<Rightarrow> \<not> m_less ms (m_add ms (distances u ! i) w) (distances u ! j)) \<Longrightarrow> relaxed u e = u"
  by (cases e) (simp add: relaxed_def)

lemma relax_fold:
  "\<exists>b'. foldl (relax_edge ms) (UnboundedStore u, b) es = (UnboundedStore (foldl relaxed u es), b') \<and>
     (\<not> b' \<longrightarrow> \<not> b \<and> foldl relaxed u es = u \<and>
        (\<forall>(i, j, w) \<in> set es. \<not> m_less ms (m_add ms (distances u ! i) w) (distances u ! j)))"
proof (induction es arbitrary: u b)
  case (Cons e es)
  let ?better = "case e of (i, j, w) \<Rightarrow> m_less ms (m_add ms (distances u ! i) w) (distances u ! j)"
  show ?case
  proof (cases "?better")
    case True
    then show ?thesis
      using Cons [of "relaxed u e" True] by (auto simp: relax_edge_unbounded)
  next
    case False
    moreover from this have "relaxed u e = u"
      by (intro relaxed_id) (cases e, simp)
    ultimately show ?thesis
      using Cons [of u b] by (auto simp: relax_edge_unbounded)
  qed
qed simp

lemma relax_passes_unbounded:
  assumes "edges_within W g" "search_inv g s bound wt u" "shortest_within g s j u"
    and "bound + W * (pass_bound g * int k + 1) \<le> B"
  shows "\<exists>u' wt' bound'. relax_passes ms g k (UnboundedStore u) = UnboundedStore u' \<and> search_inv g s bound' wt' u' \<and>
    bound' + W \<le> B \<and> shortest_within g s (j + k) u'"
  using assms(2-)
proof (induction k arbitrary: bound wt u j)
  case 0
  then show ?case by auto
next
  case (Suc k)
  let ?es = "edge_list g" and ?u = "foldl relaxed u (edge_list g)"
  have W: "0 \<le> W" "0 \<le> pass_bound g" using assms(1) by (simp_all add: edges_within_def pass_bound_def)
  have b: "bound + W * pass_bound g + W * (pass_bound g * int k + 1) \<le> B"
    using Suc.prems(3) by (simp add: algebra_simps)
  moreover have pos: "0 \<le> W * (pass_bound g * int k + 1)" "0 \<le> W * pass_bound g"
    "W \<le> W * (pass_bound g * int k + 1)"
    using W by (simp_all add: mult_le_cancel_left1)
  ultimately have b1: "bound + W * pass_bound g \<le> B" and b2: "bound + W \<le> B" by linarith+
  obtain wt' where inv': "search_inv g s (bound + W * pass_bound g) wt' ?u"
    using pass_search_inv(2) [OF assms(1) Suc.prems(1) b1] by blast
  have short': "shortest_within g s (Suc j) ?u"
    using pass_shortest [OF assms(1) Suc.prems(1) b1 Suc.prems(2)] .
  obtain b' where fold: "foldl (relax_edge ms) (UnboundedStore u, False) ?es = (UnboundedStore ?u, b')"
    and stop: "\<not> b' \<longrightarrow> ?u = u \<and> settled g u"
    using relax_fold [of u False ?es] by (auto simp: settled_def)
  show ?case
  proof (cases b')
    case True
    then have "relax_passes ms g (Suc k) (UnboundedStore u) = relax_passes ms g k (UnboundedStore ?u)"
      using fold by simp
    then show ?thesis
      using Suc.IH [OF inv' short' b] by simp
  next
    case False
    then have "relax_passes ms g (Suc k) (UnboundedStore u) = UnboundedStore u"
      using fold stop by simp
    moreover have "shortest_within g s (j + Suc k) u"
      using settled_shortest [OF Suc.prems(1) assms(1) b2] False stop by (auto simp: shortest_within_def)
    ultimately show ?thesis
      using Suc.prems(1) b2 by blast
  qed
qed

subsection \<open>Results of the search\<close>

lemma explained_wf: "explained g s wt preds ds \<Longrightarrow> length preds = node_count g \<Longrightarrow> preds_wf preds"
  by (force simp: explained_def preds_wf_def in_set_conv_nth split: option.splits)

text \<open>The root of a walk along predecessors is the source, unless the walk has only one node.\<close>

lemma explained_root:
  assumes "explained g s wt preds ds" "length preds = node_count g" "back_walk preds zs" "preds ! last zs = None"
    and "finite_weight (ds ! hd zs)"
  shows "last zs = s \<and> val (ds ! s) = 0"
proof -
  have "finite_weight (ds ! last zs)"
  proof (cases zs rule: rev_cases)
    case (snoc ys z)
    show ?thesis
    proof (cases ys rule: rev_cases)
      case Nil
      then show ?thesis using snoc assms(5) by simp
    next
      case (snoc xs y)
      then have "preds ! y = Some z" "y < node_count g"
        using \<open>zs = ys @ [z]\<close> assms(2,3) by (auto simp: back_walk_def successively_append_iff)
      then show ?thesis
        using assms(1) \<open>zs = ys @ [z]\<close> by (auto simp: explained_def)
    qed
  qed (use assms(3) in \<open>simp add: back_walk_def\<close>)
  moreover have "last zs < node_count g"
    using back_walk_last [OF assms(3)] assms(2) by simp
  ultimately show ?thesis
    using assms(1,4) by (auto simp: explained_def split: if_splits)
qed

text \<open>Reversed, a walk along predecessors is a walk of the graph.\<close>

lemma walk_of_back_walk:
  assumes "\<forall>v < node_count g. \<forall>p. preds ! v = Some p \<longrightarrow> (p, v, wt v) \<in> set (edge_list g)"
    and "zs \<noteq> []" "set zs \<subseteq> {..<node_count g}" "successively (\<lambda>a b. preds ! a = Some b) zs"
  shows "walk g (last zs) (labelled wt (rev zs)) (hd zs) \<and> walk_nodes (last zs) (labelled wt (rev zs)) = rev zs \<and>
    total (labelled wt (rev zs)) = (\<Sum>v \<leftarrow> butlast zs. val (wt v))"
proof -
  have "zs ! i < node_count g" if "i < length zs" for i
    using assms(3) that nth_mem by blast
  then have "successively (\<lambda>a b. (a, b, wt b) \<in> set (edge_list g)) (rev zs)"
    using assms(1,4) by (subst successively_rev) (auto simp: successively_conv_nth)
  moreover have eq: "rev zs = last zs # rev (butlast zs)"
    using assms(2) by (cases zs rule: rev_cases) auto
  moreover have "last (last zs # rev (butlast zs)) = hd zs"
    using assms(2) by (simp add: last_rev eq [symmetric] del: last.simps)
  moreover have "(\<Sum>v \<leftarrow> rev (butlast zs). val (wt v)) = (\<Sum>v \<leftarrow> butlast zs. val (wt v))"
    by (simp add: rev_map [symmetric] sum_list_rev)
  ultimately show ?thesis
    using walk_labelled [of wt g "last zs" "rev (butlast zs)"] total_labelled [of wt "last zs" "rev (butlast zs)"]
    by (simp only: simp_thms)
qed

lemma settled_no_ring:
  assumes "search_inv g s bound wt u" "edges_within W g" "bound + W \<le> B" "settled g u" "set xs \<subseteq> {..<node_count g}"
  shows "\<not> ring (predecessors u) xs"
proof
  assume r: "ring (predecessors u) xs"
  have step: "val (distances u ! v) \<le> val (distances u ! p) + val (wt v)"
    if "predecessors u ! v = Some p" "v < node_count g" for v p
    using settled_edge [OF assms(1-4), of p v "wt v"] assms(1) that by (force simp: search_inv_def explained_def)
  have chain: "ys \<noteq> [] \<Longrightarrow> set ys \<subseteq> {..<node_count g} \<Longrightarrow> successively (\<lambda>a b. predecessors u ! a = Some b) ys \<Longrightarrow>
      val (distances u ! hd ys) \<le> val (distances u ! last ys) + (\<Sum>v \<leftarrow> butlast ys. val (wt v))" for ys
  proof (induction ys)
    case (Cons y ys)
    then show ?case using step [of y "hd ys"] by (cases ys) auto
  qed simp
  have "val (distances u ! hd xs) \<le> val (distances u ! hd xs) + (\<Sum>v \<leftarrow> xs. val (wt v))"
    using chain [of "xs @ [hd xs]"] r assms(5) by (cases xs) (auto simp: ring_def)
  moreover have "(\<Sum>v \<leftarrow> xs. val (wt v)) < 0"
    using r assms(1,5) by (auto simp: search_inv_def rings_negative_def ring_def sum_list_distinct_conv_sum_set)
  ultimately show False by simp
qed

lemma settled_paths:
  assumes "search_inv g s bound wt u" "edges_within W g" "bound + W \<le> B" "settled g u" "s < node_count g" "v < node_count g"
  shows "case path_to (UnboundedStore u) s v of
      Ok (Some p) \<Rightarrow> \<exists>es. walk g s es v \<and> p = walk_nodes s es \<and> distinct p \<and> (\<forall>es'. walk g s es' v \<longrightarrow> total es \<le> total es')
    | Ok None \<Rightarrow> \<not> (\<exists>es. walk g s es v)
    | _ \<Rightarrow> False"
proof -
  have len: "length (predecessors u) = node_count g" and expl: "explained g s wt (predecessors u) (distances u)"
    and src: "finite_weight (distances u ! s)"
    using assms(1) by (auto simp: search_inv_def)
  note shortest = settled_shortest [OF assms(1-4)]
  have wf: "preds_wf (predecessors u)" using explained_wf [OF expl len] .
  have no_ring: "\<not> ring (predecessors u) xs" if "set xs \<subseteq> {..<length (predecessors u)}" for xs
    using settled_no_ring [OF assms(1-4)] that len by simp
  obtain zs where zs: "back_walk (predecessors u) zs" "hd zs = v" "predecessors u ! last zs = None"
    using back_walk_to_root [OF wf _ no_ring, of v] assms(6) len by auto
  obtain ss where ss: "back_walk (predecessors u) ss" "hd ss = s" "predecessors u ! last ss = None"
    using back_walk_to_root [OF wf _ no_ring, of s] assms(5) len by auto
  have zero: "val (distances u ! s) = 0" and root: "predecessors u ! s = None"
    using explained_root [OF expl len ss(1,3)] ss src by auto
  show ?thesis
  proof (cases "finite_weight (distances u ! v)")
    case True
    then have last: "last zs = s"
      using explained_root [OF expl len zs(1,3)] zs(2) by simp
    have walk: "zs \<noteq> []" "set zs \<subseteq> {..<node_count g}" "successively (\<lambda>a b. predecessors u ! a = Some b) zs" "distinct zs"
      using zs(1) len by (auto simp: back_walk_def)
    have "length zs \<le> node_count g"
      using walk(2,4) card_mono [of "{..<node_count g}" "set zs"] by (simp add: distinct_card)
    moreover have "s \<notin> set (butlast zs)"
      using last walk(1,4) by (metis append_butlast_last_id distinct_append disjoint_insert(1) list.simps(15) inf_commute)
    ultimately have "path_to (UnboundedStore u) s v = Ok (Some (rev zs))"
      using unbounded_walk_eq [of "predecessors u" zs s "[]"] walk last zs(2) len by simp
    moreover have "\<forall>v < node_count g. \<forall>p. predecessors u ! v = Some p \<longrightarrow> (p, v, wt v) \<in> set (edge_list g)"
      using expl by (auto simp: explained_def)
    note walk_of_back_walk [OF this walk(1-3)]
    moreover have "(\<Sum>v \<leftarrow> butlast zs. val (wt v)) \<le> total es'" if "walk g s es' v" for es'
      using explained_telescope [OF expl len walk(1,3,2)] shortest [OF that] last zero zs(2) by simp
    ultimately show ?thesis
      using last zs(2) walk(4) by (auto intro!: exI [of _ "labelled wt (rev zs)"])
  next
    case False
    then have "v \<noteq> s" using src by auto
    moreover have "predecessors u ! v = None"
      using False expl assms(6) by (auto simp: explained_def split: option.splits)
    ultimately have "path_to (UnboundedStore u) s v = Ok None"
      using assms(6) len by (simp add: unbounded_walk.simps)
    then show ?thesis using False shortest by auto
  qed
qed

lemma settled_connected:
  assumes "search_inv g s bound wt u" "edges_within W g" "bound + W \<le> B" "settled g u" "s < node_count g"
  shows "set (connected_nodes (UnboundedStore u) s) = {v. v < node_count g \<and> (\<exists>es. walk g s es v)}"
proof -
  have len: "length (predecessors u) = node_count g" and expl: "explained g s wt (predecessors u) (distances u)"
    and src: "finite_weight (distances u ! s)"
    using assms(1) by (auto simp: search_inv_def)
  have no_ring: "\<not> ring (predecessors u) xs" if "set xs \<subseteq> {..<length (predecessors u)}" for xs
    using settled_no_ring [OF assms(1-4)] that len by simp
  have reach: "\<exists>es. walk g s es v" if v: "v < node_count g" "finite_weight (distances u ! v)" for v
  proof -
    obtain zs where zs: "back_walk (predecessors u) zs" "hd zs = v" "predecessors u ! last zs = None"
      using back_walk_to_root [OF explained_wf [OF expl len] _ no_ring, of v] v(1) len by auto
    then have "last zs = s"
      using explained_root [OF expl len zs(1,3)] v(2) by simp
    moreover have "zs \<noteq> []" "set zs \<subseteq> {..<node_count g}" "successively (\<lambda>a b. predecessors u ! a = Some b) zs"
      using zs(1) len by (auto simp: back_walk_def)
    moreover have "\<forall>v < node_count g. \<forall>p. predecessors u ! v = Some p \<longrightarrow> (p, v, wt v) \<in> set (edge_list g)"
      using expl by (auto simp: explained_def)
    ultimately show ?thesis
      using walk_of_back_walk [of g "predecessors u" wt zs] zs(2) by auto
  qed
  have finite: "finite_weight (distances u ! v) \<longleftrightarrow> v = s \<or> predecessors u ! v \<noteq> None" if "v < node_count g" for v
    using expl src that by (auto simp: explained_def split: option.splits if_splits)
  show ?thesis
    using reach finite settled_shortest [OF assms(1-4)] assms(5) len by (auto simp: nodes_from_predecessors_def) blast+
qed

text \<open>After all passes an edge that still improves a distance lies on or behind a negative cycle.\<close>

lemma marked_cycle:
  assumes inv: "search_inv g s bound wt u" and within: "edges_within W g" and b: "bound + W \<le> B"
    and short: "shortest_within g s (node_count g - 1) u" and e: "(i, j, w) \<in> set (edge_list g)"
    and better: "m_less ms (m_add ms (distances u ! i) w) (distances u ! j)"
  shows "\<exists>c es. find_cycle ((predecessors u)[j := Some i]) j None = Some (Ok (Some c)) \<and> closed_cycle c \<and>
    walk g (hd c) es (hd c) \<and> c = walk_nodes (hd c) es \<and> total es < 0"
proof -
  let ?preds = "(predecessors u)[j := Some i]" and ?wt = "wt(j := w)"
  have len: "length (predecessors u) = node_count g" and expl: "explained g s wt (predecessors u) (distances u)"
    and neg: "rings_negative wt (predecessors u)"
    using inv by (auto simp: search_inv_def)
  have ij: "i < node_count g" "j < node_count g"
    using within e by (auto simp: edges_within_def)
  have fin: "finite_weight (distances u ! i)"
    and less: "finite_weight (distances u ! j) \<Longrightarrow> val (distances u ! i) + val w < val (distances u ! j)"
    using relaxable_iff(1) [OF within e exact_fromI [OF inv ij(1) b]] better by auto
  have edges: "\<forall>v < node_count g. \<forall>p. ?preds ! v = Some p \<longrightarrow> (p, v, ?wt v) \<in> set (edge_list g)"
    using expl e ij len by (auto simp: explained_def nth_list_update)
  have wf: "preds_wf ?preds"
    using explained_wf [OF expl len] ij len by (intro preds_wf_update) simp_all
  obtain r xs where r: "find_cycle ?preds j None = Some (Ok r)" and xs: "back_walk ?preds xs" "hd xs = j"
    and res: "case r of
         None \<Rightarrow> ?preds ! last xs = None
       | Some cyc \<Rightarrow> closed_cycle cyc \<and> successively (\<lambda>a b. ?preds ! b = Some a) cyc \<and> set cyc \<subseteq> set xs"
    using find_cycle_spec [OF wf, of j None] ij(2) len by (auto split: option.splits)
  show ?thesis
  proof (cases r)
    case None
    obtain ys where ys: "xs = j # ys"
      using xs by (cases xs) (auto simp: back_walk_def)
    have "ys \<noteq> []" "hd ys = i"
      using ys xs(1) res None ij len by (auto simp: back_walk_def successively_Cons)
    have jy: "j \<notin> set ys" "distinct xs" "set xs \<subseteq> {..<node_count g}"
      using xs(1) ys len by (auto simp: back_walk_def)
    have chain: "successively (\<lambda>a b. predecessors u ! a = Some b) ys"
      using xs(1) ys jy successively_update [of j ys "predecessors u" "Some i"]
      by (auto simp: back_walk_def successively_Cons dest: in_set_butlastD)
    have walk: "back_walk (predecessors u) ys"
      using chain \<open>ys \<noteq> []\<close> jy ys len by (auto simp: back_walk_def)
    have "last ys \<noteq> j"
      using jy(1) last_in_set [OF \<open>ys \<noteq> []\<close>] by auto
    then have root: "predecessors u ! last ys = None"
      using res None ys \<open>ys \<noteq> []\<close> by simp
    have s: "last ys = s" "val (distances u ! s) = 0"
      using explained_root [OF expl len walk root] fin \<open>hd ys = i\<close> by auto
    have tele: "(\<Sum>v \<leftarrow> butlast ys. val (wt v)) \<le> val (distances u ! i)"
      using explained_telescope [OF expl len, of ys] chain s \<open>ys \<noteq> []\<close> \<open>hd ys = i\<close> jy ys by auto
    have bw: "xs \<noteq> []" "set xs \<subseteq> {..<node_count g}" "successively (\<lambda>a b. ?preds ! a = Some b) xs"
      using xs(1) jy(3) by (auto simp: back_walk_def)
    have "walk g (last xs) (labelled ?wt (rev xs)) (hd xs)" "total (labelled ?wt (rev xs)) = (\<Sum>v \<leftarrow> butlast xs. val (?wt v))"
      using walk_of_back_walk [where wt = ?wt, OF edges bw] by blast+
    moreover have "length (labelled ?wt (rev xs)) \<le> node_count g - 1"
      using jy(2,3) card_mono [of "{..<node_count g}" "set xs"] by (simp add: labelled_def links_def distinct_card)
    moreover have "(\<Sum>v \<leftarrow> butlast xs. val (?wt v)) = val w + (\<Sum>v \<leftarrow> butlast ys. val (wt v))"
      using ys \<open>ys \<noteq> []\<close> jy(1) by (auto intro!: arg_cong [of _ _ sum_list] dest: in_set_butlastD)
    ultimately have "finite_weight (distances u ! j) \<and> val (distances u ! j) \<le> val w + val (distances u ! i)"
      using short s(1) ys \<open>ys \<noteq> []\<close> tele by (force simp: shortest_within_def)
    then show ?thesis using less by simp
  next
    case (Some c)
    have c: "closed_cycle c" "successively (\<lambda>a b. ?preds ! b = Some a) c" "set c \<subseteq> {..<node_count g}"
      using res Some xs(1) len by (auto simp: back_walk_def)
    have zs: "rev c \<noteq> []" "set (rev c) \<subseteq> {..<node_count g}" "successively (\<lambda>a b. ?preds ! a = Some b) (rev c)"
      using c by (auto simp: closed_cycle_def)
    have last: "last (rev c) = hd c" "hd (rev c) = hd c"
      using c(1) zs(1) by (auto simp: last_rev hd_rev closed_cycle_def)
    note w = walk_of_back_walk [where wt = ?wt, OF edges zs, unfolded last rev_rev_ident]
    have rc: "rev c = rev (tl c) @ [hd (rev (tl c))]" "tl c \<noteq> []" "distinct (tl c)"
    proof -
      show ne: "tl c \<noteq> []" and "distinct (tl c)"
        using c(1) by (cases c; auto simp: closed_cycle_def)+
      have "hd (rev (tl c)) = hd c"
        using ne c(1) by (simp add: hd_rev last_tl closed_cycle_def)
      moreover have "rev c = rev (tl c) @ [hd c]"
        using ne by (cases c) auto
      ultimately show "rev c = rev (tl c) @ [hd (rev (tl c))]" by simp
    qed
    then have "ring ?preds (rev (tl c))"
      using zs(3) unfolding rc(1) by (simp add: ring_def)
    moreover have "rings_negative ?wt ?preds"
      using expl neg len ij(2) fin less by (intro rings_negative_update [of g s wt _ "distances u"]) auto
    ultimately have "(\<Sum>v \<in> set (tl c). val (?wt v)) < 0"
      using c(3) len list.set_sel(2) [of c] by (fastforce simp: rings_negative_def)
    moreover have "butlast (rev c) = rev (tl c)"
      by (cases c) (auto simp: butlast_append)
    moreover have "distinct (tl c)" using c(1) by (simp add: closed_cycle_def)
    ultimately have "total (labelled ?wt c) < 0"
      using w by (simp add: sum_list_distinct_conv_sum_set)
    then show ?thesis
      using r Some c(1) w by (intro exI [of _ c] exI [of _ "labelled ?wt c"]) simp
  qed
qed

lemma search_inv_start:
  assumes "s < node_count g"
  shows "search_inv g s 0 wt \<lparr>predecessors = replicate (node_count g) None,
      distances = (replicate (node_count g) (m_infinite ms))[s := m_zero ms]\<rparr>"
    "shortest_within g s 0 \<lparr>predecessors = replicate (node_count g) None,
      distances = (replicate (node_count g) (m_infinite ms))[s := m_zero ms]\<rparr>"
proof -
  have "\<not> ring (replicate (node_count g) None) xs" if "set xs \<subseteq> {..<node_count g}" for xs
    using that by (cases xs; cases "tl xs") (auto simp: ring_def)
  then show "search_inv g s 0 wt \<lparr>predecessors = replicate (node_count g) None,
      distances = (replicate (node_count g) (m_infinite ms))[s := m_zero ms]\<rparr>"
    using assms zero by (auto simp: search_inv_def explained_def rings_negative_def nth_list_update)
  show "shortest_within g s 0 \<lparr>predecessors = replicate (node_count g) None,
      distances = (replicate (node_count g) (m_infinite ms))[s := m_zero ms]\<rparr>"
    using assms zero by (auto simp: shortest_within_def)
qed

text \<open>The result of the search without a bound on the hops.\<close>

definition search_result_ok :: "'w graph \<Rightarrow> node \<Rightarrow> (negative_cycle, 'w store) result option \<Rightarrow> bool" where
  "search_result_ok g s r \<longleftrightarrow>
     (case r of
        Some (Ok st) \<Rightarrow> set (connected_nodes st s) = {v. v < node_count g \<and> (\<exists>es. walk g s es v)} \<and>
          (\<forall>v < node_count g. case path_to st s v of
            Ok (Some p) \<Rightarrow> \<exists>es. walk g s es v \<and> p = walk_nodes s es \<and> distinct p \<and> (\<forall>es'. walk g s es' v \<longrightarrow> total es \<le> total es')
          | Ok None \<Rightarrow> \<not> (\<exists>es. walk g s es v)
          | _ \<Rightarrow> False)
      | Some (Err c) \<Rightarrow> closed_cycle c \<and> (\<exists>es. walk g (hd c) es (hd c) \<and> c = walk_nodes (hd c) es \<and> total es < 0)
      | _ \<Rightarrow> False)"

lemma shortest_path_unbounded:
  assumes "edges_within W g" "s < node_count g" "W * (pass_bound g * int (node_count g) + 1) \<le> B"
  shows "search_result_ok g s (shortest_path ms g s None)"
proof -
  let ?u0 = "\<lparr>predecessors = replicate (node_count g) None, distances = (replicate (node_count g) (m_infinite ms))[s := m_zero ms]\<rparr>"
  have W: "0 \<le> W" "0 \<le> pass_bound g" using assms(1) by (simp_all add: edges_within_def pass_bound_def)
  have "W * (pass_bound g * int (node_count g - 1) + 1) \<le> W * (pass_bound g * int (node_count g) + 1)"
    using W by (intro mult_left_mono add_right_mono mult_left_mono) auto
  then obtain u wt bound where passes: "relax_passes ms g (node_count g - 1) (UnboundedStore ?u0) = UnboundedStore u"
    and inv: "search_inv g s bound wt u" "bound + W \<le> B" "shortest_within g s (node_count g - 1) u"
    using relax_passes_unbounded [OF assms(1) search_inv_start [OF assms(2)], of "node_count g - 1"] assms(3) by auto
  show ?thesis
  proof (cases "List.find (\<lambda>(i, j, w). m_less ms (m_add ms (distances u ! i) w) (distances u ! j)) (edge_list g)")
    case None
    then have "settled g u"
      by (auto simp: settled_def find_None_iff)
    moreover have "shortest_path ms g s None = Some (Ok (UnboundedStore u))"
      using passes None assms(2) by (simp add: shortest_path_def bellman_ford_def graph_find_cycle_def Let_def)
    ultimately show ?thesis
      using settled_paths [OF inv(1) assms(1) inv(2) _ assms(2)] settled_connected [OF inv(1) assms(1) inv(2) _ assms(2)]
      by (simp add: search_result_ok_def del: path_to.simps connected_nodes.simps)
  next
    case (Some e)
    obtain i j w where e: "e = (i, j, w)" by (cases e)
    obtain k where "k < length (edge_list g)" "edge_list g ! k = e"
      and less: "m_less ms (m_add ms (distances u ! i) w) (distances u ! j)"
      using Some e by (auto simp: find_Some_iff)
    then have "e \<in> set (edge_list g)"
      using nth_mem by metis
    with less obtain c es where "find_cycle ((predecessors u)[j := Some i]) j None = Some (Ok (Some c))" "closed_cycle c"
      "walk g (hd c) es (hd c) \<and> c = walk_nodes (hd c) es \<and> total es < 0"
      using marked_cycle [OF inv(1) assms(1) inv(2,3), of i j w] e by auto
    moreover from this have "shortest_path ms g s None = Some (Err c)"
      using passes Some e assms(2) by (simp add: shortest_path_def bellman_ford_def graph_find_cycle_def Let_def)
    ultimately show ?thesis
      by (auto simp: search_result_ok_def)
  qed
qed

end

section \<open>Weights\<close>

text \<open>
  The weights of the order graph (\<open>src/pricegraph/src/orderbook/weight.rs\<close>): signed fixed point
  numbers of 128 bits, the greatest of which stands for infinity.
\<close>

type_synonym weight = "128 word"

definition weight_zero :: weight where
  "weight_zero = 0"

definition weight_infinite :: weight where
  "weight_infinite = 2 ^ 127 - 1"

definition weight_add :: "weight \<Rightarrow> weight \<Rightarrow> weight" where
  "weight_add a b = (if a = weight_infinite \<or> b = weight_infinite then weight_infinite else a + b)"

definition weight_less :: "weight \<Rightarrow> weight \<Rightarrow> bool" where
  "weight_less a b \<longleftrightarrow> sint a < sint b"

definition weight_measure :: "weight measure" where
  "weight_measure = \<lparr>m_zero = weight_zero, m_infinite = weight_infinite, m_add = weight_add, m_less = weight_less\<rparr>"

lemma sint_weight_infinite: "sint weight_infinite = 2 ^ 127 - 1"
  by (simp add: weight_infinite_def)

lemma sint_less_infinite: "a \<noteq> weight_infinite \<Longrightarrow> sint a < 2 ^ 127 - 1"
proof -
  assume a: "a \<noteq> weight_infinite"
  have "sint a \<le> 2 ^ 127 - 1"
    using sint_lt [of a] by simp
  moreover have "sint a \<noteq> 2 ^ 127 - 1"
    using a sint_weight_infinite by (metis signed_word_eqI)
  ultimately show ?thesis by simp
qed

lemma sint_add_exact:
  fixes a b :: weight
  assumes "\<bar>sint a\<bar> + \<bar>sint b\<bar> \<le> 2 ^ 127 - 2"
  shows "sint (a + b) = sint a + sint b"
proof -
  have "signed_take_bit 127 (sint a + sint b) = sint a + sint b"
    using assms by (intro signed_take_bit_int_eq_self) auto
  then show ?thesis by (simp add: sint_word_ariths)
qed

interpretation weights: exact_measure weight_measure sint "2 ^ 127 - 2"
proof
  fix a b :: weight
  assume "a \<noteq> m_infinite weight_measure" "b \<noteq> m_infinite weight_measure" and bound: "\<bar>sint a\<bar> + \<bar>sint b\<bar> \<le> 2 ^ 127 - 2"
  then have add: "m_add weight_measure a b = a + b"
    by (simp add: weight_measure_def weight_add_def)
  have "sint (a + b) \<noteq> 2 ^ 127 - 1"
    using sint_add_exact [OF bound] bound by linarith
  then have "a + b \<noteq> weight_infinite"
    using sint_weight_infinite by metis
  then show "m_add weight_measure a b \<noteq> m_infinite weight_measure \<and> sint (m_add weight_measure a b) = sint a + sint b"
    using sint_add_exact [OF bound] add by (simp add: weight_measure_def)
next
  fix a :: weight
  show "a \<noteq> m_infinite weight_measure \<Longrightarrow> m_less weight_measure a (m_infinite weight_measure)"
    "\<not> m_less weight_measure (m_infinite weight_measure) a"
    using sint_less_infinite [of a] sint_weight_infinite
    by (cases "a = weight_infinite"; simp add: weight_measure_def weight_less_def)+
qed (use sint_weight_infinite in \<open>auto simp: weight_measure_def weight_add_def weight_less_def weight_zero_def\<close>)

section \<open>Shortest paths in the order graph\<close>

definition weight_total :: "(node \<times> node \<times> weight) list \<Rightarrow> int" where
  "weight_total es = (\<Sum>(i, j, w) \<leftarrow> es. sint w)"

definition graph_wf :: "'w measure \<Rightarrow> 'w graph \<Rightarrow> bool" where
  "graph_wf ms g \<longleftrightarrow> (\<forall>(i, j, w) \<in> set (edge_list g). j < node_count g \<and> w \<noteq> m_infinite ms)"

lemma edge_list_source: "(i, j, w) \<in> set (edge_list g) \<Longrightarrow> i < node_count g"
  by (auto simp: edge_list_def)

text \<open>
  C3: without a bound on the hops the search over the order graph returns and does not panic, as
  long as the weights cannot overflow.  Either it finds, for every node, a path from the source
  of least total weight and without repeated nodes, exactly when there is one, and lists the nodes it can reach; or it
  returns a cycle of the graph whose total weight is negative.
\<close>

theorem shortest_path_correct:
  assumes "graph_wf weight_measure g" "s < node_count g"
    and "\<forall>(i, j, w) \<in> set (edge_list g). \<bar>sint w\<bar> \<le> W" "0 \<le> W"
    and "W * (pass_bound g * int (node_count g) + 1) \<le> 2 ^ 127 - 2"
  shows "case shortest_path weight_measure g s None of
      Some (Ok st) \<Rightarrow> set (connected_nodes st s) = {v. v < node_count g \<and> (\<exists>es. walk g s es v)} \<and>
        (\<forall>v < node_count g. case path_to st s v of
          Ok (Some p) \<Rightarrow> \<exists>es. walk g s es v \<and> p = walk_nodes s es \<and> distinct p \<and> (\<forall>es'. walk g s es' v \<longrightarrow> weight_total es \<le> weight_total es')
        | Ok None \<Rightarrow> \<not> (\<exists>es. walk g s es v)
        | _ \<Rightarrow> False)
    | Some (Err c) \<Rightarrow> closed_cycle c \<and> (\<exists>es. walk g (hd c) es (hd c) \<and> c = walk_nodes (hd c) es \<and> weight_total es < 0)
    | _ \<Rightarrow> False"
proof -
  have "weights.edges_within W g"
    using assms edge_list_source by (fastforce simp: weights.edges_within_def graph_wf_def)
  from weights.shortest_path_unbounded [OF this assms(2,5)] show ?thesis
    unfolding weights.search_result_ok_def weights.total_def weight_total_def .
qed

definition detour_graph :: "weight graph" where
  "detour_graph = \<lparr>node_count = 4,
     out_edges = (\<lambda>i. if i = 0 then [(1, 1), (2, 2)] else if i = 1 then [(3, 1)] else if i = 2 then [(3, 5)] else [])\<rparr>"

lemma detour_edges:
  "edge_list detour_graph = [(0, 1, 1), (0, 2, 2), (1, 3, 1), (2, 3, 5)]" "node_count detour_graph = 4"
  by (simp_all add: edge_list_def detour_graph_def upt_rec)

lemma shortest_path_correct_witness:
  "shortest_path weight_measure detour_graph 0 None \<noteq> None \<and> shortest_path weight_measure detour_graph 0 None \<noteq> Some Panic"
proof -
  have "graph_wf weight_measure detour_graph" "0 < node_count detour_graph"
    "\<forall>(i, j, w) \<in> set (edge_list detour_graph). \<bar>sint w\<bar> \<le> 5"
    by (simp_all add: graph_wf_def detour_edges weight_measure_def weight_infinite_def)
  moreover have "pass_bound detour_graph = 4"
    by (simp add: pass_bound_def detour_edges)
  ultimately show ?thesis
    using shortest_path_correct [of detour_graph 0 5] by (auto simp: detour_edges split: option.splits result.splits)
qed

text \<open>The two passes over the graph, step by step.\<close>

lemmas detour_eval =
  relax_edge_def weight_measure_def weight_add_def weight_less_def weight_infinite_def weight_zero_def

lemma detour_first_pass:
  "foldl (relax_edge weight_measure)
     (BoundedStore (bounded_new [None, None, None, None] [0, weight_infinite, weight_infinite, weight_infinite]), False)
     (edge_list detour_graph) =
   (BoundedStore \<lparr>predecessors_at_step = [[None, Some 0, Some 0, None]],
      current_distances = [0, weight_infinite, weight_infinite, weight_infinite],
      pending_distances = [0, 1, 2, weight_infinite]\<rparr>, True)"
  by (simp add: detour_edges detour_eval bounded_new_def)

lemma detour_second_pass:
  "foldl (relax_edge weight_measure)
     (BoundedStore \<lparr>predecessors_at_step = [[None, Some 0, Some 0, None], [None, None, None, None]],
        current_distances = [0, 1, 2, weight_infinite], pending_distances = [0, 1, 2, weight_infinite]\<rparr>, False)
     (edge_list detour_graph) =
   (BoundedStore \<lparr>predecessors_at_step = [[None, Some 0, Some 0, None], [None, None, None, Some 2]],
      current_distances = [0, 1, 2, weight_infinite], pending_distances = [0, 1, 2, 7]\<rparr>, True)"
  by (simp add: detour_edges detour_eval)

lemma detour_passes:
  "relax_passes weight_measure detour_graph 2
     (BoundedStore (bounded_new [None, None, None, None] [0, weight_infinite, weight_infinite, weight_infinite])) =
   BoundedStore \<lparr>predecessors_at_step =
        [[None, Some 0, Some 0, None], [None, None, None, Some 2], [None, None, None, None]],
      current_distances = [0, 1, 2, 7], pending_distances = [0, 1, 2, 7]\<rparr>"
  unfolding numeral_2_eq_2 relax_passes.simps detour_first_pass
  by (simp add: detour_second_pass)

lemma detour_search:
  "shortest_path weight_measure detour_graph 0 (Some 2) =
     Some (Ok (BoundedStore \<lparr>predecessors_at_step =
        [[None, Some 0, Some 0, None], [None, None, None, Some 2], [None, None, None, None]],
      current_distances = [0, 1, 2, 7], pending_distances = [0, 1, 2, 7]\<rparr>))"
proof -
  have four: "replicate 4 x = [x, x, x, x]" for x :: 'x
    by (simp add: eval_nat_numeral)
  have nodes: "[0..<4] = [0, 1, 2, 3]"
    by (simp add: upt_rec)
  show ?thesis
    by (simp add: shortest_path_def bellman_ford_def graph_find_cycle_def Let_def detour_edges four nodes detour_passes
        [unfolded bounded_new_def weight_measure_def weight_zero_def] bounded_new_def weight_measure_def weight_zero_def)
qed

text \<open>
  With a bound on the hops the path that is found need not be the shortest one.  In a graph
  with the edges \<open>0 -> 1 -> 3\<close> of total weight 2 and \<open>0 -> 2 -> 3\<close> of total weight 7, the search with
  at most two hops returns the second path: improvements are compared with the distances of the
  previous pass, and the last one in a pass wins.
\<close>

theorem bounded_search_not_shortest:
  "(case shortest_path weight_measure detour_graph 0 (Some 2) of
      Some (Ok st) \<Rightarrow> path_to st 0 3 = Ok (Some [0, 2, 3])
    | _ \<Rightarrow> False) \<and>
   walk detour_graph 0 [(0, 2, 2), (2, 3, 5)] 3 \<and> weight_total [(0, 2, 2), (2, 3, 5)] = 7 \<and>
   walk detour_graph 0 [(0, 1, 1), (1, 3, 1)] 3 \<and> weight_total [(0, 1, 1), (1, 3, 1)] = 2"
  by (simp add: detour_search detour_edges weight_total_def)

section \<open>Bounded searches stay within their bound\<close>




lemma walk_nodes_snoc [simp]: "walk_nodes u (es @ [(i, j, w)]) = walk_nodes u es @ [j]"
  by (simp add: walk_nodes_def)









end
