(* ===== verification/PriceScalars.thy ===== *)
theory PriceScalars
  imports F64 AuctionElement ShortestPaths
begin

text \<open>
  The numbers of \<open>pricegraph\<close>: \<open>src/pricegraph/src/num.rs\<close>, the limit prices, exchange rates and edge
  weights of \<open>orderbook/scalar.rs\<close> and \<open>orderbook/weight.rs\<close>, the flows of \<open>orderbook/flow.rs\<close>, and the markets
  and transitive orders of \<open>api.rs\<close>.  Newtypes around \<open>f64\<close> are \<open>f64\<close>; what their constructors guarantee
  is the predicate \<open>is_strictly_positive_and_finite\<close>.  The binary logarithm of the platform is the
  parameter \<open>log2\<close>.
\<close>

section \<open>Constants\<close>

definition MIN_AMOUNT :: u128 where
  "MIN_AMOUNT = 10000"

definition FEE_FACTOR :: f64 where
  "FEE_FACTOR = f64_div (Num 1) (f64_round (999 / 1000))"

section \<open>Floating point helpers\<close>

datatype ordering = Less | Equal | Greater

text \<open>\<open>partial_cmp\<close> of \<open>f64\<close>.\<close>

definition partial_cmp :: "f64 \<Rightarrow> f64 \<Rightarrow> ordering option" where
  "partial_cmp a b =
     (if a = NaN \<or> b = NaN then None
      else if f64_less a b then Some Less
      else if f64_less b a then Some Greater
      else Some Equal)"

definition u256_to_u128_saturating :: "u256 \<Rightarrow> u128" where
  "u256_to_u128_saturating u = ucast (min u (2 ^ 128 - 1))"

definition num_min :: "f64 \<Rightarrow> f64 \<Rightarrow> ('e, f64) result" where
  "num_min a b = rbind (unwrap (partial_cmp a b)) (\<lambda>c. Ok (if c = Less then a else b))"

definition num_compare :: "f64 \<Rightarrow> f64 \<Rightarrow> ('e, ordering) result" where
  "num_compare a b = unwrap (partial_cmp a b)"

definition is_strictly_positive_and_finite :: "f64 \<Rightarrow> bool" where
  "is_strictly_positive_and_finite value \<longleftrightarrow> f64_less (Zero False) value \<and> f64_less value (Inf False)"

definition is_dust_amount :: "u128 \<Rightarrow> bool" where
  "is_dust_amount amount \<longleftrightarrow> amount < MIN_AMOUNT"

text \<open>\<open>x as i128\<close>: saturating, truncating towards zero.\<close>

fun f64_as_i128 :: "f64 \<Rightarrow> weight" where
  "f64_as_i128 NaN = 0"
| "f64_as_i128 (Inf s) = (if s then 2 ^ 127 else 2 ^ 127 - 1)"
| "f64_as_i128 (Zero s) = 0"
| "f64_as_i128 (Num q) =
     (if 2 ^ 127 \<le> q then 2 ^ 127 - 1
      else if q \<le> - (2 ^ 127) then 2 ^ 127
      else word_of_int (if 0 \<le> q then \<lfloor>q\<rfloor> else - \<lfloor>- q\<rfloor>))"

section \<open>Limit prices and exchange rates\<close>

type_synonym limit_price = f64
type_synonym exchange_rate = f64

definition FIXED_24X104_SCALING_FACTOR :: f64 where
  "FIXED_24X104_SCALING_FACTOR = Num (2 ^ 104)"

definition weight_new :: "(f64 \<Rightarrow> f64) \<Rightarrow> f64 \<Rightarrow> weight" where
  "weight_new log2 value = f64_as_i128 (f64_mul (log2 value) FIXED_24X104_SCALING_FACTOR)"

definition limit_price_new :: "f64 \<Rightarrow> limit_price option" where
  "limit_price_new value = (if is_strictly_positive_and_finite value then Some value else None)"

definition limit_price_from_raw :: "f64 \<Rightarrow> ('e, limit_price) result" where
  "limit_price_from_raw value = unwrap (limit_price_new value)"

definition limit_price_from_fraction :: "price_fraction \<Rightarrow> limit_price option" where
  "limit_price_from_fraction price =
     (if price_numer price \<noteq> 0 \<and> price_denom price \<noteq> 0
      then Some (f64_div (f64_of_nat (unat (price_numer price))) (f64_of_nat (unat (price_denom price))))
      else None)"

definition price_exchange_rate :: "limit_price \<Rightarrow> exchange_rate" where
  "price_exchange_rate price = f64_mul price FEE_FACTOR"

definition rate_identity :: exchange_rate where
  "rate_identity = Num 1"

definition rate_new :: "f64 \<Rightarrow> exchange_rate option" where
  "rate_new value = (if is_strictly_positive_and_finite value then Some value else None)"

definition rate_price :: "exchange_rate \<Rightarrow> limit_price" where
  "rate_price rate = f64_div rate FEE_FACTOR"

definition rate_inverse :: "exchange_rate \<Rightarrow> exchange_rate" where
  "rate_inverse rate = f64_div (Num 1) rate"

definition rate_weight :: "(f64 \<Rightarrow> f64) \<Rightarrow> exchange_rate \<Rightarrow> weight" where
  "rate_weight log2 rate = weight_new log2 rate"

definition rate_checked_mul :: "exchange_rate \<Rightarrow> exchange_rate \<Rightarrow> exchange_rate option" where
  "rate_checked_mul a b =
     (let product = f64_mul a b in if is_strictly_positive_and_finite product then Some product else None)"

text \<open>\<open>Ord::cmp\<close> of the newtypes and \<open>cmp::max\<close> with it.\<close>

definition rate_cmp :: "exchange_rate \<Rightarrow> exchange_rate \<Rightarrow> ('e, ordering) result" where
  "rate_cmp a b = unwrap (partial_cmp a b)"

definition rate_max :: "exchange_rate \<Rightarrow> exchange_rate \<Rightarrow> ('e, exchange_rate) result" where
  "rate_max a b = rbind (rate_cmp a b) (\<lambda>c. Ok (if c = Greater then a else b))"

section \<open>Markets, transitive orders and flows\<close>

record transitive_order =
  tr_buy :: f64
  tr_sell :: f64

definition tr_exchange_rate :: "transitive_order \<Rightarrow> f64" where
  "tr_exchange_rate ord = f64_div (tr_buy ord) (tr_sell ord)"

definition effective_exchange_rate :: "transitive_order \<Rightarrow> f64" where
  "effective_exchange_rate ord = f64_mul (tr_exchange_rate ord) FEE_FACTOR"

record pg_market =
  market_base :: u16
  market_quote :: u16

definition ask_pair :: "pg_market \<Rightarrow> token_pair" where
  "ask_pair m = \<lparr>pair_buy = market_quote m, pair_sell = market_base m\<rparr>"

definition bid_pair :: "pg_market \<Rightarrow> token_pair" where
  "bid_pair m = \<lparr>pair_buy = market_base m, pair_sell = market_quote m\<rparr>"

definition market_inverse :: "pg_market \<Rightarrow> pg_market" where
  "market_inverse m = \<lparr>market_base = market_quote m, market_quote = market_base m\<rparr>"

record flow =
  flow_rate :: exchange_rate
  flow_capacity :: f64
  flow_min_trade :: f64

definition as_transitive_order :: "flow \<Rightarrow> transitive_order" where
  "as_transitive_order fl =
     \<lparr>tr_buy = f64_div (flow_capacity fl) FEE_FACTOR, tr_sell = f64_div (flow_capacity fl) (flow_rate fl)\<rparr>"

definition is_dust_trade :: "flow \<Rightarrow> bool" where
  "is_dust_trade fl \<longleftrightarrow> is_dust_amount (f64_as_u128 (flow_min_trade fl))"

record ring_trade =
  ring_ask :: flow
  ring_bid :: flow

section \<open>Rounding of positive numbers\<close>

lemma pow2_le_iff: "pow2 a \<le> pow2 b \<longleftrightarrow> a \<le> b"
  using pow2_less [of a b] pow2_less [of b a] by (cases a b rule: linorder_cases) auto

lemma pow2_less_iff: "pow2 a < pow2 b \<longleftrightarrow> a < b"
  using pow2_le_iff [of b a] by auto

lemma expo_ge: "pow2 e \<le> q \<Longrightarrow> e \<le> expo q"
proof -
  assume e: "pow2 e \<le> q"
  then have "0 < q" using pow2_pos [of e] by linarith
  from expo_bounds [OF this] e have "pow2 e < pow2 (expo q + 1)" by linarith
  then show ?thesis by (simp add: pow2_less_iff)
qed

lemma expo_less: "0 < q \<Longrightarrow> q < pow2 e \<Longrightarrow> expo q < e"
  using expo_bounds [of q] pow2_less_iff [of "expo q" e] by fastforce

lemma round_half_even_ge: "of_int z \<le> q \<Longrightarrow> z \<le> round_half_even q"
  using le_floor_iff [of z q] by (auto simp: round_half_even_def Let_def)

lemma round_half_even_le: "q \<le> of_int z \<Longrightarrow> round_half_even q \<le> z"
proof -
  assume q: "q \<le> of_int z"
  show ?thesis
  proof (cases "q = of_int z")
    case False
    with q have "\<lfloor>q\<rfloor> < z" by (simp add: floor_less_iff)
    then show ?thesis by (simp add: round_half_even_def Let_def)
  qed simp
qed

text \<open>Rounding stays within the powers of two around a number.\<close>

lemma round_to_ulp:
  assumes "0 < q" "- 1022 \<le> expo q"
  shows "pow2 (expo q) \<le> of_int (round_half_even (q / ulp q)) * ulp q"
    and "of_int (round_half_even (q / ulp q)) * ulp q \<le> pow2 (expo q + 1)"
proof -
  let ?e = "expo q"
  have u: "ulp q = pow2 (?e - 52)"
    using assms(2) by (simp add: ulp_def)
  have p52: "pow2 ?e = of_int (2 ^ 52) * ulp q" and p53: "pow2 (?e + 1) = of_int (2 ^ 53) * ulp q"
    using pow2_add [of 52 "?e - 52"] pow2_add [of 53 "?e - 52"]
    by (simp_all add: u pow2_def [of 52] pow2_def [of 53] add.commute)
  define r where "r = round_half_even (q / ulp q)"
  have "of_int (2 ^ 52) \<le> q / ulp q" "q / ulp q \<le> of_int (2 ^ 53)"
    using expo_bounds [OF assms(1)] ulp_pos [of q] by (simp_all add: le_divide_eq divide_le_eq p52 p53)
  then have "2 ^ 52 \<le> r" "r \<le> 2 ^ 53"
    unfolding r_def by (blast intro: round_half_even_ge round_half_even_le)+
  then have "of_int (2 ^ 52) \<le> (of_int r :: rat)" "(of_int r :: rat) \<le> of_int (2 ^ 53)"
    by (simp_all only: of_int_le_iff)
  then show "pow2 ?e \<le> of_int (round_half_even (q / ulp q)) * ulp q"
    "of_int (round_half_even (q / ulp q)) * ulp q \<le> pow2 (?e + 1)"
    using ulp_pos [of q] by (simp_all only: p52 p53 r_def [symmetric] mult_right_mono less_imp_le)
qed

lemma f64_round_ge:
  assumes "pow2 e \<le> q" "- 1022 \<le> e"
  shows "f64_round q = Inf False \<or> (\<exists>v. f64_round q = Num v \<and> pow2 e \<le> v \<and> v < 2 ^ 1024)"
proof -
  have q: "0 < q" using assms(1) pow2_pos [of e] by linarith
  have e: "e \<le> expo q" by (rule expo_ge) (rule assms)
  then have "pow2 e \<le> of_int (round_half_even (q / ulp q)) * ulp q"
    using round_to_ulp(1) [OF q] assms(2) pow2_le_iff [of e "expo q"] by linarith
  then show ?thesis
    using q pow2_pos [of e] by (auto simp: f64_round_def Let_def not_le [symmetric] simp del: pow2_pos)
qed

lemma f64_round_expo:
  assumes "0 < q" "- 1022 \<le> expo q" "expo q < 1023"
  obtains v where "f64_round q = Num v" "pow2 (expo q) \<le> v" "v \<le> pow2 (expo q + 1)"
proof -
  have "pow2 (expo q + 1) \<le> pow2 1023"
    using assms(3) by (simp add: pow2_le_iff)
  also have "\<dots> < 2 ^ 1024"
    by (simp add: pow2_def)
  finally have "of_int (round_half_even (q / ulp q)) * ulp q < 2 ^ 1024"
    using round_to_ulp(2) [OF assms(1,2)] by linarith
  moreover have "of_int (round_half_even (q / ulp q)) * ulp q \<noteq> 0"
    using round_to_ulp(1) [OF assms(1,2)] pow2_pos [of "expo q"] by linarith
  ultimately have "f64_round q = Num (of_int (round_half_even (q / ulp q)) * ulp q)"
    using assms(1) by (simp add: f64_round_def Let_def)
  with round_to_ulp [OF assms(1,2)] that show ?thesis by blast
qed

lemma f64_round_between:
  assumes "pow2 a \<le> q" "q < pow2 b" "- 1022 \<le> a" "b \<le> 1023"
  obtains v where "f64_round q = Num v" "pow2 a \<le> v" "v \<le> pow2 b"
proof -
  have q: "0 < q" using assms(1) pow2_pos [of a] by linarith
  have e: "a \<le> expo q" "expo q < b"
    using expo_ge [OF assms(1)] expo_less [OF q assms(2)] by simp_all
  then obtain v where v: "f64_round q = Num v" "pow2 (expo q) \<le> v" "v \<le> pow2 (expo q + 1)"
    using f64_round_expo [OF q] assms(3,4) by auto
  moreover have "pow2 a \<le> pow2 (expo q)" "pow2 (expo q + 1) \<le> pow2 b"
    using e by (simp_all add: pow2_le_iff)
  ultimately show ?thesis
    using that [of v] by linarith
qed

lemma f64_round_overflow: "pow2 1024 \<le> q \<Longrightarrow> f64_round q = Inf False"
  using f64_round_ge [of 1024 q] by (auto simp: pow2_def)

text \<open>Every result of rounding is a multiple of the least positive number, \<open>2 ^ - 1074\<close>.\<close>

lemma f64_round_least:
  assumes "0 < q" "f64_round q = Num v"
  shows "pow2 (- 1074) \<le> v"
proof -
  define r where "r = round_half_even (q / ulp q)"
  have v: "v = of_int r * ulp q"
    using assms by (auto simp: f64_round_def Let_def r_def split: if_splits)
  have "0 \<le> r"
    unfolding r_def using assms(1) ulp_pos [of q] by (intro round_half_even_ge) simp
  moreover have "v \<noteq> 0"
    using assms by (auto simp: f64_round_def Let_def split: if_splits)
  ultimately have "1 \<le> r"
    using v by (cases "r = 0") auto
  then have "1 * ulp q \<le> v"
    unfolding v using ulp_pos [of q] by (intro mult_right_mono) auto
  moreover have "pow2 (- 1074) \<le> ulp q"
    by (simp add: ulp_def pow2_le_iff)
  ultimately show ?thesis by simp
qed

section \<open>Valid rates\<close>

lemma is_strictly_positive_and_finite_iff:
  "is_strictly_positive_and_finite x \<longleftrightarrow> (\<exists>q. x = Num q \<and> 0 < q)"
  by (cases x) (auto simp: is_strictly_positive_and_finite_def)

lemma FEE_FACTOR_eq: "FEE_FACTOR = Num (2254053867552801 / 2251799813685248)"
proof -
  have r: "f64_round (999 / 1000) = Num (8998192055486251 / 9007199254740992)"
    using f64_round_eval [of "- 1" "999 / 1000" 8998192055486251] by (simp add: pow2_def round_half_even_def Let_def)
  have "f64_round (9007199254740992 / 8998192055486251) = Num (2254053867552801 / 2251799813685248)"
    using f64_round_eval [of 0 "9007199254740992 / 8998192055486251" 4508107735105602]
    by (simp add: pow2_def round_half_even_def Let_def)
  then show ?thesis
    by (simp add: FEE_FACTOR_def r f64_div_def)
qed

text \<open>A rate that comes from the limit price of an order.\<close>

definition order_rate :: "exchange_rate \<Rightarrow> bool" where
  "order_rate r \<longleftrightarrow> (case r of Num q \<Rightarrow> pow2 (- 130) \<le> q \<and> q \<le> pow2 130 | _ \<Rightarrow> False)"

lemma order_rate_positive: "order_rate r \<Longrightarrow> is_strictly_positive_and_finite r"
  by (auto simp: order_rate_def is_strictly_positive_and_finite_iff intro: less_le_trans [OF pow2_pos] split: f64.splits)

lemma f64_of_nat_unat [code_unfold]: "f64_of_nat (unat w) = f64_round (of_int (uint w))" for w :: "'a::len word"
  by (simp add: f64_of_nat_def)

lemma f64_of_nat_between:
  assumes "0 < n" "n < 2 ^ 128"
  obtains q where "f64_of_nat n = Num q" "pow2 0 \<le> q" "q \<le> pow2 128"
proof -
  have "(of_nat n :: rat) < of_nat (2 ^ 128)"
    using assms(2) by (simp only: of_nat_less_iff)
  then have "(of_nat n :: rat) < pow2 128" by (simp add: pow2_def)
  moreover have "pow2 0 \<le> (of_nat n :: rat)"
    using assms(1) by (simp add: pow2_def)
  ultimately obtain q where "f64_round (of_nat n) = Num q" "pow2 0 \<le> q" "q \<le> pow2 128"
    using f64_round_between [of 0 "of_nat n" 128] by auto
  then show ?thesis
    using that by (simp add: f64_of_nat_def)
qed

lemma f64_mul_Num: "0 < p \<Longrightarrow> 0 < q \<Longrightarrow> f64_mul (Num p) (Num q) = f64_round (p * q)"
  by (simp add: f64_mul_def)

lemma f64_div_Num: "0 < p \<Longrightarrow> 0 < q \<Longrightarrow> f64_div (Num p) (Num q) = f64_round (p / q)"
  by (simp add: f64_div_def)

lemma pow2_divide: "pow2 a / pow2 b = pow2 (a - b)"
  using pow2_add [of "a - b" b] by (simp add: field_simps)

text \<open>Every rate that is made from the limit price of an order is valid.\<close>

lemma from_fraction_order_rate:
  assumes "limit_price_from_fraction price = Some p"
  shows "order_rate (price_exchange_rate p)"
proof -
  have "0 < unat (price_numer price)" "0 < unat (price_denom price)"
    and p: "p = f64_div (f64_of_nat (unat (price_numer price))) (f64_of_nat (unat (price_denom price)))"
    using assms by (auto simp: limit_price_from_fraction_def unat_gt_0 split: if_splits)
  moreover have "unat w < 2 ^ 128" for w :: u128
    using unat_less [of w] by simp
  ultimately obtain n d where n: "f64_of_nat (unat (price_numer price)) = Num n" "pow2 0 \<le> n" "n \<le> pow2 128"
    and d: "f64_of_nat (unat (price_denom price)) = Num d" "pow2 0 \<le> d" "d \<le> pow2 128"
    using f64_of_nat_between by metis
  have pos: "0 < n" "0 < d"
    using n(2) d(2) by (simp_all add: pow2_def)
  have "pow2 0 / pow2 128 \<le> n / d" "n / d \<le> pow2 128 / pow2 0"
    using n d pos by (intro frac_le; simp)+
  then have "pow2 (- 128) \<le> n / d" "n / d < pow2 129"
    using pow2_less [of 128 129] by (simp_all add: pow2_divide)
  then obtain q where q: "p = Num q" "pow2 (- 128) \<le> q" "q \<le> pow2 129"
    using f64_round_between [of "- 128" "n / d" 129] pos by (auto simp: p n d f64_div_Num)
  have qpos: "0 < q" using q(2) pow2_pos [of "- 128"] by linarith
  let ?f = "2254053867552801 / 2251799813685248 :: rat"
  have "1 * q \<le> q * ?f" "q * ?f < q * 2"
    using qpos by simp_all
  moreover have "q * 2 \<le> pow2 130"
    using q(3) pow2_add [of 129 1] by (simp add: pow2_def [of 1])
  ultimately have "pow2 (- 128) \<le> q * ?f" "q * ?f < pow2 130"
    using q(2) by linarith+
  then obtain r where "f64_round (q * ?f) = Num r" "pow2 (- 128) \<le> r" "r \<le> pow2 130"
    using f64_round_between [of "- 128" "q * ?f" 130] by auto
  moreover have "pow2 (- 130) \<le> pow2 (- 128)"
    by (simp add: pow2_le_iff)
  moreover have "price_exchange_rate p = f64_round (q * ?f)"
    unfolding price_exchange_rate_def FEE_FACTOR_eq q(1) using qpos by (intro f64_mul_Num) simp_all
  ultimately show ?thesis
    by (simp add: order_rate_def)
qed

section \<open>Weights of rates\<close>

text \<open>
  What is relied on of the platform's binary logarithm: it is a number, and its value for an
  argument between two inverse powers of two lies between the exponents.
\<close>

definition log2_ok :: "(f64 \<Rightarrow> f64) \<Rightarrow> bool" where
  "log2_ok log2 \<longleftrightarrow> (\<forall>k q. pow2 (- int k) \<le> q \<and> q \<le> pow2 (int k) \<longrightarrow>
     (case log2 (Num q) of Num l \<Rightarrow> \<bar>l\<bar> \<le> of_nat k | Zero _ \<Rightarrow> True | _ \<Rightarrow> False))"

definition WEIGHT_BOUND :: int where
  "WEIGHT_BOUND = 2 ^ 112"

lemma round_half_even_abs_le: "0 \<le> q \<Longrightarrow> q \<le> of_int z \<Longrightarrow> 0 \<le> round_half_even q \<and> round_half_even q \<le> z"
  using round_half_even_ge [of 0 q] round_half_even_le [of q z] by simp

text \<open>Scaling by a power of two, and rounding a number below a power of two.\<close>

lemma f64_round_below:
  assumes "0 < q" "q < pow2 b" "- 1022 \<le> b" "b \<le> 1023"
  shows "case f64_round q of Num v \<Rightarrow> 0 < v \<and> v \<le> pow2 b | Zero _ \<Rightarrow> True | _ \<Rightarrow> False"
proof (cases "- 1022 \<le> expo q")
  case True
  then obtain v where v: "f64_round q = Num v" "pow2 (expo q) \<le> v" "v \<le> pow2 (expo q + 1)"
    using f64_round_expo [OF assms(1)] expo_less [OF assms(1,2)] assms(4) by auto
  moreover have "pow2 (expo q + 1) \<le> pow2 b"
    using expo_less [OF assms(1,2)] by (simp add: pow2_le_iff)
  moreover have "0 < v"
    using v(2) pow2_pos [of "expo q"] by linarith
  ultimately show ?thesis by auto
next
  case False
  then have u: "ulp q = pow2 (- 1074)" by (simp add: ulp_def)
  define r where "r = round_half_even (q / ulp q)"
  have "q < pow2 (expo q + 1)" using expo_bounds [OF assms(1)] by simp
  also have "\<dots> \<le> pow2 (- 1022)" using False by (simp add: pow2_le_iff)
  also have "\<dots> = of_int (2 ^ 52) * ulp q"
    using pow2_add [of 52 "- 1074"] by (simp add: u pow2_def [of 52])
  finally have "q / ulp q \<le> of_int (2 ^ 52)"
    using ulp_pos [of q] by (simp add: divide_le_eq)
  then have r: "0 \<le> r" "r \<le> 2 ^ 52"
    unfolding r_def using assms(1) ulp_pos [of q] round_half_even_abs_le [of "q / ulp q" "2 ^ 52"] by simp_all
  then have "(of_int r :: rat) \<le> of_int (2 ^ 52)" by (simp only: of_int_le_iff)
  then have "of_int r * ulp q \<le> of_int (2 ^ 52) * ulp q"
    using ulp_pos [of q] by (intro mult_right_mono) simp_all
  also have "\<dots> = pow2 (- 1022)"
    using pow2_add [of 52 "- 1074"] by (simp add: u pow2_def [of 52])
  finally have v: "of_int r * ulp q \<le> pow2 (- 1022)" .
  moreover have "pow2 (- 1022) \<le> pow2 b" "pow2 (- 1022) < 2 ^ 1024"
    using assms(3) pow2_less [of "- 1022" 1024] by (simp_all add: pow2_le_iff pow2_def [of 1024])
  ultimately have "of_int r * ulp q \<le> pow2 b" "of_int r * ulp q < 2 ^ 1024" "0 \<le> of_int r * ulp q"
    using r(1) ulp_pos [of q] by (linarith, linarith, simp)
  then show ?thesis
    using assms(1) by (auto simp: f64_round_def Let_def r_def less_le)
qed

lemma f64_round_uminus: "f64_round (- q) = (case f64_round q of Zero s \<Rightarrow> Zero (q \<noteq> 0 \<and> \<not> s) | x \<Rightarrow> f64_uminus x)"
  by (auto simp: f64_round_def Let_def)

lemma f64_as_i128_bound:
  assumes "\<bar>q\<bar> \<le> 2 ^ 112"
  shows "\<bar>sint (f64_as_i128 (Num q))\<bar> \<le> 2 ^ 112"
proof -
  let ?z = "if 0 \<le> q then \<lfloor>q\<rfloor> else - \<lfloor>- q\<rfloor>"
  have "\<lfloor>q\<rfloor> \<le> \<lfloor>2 ^ 112 :: rat\<rfloor>" "\<lfloor>- q\<rfloor> \<le> \<lfloor>2 ^ 112 :: rat\<rfloor>"
    using assms by (intro floor_mono; simp)+
  then have "\<bar>?z\<bar> \<le> 2 ^ 112"
    by (auto simp: floor_le_zero)
  moreover from this have "sint (word_of_int ?z :: weight) = ?z"
    by (simp only: sint_sbintrunc') (intro signed_take_bit_int_eq_self; auto)
  moreover have "q < 2 ^ 127" "- (2 ^ 127) < q"
    using assms by auto
  ultimately show ?thesis
    by simp
qed

lemma f64_round_abs_below:
  assumes "\<bar>q\<bar> < pow2 b" "- 1022 \<le> b" "b \<le> 1023"
  shows "case f64_round q of Num v \<Rightarrow> \<bar>v\<bar> \<le> pow2 b | Zero _ \<Rightarrow> True | _ \<Rightarrow> False"
proof (cases q "0 :: rat" rule: linorder_cases)
  case less
  then show ?thesis
    using f64_round_below [of "- q" b] assms f64_round_uminus [of "- q"] by (auto split: f64.splits)
next
  case equal
  then show ?thesis by (simp add: f64_round_def)
next
  case greater
  then show ?thesis
    using f64_round_below [of q b] assms by (auto split: f64.splits)
qed

lemma rate_weight_bound:
  assumes "log2_ok log2" "order_rate r"
  shows "\<bar>sint (rate_weight log2 r)\<bar> \<le> WEIGHT_BOUND" "rate_weight log2 r \<noteq> weight_infinite"
proof -
  obtain q where q: "r = Num q" "pow2 (- int 130) \<le> q" "q \<le> pow2 (int 130)"
    using assms(2) by (auto simp: order_rate_def split: f64.splits)
  then have l: "case log2 r of Num l \<Rightarrow> \<bar>l\<bar> \<le> of_nat 130 | Zero _ \<Rightarrow> True | _ \<Rightarrow> False"
    using assms(1) unfolding log2_ok_def by blast
  have "\<bar>sint (f64_as_i128 (f64_mul (log2 r) (Num (2 ^ 104))))\<bar> \<le> 2 ^ 112"
  proof (cases "log2 r")
    case (Num l)
    with l have "\<bar>l\<bar> \<le> 130" by simp
    then have "\<bar>l\<bar> * 2 ^ 104 \<le> 130 * 2 ^ 104" by (intro mult_right_mono) simp_all
    then have "\<bar>l * 2 ^ 104\<bar> < pow2 112" by (simp add: abs_mult pow2_def)
    then have "case f64_round (l * 2 ^ 104) of Num v \<Rightarrow> \<bar>v\<bar> \<le> pow2 112 | Zero _ \<Rightarrow> True | _ \<Rightarrow> False"
      by (rule f64_round_abs_below) simp_all
    moreover have "pow2 112 = 2 ^ 112"
      by (simp add: pow2_def)
    moreover have "f64_mul (log2 r) (Num (2 ^ 104)) = f64_round (l * 2 ^ 104)"
      using Num by (simp add: f64_mul_def)
    ultimately show ?thesis
      using f64_as_i128_bound by (auto split: f64.splits simp del: f64_as_i128.simps(4))
  qed (use l in \<open>simp_all add: f64_mul_def\<close>)
  then show *: "\<bar>sint (rate_weight log2 r)\<bar> \<le> WEIGHT_BOUND"
    by (simp add: rate_weight_def weight_new_def FIXED_24X104_SCALING_FACTOR_def WEIGHT_BOUND_def)
  show "rate_weight log2 r \<noteq> weight_infinite"
  proof
    assume "rate_weight log2 r = weight_infinite"
    with * sint_weight_infinite show False by (simp add: WEIGHT_BOUND_def)
  qed
qed

section \<open>Filled amounts\<close>

text \<open>Undoing a multiplication by a division keeps at least half of a number that is not too small.\<close>

lemma f64_round_half:
  assumes "pow2 (- 1074) \<le> x" "2 \<le> s" "f64_round (s * x) = Num c"
  shows "s * x / 2 \<le> c"
proof -
  have x: "0 < x" using assms(1) pow2_pos [of "- 1074"] by linarith
  then have sx: "0 < s * x" using assms(2) by simp
  have c: "\<bar>c - s * x\<bar> \<le> ulp (s * x) / 2"
    by (rule f64_round_error [OF sx assms(3)])
  have "ulp (s * x) \<le> s * x"
  proof (cases "- 1022 \<le> expo (s * x)")
    case True
    then have "ulp (s * x) \<le> pow2 (expo (s * x))"
      by (simp add: ulp_def pow2_le_iff)
    then show ?thesis using expo_bounds [OF sx] by linarith
  next
    case False
    then have "ulp (s * x) \<le> x"
      using assms(1) by (simp add: ulp_def)
    also have "\<dots> \<le> s * x"
      using x assms(2) by simp
    finally show ?thesis .
  qed
  then show ?thesis using c by linarith
qed

lemma fill_amount_positive:
  assumes "pow2 (- 1074) \<le> x" "2 \<le> s" "f64_mul (Num s) (Num x) = Num c"
  shows "f64_div (Num c) (Num x) = Inf False \<or> (\<exists>t. f64_div (Num c) (Num x) = Num t \<and> 1 \<le> t)"
proof -
  have x: "0 < x" using assms(1) pow2_pos [of "- 1074"] by linarith
  have "s * x / 2 \<le> c"
    using f64_round_half [OF assms(1,2)] assms(2,3) x by (simp add: f64_mul_Num)
  moreover have "x \<le> s * x / 2"
    using x assms(2) by simp
  ultimately have "x \<le> c" by linarith
  then have "0 < c" "pow2 0 \<le> c / x"
    using x by (simp_all add: pow2_def)
  then show ?thesis
    using f64_round_ge [of 0 "c / x"] x by (auto simp: f64_div_Num pow2_def)
qed

end
