(* ===== verification/PriceOrders.thy ===== *)
theory PriceOrders
  imports PriceScalars "HOL-Library.Multiset"
begin

text \<open>
  Users and orders of the order graph (\<open>src/pricegraph/src/orderbook/user.rs\<close> and \<open>orderbook/order.rs\<close>):
  balances per user and token, and the orders of every token pair, sorted so that the cheapest
  order of a pair is the last one.  Hash maps are association lists as elsewhere.  The key
  abstraction is \<open>pair_orders\<close>, the orders of a pair, in terms of which the operations are
  characterised.
\<close>

section \<open>Users\<close>

record pg_user =
  user_balances :: "(u16 \<times> u256) list"

type_synonym user_map = "(address \<times> pg_user) list"

definition set_balance :: "element \<Rightarrow> pg_user \<Rightarrow> pg_user" where
  "set_balance el user =
     (case hm_get (user_balances user) (pair_sell (el_pair el)) of
        Some _ \<Rightarrow> user
      | None \<Rightarrow> user\<lparr>user_balances := hm_insert (pair_sell (el_pair el)) (el_balance el) (user_balances user)\<rparr>)"

definition balance_of :: "pg_user \<Rightarrow> u16 \<Rightarrow> u256" where
  "balance_of user token = hm_or_default (user_balances user) token 0"

definition deduct_from_balance :: "u16 \<Rightarrow> u256 \<Rightarrow> pg_user \<Rightarrow> u256 \<times> pg_user" where
  "deduct_from_balance token amount user =
     (case hm_get (user_balances user) token of
        Some balance \<Rightarrow>
          (let balance = saturating_sub balance amount
           in if balance = 0 then (0, user\<lparr>user_balances := hm_remove token (user_balances user)\<rparr>)
              else (balance, user\<lparr>user_balances := hm_insert token balance (user_balances user)\<rparr>))
      | None \<Rightarrow> (0, user))"

definition clear_balance :: "u16 \<Rightarrow> pg_user \<Rightarrow> pg_user" where
  "clear_balance token user = user\<lparr>user_balances := hm_remove token (user_balances user)\<rparr>"

section \<open>Orders\<close>

datatype amount = Unlimited | Remaining u128

record pg_order =
  po_user :: address
  po_id :: u16
  po_pair :: token_pair
  po_amount :: amount
  po_rate :: exchange_rate

definition UNBOUNDED_AMOUNT :: u128 where
  "UNBOUNDED_AMOUNT = - 1"

definition is_unbounded :: "element \<Rightarrow> bool" where
  "is_unbounded el \<longleftrightarrow>
     price_numer (el_price el) = UNBOUNDED_AMOUNT \<or> price_denom (el_price el) = UNBOUNDED_AMOUNT"

definition pg_order_new :: "element \<Rightarrow> pg_order option" where
  "pg_order_new el =
     (let amount = (if is_unbounded el then Unlimited else Remaining (el_remaining_sell_amount el))
      in case limit_price_from_fraction (el_price el) of
           None \<Rightarrow> None
         | Some price \<Rightarrow> Some
             \<lparr>po_user = el_user el, po_id = el_id el, po_pair = el_pair el, po_amount = amount,
              po_rate = price_exchange_rate price\<rparr>)"

definition get_effective_amount :: "user_map \<Rightarrow> pg_order \<Rightarrow> ('e, u256) result" where
  "get_effective_amount users ord =
     rbind (unwrap (hm_get users (po_user ord))) (\<lambda>user.
       let balance = balance_of user (pair_sell (po_pair ord))
       in Ok (case po_amount ord of Unlimited \<Rightarrow> balance | Remaining amount \<Rightarrow> min balance (ucast amount)))"

section \<open>Order maps\<close>

type_synonym order_map = "(u16 \<times> (u16 \<times> pg_order list) list) list"

definition insert_order :: "pg_order \<Rightarrow> order_map \<Rightarrow> order_map" where
  "insert_order ord m =
     (let sell_orders = hm_or_default m (pair_sell (po_pair ord)) [];
          pair_orders = hm_or_default sell_orders (pair_buy (po_pair ord)) []
      in hm_insert (pair_sell (po_pair ord)) (hm_insert (pair_buy (po_pair ord)) (pair_orders @ [ord]) sell_orders) m)"

text \<open>
  Sorting by decreasing exchange rate.  The order of equal elements in an unstable sort is not
  specified; here it is the order of insertion.
\<close>

fun insert_by_rate :: "pg_order \<Rightarrow> pg_order list \<Rightarrow> pg_order list" where
  "insert_by_rate x [] = [x]"
| "insert_by_rate x (y # ys) =
     (if f64_less (po_rate y) (po_rate x) then x # y # ys else y # insert_by_rate x ys)"

definition sort_by_rate :: "pg_order list \<Rightarrow> pg_order list" where
  "sort_by_rate os = fold insert_by_rate os []"

definition collect :: "order_map \<Rightarrow> order_map" where
  "collect m = map (\<lambda>(sell, sell_orders). (sell, map (\<lambda>(buy, os). (buy, sort_by_rate os)) sell_orders)) m"

definition all_pairs :: "order_map \<Rightarrow> (token_pair \<times> pg_order list) list" where
  "all_pairs m =
     concat (map (\<lambda>(sell, sell_orders). map (\<lambda>(buy, os). (\<lparr>pair_buy = buy, pair_sell = sell\<rparr>, os)) sell_orders) m)"

definition pairs_and_orders_for_sell_token :: "order_map \<Rightarrow> u16 \<Rightarrow> (token_pair \<times> pg_order list) list" where
  "pairs_and_orders_for_sell_token m sell =
     (case hm_get m sell of
        None \<Rightarrow> []
      | Some sell_orders \<Rightarrow> map (\<lambda>(buy, os). (\<lparr>pair_buy = buy, pair_sell = sell\<rparr>, os)) sell_orders)"

definition orders_for_pair :: "order_map \<Rightarrow> token_pair \<Rightarrow> pg_order list option" where
  "orders_for_pair m pair = Option.bind (hm_get m (pair_sell pair)) (\<lambda>sell_orders. hm_get sell_orders (pair_buy pair))"

definition last_of :: "'a list \<Rightarrow> 'a option" where
  "last_of xs = (if xs = [] then None else Some (last xs))"

definition best_order_for_pair :: "order_map \<Rightarrow> token_pair \<Rightarrow> pg_order option" where
  "best_order_for_pair m pair = Option.bind (orders_for_pair m pair) last_of"

text \<open>Writing through the reference to the cheapest order of a pair.\<close>

definition best_order_for_pair_mut :: "token_pair \<Rightarrow> (pg_order \<Rightarrow> pg_order) \<Rightarrow> order_map \<Rightarrow> order_map" where
  "best_order_for_pair_mut pair f m =
     (case hm_get m (pair_sell pair) of
        None \<Rightarrow> m
      | Some sell_orders \<Rightarrow>
          (case hm_get sell_orders (pair_buy pair) of
             None \<Rightarrow> m
           | Some os \<Rightarrow>
               (if os = [] then m
                else hm_insert (pair_sell pair)
                       (hm_insert (pair_buy pair) (butlast os @ [f (last os)]) sell_orders) m)))"

definition remove_pair_order :: "token_pair \<Rightarrow> order_map \<Rightarrow> pg_order option \<times> order_map" where
  "remove_pair_order pair m =
     (case hm_get m (pair_sell pair) of
        None \<Rightarrow> (None, m)
      | Some sell_orders \<Rightarrow>
          (case hm_get sell_orders (pair_buy pair) of
             None \<Rightarrow> (None, m)
           | Some os \<Rightarrow>
               (let removed = last_of os;
                    os = butlast os;
                    sell_orders = (if os = [] then hm_remove (pair_buy pair) sell_orders
                                   else hm_insert (pair_buy pair) os sell_orders)
                in (removed,
                    if sell_orders = [] then hm_remove (pair_sell pair) m
                    else hm_insert (pair_sell pair) sell_orders m))))"

section \<open>The orders of a pair\<close>

definition pair_orders :: "order_map \<Rightarrow> token_pair \<Rightarrow> pg_order list" where
  "pair_orders m pair = (case orders_for_pair m pair of Some os \<Rightarrow> os | None \<Rightarrow> [])"

text \<open>No entry of the map is empty.\<close>

definition hm_all :: "('v \<Rightarrow> bool) \<Rightarrow> ('k \<times> 'v) list \<Rightarrow> bool" where
  "hm_all P m \<longleftrightarrow> hm_wf m \<and> (\<forall>(k, v) \<in> set m. P v)"

lemma hm_all_Nil [simp]: "hm_all P []"
  by (simp add: hm_all_def)

lemma hm_all_get: "hm_all P m \<Longrightarrow> map_of m k = Some v \<Longrightarrow> P v"
  by (auto simp: hm_all_def dest: map_of_SomeD)

lemma hm_all_insert: "hm_all P m \<Longrightarrow> P v \<Longrightarrow> hm_all P (hm_insert k v m)"
proof -
  assume m: "hm_all P m" "P v"
  have "set (hm_insert k v m) \<subseteq> insert (k, v) (set m)"
    by (induction m) auto
  with m show ?thesis by (auto simp: hm_all_def)
qed

lemma hm_all_remove: "hm_all P m \<Longrightarrow> hm_all P (hm_remove k m)"
  using hm_wf_remove [of m k] by (auto simp: hm_all_def AList.delete_eq)

lemma hm_all_or_default: "hm_all P m \<Longrightarrow> P d \<Longrightarrow> P (hm_or_default m k d)"
  by (auto simp: hm_or_default_def dest: hm_all_get split: option.split)

definition orders_wf :: "order_map \<Rightarrow> bool" where
  "orders_wf = hm_all (\<lambda>sell_orders. sell_orders \<noteq> [] \<and> hm_all (\<lambda>os. os \<noteq> []) sell_orders)"

lemmas pair_orders_simps = pair_orders_def orders_for_pair_def

lemma token_pair_eq_iff: "p = q \<longleftrightarrow> pair_buy p = pair_buy q \<and> pair_sell p = pair_sell q" for p q :: token_pair
  by (cases p; cases q) simp

lemma best_order_eq: "best_order_for_pair m pair = last_of (pair_orders m pair)"
  by (auto simp: best_order_for_pair_def pair_orders_def last_of_def split: option.split)

lemma pair_orders_insert:
  "pair_orders (insert_order ord m) = (pair_orders m)(po_pair ord := pair_orders m (po_pair ord) @ [ord])"
  by (rule ext)
    (auto simp: pair_orders_simps insert_order_def Let_def token_pair_eq_iff hm_or_default_def split: option.splits)

lemma hm_remove_empty: "hm_remove k m = [] \<Longrightarrow> k' \<noteq> k \<Longrightarrow> map_of m k' = None"
  using hm_get_remove [of k m] by (metis fun_upd_other map_of.simps(1))

lemma pair_orders_remove:
  "pair_orders (snd (remove_pair_order pair m)) = (pair_orders m)(pair := butlast (pair_orders m pair))"
  by (rule ext)
    (auto simp: pair_orders_simps remove_pair_order_def Let_def token_pair_eq_iff split: option.splits bind_splits
      dest: hm_remove_empty)

lemma pair_orders_best_mut:
  "pair_orders (best_order_for_pair_mut pair f m) =
     (pair_orders m)(pair := (if pair_orders m pair = [] then []
                              else butlast (pair_orders m pair) @ [f (last (pair_orders m pair))]))"
  by (rule ext)
    (auto simp: pair_orders_simps best_order_for_pair_mut_def Let_def token_pair_eq_iff split: option.splits bind_splits)

lemma map_of_map_values: "map_of (map (\<lambda>(k, v). (k, f v)) m) k = map_option f (map_of m k)"
  by (induction m) auto

lemma pair_orders_collect: "pair_orders (collect m) pair = sort_by_rate (pair_orders m pair)"
  by (auto simp: pair_orders_simps collect_def map_of_map_values sort_by_rate_def split: option.split bind_splits)

lemma orders_wf_sell_orders:
  assumes "orders_wf m" "hm_get m sell = Some sell_orders"
  shows "sell_orders \<noteq> []" "hm_all (\<lambda>os. os \<noteq> []) sell_orders"
  using hm_all_get [OF assms [unfolded orders_wf_def]] by simp_all

lemma orders_wf_insert: "orders_wf m \<Longrightarrow> orders_wf (insert_order ord m)"
proof -
  assume wf: "orders_wf m"
  have "hm_all (\<lambda>os. os \<noteq> []) (hm_or_default m s [])" for s
    using wf by (auto simp: hm_or_default_def dest: orders_wf_sell_orders split: option.split)
  with wf show ?thesis
    by (auto simp: orders_wf_def insert_order_def Let_def intro!: hm_all_insert)
qed

lemma orders_wf_remove: "orders_wf m \<Longrightarrow> orders_wf (snd (remove_pair_order pair m))"
  using orders_wf_sell_orders(2) [of m "pair_sell pair"]
  by (auto simp: orders_wf_def remove_pair_order_def Let_def intro!: hm_all_insert hm_all_remove split: option.split)

lemma orders_wf_best_mut: "orders_wf m \<Longrightarrow> orders_wf (best_order_for_pair_mut pair f m)"
  using orders_wf_sell_orders(2) [of m "pair_sell pair"]
  by (auto simp: orders_wf_def best_order_for_pair_mut_def intro!: hm_all_insert split: option.split)

lemma length_insert_by_rate [simp]: "insert_by_rate x os \<noteq> []"
  by (cases os) auto

lemma mset_sort_by_rate: "mset (sort_by_rate os) = mset os"
proof -
  have "mset (insert_by_rate x ys) = add_mset x (mset ys)" for x ys
    by (induction ys) auto
  then have "mset (fold insert_by_rate os ys) = mset os + mset ys" for ys
    by (induction os arbitrary: ys) auto
  then show ?thesis by (simp add: sort_by_rate_def)
qed

lemma sort_by_rate_empty_iff [simp]: "sort_by_rate os = [] \<longleftrightarrow> os = []"
  using mset_sort_by_rate [of os] by (metis mset_zero_iff)

lemma set_sort_by_rate [simp]: "set (sort_by_rate os) = set os"
  using mset_sort_by_rate [of os] by (metis set_mset_mset)

lemma orders_wf_collect: "orders_wf m \<Longrightarrow> orders_wf (collect m)"
  by (fastforce simp: orders_wf_def collect_def hm_all_def comp_def case_prod_unfold)

text \<open>The listed pairs are the pairs with orders, each listed once.\<close>

lemma all_pairs_iff:
  assumes "orders_wf m"
  shows "(pair, os) \<in> set (all_pairs m) \<longleftrightarrow> pair_orders m pair = os \<and> os \<noteq> []"
proof
  assume "(pair, os) \<in> set (all_pairs m)"
  then obtain sell_orders where so: "(pair_sell pair, sell_orders) \<in> set m" "(pair_buy pair, os) \<in> set sell_orders"
    by (auto simp: all_pairs_def)
  then have m: "hm_get m (pair_sell pair) = Some sell_orders"
    using assms by (simp add: orders_wf_def hm_all_def)
  then have "hm_get sell_orders (pair_buy pair) = Some os"
    using so(2) orders_wf_sell_orders(2) [OF assms] by (simp add: hm_all_def)
  moreover from this have "os \<noteq> []"
    using orders_wf_sell_orders(2) [OF assms m] by (rule hm_all_get [rotated])
  ultimately show "pair_orders m pair = os \<and> os \<noteq> []"
    using m by (simp add: pair_orders_simps)
next
  assume "pair_orders m pair = os \<and> os \<noteq> []"
  then obtain sell_orders where "(pair_sell pair, sell_orders) \<in> set m" "(pair_buy pair, os) \<in> set sell_orders"
    by (auto simp: pair_orders_simps dest!: map_of_SomeD split: option.splits bind_splits)
  then show "(pair, os) \<in> set (all_pairs m)"
    by (force simp: all_pairs_def)
qed

lemma pairs_for_sell_token_iff:
  assumes "orders_wf m"
  shows "(pair, os) \<in> set (pairs_and_orders_for_sell_token m sell) \<longleftrightarrow>
    pair_sell pair = sell \<and> pair_orders m pair = os \<and> os \<noteq> []"
proof (cases "hm_get m sell")
  case (Some sell_orders)
  note so = orders_wf_sell_orders(2) [OF assms Some]
  have "(pair, os) \<in> set (pairs_and_orders_for_sell_token m sell) \<longleftrightarrow>
      pair_sell pair = sell \<and> hm_get sell_orders (pair_buy pair) = Some os"
    using Some so by (force simp: pairs_and_orders_for_sell_token_def hm_all_def token_pair_eq_iff)
  then show ?thesis
    using Some hm_all_get [OF so] by (auto simp: pair_orders_simps split: option.splits)
qed (auto simp: pairs_and_orders_for_sell_token_def pair_orders_simps)

lemma distinct_pairs_for_sell_token:
  "orders_wf m \<Longrightarrow> distinct (map fst (pairs_and_orders_for_sell_token m sell))"
  using orders_wf_sell_orders(2) [of m sell]
  by (auto simp: pairs_and_orders_for_sell_token_def hm_all_def distinct_map comp_def case_prod_unfold inj_on_def
      split: option.split)

lemma distinct_all_pairs: "orders_wf m \<Longrightarrow> distinct (map fst (all_pairs m))"
proof (induction m)
  case Nil
  then show ?case by (simp add: all_pairs_def)
next
  case (Cons e m)
  obtain sell so where e: "e = (sell, so)" by fastforce
  from Cons.prems have "orders_wf m" "sell \<notin> fst ` set m" "hm_all (\<lambda>os. os \<noteq> []) so"
    by (auto simp: orders_wf_def hm_all_def e)
  moreover have "distinct (map fst (map (\<lambda>(buy, os). (\<lparr>pair_buy = buy, pair_sell = sell\<rparr>, os)) so))"
    using \<open>hm_all _ so\<close> by (auto simp: hm_all_def distinct_map comp_def case_prod_unfold inj_on_def)
  ultimately show ?case
    using Cons.IH by (force simp: all_pairs_def e)
qed

text \<open>The cheapest order of a sorted pair is the last one.\<close>

definition sorted_by_rate :: "pg_order list \<Rightarrow> bool" where
  "sorted_by_rate os \<longleftrightarrow> sorted_wrt (\<lambda>a b. \<not> f64_less (po_rate a) (po_rate b)) os"

lemma order_rate_less:
  assumes "order_rate a" "order_rate b" "order_rate c"
  shows "f64_less a b \<Longrightarrow> \<not> f64_less b a" "\<not> f64_less a b \<Longrightarrow> \<not> f64_less b c \<Longrightarrow> \<not> f64_less a c"
  using assms by (auto simp: order_rate_def split: f64.splits)

lemma set_insert_by_rate: "set (insert_by_rate x os) = insert x (set os)"
  by (induction os) auto

lemma sorted_insert_by_rate:
  "sorted_by_rate os \<Longrightarrow> \<forall>o' \<in> insert x (set os). order_rate (po_rate o') \<Longrightarrow> sorted_by_rate (insert_by_rate x os)"
proof (induction os)
  case (Cons y ys)
  show ?case
  proof (cases "f64_less (po_rate y) (po_rate x)")
    case True
    have "\<not> f64_less (po_rate x) (po_rate z)" if "z \<in> set ys" for z
      using that Cons.prems True order_rate_less(1) [of "po_rate y" "po_rate x" "po_rate z"]
        order_rate_less(2) [of "po_rate x" "po_rate y" "po_rate z"] by (auto simp: sorted_by_rate_def)
    moreover have "\<not> f64_less (po_rate x) (po_rate y)"
      using True Cons.prems order_rate_less(1) [of "po_rate y" "po_rate x" "po_rate x"] by auto
    ultimately show ?thesis
      using True Cons.prems by (auto simp: sorted_by_rate_def)
  next
    case False
    then show ?thesis
      using Cons by (auto simp: sorted_by_rate_def set_insert_by_rate)
  qed
qed (simp add: sorted_by_rate_def)

lemma sorted_sort_by_rate:
  assumes "\<forall>o' \<in> set os. order_rate (po_rate o')"
  shows "sorted_by_rate (sort_by_rate os)"
proof -
  have "sorted_by_rate (fold insert_by_rate os ys)"
    if "sorted_by_rate ys" "\<forall>o' \<in> set os \<union> set ys. order_rate (po_rate o')" for ys
    using that
  proof (induction os arbitrary: ys)
    case (Cons x os)
    then show ?case
      using Cons.IH [of "insert_by_rate x ys"] sorted_insert_by_rate [of ys x] by (auto simp: set_insert_by_rate)
  qed simp
  from this [of "[]"] assms show ?thesis
    by (simp add: sort_by_rate_def sorted_by_rate_def)
qed

lemma sorted_by_rate_butlast: "sorted_by_rate os \<Longrightarrow> sorted_by_rate (butlast os)"
  by (cases os rule: rev_cases) (auto simp: sorted_by_rate_def sorted_wrt_append)

section \<open>Balances\<close>

definition held :: "user_map \<Rightarrow> address \<Rightarrow> u16 \<Rightarrow> u256" where
  "held users u token = (case hm_get users u of Some user \<Rightarrow> balance_of user token | None \<Rightarrow> 0)"

lemma deduct_from_balance_eq:
  "fst (deduct_from_balance token amount user) = saturating_sub (balance_of user token) amount"
  "balance_of (snd (deduct_from_balance token amount user)) t =
     (if t = token then saturating_sub (balance_of user token) amount else balance_of user t)"
  by (auto simp: deduct_from_balance_def balance_of_def hm_or_default_def saturating_sub_def Let_def split: option.split)

lemma balance_of_clear: "balance_of (clear_balance token user) t = (if t = token then 0 else balance_of user t)"
  by (simp add: clear_balance_def balance_of_def hm_or_default_def)

lemma held_insert: "held (hm_insert u user users) u' t = (if u' = u then balance_of user t else held users u' t)"
  by (simp add: held_def)

definition effective_amount :: "user_map \<Rightarrow> pg_order \<Rightarrow> u256" where
  "effective_amount users ord =
     (let balance = held users (po_user ord) (pair_sell (po_pair ord))
      in case po_amount ord of Unlimited \<Rightarrow> balance | Remaining amount \<Rightarrow> min balance (ucast amount))"

lemma get_effective_amount_eq:
  "hm_get users (po_user ord) \<noteq> None \<Longrightarrow> get_effective_amount users ord = Ok (effective_amount users ord)"
  by (auto simp: get_effective_amount_def effective_amount_def held_def Let_def split: amount.split)

text \<open>All that the users hold together; the measure by which filling orders makes progress.\<close>

definition total_held :: "user_map \<Rightarrow> nat" where
  "total_held users = (\<Sum>(u, t) \<in> UNIV. unat (held users u t))"

lemma total_held_less:
  assumes "\<And>u t. unat (held users' u t) \<le> unat (held users u t)" "unat (held users' u t) < unat (held users u t)"
  shows "total_held users' < total_held users"
  unfolding total_held_def using assms by (intro sum_strict_mono_ex1) auto

end
