(* ===== verification/PriceGraph.thy ===== *)
theory PriceGraph
  imports PriceOrders
begin

text \<open>
  The order graph (\<open>src/pricegraph/src/orderbook.rs\<close> with \<open>orderbook/iter.rs\<close> and \<open>orderbook/reduced.rs\<close>): an
  orderbook keeps the orders per token pair, the balances of the users, and a projection graph
  whose nodes are tokens and whose edges carry the weight of the cheapest order of a pair.  Filling
  a path reduces balances and orders along it and keeps the projection in step; filling all
  negative cycles reduces the orderbook.

  What comes from elsewhere is the parameter \<open>pf\<close>: the binary logarithm, the conversions between
  \<open>U256\<close> and \<open>f64\<close> (\<open>primitive_types\<close>), and the graph library (\<open>petgraph\<close>), with its graphs of type \<open>'g\<close> and a
  view on their nodes and edges.  The contract of these is the locale \<open>price_platform\<close>.
\<close>

section \<open>The platform\<close>

record 'g platform =
  pf_log2 :: "f64 \<Rightarrow> f64"
  pf_to_f64_lossy :: "u256 \<Rightarrow> f64"
  pf_from_f64_lossy :: "f64 \<Rightarrow> u256"
  pf_new_graph :: 'g
  pf_add_node :: "u16 \<Rightarrow> 'g \<Rightarrow> 'g"
  pf_extend_with_edges :: "(node \<times> node \<times> weight) list \<Rightarrow> 'g \<Rightarrow> 'g"
  pf_find_edge :: "'g \<Rightarrow> node \<Rightarrow> node \<Rightarrow> nat option"
  pf_set_weight :: "nat \<Rightarrow> weight \<Rightarrow> 'g \<Rightarrow> 'g"
  pf_remove_edge :: "nat \<Rightarrow> 'g \<Rightarrow> 'g"
  pf_view :: "'g \<Rightarrow> weight graph"

section \<open>Orderbooks\<close>

record 'g orderbook =
  ob_orders :: order_map
  ob_users :: user_map
  ob_projection :: 'g

datatype orderbook_error = OverlapError negative_cycle | UnreducableOrderbook "node list"

definition node_index :: "u16 \<Rightarrow> node" where
  "node_index token = unat token"

definition token_id :: "node \<Rightarrow> u16" where
  "token_id node = of_nat node"

definition pairs_on_path :: "node list \<Rightarrow> token_pair list" where
  "pairs_on_path path = map (\<lambda>(a, b). \<lparr>pair_buy = token_id a, pair_sell = token_id b\<rparr>) (links path)"

definition is_dust_order :: "element \<Rightarrow> bool" where
  "is_dust_order el \<longleftrightarrow>
     is_dust_amount (el_remaining_sell_amount el) \<or>
     is_dust_amount (ucast (el_balance el)) \<and> el_balance el < 2 ^ 128 - 1"

definition accepted_elements :: "element list \<Rightarrow> (pg_order \<times> element) list" where
  "accepted_elements elements =
     List.map_filter (\<lambda>el. map_option (\<lambda>ord. (ord, el)) (pg_order_new el))
       (filter (\<lambda>el. pair_buy (el_pair el) \<noteq> pair_sell (el_pair el))
         (filter (\<lambda>el. \<not> is_dust_order el) elements))"

definition add_element :: "u16 \<times> user_map \<times> order_map \<Rightarrow> pg_order \<times> element \<Rightarrow> u16 \<times> user_map \<times> order_map" where
  "add_element = (\<lambda>(max_token, users, orders) (ord, el).
     (max max_token (max (pair_buy (el_pair el)) (pair_sell (el_pair el))),
      hm_insert (el_user el) (set_balance el (hm_or_default users (el_user el) \<lparr>user_balances = []\<rparr>)) users,
      insert_order ord orders))"

definition from_elements :: "'g platform \<Rightarrow> element list \<Rightarrow> 'g orderbook res" where
  "from_elements pf elements =
     (let (max_token, users, orders) = foldl add_element (0, [], []) (accepted_elements elements);
          orders = collect orders;
          projection = foldl (\<lambda>g token. pf_add_node pf token g) (pf_new_graph pf) (map of_nat [0..<Suc (unat max_token)])
      in rbind
           (traverse (\<lambda>(pair, os). rbind (unwrap (last_of os)) (\<lambda>cheapest_order.
               Ok (node_index (pair_buy pair), node_index (pair_sell pair), rate_weight (pf_log2 pf) (po_rate cheapest_order))))
             (all_pairs orders))
           (\<lambda>edges. Ok \<lparr>ob_orders = orders, ob_users = users, ob_projection = pf_extend_with_edges pf edges projection\<rparr>))"

definition num_orders :: "'g orderbook \<Rightarrow> nat" where
  "num_orders ob = sum_list (map (\<lambda>(pair, os). length os) (all_pairs (ob_orders ob)))"

abbreviation projection :: "'g platform \<Rightarrow> 'g orderbook \<Rightarrow> weight graph" where
  "projection pf ob \<equiv> pf_view pf (ob_projection ob)"

definition is_token_pair_valid :: "'g platform \<Rightarrow> token_pair \<Rightarrow> 'g orderbook \<Rightarrow> bool" where
  "is_token_pair_valid pf pair ob \<longleftrightarrow>
     pair_buy pair \<noteq> pair_sell pair \<and>
     unat (pair_buy pair) < node_count (projection pf ob) \<and>
     unat (pair_sell pair) < node_count (projection pf ob)"

text \<open>Negative cycles are looked for in every disconnected subgraph; \<open>None\<close> stands for a search that does not return.\<close>

definition search_token :: "'g platform \<Rightarrow> 'g orderbook \<Rightarrow> unit \<Rightarrow> node \<Rightarrow> (node, bool res option) control_flow \<times> unit" where
  "search_token pf ob _ token =
     (case shortest_path weight_measure (projection pf ob) token None of
        Some (Ok shortest_path_graph) \<Rightarrow> (Continue (connected_nodes shortest_path_graph token), ())
      | Some (Err _) \<Rightarrow> (Break (Some (Ok True)), ())
      | Some Panic \<Rightarrow> (Break (Some Panic), ())
      | None \<Rightarrow> (Break None, ()))"

definition is_overlapping :: "'g platform \<Rightarrow> 'g orderbook \<Rightarrow> bool res option" where
  "is_overlapping pf ob =
     (case for_each_until (search_token pf ob) () (subgraphs_new (drop 1 [0..<node_count (projection pf ob)])) of
        (Some overlapping, _) \<Rightarrow> overlapping
      | (None, _) \<Rightarrow> Some (Ok False))"

section \<open>The projection graph\<close>

lemma remove_shrinks:
  assumes "best_order_for_pair orders pair = Some ord"
  shows "length (pair_orders (snd (remove_pair_order pair orders)) pair) < length (pair_orders orders pair)"
  using assms by (auto simp: pair_orders_remove best_order_eq last_of_def split: if_splits)

function remove_filled :: "user_map \<Rightarrow> token_pair \<Rightarrow> order_map \<Rightarrow> (orderbook_error, order_map) result" where
  "remove_filled users pair orders =
     (case best_order_for_pair orders pair of
        None \<Rightarrow> Ok orders
      | Some ord \<Rightarrow>
          (case get_effective_amount users ord of
             Ok amount \<Rightarrow>
               (if is_dust_amount (u256_to_u128_saturating amount)
                then remove_filled users pair (snd (remove_pair_order pair orders))
                else Ok orders)
           | Err e \<Rightarrow> Err e
           | Panic \<Rightarrow> Panic))"
  by pat_completeness auto
termination
  by (relation "inv_image less_than (\<lambda>(users, pair, orders). length (pair_orders orders pair))") (auto simp: remove_shrinks)

declare remove_filled.simps [simp del]

definition get_pair_edge :: "'g platform \<Rightarrow> token_pair \<Rightarrow> 'g orderbook \<Rightarrow> nat option" where
  "get_pair_edge pf pair ob = pf_find_edge pf (ob_projection ob) (node_index (pair_buy pair)) (node_index (pair_sell pair))"

definition update_projection_graph_edge :: "'g platform \<Rightarrow> token_pair \<Rightarrow> 'g orderbook \<Rightarrow> (orderbook_error, 'g orderbook) result" where
  "update_projection_graph_edge pf pair ob =
     rbind (remove_filled (ob_users ob) pair (ob_orders ob)) (\<lambda>orders.
     rbind (unwrap (get_pair_edge pf pair ob)) (\<lambda>edge.
       Ok (ob\<lparr>ob_orders := orders,
              ob_projection :=
                (case best_order_for_pair orders pair of
                   Some ord \<Rightarrow> pf_set_weight pf edge (rate_weight (pf_log2 pf) (po_rate ord)) (ob_projection ob)
                 | None \<Rightarrow> pf_remove_edge pf edge (ob_projection ob))\<rparr>)))"

definition update_projection_graph_node :: "'g platform \<Rightarrow> u16 \<Rightarrow> 'g orderbook \<Rightarrow> (orderbook_error, 'g orderbook) result" where
  "update_projection_graph_node pf sell ob =
     try_fold (\<lambda>ob pair. update_projection_graph_edge pf pair ob) ob
       (map fst (pairs_and_orders_for_sell_token (ob_orders ob) sell))"

section \<open>Flows\<close>

definition flow_step ::
    "'g platform \<Rightarrow> 'g orderbook \<Rightarrow> node list \<Rightarrow> f64 \<times> exchange_rate \<times> exchange_rate \<Rightarrow> token_pair \<Rightarrow>
     (orderbook_error, f64 \<times> exchange_rate \<times> exchange_rate) result" where
  "flow_step pf ob path = (\<lambda>(capacity, transitive_xrate, max_xrate) pair.
     rbind (unwrap (best_order_for_pair (ob_orders ob) pair)) (\<lambda>ord.
     rbind (ok_or (rate_checked_mul transitive_xrate (po_rate ord)) (UnreducableOrderbook path)) (\<lambda>transitive_xrate.
     rbind (rate_max max_xrate transitive_xrate) (\<lambda>max_xrate.
     rbind (get_effective_amount (ob_users ob) ord) (\<lambda>sell_amount.
     rbind (num_min capacity (f64_mul (pf_to_f64_lossy pf sell_amount) transitive_xrate)) (\<lambda>capacity.
       if is_strictly_positive_and_finite capacity then Ok (capacity, transitive_xrate, max_xrate)
       else Err (UnreducableOrderbook path)))))))"

definition find_path_flow :: "'g platform \<Rightarrow> node list \<Rightarrow> 'g orderbook \<Rightarrow> (orderbook_error, flow) result" where
  "find_path_flow pf path ob =
     rbind (try_fold (flow_step pf ob path) (Inf False, rate_identity, rate_identity) (pairs_on_path path))
       (\<lambda>(capacity, transitive_xrate, max_xrate).
          Ok \<lparr>flow_rate = transitive_xrate, flow_capacity = capacity, flow_min_trade = f64_div capacity max_xrate\<rparr>)"

definition best_order_with_user_for_pair :: "token_pair \<Rightarrow> 'g orderbook \<Rightarrow> (orderbook_error, pg_order \<times> pg_user) result" where
  "best_order_with_user_for_pair pair ob =
     rbind (unwrap (best_order_for_pair (ob_orders ob) pair)) (\<lambda>ord.
     rbind (unwrap (hm_get (ob_users ob) (po_user ord))) (\<lambda>user. Ok (ord, user)))"

text \<open>One step of the loop of \<open>fill_path_with_flow\<close>.\<close>

definition fill_step ::
    "'g platform \<Rightarrow> node list \<Rightarrow> flow \<Rightarrow> exchange_rate \<Rightarrow> token_pair \<Rightarrow> 'g orderbook \<Rightarrow>
     (orderbook_error, exchange_rate \<times> 'g orderbook) result" where
  "fill_step pf path fl transitive_xrate pair ob =
     rbind (best_order_with_user_for_pair pair ob) (\<lambda>(ord, user).
     rbind (ok_or (rate_checked_mul transitive_xrate (po_rate ord)) (UnreducableOrderbook path)) (\<lambda>transitive_xrate.
       let fill_amount = pf_from_f64_lossy pf (f64_div (flow_capacity fl) transitive_xrate);
           (new_balance, user) = deduct_from_balance (pair_sell pair) fill_amount user
       in if is_dust_amount (u256_to_u128_saturating new_balance) then
            rmap (Pair transitive_xrate)
              (update_projection_graph_node pf (pair_sell pair)
                (ob\<lparr>ob_users := hm_insert (po_user ord) (clear_balance (pair_sell pair) user) (ob_users ob)\<rparr>))
          else
            let ob = ob\<lparr>ob_users := hm_insert (po_user ord) user (ob_users ob)\<rparr>
            in case po_amount ord of
                 Unlimited \<Rightarrow> Ok (transitive_xrate, ob)
               | Remaining amount \<Rightarrow>
                   (let amount = saturating_sub amount (u256_to_u128_saturating fill_amount);
                        ob = ob\<lparr>ob_orders := best_order_for_pair_mut pair (\<lambda>o'. o'\<lparr>po_amount := Remaining amount\<rparr>) (ob_orders ob)\<rparr>
                    in if is_dust_amount amount
                       then rmap (Pair transitive_xrate) (update_projection_graph_edge pf pair ob)
                       else Ok (transitive_xrate, ob))))"

text \<open>The loop; an error leaves the orderbook as the steps before have changed it.\<close>

fun fill_pairs ::
    "'g platform \<Rightarrow> node list \<Rightarrow> flow \<Rightarrow> exchange_rate \<Rightarrow> token_pair list \<Rightarrow> 'g orderbook \<Rightarrow>
     (orderbook_error, unit) result \<times> 'g orderbook" where
  "fill_pairs pf path fl transitive_xrate [] ob = (Ok (), ob)"
| "fill_pairs pf path fl transitive_xrate (pair # pairs) ob =
     (case fill_step pf path fl transitive_xrate pair ob of
        Ok (transitive_xrate, ob) \<Rightarrow> fill_pairs pf path fl transitive_xrate pairs ob
      | Err e \<Rightarrow> (Err e, ob)
      | Panic \<Rightarrow> (Panic, ob))"

definition fill_path_with_flow ::
    "'g platform \<Rightarrow> node list \<Rightarrow> flow \<Rightarrow> 'g orderbook \<Rightarrow> (orderbook_error, unit) result \<times> 'g orderbook" where
  "fill_path_with_flow pf path fl ob = fill_pairs pf path fl rate_identity (pairs_on_path path) ob"

definition fill_path :: "'g platform \<Rightarrow> node list \<Rightarrow> 'g orderbook \<Rightarrow> (orderbook_error, flow) result \<times> 'g orderbook" where
  "fill_path pf path ob =
     (case find_path_flow pf path ob of
        Ok fl \<Rightarrow>
          (case fill_path_with_flow pf path fl ob of
             (Ok _, ob) \<Rightarrow> (Ok fl, ob)
           | (Err e, ob) \<Rightarrow> (Err e, ob)
           | (Panic, ob) \<Rightarrow> (Panic, ob))
      | Err e \<Rightarrow> (Err e, ob)
      | Panic \<Rightarrow> (Panic, ob))"

definition find_path_and_flow ::
    "'g platform \<Rightarrow> node \<Rightarrow> node \<Rightarrow> nat option \<Rightarrow> 'g orderbook \<Rightarrow> (orderbook_error, (path \<times> flow) option) result option" where
  "find_path_and_flow pf start dest hops ob =
     (case shortest_path weight_measure (projection pf ob) start hops of
        None \<Rightarrow> None
      | Some (Err cycle) \<Rightarrow> Some (Err (OverlapError cycle))
      | Some Panic \<Rightarrow> Some Panic
      | Some (Ok shortest_path_graph) \<Rightarrow>
          (case path_to shortest_path_graph start dest of
             Ok None \<Rightarrow> Some (Ok None)
           | Ok (Some path) \<Rightarrow> Some (rmap (\<lambda>fl. Some (path, fl)) (find_path_flow pf path ob))
           | _ \<Rightarrow> Some Panic))"

definition find_optimal_transitive_order ::
    "'g platform \<Rightarrow> token_pair_range \<Rightarrow> 'g orderbook \<Rightarrow> (orderbook_error, flow option) result option" where
  "find_optimal_transitive_order pf pair_range ob =
     (if is_token_pair_valid pf (range_pair pair_range) ob then
        map_option (rmap (map_option snd))
          (find_path_and_flow pf (node_index (pair_buy (range_pair pair_range)))
            (node_index (pair_sell (range_pair pair_range))) (range_hops pair_range) ob)
      else Some (Ok None))"

section \<open>Reducing an orderbook\<close>

text \<open>The inner loop for one token: negative cycles are filled until none is found.\<close>

partial_function (option) reduce_loop ::
    "'g platform \<Rightarrow> node \<Rightarrow> 'g orderbook \<Rightarrow> ((orderbook_error, node list) result \<times> 'g orderbook) option" where
  "reduce_loop pf token ob =
     (case shortest_path weight_measure (projection pf ob) token None of
        None \<Rightarrow> None
      | Some (Ok shortest_path_graph) \<Rightarrow> Some (Ok (connected_nodes shortest_path_graph token), ob)
      | Some Panic \<Rightarrow> Some (Panic, ob)
      | Some (Err cycle) \<Rightarrow>
          (case fill_path pf cycle ob of
             (Ok _, ob) \<Rightarrow> reduce_loop pf token ob
           | (Err e, ob) \<Rightarrow> Some (Err e, ob)
           | (Panic, ob) \<Rightarrow> Some (Panic, ob)))"

declare reduce_loop.simps [code]

definition reduce_token ::
    "'g platform \<Rightarrow> 'g orderbook \<Rightarrow> node \<Rightarrow> (node, (orderbook_error, 'g orderbook) result option) control_flow \<times> 'g orderbook" where
  "reduce_token pf ob token =
     (case reduce_loop pf token ob of
        None \<Rightarrow> (Break None, ob)
      | Some (Ok nodes, ob) \<Rightarrow> (Continue nodes, ob)
      | Some (Err e, ob) \<Rightarrow> (Break (Some (Err e)), ob)
      | Some (Panic, ob) \<Rightarrow> (Break (Some Panic), ob))"

definition reduce_overlapping_orders :: "'g platform \<Rightarrow> 'g orderbook \<Rightarrow> (orderbook_error, 'g orderbook) result option" where
  "reduce_overlapping_orders pf ob =
     (case for_each_until (reduce_token pf) ob (subgraphs_new [0..<node_count (projection pf ob)]) of
        (Some failed, _) \<Rightarrow> failed
      | (None, ob) \<Rightarrow> Some (Ok ob))"

text \<open>A ring trade over a market is filled in both directions; failing to do so is a panic.\<close>

definition fill_ring ::
    "'g platform \<Rightarrow> path \<Rightarrow> path \<Rightarrow> 'g orderbook \<Rightarrow> (orderbook_error, ring_trade option) result \<times> 'g orderbook" where
  "fill_ring pf ask bid ob =
     (case fill_path pf ask ob of
        (Ok ask, ob) \<Rightarrow>
          (case fill_path pf bid ob of
             (Ok bid, ob) \<Rightarrow> (Ok (Some \<lparr>ring_ask = ask, ring_bid = bid\<rparr>), ob)
           | (_, ob) \<Rightarrow> (Panic, ob))
      | (_, ob) \<Rightarrow> (Panic, ob))"

text \<open>The loop of \<open>fill_market_ring_trade\<close>.\<close>

partial_function (option) market_loop ::
    "'g platform \<Rightarrow> node \<Rightarrow> node \<Rightarrow> 'g orderbook \<Rightarrow> ((orderbook_error, ring_trade option) result \<times> 'g orderbook) option" where
  "market_loop pf base quote ob =
     (case shortest_path weight_measure (projection pf ob) quote None of
        None \<Rightarrow> None
      | Some (Ok _) \<Rightarrow> Some (Ok None, ob)
      | Some Panic \<Rightarrow> Some (Panic, ob)
      | Some (Err cycle) \<Rightarrow>
          (case rbind (with_starting_node quote cycle) (cycle_split_at base) of
             Ok (ask, bid) \<Rightarrow> Some (fill_ring pf ask bid ob)
           | Err cycle \<Rightarrow>
               (case fill_path pf cycle ob of
                  (Ok _, ob) \<Rightarrow> market_loop pf base quote ob
                | (Err e, ob) \<Rightarrow> Some (Err e, ob)
                | (Panic, ob) \<Rightarrow> Some (Panic, ob))
           | Panic \<Rightarrow> Some (Panic, ob)))"

declare market_loop.simps [code]

definition fill_market_ring_trade ::
    "'g platform \<Rightarrow> pg_market \<Rightarrow> 'g orderbook \<Rightarrow> ((orderbook_error, ring_trade option) result \<times> 'g orderbook) option" where
  "fill_market_ring_trade pf m ob =
     (if is_token_pair_valid pf (bid_pair m) ob
      then market_loop pf (node_index (market_base m)) (node_index (market_quote m)) ob
      else Some (Ok None, ob))"

section \<open>Transitive orders\<close>

record 'g transitive_orders =
  to_orderbook :: "'g orderbook"
  to_pair :: "(node \<times> node) option"
  to_first_order :: "(path \<times> flow) option"
  to_hops :: "nat option"
  to_errored :: bool

definition transitive_orders_new ::
    "'g platform \<Rightarrow> token_pair_range \<Rightarrow> 'g orderbook \<Rightarrow> (orderbook_error, 'g transitive_orders) result option" where
  "transitive_orders_new pf pair_range ob =
     (if is_token_pair_valid pf (range_pair pair_range) ob then
        let buy = node_index (pair_buy (range_pair pair_range)); sell = node_index (pair_sell (range_pair pair_range))
        in map_option (rmap (\<lambda>first_order.
             \<lparr>to_orderbook = ob, to_pair = Some (buy, sell), to_first_order = first_order,
              to_hops = range_hops pair_range, to_errored = False\<rparr>))
             (find_path_and_flow pf buy sell (range_hops pair_range) ob)
      else Some (Ok \<lparr>to_orderbook = ob, to_pair = None, to_first_order = None, to_hops = None, to_errored = False\<rparr>))"

text \<open>\<open>next\<close>: an item is a flow or an error; a panic ends the computation.\<close>

definition fill_transitive_order ::
    "'g platform \<Rightarrow> path \<Rightarrow> flow \<Rightarrow> 'g transitive_orders \<Rightarrow>
     (string, (orderbook_error, flow) result option \<times> 'g transitive_orders) result" where
  "fill_transitive_order pf path fl iter =
     (case fill_path_with_flow pf path fl (to_orderbook iter) of
        (Ok _, ob) \<Rightarrow> Ok (Some (Ok fl), iter\<lparr>to_orderbook := ob\<rparr>)
      | (Err e, ob) \<Rightarrow> Ok (Some (Err e), iter\<lparr>to_orderbook := ob, to_errored := True\<rparr>)
      | (Panic, ob) \<Rightarrow> Panic)"

definition transitive_orders_next ::
    "'g platform \<Rightarrow> 'g transitive_orders \<Rightarrow>
     (string, (orderbook_error, flow) result option \<times> 'g transitive_orders) result option" where
  "transitive_orders_next pf iter =
     (if to_errored iter then Some (Ok (None, iter))
      else case to_pair iter of
        None \<Rightarrow> Some (Ok (None, iter))
      | Some (buy, sell) \<Rightarrow>
          (case to_first_order iter of
             Some (path, fl) \<Rightarrow> Some (fill_transitive_order pf path fl (iter\<lparr>to_first_order := None\<rparr>))
           | None \<Rightarrow>
               (case find_path_and_flow pf buy sell (to_hops iter) (to_orderbook iter) of
                  None \<Rightarrow> None
                | Some (Ok None) \<Rightarrow> Some (Ok (None, iter))
                | Some (Ok (Some (path, fl))) \<Rightarrow> Some (fill_transitive_order pf path fl iter)
                | Some (Err e) \<Rightarrow> Some (Ok (Some (Err e), iter\<lparr>to_errored := True\<rparr>))
                | Some Panic \<Rightarrow> Some Panic)))"

section \<open>Reduced orderbooks\<close>

text \<open>\<open>expect\<close>: an error becomes a panic.\<close>

fun expect :: "('e, 'a) result \<Rightarrow> ('e', 'a) result" where
  "expect (Ok a) = Ok a"
| "expect (Err e) = Panic"
| "expect Panic = Panic"

definition reduced_transitive_orders ::
    "'g platform \<Rightarrow> token_pair_range \<Rightarrow> 'g orderbook \<Rightarrow> (string, 'g transitive_orders) result option" where
  "reduced_transitive_orders pf pair_range ob = map_option expect (transitive_orders_new pf pair_range ob)"

definition reduced_find_optimal_transitive_order ::
    "'g platform \<Rightarrow> token_pair_range \<Rightarrow> 'g orderbook \<Rightarrow> (string, flow option) result option" where
  "reduced_find_optimal_transitive_order pf pair_range ob =
     map_option expect (find_optimal_transitive_order pf pair_range ob)"

end
