(* ===== verification/PriceGraphInvariant.thy ===== *)
theory PriceGraphInvariant
  imports PriceGraph "HOL-Library.Sublist"
begin

text \<open>
  The invariant of the order graph.  Every listed pair has orders, sorted by decreasing rate, of
  known users; the projection has exactly one edge for every pair with orders, weighted by its
  cheapest order; and the cheapest orders can trade more than dust.  Building an orderbook
  establishes the invariant, filling orders along a path keeps it and does not panic.
\<close>

section \<open>The contract of the platform\<close>

text \<open>
  The logarithm stays within the exponents of its argument; a conversion to floating point is off by
  a factor of at most two; a conversion back truncates and saturates, as documented; the graph
  library keeps a collection of edges, in some order.
\<close>

locale price_platform =
  fixes pf :: "'g platform"
  assumes log2: "log2_ok (pf_log2 pf)"
    and to_f64_lossy: "u \<noteq> 0 \<Longrightarrow> \<exists>q. pf_to_f64_lossy pf u = Num q \<and> of_nat (unat u) / 2 \<le> q \<and> q \<le> 2 * of_nat (unat u)"
    and from_f64_lossy: "1 \<le> q \<Longrightarrow> q < 2 ^ 256 \<Longrightarrow> pf_from_f64_lossy pf (Num q) = word_of_int \<lfloor>q\<rfloor>"
    and from_f64_lossy_saturates: "2 ^ 256 \<le> q \<Longrightarrow> pf_from_f64_lossy pf (Num q) = - 1" "pf_from_f64_lossy pf (Inf False) = - 1"
    and new_graph: "node_count (pf_view pf (pf_new_graph pf)) = 0"
    and add_node: "node_count (pf_view pf (pf_add_node pf t g)) = Suc (node_count (pf_view pf g))"
      "mset (edge_list (pf_view pf (pf_add_node pf t g))) = mset (edge_list (pf_view pf g))"
    and extend_with_edges:
      "\<forall>(a, b, w) \<in> set es. a < node_count (pf_view pf g) \<and> b < node_count (pf_view pf g) \<Longrightarrow>
       node_count (pf_view pf (pf_extend_with_edges pf es g)) = node_count (pf_view pf g) \<and>
       mset (edge_list (pf_view pf (pf_extend_with_edges pf es g))) = mset (edge_list (pf_view pf g)) + mset es"
    and find_edge_None: "pf_find_edge pf g a b = None \<longleftrightarrow> (\<forall>w. (a, b, w) \<notin> set (edge_list (pf_view pf g)))"
    and set_weight: "pf_find_edge pf g a b = Some e \<Longrightarrow>
       node_count (pf_view pf (pf_set_weight pf e w' g)) = node_count (pf_view pf g) \<and>
       (\<exists>w. (a, b, w) \<in> set (edge_list (pf_view pf g)) \<and>
          mset (edge_list (pf_view pf (pf_set_weight pf e w' g))) = mset (edge_list (pf_view pf g)) - {#(a, b, w)#} + {#(a, b, w')#})"
    and remove_edge: "pf_find_edge pf g a b = Some e \<Longrightarrow>
       node_count (pf_view pf (pf_remove_edge pf e g)) = node_count (pf_view pf g) \<and>
       (\<exists>w. (a, b, w) \<in> set (edge_list (pf_view pf g)) \<and>
          mset (edge_list (pf_view pf (pf_remove_edge pf e g))) = mset (edge_list (pf_view pf g)) - {#(a, b, w)#})"

section \<open>The invariant\<close>

definition users_known :: "user_map \<Rightarrow> pg_order list \<Rightarrow> bool" where
  "users_known users os \<longleftrightarrow> (\<forall>ord \<in> set os. hm_get users (po_user ord) \<noteq> None)"

definition pair_ok :: "nat \<Rightarrow> user_map \<Rightarrow> token_pair \<Rightarrow> pg_order list \<Rightarrow> bool" where
  "pair_ok n users pair os \<longleftrightarrow>
     sorted_by_rate os \<and> users_known users os \<and> (\<forall>ord \<in> set os. po_pair ord = pair \<and> order_rate (po_rate ord)) \<and>
     (os \<noteq> [] \<longrightarrow> pair_buy pair \<noteq> pair_sell pair \<and> node_index (pair_buy pair) < n \<and> node_index (pair_sell pair) < n)"

text \<open>The weights between two nodes, and those that the cheapest orders give.\<close>

definition edge_weights :: "weight graph \<Rightarrow> token_pair \<Rightarrow> weight multiset" where
  "edge_weights g pair =
     image_mset (\<lambda>(a, b, w). w)
       (filter_mset (\<lambda>(a, b, w). a = node_index (pair_buy pair) \<and> b = node_index (pair_sell pair)) (mset (edge_list g)))"

definition cheapest_weight :: "(f64 \<Rightarrow> f64) \<Rightarrow> pg_order list \<Rightarrow> weight multiset" where
  "cheapest_weight log2 os = (if os = [] then {#} else {#rate_weight log2 (po_rate (last os))#})"

definition tokens_only :: "weight graph \<Rightarrow> bool" where
  "tokens_only g \<longleftrightarrow> (\<forall>(a, b, w) \<in> set (edge_list g). a < 2 ^ 16 \<and> b < 2 ^ 16)"

definition synced :: "'g platform \<Rightarrow> 'g orderbook \<Rightarrow> bool" where
  "synced pf ob \<longleftrightarrow> orders_wf (ob_orders ob) \<and> tokens_only (projection pf ob) \<and>
     (\<forall>pair. pair_ok (node_count (projection pf ob)) (ob_users ob) pair (pair_orders (ob_orders ob) pair) \<and>
        edge_weights (projection pf ob) pair = cheapest_weight (pf_log2 pf) (pair_orders (ob_orders ob) pair))"

definition tradeable :: "user_map \<Rightarrow> pg_order list \<Rightarrow> bool" where
  "tradeable users os \<longleftrightarrow> (os \<noteq> [] \<longrightarrow> \<not> is_dust_amount (u256_to_u128_saturating (effective_amount users (last os))))"

definition orderbook_inv :: "'g platform \<Rightarrow> 'g orderbook \<Rightarrow> bool" where
  "orderbook_inv pf ob \<longleftrightarrow> synced pf ob \<and> (\<forall>pair. tradeable (ob_users ob) (pair_orders (ob_orders ob) pair))"

lemma last_of_simps [simp]: "last_of xs = None \<longleftrightarrow> xs = []" "last_of xs = Some x \<longleftrightarrow> xs \<noteq> [] \<and> last xs = x"
  by (auto simp: last_of_def)

lemma users_known_last: "users_known users os \<Longrightarrow> os \<noteq> [] \<Longrightarrow> hm_get users (po_user (last os)) \<noteq> None"
  by (simp add: users_known_def)

lemma pair_ok_butlast: "pair_ok n users pair os \<Longrightarrow> pair_ok n users pair (butlast os)"
  by (auto simp: pair_ok_def users_known_def sorted_by_rate_butlast dest: in_set_butlastD)

text \<open>Dropping filled orders leaves a part of the orders of the pair, the last of which can trade.\<close>

lemma remove_filled_spec:
  "orders_wf orders \<Longrightarrow> pair_ok n users pair (pair_orders orders pair) \<Longrightarrow>
   \<exists>orders'. remove_filled users pair orders = Ok orders' \<and> orders_wf orders' \<and>
     (\<exists>ys. pair_orders orders pair = pair_orders orders' pair @ ys) \<and>
     (\<forall>p. p \<noteq> pair \<longrightarrow> pair_orders orders' p = pair_orders orders p) \<and>
     pair_ok n users pair (pair_orders orders' pair) \<and> tradeable users (pair_orders orders' pair)"
proof (induction users pair orders rule: remove_filled.induct)
  case (1 users pair orders)
  let ?os = "pair_orders orders pair"
  show ?case
  proof (cases "?os = []")
    case True
    then show ?thesis
      using 1(2,3) by (subst remove_filled.simps) (auto simp: best_order_eq last_of_def tradeable_def)
  next
    case False
    then have best: "best_order_for_pair orders pair = Some (last ?os)"
      by (simp add: best_order_eq)
    have amount: "(get_effective_amount users (last ?os) :: (orderbook_error, u256) result) = Ok (effective_amount users (last ?os))"
      using 1(3) False by (intro get_effective_amount_eq) (simp add: pair_ok_def users_known_last)
    show ?thesis
    proof (cases "is_dust_amount (u256_to_u128_saturating (effective_amount users (last ?os)))")
      case True
      let ?orders = "snd (remove_pair_order pair orders)"
      have "pair_orders ?orders = (pair_orders orders)(pair := butlast ?os)"
        by (rule pair_orders_remove)
      moreover from this have "pair_ok n users pair (pair_orders ?orders pair)"
        using 1(3) by (simp add: pair_ok_butlast)
      ultimately obtain orders' ys where "remove_filled users pair ?orders = Ok orders'" "orders_wf orders'"
        "butlast ?os = pair_orders orders' pair @ ys" "\<forall>p. p \<noteq> pair \<longrightarrow> pair_orders orders' p = pair_orders orders p"
        "pair_ok n users pair (pair_orders orders' pair)" "tradeable users (pair_orders orders' pair)"
        using 1(1) [OF best amount True orders_wf_remove [OF 1(2)]] by auto
      moreover from this have "?os = pair_orders orders' pair @ (ys @ [last ?os])"
        using False by (metis append.assoc append_butlast_last_id)
      moreover have "remove_filled users pair orders = remove_filled users pair ?orders"
        using best amount True by (subst remove_filled.simps) simp
      ultimately show ?thesis
        by (metis (no_types, lifting))
    next
      case dust: False
      then show ?thesis
        using best amount False 1(2,3) by (subst remove_filled.simps) (auto simp: tradeable_def)
    qed
  qed
qed

section \<open>Edges of the projection\<close>

lemma node_index_inject [simp]: "node_index s = node_index t \<longleftrightarrow> s = t"
  by (simp add: node_index_def word_unat_eq_iff)

lemma token_id_node_index [simp]: "token_id (node_index t) = t"
  by (simp add: node_index_def token_id_def)

lemma node_index_token_id: "n < 2 ^ 16 \<Longrightarrow> node_index (token_id n) = n"
  by (simp add: node_index_def token_id_def unat_of_nat)

lemma edge_weights_iff:
  "w \<in># edge_weights g pair \<longleftrightarrow> (node_index (pair_buy pair), node_index (pair_sell pair), w) \<in> set (edge_list g)"
  by (force simp: edge_weights_def)

lemma edge_weights_replace:
  assumes "mset (edge_list g') = mset (edge_list g) - {#(node_index (pair_buy pair), node_index (pair_sell pair), w)#} +
      image_mset (\<lambda>w. (node_index (pair_buy pair), node_index (pair_sell pair), w)) ws"
    and "(node_index (pair_buy pair), node_index (pair_sell pair), w) \<in> set (edge_list g)"
  shows "edge_weights g' p = (if p = pair then edge_weights g pair - {#w#} + ws else edge_weights g p)"
proof -
  let ?e = "\<lambda>w. (node_index (pair_buy pair), node_index (pair_sell pair), w)"
  define M where "M = mset (edge_list g) - {#?e w#}"
  have g: "mset (edge_list g) = add_mset (?e w) M" "mset (edge_list g') = M + image_mset ?e ws"
    using assms by (simp_all add: M_def)
  have ws: "image_mset (\<lambda>(a, b, w). w) (filter_mset (\<lambda>(a, b, w). a = node_index (pair_buy p) \<and> b = node_index (pair_sell p))
      (image_mset ?e ws)) = (if p = pair then ws else {#})"
    by (auto simp: filter_mset_image_mset token_pair_eq_iff image_mset.compositionality comp_def)
  show ?thesis
    unfolding edge_weights_def g by (simp only: filter_union_mset image_mset_union ws) (auto simp: token_pair_eq_iff)
qed

lemma tokens_only_replace:
  assumes "mset (edge_list g') = mset (edge_list g) - {#(node_index (pair_buy pair), node_index (pair_sell pair), w)#} +
      image_mset (\<lambda>w. (node_index (pair_buy pair), node_index (pair_sell pair), w)) ws"
    and "tokens_only g"
  shows "tokens_only g'"
proof -
  have "set (edge_list g') \<subseteq> set (edge_list g) \<union> {(node_index (pair_buy pair), node_index (pair_sell pair), w) | w. True}"
    using arg_cong [OF assms(1), of set_mset] by (auto dest: in_diffD)
  moreover have "node_index t < 2 ^ 16" for t
    using unat_less [of t] by (simp add: node_index_def)
  ultimately show ?thesis
    using assms(2) by (fastforce simp: tokens_only_def)
qed

context price_platform
begin

lemma pair_edge:
  assumes "synced pf ob" "pair_orders (ob_orders ob) pair \<noteq> []"
  obtains e where "get_pair_edge pf pair ob = Some e"
proof -
  have "edge_weights (projection pf ob) pair \<noteq> {#}"
    using assms by (simp add: synced_def cheapest_weight_def)
  then obtain w where "(node_index (pair_buy pair), node_index (pair_sell pair), w) \<in> set (edge_list (projection pf ob))"
    using edge_weights_iff by (metis multiset_nonemptyE)
  then have "get_pair_edge pf pair ob \<noteq> None"
    unfolding get_pair_edge_def find_edge_None by blast
  with that show ?thesis by blast
qed

text \<open>Whether the edge is given a new weight or removed, the weights of the pair are those asked for.\<close>

lemma replace_edge:
  assumes "synced pf ob" "get_pair_edge pf pair ob = Some e"
    and "g' = (case r of Some w \<Rightarrow> pf_set_weight pf e w (ob_projection ob) | None \<Rightarrow> pf_remove_edge pf e (ob_projection ob))"
  shows "node_count (pf_view pf g') = node_count (projection pf ob)" "tokens_only (pf_view pf g')"
    and "edge_weights (pf_view pf g') p =
      (if p = pair then (case r of Some w \<Rightarrow> {#w#} | None \<Rightarrow> {#}) else edge_weights (projection pf ob) p)"
proof -
  let ?e = "\<lambda>w. (node_index (pair_buy pair), node_index (pair_sell pair), w)"
  let ?ws = "case r of Some w \<Rightarrow> {#w#} | None \<Rightarrow> {#}"
  obtain w where w: "?e w \<in> set (edge_list (projection pf ob))" and count: "node_count (pf_view pf g') = node_count (projection pf ob)"
    and edges: "mset (edge_list (pf_view pf g')) = mset (edge_list (projection pf ob)) - {#?e w#} + image_mset ?e ?ws"
    using set_weight [OF assms(2) [unfolded get_pair_edge_def]] remove_edge [OF assms(2) [unfolded get_pair_edge_def]] assms(3)
    by (cases r) (simp_all, blast+)
  show "node_count (pf_view pf g') = node_count (projection pf ob)" by (rule count)
  show "tokens_only (pf_view pf g')"
    using tokens_only_replace [OF edges] assms(1) by (simp add: synced_def)
  have "edge_weights (projection pf ob) pair = {#w#}"
    using w assms(1) edge_weights_iff [of w "projection pf ob" pair] by (auto simp: synced_def cheapest_weight_def split: if_splits)
  then show "edge_weights (pf_view pf g') p = (if p = pair then ?ws else edge_weights (projection pf ob) p)"
    using edge_weights_replace [OF edges w] by simp
qed

text \<open>What an update of edges leaves of an orderbook.\<close>

definition part_of :: "'g orderbook \<Rightarrow> 'g orderbook \<Rightarrow> token_pair set \<Rightarrow> bool" where
  "part_of ob' ob pairs \<longleftrightarrow> ob_users ob' = ob_users ob \<and> node_count (projection pf ob') = node_count (projection pf ob) \<and>
     (\<forall>p. p \<notin> pairs \<longrightarrow> pair_orders (ob_orders ob') p = pair_orders (ob_orders ob) p) \<and>
     (\<forall>p. prefix (pair_orders (ob_orders ob') p) (pair_orders (ob_orders ob) p))"

lemma update_edge_spec:
  assumes "synced pf ob" "pair_orders (ob_orders ob) pair \<noteq> []"
  obtains ob' where "update_projection_graph_edge pf pair ob = Ok ob'" "synced pf ob'" "part_of ob' ob {pair}"
    "tradeable (ob_users ob') (pair_orders (ob_orders ob') pair)"
proof -
  have ok: "orders_wf (ob_orders ob)" "pair_ok (node_count (projection pf ob)) (ob_users ob) pair (pair_orders (ob_orders ob) pair)"
    using assms(1) by (simp_all add: synced_def)
  obtain orders' where orders': "remove_filled (ob_users ob) pair (ob_orders ob) = Ok orders'" "orders_wf orders'"
    "\<exists>ys. pair_orders (ob_orders ob) pair = pair_orders orders' pair @ ys"
    "\<forall>p. p \<noteq> pair \<longrightarrow> pair_orders orders' p = pair_orders (ob_orders ob) p"
    "pair_ok (node_count (projection pf ob)) (ob_users ob) pair (pair_orders orders' pair)"
    "tradeable (ob_users ob) (pair_orders orders' pair)"
    using remove_filled_spec [OF ok] by blast
  obtain e where e: "get_pair_edge pf pair ob = Some e"
    using pair_edge [OF assms] .
  define r where "r = map_option (\<lambda>ord. rate_weight (pf_log2 pf) (po_rate ord)) (best_order_for_pair orders' pair)"
  define g' where "g' = (case r of Some w \<Rightarrow> pf_set_weight pf e w (ob_projection ob) | None \<Rightarrow> pf_remove_edge pf e (ob_projection ob))"
  let ?ob = "ob\<lparr>ob_orders := orders', ob_projection := g'\<rparr>"
  note g' = replace_edge [OF assms(1) e g'_def]
  have "update_projection_graph_edge pf pair ob = Ok ?ob"
    using orders'(1) e by (auto simp: update_projection_graph_edge_def r_def g'_def split: option.split)
  moreover have "(case r of Some w \<Rightarrow> {#w#} | None \<Rightarrow> {#}) = cheapest_weight (pf_log2 pf) (pair_orders orders' pair)"
    by (auto simp: r_def cheapest_weight_def best_order_eq last_of_def)
  then have "synced pf ?ob"
    using assms(1) orders'(2,4,5) g' by (auto simp: synced_def)
  moreover have "prefix (pair_orders orders' p) (pair_orders (ob_orders ob) p)" for p
    using orders'(3,4) by (cases "p = pair") (auto simp: prefix_def)
  then have "part_of ?ob ob {pair}"
    using orders'(4) g'(1) by (simp add: part_of_def)
  ultimately show ?thesis
    using that orders'(6) by simp
qed

lemma part_of_refl: "part_of ob ob pairs"
  by (simp add: part_of_def)

lemma part_of_trans: "part_of ob2 ob1 B \<Longrightarrow> part_of ob1 ob A \<Longrightarrow> part_of ob2 ob (A \<union> B)"
  unfolding part_of_def by (auto intro: prefix_order.trans)

lemma part_of_mono: "part_of ob' ob A \<Longrightarrow> A \<subseteq> B \<Longrightarrow> part_of ob' ob B"
  unfolding part_of_def by blast

lemma update_edges_spec:
  "synced pf ob \<Longrightarrow> distinct pairs \<Longrightarrow> \<forall>p \<in> set pairs. pair_orders (ob_orders ob) p \<noteq> [] \<Longrightarrow>
   \<exists>ob'. try_fold (\<lambda>ob pair. update_projection_graph_edge pf pair ob) ob pairs = Ok ob' \<and> synced pf ob' \<and>
     part_of ob' ob (set pairs) \<and> (\<forall>p \<in> set pairs. tradeable (ob_users ob') (pair_orders (ob_orders ob') p))"
proof (induction pairs arbitrary: ob)
  case Nil
  then show ?case by (simp add: part_of_refl)
next
  case (Cons pair pairs)
  obtain ob1 where ob1: "update_projection_graph_edge pf pair ob = Ok ob1" "synced pf ob1" "part_of ob1 ob {pair}"
    "tradeable (ob_users ob1) (pair_orders (ob_orders ob1) pair)"
    using update_edge_spec [of ob pair] Cons.prems by auto
  have "\<forall>p \<in> set pairs. pair_orders (ob_orders ob1) p \<noteq> []"
    using ob1(3) Cons.prems(2,3) by (auto simp: part_of_def)
  then obtain ob2 where ob2: "try_fold (\<lambda>ob pair. update_projection_graph_edge pf pair ob) ob1 pairs = Ok ob2" "synced pf ob2"
    "part_of ob2 ob1 (set pairs)" "\<forall>p \<in> set pairs. tradeable (ob_users ob2) (pair_orders (ob_orders ob2) p)"
    using Cons.IH [OF ob1(2)] Cons.prems(2) by auto
  have "tradeable (ob_users ob2) (pair_orders (ob_orders ob2) pair)"
    using ob1(4) ob2(3) Cons.prems(2) by (auto simp: part_of_def)
  then show ?case
    using ob1(1) ob2 part_of_trans [OF ob2(3) ob1(3)] by auto
qed

lemma update_node_spec:
  assumes "synced pf ob"
  obtains ob' where "update_projection_graph_node pf sell ob = Ok ob'" "synced pf ob'" "part_of ob' ob {p. pair_sell p = sell}"
    "\<And>p. pair_sell p = sell \<Longrightarrow> tradeable (ob_users ob') (pair_orders (ob_orders ob') p)"
proof -
  let ?pairs = "map fst (pairs_and_orders_for_sell_token (ob_orders ob) sell)"
  have wf: "orders_wf (ob_orders ob)"
    using assms by (simp add: synced_def)
  have pairs: "set ?pairs = {p. pair_sell p = sell \<and> pair_orders (ob_orders ob) p \<noteq> []}"
    using pairs_for_sell_token_iff [OF wf, of _ _ sell] by force
  obtain ob' where ob': "update_projection_graph_node pf sell ob = Ok ob'" "synced pf ob'" "part_of ob' ob (set ?pairs)"
    "\<forall>p \<in> set ?pairs. tradeable (ob_users ob') (pair_orders (ob_orders ob') p)"
    using update_edges_spec [OF assms distinct_pairs_for_sell_token [OF wf, of sell]] pairs
    by (auto simp: update_projection_graph_node_def)
  moreover have "tradeable (ob_users ob') (pair_orders (ob_orders ob') p)" if "pair_sell p = sell" for p
  proof (cases "pair_orders (ob_orders ob) p = []")
    case True
    then have "pair_orders (ob_orders ob') p = []"
      using ob'(3) pairs unfolding part_of_def by (metis prefix_bot.extremum_uniqueI)
    then show ?thesis by (simp add: tradeable_def)
  next
    case False
    then show ?thesis using that pairs ob'(4) by blast
  qed
  moreover have "part_of ob' ob {p. pair_sell p = sell}"
    using ob'(3) by (rule part_of_mono) (use pairs in auto)
  ultimately show ?thesis using that by blast
qed

end

section \<open>Filling orders\<close>

text \<open>What a change of the orders selling some tokens leaves alone.\<close>

definition orderbook_frame :: "'g platform \<Rightarrow> u16 set \<Rightarrow> 'g orderbook \<Rightarrow> 'g orderbook \<Rightarrow> bool" where
  "orderbook_frame pf sold ob ob' \<longleftrightarrow> node_count (projection pf ob') = node_count (projection pf ob) \<and>
     (\<forall>p. pair_sell p \<notin> sold \<longrightarrow> pair_orders (ob_orders ob') p = pair_orders (ob_orders ob) p) \<and>
     (\<forall>p. pair_orders (ob_orders ob) p = [] \<longrightarrow> pair_orders (ob_orders ob') p = []) \<and>
     (\<forall>u t. unat (held (ob_users ob') u t) \<le> unat (held (ob_users ob) u t)) \<and>
     (\<forall>u t. t \<notin> sold \<longrightarrow> held (ob_users ob') u t = held (ob_users ob) u t)"

lemma orderbook_frame_refl: "orderbook_frame pf sold ob ob"
  by (simp add: orderbook_frame_def)

lemma orderbook_frame_trans:
  "orderbook_frame pf A ob ob1 \<Longrightarrow> orderbook_frame pf B ob1 ob2 \<Longrightarrow> orderbook_frame pf (A \<union> B) ob ob2"
  unfolding orderbook_frame_def by (fastforce intro: order_trans)

lemma unat_min: "unat (min a b) = min (unat a) (unat b)" for a b :: "'a::len word"
  by (simp add: min_def word_le_nat_alt)

lemma unat_u256_to_u128_saturating: "unat (u256_to_u128_saturating u) = min (unat u) (2 ^ 128 - 1)"
  by (simp add: u256_to_u128_saturating_def unsigned_ucast_eq unat_min take_bit_nat_eq_self)

lemma is_dust_sat_iff: "is_dust_amount (u256_to_u128_saturating u) \<longleftrightarrow> unat u < 10000"
  using unat_u256_to_u128_saturating [of u]
  by (simp add: is_dust_amount_def MIN_AMOUNT_def word_less_nat_alt min_less_iff_disj)

lemma is_dust_iff: "is_dust_amount a \<longleftrightarrow> unat a < 10000"
  by (simp add: is_dust_amount_def MIN_AMOUNT_def word_less_nat_alt)

lemma unat_effective_amount:
  "unat (effective_amount users ord) =
     (let balance = unat (held users (po_user ord) (pair_sell (po_pair ord)))
      in case po_amount ord of Unlimited \<Rightarrow> balance | Remaining amount \<Rightarrow> min balance (unat amount))"
  by (simp add: effective_amount_def Let_def unat_min unsigned_ucast_eq take_bit_nat_eq_self_iff split: amount.split)

lemma tradeable_iff:
  "tradeable users os \<longleftrightarrow> os = [] \<or>
     10000 \<le> unat (held users (po_user (last os)) (pair_sell (po_pair (last os)))) \<and>
     (case po_amount (last os) of Unlimited \<Rightarrow> True | Remaining amount \<Rightarrow> 10000 \<le> unat amount)"
  by (auto simp: tradeable_def is_dust_sat_iff unat_effective_amount Let_def split: amount.split)

text \<open>Changing balances keeps the orders and the projection in step.\<close>

lemma pair_ok_users: "pair_ok n users pair os \<Longrightarrow> pair_ok n (hm_insert u user users) pair os"
  by (auto simp: pair_ok_def users_known_def)

lemma pair_ok_Nil [simp]: "pair_ok n users pair []"
  by (simp add: pair_ok_def users_known_def sorted_by_rate_def)

lemma synced_users: "synced pf ob \<Longrightarrow> synced pf (ob\<lparr>ob_users := hm_insert u user (ob_users ob)\<rparr>)"
  by (simp add: synced_def pair_ok_users)

text \<open>Changing the amount of the cheapest order, too.\<close>

lemma synced_amount:
  assumes "synced pf ob" "pair_orders (ob_orders ob) pair \<noteq> []"
  shows "synced pf (ob\<lparr>ob_orders := best_order_for_pair_mut pair (\<lambda>o'. o'\<lparr>po_amount := a\<rparr>) (ob_orders ob)\<rparr>)"
proof -
  let ?os = "pair_orders (ob_orders ob) pair"
  let ?os' = "butlast ?os @ [last ?os\<lparr>po_amount := a\<rparr>]"
  have os: "?os = butlast ?os @ [last ?os]"
    using assms(2) by simp
  have "pair_ok n users pair (xs @ [x\<lparr>po_amount := a\<rparr>])" if "pair_ok n users pair (xs @ [x])" for n users xs x
    using that by (auto simp: pair_ok_def users_known_def sorted_by_rate_def sorted_wrt_append)
  then have "pair_ok (node_count (projection pf ob)) (ob_users ob) pair ?os'"
    using assms(1) os by (metis synced_def)
  then show ?thesis
    using assms by (simp add: synced_def orders_wf_best_mut pair_orders_best_mut cheapest_weight_def)
qed

definition rate_step :: "'g orderbook \<Rightarrow> exchange_rate \<Rightarrow> token_pair \<Rightarrow> exchange_rate option" where
  "rate_step ob x pair = rate_checked_mul x (po_rate (last (pair_orders (ob_orders ob) pair)))"

fun rate_along :: "'g orderbook \<Rightarrow> exchange_rate \<Rightarrow> token_pair list \<Rightarrow> exchange_rate option" where
  "rate_along ob x [] = Some x"
| "rate_along ob x (pair # pairs) = Option.bind (rate_step ob x pair) (\<lambda>x. rate_along ob x pairs)"

lemma rate_along_append: "rate_along ob x (pairs @ pairs') = Option.bind (rate_along ob x pairs) (\<lambda>x. rate_along ob x pairs')"
  by (induction pairs arbitrary: x) (auto simp: Option.bind_assoc)

lemma rate_along_cong:
  "\<forall>p \<in> set pairs. pair_orders (ob_orders ob') p = pair_orders (ob_orders ob) p \<Longrightarrow> rate_along ob' x pairs = rate_along ob x pairs"
  by (induction pairs arbitrary: x) (simp_all add: rate_step_def)

text \<open>A rate that is a result of floating point operations.\<close>

definition computed_rate :: "exchange_rate \<Rightarrow> bool" where
  "computed_rate x \<longleftrightarrow> (\<exists>q. x = Num q \<and> pow2 (- 1074) \<le> q)"

lemma rate_step_computed:
  assumes "is_strictly_positive_and_finite x" "order_rate (po_rate (last (pair_orders (ob_orders ob) pair)))" "rate_step ob x pair = Some x'"
  shows "computed_rate x'"
proof -
  obtain p q where pq: "x = Num p" "0 < p" "po_rate (last (pair_orders (ob_orders ob) pair)) = Num q" "0 < q"
    using assms(1) order_rate_positive [OF assms(2)] by (auto simp: is_strictly_positive_and_finite_iff)
  then have "f64_round (p * q) = x'" "is_strictly_positive_and_finite x'"
    using assms(3) by (auto simp: rate_step_def rate_checked_mul_def Let_def f64_mul_Num split: if_splits)
  then show ?thesis
    using f64_round_least [of "p * q"] pq(2,4) by (auto simp: computed_rate_def is_strictly_positive_and_finite_iff)
qed

lemma computed_rate_positive: "computed_rate x \<Longrightarrow> is_strictly_positive_and_finite x"
  by (auto simp: computed_rate_def is_strictly_positive_and_finite_iff intro: less_le_trans [OF pow2_pos])

lemma tradeable_held:
  assumes "tradeable users os" "\<forall>ord \<in> set os. po_pair ord = pair"
    and "\<And>u. unat (held users u (pair_sell pair)) \<ge> 10000 \<Longrightarrow> unat (held users' u (pair_sell pair)) \<ge> 10000"
  shows "tradeable users' os"
  using assms by (cases "os = []") (auto simp: tradeable_iff)

lemma orderbook_invD:
  assumes "orderbook_inv pf ob"
  shows "synced pf ob" "tradeable (ob_users ob) (pair_orders (ob_orders ob) p)"
    "pair_ok (node_count (projection pf ob)) (ob_users ob) p (pair_orders (ob_orders ob) p)"
  using assms unfolding orderbook_inv_def synced_def by blast+

lemma orderbook_inv_tradeable:
  assumes "orderbook_inv pf ob"
    and "\<And>u. unat (held (ob_users ob) u (pair_sell p)) \<ge> 10000 \<Longrightarrow> unat (held users' u (pair_sell p)) \<ge> 10000"
  shows "tradeable users' (pair_orders (ob_orders ob) p)"
proof (rule tradeable_held [OF orderbook_invD(2) [OF assms(1)]])
  show "\<forall>ord \<in> set (pair_orders (ob_orders ob) p). po_pair ord = p"
    using orderbook_invD(3) [OF assms(1), of p] by (simp add: pair_ok_def)
qed (rule assms(2))

lemma best_order_with_user:
  assumes "orderbook_inv pf ob" "pair_orders (ob_orders ob) pair \<noteq> []"
  obtains user where "hm_get (ob_users ob) (po_user (last (pair_orders (ob_orders ob) pair))) = Some user"
    "best_order_with_user_for_pair pair ob = Ok (last (pair_orders (ob_orders ob) pair), user)"
proof -
  have "users_known (ob_users ob) (pair_orders (ob_orders ob) pair)"
    using orderbook_invD(3) [OF assms(1), of pair] by (simp add: pair_ok_def)
  then obtain user where "hm_get (ob_users ob) (po_user (last (pair_orders (ob_orders ob) pair))) = Some user"
    using users_known_last [OF _ assms(2)] by blast
  with assms(2) that show ?thesis
    by (simp add: best_order_with_user_for_pair_def best_order_eq last_of_def)
qed

text \<open>A change of one balance.\<close>

lemma held_changed:
  assumes "hm_get users u = Some user" "\<And>t. balance_of user' t = (if t = token then b else balance_of user t)"
  shows "held (hm_insert u user' users) u' t = (if u' = u \<and> t = token then b else held users u' t)"
  using assms by (simp add: held_def)

context price_platform
begin

text \<open>An update of edges after which the touched pairs can trade restores the invariant.\<close>

lemma inv_after_update:
  assumes "synced pf ob'" "part_of ob' ob1 P" "\<And>p. p \<in> P \<Longrightarrow> tradeable (ob_users ob') (pair_orders (ob_orders ob') p)"
    and "\<And>p. p \<notin> P \<Longrightarrow> tradeable (ob_users ob1) (pair_orders (ob_orders ob1) p)"
  shows "orderbook_inv pf ob'"
  using assms unfolding orderbook_inv_def part_of_def by metis

lemma frame_after_update:
  assumes "part_of ob' ob1 P" "P \<subseteq> {p. pair_sell p \<in> sold}" "orderbook_frame pf sold ob ob1"
  shows "orderbook_frame pf sold ob ob'"
  using assms unfolding part_of_def orderbook_frame_def by (metis (no_types, lifting) mem_Collect_eq prefix_bot.extremum_uniqueI subsetD)

lemma fill_with_dust_balance:
  assumes inv: "orderbook_inv pf ob" and held: "\<And>u t. held users' u t = (if u = u0 \<and> t = sell then 0 else held (ob_users ob) u t)"
    and synced: "synced pf (ob\<lparr>ob_users := users'\<rparr>)"
  obtains ob' where "update_projection_graph_node pf sell (ob\<lparr>ob_users := users'\<rparr>) = Ok ob'" "orderbook_inv pf ob'"
    "orderbook_frame pf {sell} ob ob'" "ob_users ob' = users'"
proof -
  let ?ob = "ob\<lparr>ob_users := users'\<rparr>"
  obtain ob' where ob': "update_projection_graph_node pf sell ?ob = Ok ob'" "synced pf ob'" "part_of ob' ?ob {p. pair_sell p = sell}"
    "\<And>p. pair_sell p = sell \<Longrightarrow> tradeable (ob_users ob') (pair_orders (ob_orders ob') p)"
    using update_node_spec [OF synced, of sell] by blast
  have "tradeable users' (pair_orders (ob_orders ob) p)" if "pair_sell p \<noteq> sell" for p
    using that by (intro orderbook_inv_tradeable [OF inv]) (simp add: held)
  then have "orderbook_inv pf ob'"
    using inv_after_update [OF ob'(2,3)] ob'(4) by simp
  moreover have "orderbook_frame pf {sell} ob ?ob"
    by (simp add: orderbook_frame_def held)
  then have "orderbook_frame pf {sell} ob ob'"
    using frame_after_update [OF ob'(3)] by simp
  moreover have "ob_users ob' = users'"
    using ob'(3) by (simp add: part_of_def)
  ultimately show ?thesis
    using that ob'(1) by blast
qed

lemma fill_with_balance:
  assumes inv: "orderbook_inv pf ob" and os: "pair_orders (ob_orders ob) pair \<noteq> []"
    and held: "\<And>u t. held users' u t = (if u = u0 \<and> t = pair_sell pair then b else held (ob_users ob) u t)"
    and synced: "synced pf (ob\<lparr>ob_users := users'\<rparr>)" and b: "10000 \<le> unat b" "unat b \<le> unat (held (ob_users ob) u0 (pair_sell pair))"
  shows "orderbook_inv pf (ob\<lparr>ob_users := users'\<rparr>)" "orderbook_frame pf {pair_sell pair} ob (ob\<lparr>ob_users := users'\<rparr>)"
    and "\<exists>ob'. (if is_dust_amount a
        then update_projection_graph_edge pf pair
          (ob\<lparr>ob_users := users', ob_orders := best_order_for_pair_mut pair (\<lambda>o'. o'\<lparr>po_amount := Remaining a\<rparr>) (ob_orders ob)\<rparr>)
        else Ok (ob\<lparr>ob_users := users', ob_orders := best_order_for_pair_mut pair (\<lambda>o'. o'\<lparr>po_amount := Remaining a\<rparr>) (ob_orders ob)\<rparr>)) = Ok ob' \<and>
      orderbook_inv pf ob' \<and> orderbook_frame pf {pair_sell pair} ob ob' \<and> ob_users ob' = users'"
proof -
  let ?ob = "ob\<lparr>ob_users := users'\<rparr>"
  let ?ob2 = "ob\<lparr>ob_users := users', ob_orders := best_order_for_pair_mut pair (\<lambda>o'. o'\<lparr>po_amount := Remaining a\<rparr>) (ob_orders ob)\<rparr>"
  have "unat (held users' u t) \<ge> 10000" if "unat (held (ob_users ob) u t) \<ge> 10000" for u t
    using that b(1) by (simp add: held)
  then have "tradeable users' (pair_orders (ob_orders ob) p)" for p
    by (rule orderbook_inv_tradeable [OF inv])
  then show inv1: "orderbook_inv pf ?ob"
    using synced by (simp add: orderbook_inv_def)
  show frame1: "orderbook_frame pf {pair_sell pair} ob ?ob"
    using b(2) by (simp add: orderbook_frame_def held)
  have synced2: "synced pf ?ob2"
    using synced_amount [OF synced, of pair "Remaining a"] os by simp
  have orders2: "pair_orders (ob_orders ?ob2) = (pair_orders (ob_orders ob))
      (pair := butlast (pair_orders (ob_orders ob) pair) @ [last (pair_orders (ob_orders ob) pair)\<lparr>po_amount := Remaining a\<rparr>])"
    using os by (simp add: pair_orders_best_mut)
  have frame2: "orderbook_frame pf {pair_sell pair} ob ?ob2"
    using frame1 os unfolding orderbook_frame_def orders2 by auto
  have other: "tradeable (ob_users ?ob2) (pair_orders (ob_orders ?ob2) p)" if "p \<noteq> pair" for p
    using inv1 that by (simp add: pair_orders_best_mut orderbook_inv_def)
  show "\<exists>ob'. (if is_dust_amount a then update_projection_graph_edge pf pair ?ob2 else Ok ?ob2) = Ok ob' \<and>
      orderbook_inv pf ob' \<and> orderbook_frame pf {pair_sell pair} ob ob' \<and> ob_users ob' = users'"
  proof (cases "is_dust_amount a")
    case True
    have "pair_orders (ob_orders ?ob2) pair \<noteq> []" unfolding orders2 by simp
    then obtain ob' where ob': "update_projection_graph_edge pf pair ?ob2 = Ok ob'" "synced pf ob'" "part_of ob' ?ob2 {pair}"
      "tradeable (ob_users ob') (pair_orders (ob_orders ob') pair)"
      using update_edge_spec [OF synced2] by blast
    moreover have "orderbook_inv pf ob'"
      using inv_after_update [OF ob'(2,3)] ob'(4) other by simp
    moreover have "orderbook_frame pf {pair_sell pair} ob ob'"
      using frame_after_update [OF ob'(3) _ frame2] by simp
    moreover have "ob_users ob' = users'"
      using ob'(3) by (simp add: part_of_def)
    ultimately show ?thesis using True by simp
  next
    case False
    have "tradeable users' (pair_orders (ob_orders ob) pair)"
      using inv1 by (simp add: orderbook_inv_def)
    then have "tradeable (ob_users ?ob2) (pair_orders (ob_orders ?ob2) pair)"
      using os False unfolding orders2 by (simp add: tradeable_iff is_dust_iff)
    then have "orderbook_inv pf ?ob2"
      using synced2 other unfolding orderbook_inv_def by metis
    then show ?thesis using False frame2 by simp
  qed
qed

lemma fill_step_spec:
  assumes inv: "orderbook_inv pf ob" and os: "pair_orders (ob_orders ob) pair \<noteq> []"
    and x': "rate_step ob x pair = Some x'" and u: "u = po_user (last (pair_orders (ob_orders ob) pair))"
  obtains ob' where "fill_step pf path fl x pair ob = Ok (x', ob')" "orderbook_inv pf ob'" "orderbook_frame pf {pair_sell pair} ob ob'"
    "unat (held (ob_users ob') u (pair_sell pair)) \<le>
     unat (held (ob_users ob) u (pair_sell pair)) - unat (pf_from_f64_lossy pf (f64_div (flow_capacity fl) x'))"
proof -
  define ord where "ord = last (pair_orders (ob_orders ob) pair)"
  obtain user where user: "hm_get (ob_users ob) u = Some user" and best: "best_order_with_user_for_pair pair ob = Ok (ord, user)"
    using best_order_with_user [OF inv os] unfolding u ord_def by blast
  define amount where "amount = pf_from_f64_lossy pf (f64_div (flow_capacity fl) x')"
  define b where "b = saturating_sub (held (ob_users ob) u (pair_sell pair)) amount"
  have b: "unat b = unat (held (ob_users ob) u (pair_sell pair)) - unat amount"
    by (simp add: b_def saturating_sub_unat)
  obtain user' where deduct: "deduct_from_balance (pair_sell pair) amount user = (b, user')"
    and user': "\<And>t. balance_of user' t = (if t = pair_sell pair then b else balance_of user t)"
    using deduct_from_balance_eq [of "pair_sell pair" amount user] user by (cases "deduct_from_balance (pair_sell pair) amount user") (auto simp: b_def held_def)
  have rate: "rate_checked_mul x (po_rate ord) = Some x'"
    using x' by (simp add: rate_step_def ord_def)
  show ?thesis
  proof (cases "is_dust_amount (u256_to_u128_saturating b)")
    case True
    let ?users = "hm_insert u (clear_balance (pair_sell pair) user') (ob_users ob)"
    have held: "held ?users u' t = (if u' = u \<and> t = pair_sell pair then 0 else held (ob_users ob) u' t)" for u' t
      by (rule held_changed [OF user]) (simp add: balance_of_clear user')
    obtain ob' where "update_projection_graph_node pf (pair_sell pair) (ob\<lparr>ob_users := ?users\<rparr>) = Ok ob'" "orderbook_inv pf ob'"
      "orderbook_frame pf {pair_sell pair} ob ob'" "ob_users ob' = ?users"
      using fill_with_dust_balance [OF inv held synced_users [OF orderbook_invD(1) [OF inv]]] by blast
    moreover from this have "fill_step pf path fl x pair ob = Ok (x', ob')"
      using best rate deduct True u by (simp add: fill_step_def amount_def ord_def)
    ultimately show ?thesis
      using that held by simp
  next
    case False
    let ?users = "hm_insert u user' (ob_users ob)"
    have held: "held ?users u' t = (if u' = u \<and> t = pair_sell pair then b else held (ob_users ob) u' t)" for u' t
      by (rule held_changed [OF user]) (rule user')
    have "10000 \<le> unat b" "unat b \<le> unat (held (ob_users ob) u (pair_sell pair))"
      using False b by (simp_all add: is_dust_sat_iff)
    note filled = fill_with_balance [OF inv os held synced_users [OF orderbook_invD(1) [OF inv]] this]
    show ?thesis
    proof (cases "po_amount ord")
      case Unlimited
      then have "fill_step pf path fl x pair ob = Ok (x', ob\<lparr>ob_users := ?users\<rparr>)"
        using best rate deduct False u by (simp add: fill_step_def amount_def ord_def)
      then show ?thesis
        using that filled(1,2) held b by (simp add: amount_def)
    next
      case (Remaining a)
      obtain ob' where step: "(if is_dust_amount (saturating_sub a (u256_to_u128_saturating amount))
          then update_projection_graph_edge pf pair (ob\<lparr>ob_users := ?users, ob_orders := best_order_for_pair_mut pair
            (\<lambda>o'. o'\<lparr>po_amount := Remaining (saturating_sub a (u256_to_u128_saturating amount))\<rparr>) (ob_orders ob)\<rparr>)
          else Ok (ob\<lparr>ob_users := ?users, ob_orders := best_order_for_pair_mut pair
            (\<lambda>o'. o'\<lparr>po_amount := Remaining (saturating_sub a (u256_to_u128_saturating amount))\<rparr>) (ob_orders ob)\<rparr>)) = Ok ob'"
        and ob': "orderbook_inv pf ob'" "orderbook_frame pf {pair_sell pair} ob ob'" "ob_users ob' = ?users"
        using filled(3) by blast
      have "fill_step pf path fl x pair ob = Ok (x', ob')"
        using best rate deduct False u Remaining step
        by (simp add: fill_step_def amount_def ord_def Let_def split: if_splits)
      then show ?thesis
        using that ob' held b by (simp add: amount_def)
    qed
  qed
qed

lemma fill_step_error:
  assumes inv: "orderbook_inv pf ob" and os: "pair_orders (ob_orders ob) pair \<noteq> []" and x': "rate_step ob x pair = None"
  shows "fill_step pf path fl x pair ob = Err (UnreducableOrderbook path)"
proof -
  obtain user where "best_order_with_user_for_pair pair ob = Ok (last (pair_orders (ob_orders ob) pair), user)"
    using best_order_with_user [OF inv os] by blast
  then show ?thesis
    using x' by (simp add: fill_step_def rate_step_def)
qed

lemma orders_kept:
  assumes "orderbook_frame pf {t} ob ob'" "t \<notin> pair_sell ` set pairs" "p \<in> set pairs"
  shows "pair_orders (ob_orders ob') p = pair_orders (ob_orders ob) p" "held (ob_users ob') u (pair_sell p) = held (ob_users ob) u (pair_sell p)"
proof -
  have "pair_sell p \<noteq> t" using assms(2,3) by blast
  then show "pair_orders (ob_orders ob') p = pair_orders (ob_orders ob) p" "held (ob_users ob') u (pair_sell p) = held (ob_users ob) u (pair_sell p)"
    using assms(1) by (simp_all add: orderbook_frame_def)
qed

text \<open>
  Filling the orders along pairs that sell different tokens does not panic, keeps the invariant,
  and fails only when the rate along them cannot be represented.  When it succeeds every user on the
  way has paid the amount that the flow asks for, as far as the balance goes.
\<close>

lemma fill_pairs_spec:
  "orderbook_inv pf ob \<Longrightarrow> \<forall>p \<in> set pairs. pair_orders (ob_orders ob) p \<noteq> [] \<Longrightarrow> distinct (map pair_sell pairs) \<Longrightarrow>
   \<exists>r ob'. fill_pairs pf path fl x pairs ob = (r, ob') \<and> orderbook_inv pf ob' \<and> orderbook_frame pf (pair_sell ` set pairs) ob ob' \<and>
     r = (if rate_along ob x pairs = None then Err (UnreducableOrderbook path) else Ok ()) \<and>
     (r = Ok () \<longrightarrow> (\<forall>before p after y. pairs = before @ p # after \<and> rate_along ob x (before @ [p]) = Some y \<longrightarrow>
        unat (held (ob_users ob') (po_user (last (pair_orders (ob_orders ob) p))) (pair_sell p)) \<le>
        unat (held (ob_users ob) (po_user (last (pair_orders (ob_orders ob) p))) (pair_sell p)) -
        unat (pf_from_f64_lossy pf (f64_div (flow_capacity fl) y))))"
proof (induction pairs arbitrary: ob x)
  case Nil
  then show ?case by (simp add: orderbook_frame_refl)
next
  case (Cons pair pairs)
  have os: "pair_orders (ob_orders ob) pair \<noteq> []"
    using Cons.prems(2) by simp
  show ?case
  proof (cases "rate_step ob x pair")
    case None
    then show ?thesis
      using fill_step_error [OF Cons.prems(1) os] Cons.prems(1) by (simp add: orderbook_frame_refl)
  next
    case (Some x')
    obtain ob1 where ob1: "fill_step pf path fl x pair ob = Ok (x', ob1)" "orderbook_inv pf ob1" "orderbook_frame pf {pair_sell pair} ob ob1"
      and paid: "unat (held (ob_users ob1) (po_user (last (pair_orders (ob_orders ob) pair))) (pair_sell pair)) \<le>
        unat (held (ob_users ob) (po_user (last (pair_orders (ob_orders ob) pair))) (pair_sell pair)) -
        unat (pf_from_f64_lossy pf (f64_div (flow_capacity fl) x'))"
      using fill_step_spec [OF Cons.prems(1) os Some refl] by blast
    have fresh: "pair_sell pair \<notin> pair_sell ` set pairs" "distinct (map pair_sell pairs)"
      using Cons.prems(3) by simp_all
    note kept = orders_kept [OF ob1(3) fresh(1)]
    have rates: "rate_along ob1 y ps = rate_along ob y ps" if "set ps \<subseteq> set pairs" for y ps
      using kept(1) that by (intro rate_along_cong) blast
    obtain r ob2 where ob2: "fill_pairs pf path fl x' pairs ob1 = (r, ob2)" "orderbook_inv pf ob2"
      "orderbook_frame pf (pair_sell ` set pairs) ob1 ob2"
      "r = (if rate_along ob x' pairs = None then Err (UnreducableOrderbook path) else Ok ())"
      "r = Ok () \<longrightarrow> (\<forall>before p after y. pairs = before @ p # after \<and> rate_along ob1 x' (before @ [p]) = Some y \<longrightarrow>
        unat (held (ob_users ob2) (po_user (last (pair_orders (ob_orders ob1) p))) (pair_sell p)) \<le>
        unat (held (ob_users ob1) (po_user (last (pair_orders (ob_orders ob1) p))) (pair_sell p)) -
        unat (pf_from_f64_lossy pf (f64_div (flow_capacity fl) y)))"
      using Cons.IH [OF ob1(2) _ fresh(2), of x'] kept(1) Cons.prems(2) rates [of pairs x'] by auto
    have frame: "orderbook_frame pf (pair_sell ` set (pair # pairs)) ob ob2"
      using orderbook_frame_trans [OF ob1(3) ob2(3)] by simp
    have "unat (held (ob_users ob2) (po_user (last (pair_orders (ob_orders ob) p))) (pair_sell p)) \<le>
        unat (held (ob_users ob) (po_user (last (pair_orders (ob_orders ob) p))) (pair_sell p)) -
        unat (pf_from_f64_lossy pf (f64_div (flow_capacity fl) y))"
      if r: "r = Ok ()" and split: "pair # pairs = before @ p # after" "rate_along ob x (before @ [p]) = Some y" for before p after y
    proof (cases before)
      case Nil
      then have "p = pair" "y = x'" using split Some by simp_all
      then show ?thesis
        using paid ob2(3) le_trans unfolding orderbook_frame_def by blast
    next
      case (Cons q before')
      then have pairs: "pairs = before' @ p # after" "rate_along ob x' (before' @ [p]) = Some y"
        using split Some by simp_all
      then have "rate_along ob1 x' (before' @ [p]) = Some y" "p \<in> set pairs"
        using rates [of "before' @ [p]" x'] by auto
      then show ?thesis
        using ob2(5) r pairs(1) kept [of p] by metis
    qed
    then show ?thesis
      using ob1(1) ob2(1,2,4) frame Some by simp
  qed
qed

section \<open>Flows\<close>

lemma f64_round_not_NaN [simp]: "f64_round q \<noteq> NaN"
  by (simp add: f64_round_def Let_def)

lemma num_min_cases: "a \<noteq> NaN \<Longrightarrow> b \<noteq> NaN \<Longrightarrow> num_min a b = Ok a \<or> num_min a b = Ok b"
  by (simp add: num_min_def partial_cmp_def)

lemma rate_max_cases: "a \<noteq> NaN \<Longrightarrow> b \<noteq> NaN \<Longrightarrow> rate_max a b = Ok a \<or> rate_max a b = Ok b"
  by (simp add: rate_max_def rate_cmp_def partial_cmp_def)

lemma to_f64_tradeable:
  assumes "orderbook_inv pf ob" "pair_orders (ob_orders ob) pair \<noteq> []"
  obtains s where "(get_effective_amount (ob_users ob) (last (pair_orders (ob_orders ob) pair)) :: (orderbook_error, u256) result) =
      Ok (effective_amount (ob_users ob) (last (pair_orders (ob_orders ob) pair)))"
    "pf_to_f64_lossy pf (effective_amount (ob_users ob) (last (pair_orders (ob_orders ob) pair))) = Num s" "5000 \<le> s"
proof -
  let ?ord = "last (pair_orders (ob_orders ob) pair)"
  let ?a = "effective_amount (ob_users ob) ?ord"
  have "hm_get (ob_users ob) (po_user ?ord) \<noteq> None"
    using best_order_with_user [OF assms] by (metis option.distinct(1))
  then have eff: "(get_effective_amount (ob_users ob) ?ord :: (orderbook_error, u256) result) = Ok ?a"
    by (rule get_effective_amount_eq)
  have a: "10000 \<le> unat ?a"
    using orderbook_invD(2) [OF assms(1), of pair] assms(2) by (simp add: tradeable_def is_dust_sat_iff)
  then have "?a \<noteq> 0" by auto
  then obtain s where s: "pf_to_f64_lossy pf ?a = Num s" "of_nat (unat ?a) / 2 \<le> s"
    using to_f64_lossy by blast
  have "(10000 :: rat) \<le> of_nat (unat ?a)"
    using a by (metis of_nat_le_iff of_nat_numeral)
  with s that [OF eff] show ?thesis by simp
qed

lemma pair_rate:
  "orderbook_inv pf ob \<Longrightarrow> pair_orders (ob_orders ob) p \<noteq> [] \<Longrightarrow> order_rate (po_rate (last (pair_orders (ob_orders ob) p)))"
  using orderbook_invD(3) [of pf ob p] by (simp add: pair_ok_def)

text \<open>One step of the computation of a flow.\<close>

lemma flow_step_cases:
  assumes "orderbook_inv pf ob" "pair_orders (ob_orders ob) p \<noteq> []" "is_strictly_positive_and_finite x"
    "is_strictly_positive_and_finite m" "c \<noteq> NaN"
  shows "flow_step pf ob path (c, x, m) p = Err (UnreducableOrderbook path) \<or>
    (\<exists>c' x' m'. flow_step pf ob path (c, x, m) p = Ok (c', x', m') \<and> rate_step ob x p = Some x' \<and> computed_rate x' \<and>
       is_strictly_positive_and_finite m' \<and> is_strictly_positive_and_finite c' \<and>
       (c' = c \<or> c' = f64_mul (pf_to_f64_lossy pf (effective_amount (ob_users ob) (last (pair_orders (ob_orders ob) p)))) x'))"
proof (cases "rate_step ob x p")
  case None
  then show ?thesis
    using assms(2) by (simp add: flow_step_def best_order_eq last_of_def rate_step_def)
next
  case (Some x')
  let ?ord = "last (pair_orders (ob_orders ob) p)"
  have x': "computed_rate x'"
    by (rule rate_step_computed [OF assms(3) pair_rate [OF assms(1,2)] Some])
  then have pos: "is_strictly_positive_and_finite x'"
    by (rule computed_rate_positive)
  then have "m \<noteq> NaN" "x' \<noteq> NaN"
    using assms(4) by (auto simp: is_strictly_positive_and_finite_iff)
  then obtain m' where m': "(rate_max m x' :: (orderbook_error, exchange_rate) result) = Ok m'" "is_strictly_positive_and_finite m'"
    using rate_max_cases [of m x'] assms(4) pos by metis
  obtain s where s: "(get_effective_amount (ob_users ob) ?ord :: (orderbook_error, u256) result) = Ok (effective_amount (ob_users ob) ?ord)"
    "pf_to_f64_lossy pf (effective_amount (ob_users ob) ?ord) = Num s" "5000 \<le> s"
    using to_f64_tradeable [OF assms(1,2)] by blast
  have "f64_mul (Num s) x' \<noteq> NaN"
    using pos s(3) by (auto simp: is_strictly_positive_and_finite_iff f64_mul_Num)
  then obtain c' where "(num_min c (f64_mul (Num s) x') :: (orderbook_error, f64) result) = Ok c'" "c' = c \<or> c' = f64_mul (Num s) x'"
    using num_min_cases [OF assms(5)] by metis
  then show ?thesis
    using assms(2) Some m' s x' by (auto simp: flow_step_def best_order_eq last_of_def rate_step_def)
qed

text \<open>A capacity that is the sell amount of an order on the way, in terms of the first token.\<close>

definition limited_by :: "'g orderbook \<Rightarrow> exchange_rate \<Rightarrow> token_pair list \<Rightarrow> f64 \<Rightarrow> bool" where
  "limited_by ob x pairs c \<longleftrightarrow> (\<exists>before p after y. pairs = before @ p # after \<and> rate_along ob x (before @ [p]) = Some y \<and>
     computed_rate y \<and> c = f64_mul (pf_to_f64_lossy pf (effective_amount (ob_users ob) (last (pair_orders (ob_orders ob) p)))) y)"

lemma limited_by_head:
  assumes "rate_step ob x p = Some y" "computed_rate y"
    "c = f64_mul (pf_to_f64_lossy pf (effective_amount (ob_users ob) (last (pair_orders (ob_orders ob) p)))) y"
  shows "limited_by ob x (p # pairs) c"
  unfolding limited_by_def using assms by (intro exI [of _ "[]"] exI [of _ p] exI [of _ pairs] exI [of _ y]) simp

lemma limited_by_Cons: "rate_step ob x p = Some y \<Longrightarrow> limited_by ob y pairs c \<Longrightarrow> limited_by ob x (p # pairs) c"
  unfolding limited_by_def by (elim exE conjE, rename_tac before q after z, rule_tac x = "p # before" in exI) auto

lemma flow_fold_cases:
  "orderbook_inv pf ob \<Longrightarrow> \<forall>p \<in> set pairs. pair_orders (ob_orders ob) p \<noteq> [] \<Longrightarrow> is_strictly_positive_and_finite x \<Longrightarrow>
   is_strictly_positive_and_finite m \<Longrightarrow> c \<noteq> NaN \<Longrightarrow>
   try_fold (flow_step pf ob path) (c, x, m) pairs = Err (UnreducableOrderbook path) \<or>
   (\<exists>c' x' m'. try_fold (flow_step pf ob path) (c, x, m) pairs = Ok (c', x', m') \<and> rate_along ob x pairs = Some x' \<and>
      (pairs \<noteq> [] \<longrightarrow> is_strictly_positive_and_finite c') \<and> (c' = c \<or> limited_by ob x pairs c'))"
proof (induction pairs arbitrary: c x m)
  case (Cons p pairs)
  have p: "pair_orders (ob_orders ob) p \<noteq> []" "\<forall>p \<in> set pairs. pair_orders (ob_orders ob) p \<noteq> []"
    using Cons.prems(2) by simp_all
  consider "flow_step pf ob path (c, x, m) p = Err (UnreducableOrderbook path)"
    | c1 x1 m1 where "flow_step pf ob path (c, x, m) p = Ok (c1, x1, m1)" "rate_step ob x p = Some x1" "computed_rate x1"
      "is_strictly_positive_and_finite m1" "is_strictly_positive_and_finite c1"
      "c1 = c \<or> c1 = f64_mul (pf_to_f64_lossy pf (effective_amount (ob_users ob) (last (pair_orders (ob_orders ob) p)))) x1"
    using flow_step_cases [OF Cons.prems(1) p(1) Cons.prems(3-5)] by blast
  then show ?case
  proof cases
    case 1
    then show ?thesis by simp
  next
    case (2 c1 x1 m1)
    have "c1 \<noteq> NaN" using 2(5) by (auto simp: is_strictly_positive_and_finite_iff)
    note ih = Cons.IH [OF Cons.prems(1) p(2) computed_rate_positive [OF 2(3)] 2(4) this]
    show ?thesis
    proof (cases "try_fold (flow_step pf ob path) (c1, x1, m1) pairs = Err (UnreducableOrderbook path)")
      case True
      then show ?thesis using 2(1) by simp
    next
      case False
      then obtain c' x' m' where fold: "try_fold (flow_step pf ob path) (c1, x1, m1) pairs = Ok (c', x', m')" "rate_along ob x1 pairs = Some x'"
        "pairs \<noteq> [] \<longrightarrow> is_strictly_positive_and_finite c'" "c' = c1 \<or> limited_by ob x1 pairs c'"
        using ih by blast
      moreover have "is_strictly_positive_and_finite c'"
        using fold(1,3) 2(5) by (cases pairs) auto
      moreover have "c' = c \<or> limited_by ob x (p # pairs) c'"
        using fold(4) 2(6) limited_by_Cons [OF 2(2)] limited_by_head [OF 2(2,3)] by blast
      ultimately show ?thesis
        using 2(1,2) by simp
    qed
  qed
qed simp

lemma from_f64_positive: "x = Inf False \<or> (\<exists>t. x = Num t \<and> 1 \<le> t) \<Longrightarrow> 1 \<le> unat (pf_from_f64_lossy pf x)"
proof (elim disjE exE conjE)
  fix t assume t: "x = Num t" "1 \<le> t"
  show ?thesis
  proof (cases "t < 2 ^ 256")
    case True
    then have "1 \<le> \<lfloor>t\<rfloor>" "\<lfloor>t\<rfloor> < 2 ^ 256"
      using t(2) by (simp_all add: le_floor_iff floor_less_iff)
    then have "uint (word_of_int \<lfloor>t\<rfloor> :: u256) = \<lfloor>t\<rfloor>"
      by (simp add: uint_word_of_int)
    then show ?thesis
      using from_f64_lossy [OF t(2) True] \<open>1 \<le> \<lfloor>t\<rfloor>\<close> t(1) by (simp add: unat_eq_nat_uint nat_le_iff Suc_le_eq)
  next
    case False
    then show ?thesis
      using from_f64_lossy_saturates(1) [of t] t(1) by (simp add: unsigned_minus_1_eq_mask mask_eq_exp_minus_1)
  qed
qed (simp add: from_f64_lossy_saturates unsigned_minus_1_eq_mask mask_eq_exp_minus_1)

text \<open>
  Filling a path does not panic and keeps the invariant; it fails only when a rate cannot be
  represented, and when it succeeds the users together hold less than before.
\<close>

text \<open>A path either has no representable flow, or it can be filled with its flow.\<close>

lemma path_cases:
  assumes inv: "orderbook_inv pf ob" and orders: "\<forall>p \<in> set (pairs_on_path path). pair_orders (ob_orders ob) p \<noteq> []"
    and path: "distinct (map pair_sell (pairs_on_path path))" "pairs_on_path path \<noteq> []"
  obtains (unreducable) "find_path_flow pf path ob = Err (UnreducableOrderbook path)"
    | (filled) fl ob' where "find_path_flow pf path ob = Ok fl" "fill_path_with_flow pf path fl ob = (Ok (), ob')"
      "orderbook_inv pf ob'" "orderbook_frame pf (pair_sell ` set (pairs_on_path path)) ob ob'"
      "total_held (ob_users ob') < total_held (ob_users ob)" "is_strictly_positive_and_finite (flow_capacity fl)"
      "rate_along ob rate_identity (pairs_on_path path) = Some (flow_rate fl)"
      "limited_by ob rate_identity (pairs_on_path path) (flow_capacity fl)"
proof -
  let ?pairs = "pairs_on_path path"
  have one: "is_strictly_positive_and_finite rate_identity"
    by (simp add: rate_identity_def is_strictly_positive_and_finite_iff)
  consider "find_path_flow pf path ob = Err (UnreducableOrderbook path)"
    | c x m where "try_fold (flow_step pf ob path) (Inf False, rate_identity, rate_identity) ?pairs = Ok (c, x, m)"
      "rate_along ob rate_identity ?pairs = Some x" "is_strictly_positive_and_finite c" "c = Inf False \<or> limited_by ob rate_identity ?pairs c"
    using flow_fold_cases [OF inv orders one one, of "Inf False" path] path(2) by (fastforce simp: find_path_flow_def)
  then show ?thesis
  proof cases
    case 1
    then show ?thesis by (rule unreducable)
  next
    case (2 c x m)
    define fl where "fl = \<lparr>flow_rate = x, flow_capacity = c, flow_min_trade = f64_div c m\<rparr>"
    have flow: "find_path_flow pf path ob = Ok fl"
      using 2(1) by (simp add: find_path_flow_def fl_def)
    obtain ob' where ob': "fill_pairs pf path fl rate_identity ?pairs ob = (Ok (), ob')" "orderbook_inv pf ob'"
      "orderbook_frame pf (pair_sell ` set ?pairs) ob ob'"
      and paid: "\<And>before p after y. ?pairs = before @ p # after \<Longrightarrow> rate_along ob rate_identity (before @ [p]) = Some y \<Longrightarrow>
        unat (held (ob_users ob') (po_user (last (pair_orders (ob_orders ob) p))) (pair_sell p)) \<le>
        unat (held (ob_users ob) (po_user (last (pair_orders (ob_orders ob) p))) (pair_sell p)) -
        unat (pf_from_f64_lossy pf (f64_div c y))"
      using fill_pairs_spec [OF inv orders path(1), of path fl rate_identity] 2(2) by (auto simp: fl_def)
    have limited: "limited_by ob rate_identity ?pairs c"
      using 2(3,4) by (auto simp: is_strictly_positive_and_finite_iff)
    then obtain before p after y where y: "?pairs = before @ p # after" "rate_along ob rate_identity (before @ [p]) = Some y" "computed_rate y"
      "c = f64_mul (pf_to_f64_lossy pf (effective_amount (ob_users ob) (last (pair_orders (ob_orders ob) p)))) y"
      unfolding limited_by_def by blast
    let ?u = "po_user (last (pair_orders (ob_orders ob) p))"
    have p: "pair_orders (ob_orders ob) p \<noteq> []"
      using orders y(1) by auto
    have "1 \<le> unat (pf_from_f64_lossy pf (f64_div c y))"
    proof -
      obtain s where "5000 \<le> s" "pf_to_f64_lossy pf (effective_amount (ob_users ob) (last (pair_orders (ob_orders ob) p))) = Num s"
        using to_f64_tradeable [OF inv p] by blast
      moreover obtain q where "y = Num q" "pow2 (- 1074) \<le> q"
        using y(3) by (auto simp: computed_rate_def)
      moreover obtain c0 where "c = Num c0"
        using 2(3) by (auto simp: is_strictly_positive_and_finite_iff)
      ultimately show ?thesis
        using fill_amount_positive [of q s c0] y(4) by (intro from_f64_positive) auto
    qed
    moreover have "0 < unat (held (ob_users ob) ?u (pair_sell p))"
      using orderbook_invD(2) [OF inv, of p] orderbook_invD(3) [OF inv, of p] p by (auto simp: tradeable_iff pair_ok_def)
    ultimately have "unat (held (ob_users ob') ?u (pair_sell p)) < unat (held (ob_users ob) ?u (pair_sell p))"
      using paid [OF y(1,2)] by linarith
    then have "total_held (ob_users ob') < total_held (ob_users ob)"
      using ob'(3) by (intro total_held_less) (auto simp: orderbook_frame_def)
    then show ?thesis
      using filled [of fl ob'] flow ob' 2(2,3) limited by (simp add: fill_path_with_flow_def fl_def)
  qed
qed

lemma fill_path_spec:
  assumes inv: "orderbook_inv pf ob" and orders: "\<forall>p \<in> set (pairs_on_path path). pair_orders (ob_orders ob) p \<noteq> []"
    and path: "distinct (map pair_sell (pairs_on_path path))" "pairs_on_path path \<noteq> []"
  obtains r ob' where "fill_path pf path ob = (r, ob')" "orderbook_inv pf ob'"
    "orderbook_frame pf (pair_sell ` set (pairs_on_path path)) ob ob'"
    "r = Err (UnreducableOrderbook path) \<and> ob' = ob \<or> (\<exists>fl. r = Ok fl \<and> total_held (ob_users ob') < total_held (ob_users ob))"
proof (cases rule: path_cases [OF assms])
  case 1
  then show ?thesis
    using that [of "Err (UnreducableOrderbook path)" ob] inv by (simp add: fill_path_def orderbook_frame_refl)
next
  case (2 fl ob')
  then show ?thesis
    using that [of "Ok fl" ob'] by (simp add: fill_path_def)
qed

end

section \<open>Building an orderbook\<close>

definition balances_ok :: "user_map \<Rightarrow> bool" where
  "balances_ok users \<longleftrightarrow> (\<forall>u user t b. hm_get users u = Some user \<and> hm_get (user_balances user) t = Some b \<longrightarrow> 10000 \<le> unat b)"

definition order_ok :: "u16 \<Rightarrow> user_map \<Rightarrow> token_pair \<Rightarrow> pg_order \<Rightarrow> bool" where
  "order_ok max_token users pair ord \<longleftrightarrow> po_pair ord = pair \<and> order_rate (po_rate ord) \<and>
     pair_buy pair \<noteq> pair_sell pair \<and> pair_buy pair \<le> max_token \<and> pair_sell pair \<le> max_token \<and>
     (case po_amount ord of Unlimited \<Rightarrow> True | Remaining a \<Rightarrow> 10000 \<le> unat a) \<and>
     (\<exists>user. hm_get users (po_user ord) = Some user \<and> hm_get (user_balances user) (pair_sell pair) \<noteq> None)"

fun collected_ok :: "u16 \<times> user_map \<times> order_map \<Rightarrow> bool" where
  "collected_ok (max_token, users, orders) \<longleftrightarrow> orders_wf orders \<and> balances_ok users \<and>
     (\<forall>pair. \<forall>ord \<in> set (pair_orders orders pair). order_ok max_token users pair ord)"

lemma not_dust_order:
  assumes "\<not> is_dust_order el"
  shows "10000 \<le> unat (el_remaining_sell_amount el)" "10000 \<le> unat (el_balance el)"
proof -
  show "10000 \<le> unat (el_remaining_sell_amount el)"
    using assms by (auto simp: is_dust_order_def is_dust_iff)
  consider "10000 \<le> unat (ucast (el_balance el) :: u128)" | "2 ^ 128 - 1 \<le> el_balance el"
    using assms by (auto simp: is_dust_order_def is_dust_iff not_le)
  then show "10000 \<le> unat (el_balance el)"
  proof cases
    case 1
    have "unat (ucast (el_balance el) :: u128) \<le> unat (el_balance el)"
      by (simp add: unsigned_ucast_eq take_bit_nat_less_eq_self)
    with 1 show ?thesis by linarith
  next
    case 2
    then show ?thesis by (simp add: word_le_nat_alt)
  qed
qed

lemma accepted_element:
  assumes "(ord, el) \<in> set (accepted_elements elements)"
  shows "po_pair ord = el_pair el" "po_user ord = el_user el" "order_rate (po_rate ord)" "pair_buy (el_pair el) \<noteq> pair_sell (el_pair el)"
    "case po_amount ord of Unlimited \<Rightarrow> True | Remaining a \<Rightarrow> 10000 \<le> unat a" "10000 \<le> unat (el_balance el)"
  using assms not_dust_order [of el]
  by (auto simp: accepted_elements_def map_filter_def pg_order_new_def Let_def from_fraction_order_rate split: option.splits if_splits)

lemma collected_ok_add:
  assumes "collected_ok c" "(ord, el) \<in> set (accepted_elements elements)"
  shows "collected_ok (add_element c (ord, el))"
proof -
  obtain mt users orders where c: "c = (mt, users, orders)" by (cases c)
  let ?user = "set_balance el (hm_or_default users (el_user el) \<lparr>user_balances = []\<rparr>)"
  let ?users = "hm_insert (el_user el) ?user users"
  let ?mt = "max mt (max (pair_buy (el_pair el)) (pair_sell (el_pair el)))"
  note el = accepted_element [OF assms(2)]
  have balances: "hm_get (user_balances ?user) t = (case hm_get (user_balances (hm_or_default users (el_user el) \<lparr>user_balances = []\<rparr>)) t of
      Some b \<Rightarrow> Some b | None \<Rightarrow> if t = pair_sell (el_pair el) then Some (el_balance el) else None)" for t
    by (auto simp: set_balance_def split: option.split)
  have old: "order_ok ?mt ?users pair o'" if ok: "order_ok mt users pair o'" for pair o'
  proof -
    obtain user where user: "hm_get users (po_user o') = Some user" "hm_get (user_balances user) (pair_sell pair) \<noteq> None"
      using ok by (auto simp: order_ok_def)
    have "\<exists>user. hm_get ?users (po_user o') = Some user \<and> hm_get (user_balances user) (pair_sell pair) \<noteq> None"
    proof (cases "po_user o' = el_user el")
      case True
      then show ?thesis using user balances [of "pair_sell pair"] by (auto split: option.splits)
    next
      case False
      then show ?thesis using user by simp
    qed
    then show ?thesis using ok by (auto simp: order_ok_def le_max_iff_disj)
  qed
  have "order_ok ?mt ?users (el_pair el) ord"
    using el balances [of "pair_sell (el_pair el)"] by (auto simp: order_ok_def le_max_iff_disj split: option.split)
  moreover have "balances_ok ?users"
    using assms(1) el(6) balances unfolding c by (auto simp: balances_ok_def hm_or_default_def split: option.splits if_splits)
  moreover have "orders_wf (insert_order ord orders)"
    using assms(1) c by (simp add: orders_wf_insert)
  ultimately show ?thesis
    using assms(1) old el(1) unfolding c add_element_def by (auto simp: pair_orders_insert)
qed

lemma collected_ok_fold:
  "set xs \<subseteq> set (accepted_elements elements) \<Longrightarrow> collected_ok c \<Longrightarrow> collected_ok (foldl add_element c xs)"
proof (induction xs arbitrary: c)
  case (Cons x xs)
  then show ?case using collected_ok_add [of c "fst x" "snd x" elements] by simp
qed simp

text \<open>What an orderbook holds of the accepted elements: their orders, their tokens, and the first balance of a user and token.\<close>

definition accepted_orders :: "element list \<Rightarrow> token_pair \<Rightarrow> pg_order list" where
  "accepted_orders elements pair = filter (\<lambda>ord. po_pair ord = pair) (map fst (accepted_elements elements))"

definition accepted_tokens :: "element list \<Rightarrow> u16 list" where
  "accepted_tokens elements = concat (map (\<lambda>(ord, el). [pair_buy (el_pair el), pair_sell (el_pair el)]) (accepted_elements elements))"

definition accepted_balance :: "element list \<Rightarrow> address \<Rightarrow> u16 \<Rightarrow> u256" where
  "accepted_balance elements u t =
     (case List.find (\<lambda>(ord, el). el_user el = u \<and> pair_sell (el_pair el) = t) (accepted_elements elements) of
        Some (ord, el) \<Rightarrow> el_balance el
      | None \<Rightarrow> 0)"

lemma fold_add_tokens:
  "fst (foldl add_element c xs) = fold max (concat (map (\<lambda>(ord, el). [pair_buy (el_pair el), pair_sell (el_pair el)]) xs)) (fst c)"
  by (induction xs arbitrary: c) (auto simp: add_element_def max.commute max.left_commute)

lemma fold_add_orders:
  "pair_orders (snd (snd (foldl add_element c xs))) pair =
   pair_orders (snd (snd c)) pair @ filter (\<lambda>ord. po_pair ord = pair) (map fst xs)"
  by (induction xs arbitrary: c) (auto simp: add_element_def pair_orders_insert)

definition first_balance :: "user_map \<Rightarrow> address \<Rightarrow> u16 \<Rightarrow> u256 option" where
  "first_balance users u t = Option.bind (hm_get users u) (\<lambda>user. hm_get (user_balances user) t)"

lemma first_balance_add:
  "first_balance (fst (snd (add_element c (ord, el)))) u t =
   (case first_balance (fst (snd c)) u t of
      Some b \<Rightarrow> Some b
    | None \<Rightarrow> if el_user el = u \<and> pair_sell (el_pair el) = t then Some (el_balance el) else None)"
  by (cases c) (auto simp: add_element_def first_balance_def set_balance_def hm_or_default_def split: option.split)

lemma fold_add_balances:
  "first_balance (fst (snd (foldl add_element c xs))) u t =
   (case first_balance (fst (snd c)) u t of
      Some b \<Rightarrow> Some b
    | None \<Rightarrow> map_option (\<lambda>(ord, el). el_balance el) (List.find (\<lambda>(ord, el). el_user el = u \<and> pair_sell (el_pair el) = t) xs))"
proof (induction xs arbitrary: c)
  case (Cons x xs)
  then show ?case
    using first_balance_add [of c "fst x" "snd x" u t] by (cases x) (auto split: option.splits)
qed (simp split: option.split)

lemma held_first_balance: "held users u t = (case first_balance users u t of Some b \<Rightarrow> b | None \<Rightarrow> 0)"
  by (auto simp: held_def first_balance_def balance_of_def hm_or_default_def split: option.split bind_splits)

lemma filter_key_distinct:
  "hm_wf m \<Longrightarrow> filter (\<lambda>e. fst e = k) m = (case map_of m k of None \<Rightarrow> [] | Some v \<Rightarrow> [(k, v)])"
proof (induction m)
  case (Cons e m)
  then have "map_of m (fst e) = None"
    by (simp add: map_of_eq_None_iff)
  with Cons show ?case
    by (cases e) auto
qed simp

lemma cheapest_edges:
  assumes "orders_wf orders"
    and "mset (edge_list g) = mset (map (\<lambda>(pair, os). (node_index (pair_buy pair), node_index (pair_sell pair), w (last os))) (all_pairs orders))"
  shows "edge_weights g pair = (if pair_orders orders pair = [] then {#} else {#w (last (pair_orders orders pair))#})"
proof -
  have "edge_weights g pair = mset (map (\<lambda>(p, os). w (last os)) (filter (\<lambda>e. fst e = pair) (all_pairs orders)))"
  proof -
    have "mset (map (\<lambda>(a, b, w). w) (filter (\<lambda>(a, b, w). a = node_index (pair_buy pair) \<and> b = node_index (pair_sell pair))
        (map (\<lambda>(pair, os). (node_index (pair_buy pair), node_index (pair_sell pair), w (last os))) xs))) =
      mset (map (\<lambda>(p, os). w (last os)) (filter (\<lambda>e. fst e = pair) xs))" for xs :: "(token_pair \<times> pg_order list) list"
      by (induction xs) (auto simp: token_pair_eq_iff)
    then show ?thesis
      unfolding edge_weights_def assms(2) mset_map mset_filter by simp
  qed
  moreover have "map_of (all_pairs orders) pair = (if pair_orders orders pair = [] then None else Some (pair_orders orders pair))"
    using all_pairs_iff [OF assms(1)] distinct_all_pairs [OF assms(1)] by (auto simp: map_of_eq_None_iff)
  ultimately show ?thesis
    using filter_key_distinct [OF distinct_all_pairs [OF assms(1)], of pair] by simp
qed

context price_platform
begin

lemma add_nodes:
  "node_count (pf_view pf (foldl (\<lambda>g token. pf_add_node pf token g) g tokens)) = node_count (pf_view pf g) + length tokens \<and>
   mset (edge_list (pf_view pf (foldl (\<lambda>g token. pf_add_node pf token g) g tokens))) = mset (edge_list (pf_view pf g))"
  by (induction tokens arbitrary: g) (simp_all add: add_node)

lemma from_elements_spec:
  obtains ob where "from_elements pf elements = Ok ob" "orderbook_inv pf ob"
    "\<And>pair. mset (pair_orders (ob_orders ob) pair) = mset (accepted_orders elements pair)"
    "\<And>u t. held (ob_users ob) u t = accepted_balance elements u t"
    "node_count (projection pf ob) = Suc (unat (Max (insert 0 (set (accepted_tokens elements)))))"
proof -
  obtain mt users collected where fold: "foldl add_element (0, [], []) (accepted_elements elements) = (mt, users, collected)"
    by (metis prod_cases3)
  have "collected_ok (mt, users, collected)"
    unfolding fold [symmetric]
    by (rule collected_ok_fold [OF subset_refl]) (simp add: orders_wf_def balances_ok_def pair_orders_simps)
  then have ok: "orders_wf collected" "balances_ok users" "\<And>pair ord. ord \<in> set (pair_orders collected pair) \<Longrightarrow> order_ok mt users pair ord"
    by auto
  define orders where "orders = collect collected"
  have wf: "orders_wf orders"
    by (simp add: orders_def orders_wf_collect ok(1))
  have order: "order_ok mt users pair ord" if "ord \<in> set (pair_orders orders pair)" for pair ord
    using that ok(3) by (simp add: orders_def pair_orders_collect)
  define g0 where "g0 = foldl (\<lambda>g token. pf_add_node pf token g) (pf_new_graph pf) (map of_nat [0..<Suc (unat mt)])"
  have g0: "node_count (pf_view pf g0) = Suc (unat mt)" "edge_list (pf_view pf g0) = []"
    using add_nodes [of "pf_new_graph pf" "map of_nat [0..<Suc (unat mt)]"] new_graph by (simp_all add: g0_def edge_list_def)
  let ?edge = "\<lambda>(pair, os). (node_index (pair_buy pair), node_index (pair_sell pair), rate_weight (pf_log2 pf) (po_rate (last os)))"
  define es where "es = map ?edge (all_pairs orders)"
  have "(traverse (\<lambda>(pair, os). rbind (unwrap (last_of os)) (\<lambda>cheapest_order.
      Ok (node_index (pair_buy pair), node_index (pair_sell pair), rate_weight (pf_log2 pf) (po_rate cheapest_order)))) xs ::
        (node \<times> node \<times> weight) list res) = Ok (map ?edge xs)"
    if "\<forall>(pair, os) \<in> set xs. os \<noteq> []" for xs
    using that by (induction xs) (auto simp: last_of_def)
  moreover have "\<forall>(pair, os) \<in> set (all_pairs orders). os \<noteq> []"
    using all_pairs_iff [OF wf] by auto
  ultimately have edges: "(traverse (\<lambda>(pair, os). rbind (unwrap (last_of os)) (\<lambda>cheapest_order.
      Ok (node_index (pair_buy pair), node_index (pair_sell pair), rate_weight (pf_log2 pf) (po_rate cheapest_order)))) (all_pairs orders) ::
        (node \<times> node \<times> weight) list res) = Ok es"
    unfolding es_def by blast
  then have built: "from_elements pf elements =
      Ok \<lparr>ob_orders = orders, ob_users = users, ob_projection = pf_extend_with_edges pf es g0\<rparr>"
    unfolding from_elements_def fold Let_def prod.case orders_def [symmetric] g0_def [symmetric] by simp
  let ?g = "pf_view pf (pf_extend_with_edges pf es g0)"
  have in_range: "node_index (pair_buy pair) < Suc (unat mt)" "node_index (pair_sell pair) < Suc (unat mt)"
    if "pair_orders orders pair \<noteq> []" for pair
    using order [of "last (pair_orders orders pair)" pair] that by (auto simp: order_ok_def node_index_def word_le_nat_alt)
  have "\<forall>(a, b, w) \<in> set es. a < node_count (pf_view pf g0) \<and> b < node_count (pf_view pf g0)"
    using all_pairs_iff [OF wf] in_range g0(1) by (auto simp: es_def)
  then have g: "node_count ?g = Suc (unat mt)" "mset (edge_list ?g) = mset es"
    using extend_with_edges [of es g0] g0 by auto
  have "edge_weights ?g pair = cheapest_weight (pf_log2 pf) (pair_orders orders pair)" for pair
    unfolding cheapest_weight_def
    by (rule cheapest_edges [where w = "\<lambda>ord. rate_weight (pf_log2 pf) (po_rate ord)", OF wf trans [OF g(2) arg_cong [OF es_def, of mset]]])
  moreover have "tokens_only ?g"
  proof -
    have "node_index t < 2 ^ 16" for t
      using unat_less [of t] by (simp add: node_index_def)
    then show ?thesis
      using mset_eq_setD [OF g(2)] by (auto simp: tokens_only_def es_def)
  qed
  moreover have "pair_ok (node_count ?g) users pair (pair_orders orders pair)" for pair
  proof -
    have "sorted_by_rate (pair_orders orders pair)"
      unfolding orders_def pair_orders_collect by (rule sorted_sort_by_rate) (use ok(3) in \<open>auto simp: order_ok_def\<close>)
    moreover have "pair_buy pair \<noteq> pair_sell pair" if "pair_orders orders pair \<noteq> []"
      using order [of "last (pair_orders orders pair)" pair] that by (simp add: order_ok_def)
    ultimately show ?thesis
      using order in_range g(1) by (fastforce simp: pair_ok_def users_known_def order_ok_def)
  qed
  moreover have "tradeable users (pair_orders orders pair)" for pair
  proof (cases "pair_orders orders pair = []")
    case False
    then have o: "order_ok mt users pair (last (pair_orders orders pair))"
      by (intro order) simp
    then have "10000 \<le> unat (held users (po_user (last (pair_orders orders pair))) (pair_sell pair))"
      using ok(2) by (auto simp: order_ok_def balances_ok_def held_def balance_of_def hm_or_default_def)
    then show ?thesis
      using o by (simp add: tradeable_iff order_ok_def)
  qed (simp add: tradeable_def)
  ultimately have "orderbook_inv pf \<lparr>ob_orders = orders, ob_users = users, ob_projection = pf_extend_with_edges pf es g0\<rparr>"
    using wf by (simp add: orderbook_inv_def synced_def)
  moreover have "mset (pair_orders orders pair) = mset (accepted_orders elements pair)" for pair
  proof -
    have "pair_orders [] pair = []" by (simp add: pair_orders_simps)
    then have "pair_orders collected pair = accepted_orders elements pair"
      using fold_add_orders [of "(0, [], [])" "accepted_elements elements" pair] by (simp add: fold accepted_orders_def)
    then show ?thesis by (simp add: orders_def pair_orders_collect mset_sort_by_rate)
  qed
  moreover have "held users u t = accepted_balance elements u t" for u t
    using fold_add_balances [of "(0, [], [])" "accepted_elements elements" u t]
    by (auto simp: fold held_first_balance accepted_balance_def first_balance_def split: option.split)
  moreover have "mt = Max (insert 0 (set (accepted_tokens elements)))"
    using fold_add_tokens [of "(0, [], [])" "accepted_elements elements"] Max.set_eq_fold [of 0 "accepted_tokens elements"]
    by (simp add: fold accepted_tokens_def)
  ultimately show ?thesis
    using built that g(1) by simp
qed

end

end
