(* ===== verification/PricePlatform.thy ===== *)
theory PricePlatform
  imports PriceGraphInvariant
begin

text \<open>
  A platform for the order graph that can be evaluated: graphs are lists of edges, floating point
  conversions round to nearest and truncate, and the logarithm gives the binary exponent.  It meets
  the contract of \<open>price_platform\<close>, and the properties of the order graph are applied on it.
\<close>

section \<open>Graphs as lists of edges\<close>

record adjacency =
  adj_nodes :: nat
  adj_edges :: "(node \<times> node \<times> weight) list"

definition adj_view :: "adjacency \<Rightarrow> weight graph" where
  "adj_view g = \<lparr>node_count = adj_nodes g, out_edges = (\<lambda>i. map snd (filter (\<lambda>e. fst e = i) (adj_edges g)))\<rparr>"

definition adj_add_node :: "u16 \<Rightarrow> adjacency \<Rightarrow> adjacency" where
  "adj_add_node token g = \<lparr>adj_nodes = Suc (adj_nodes g), adj_edges = filter (\<lambda>e. fst e < adj_nodes g) (adj_edges g)\<rparr>"

definition adj_extend :: "(node \<times> node \<times> weight) list \<Rightarrow> adjacency \<Rightarrow> adjacency" where
  "adj_extend es g = g\<lparr>adj_edges := adj_edges g @ es\<rparr>"

definition adj_find_edge :: "adjacency \<Rightarrow> node \<Rightarrow> node \<Rightarrow> nat option" where
  "adj_find_edge g a b =
     (if a < adj_nodes g then position (\<lambda>e. fst e = a \<and> fst (snd e) = b) (adj_edges g) else None)"

definition adj_set_weight :: "nat \<Rightarrow> weight \<Rightarrow> adjacency \<Rightarrow> adjacency" where
  "adj_set_weight e w g =
     g\<lparr>adj_edges := (adj_edges g)[e := (fst (adj_edges g ! e), fst (snd (adj_edges g ! e)), w)]\<rparr>"

definition adj_remove_edge :: "nat \<Rightarrow> adjacency \<Rightarrow> adjacency" where
  "adj_remove_edge e g = g\<lparr>adj_edges := take e (adj_edges g) @ drop (Suc e) (adj_edges g)\<rparr>"

text \<open>The edges of the view are those of the list that leave a node of the graph.\<close>

lemma mset_upt_filter:
  "mset (concat (map (\<lambda>i. filter (\<lambda>e. f e = i) xs) [0..<n])) = filter_mset (\<lambda>e. f e < n) (mset xs)"
proof (induction n)
  case (Suc n)
  have "filter_mset (\<lambda>e. f e < Suc n) M = filter_mset (\<lambda>e. f e < n) M + filter_mset (\<lambda>e. f e = n) M" for M
    by (induction M) auto
  then show ?case using Suc by simp
qed simp

lemma adj_edge_mset: "mset (edge_list (adj_view g)) = filter_mset (\<lambda>e. fst e < adj_nodes g) (mset (adj_edges g))"
proof -
  have "map (\<lambda>(j, w). (i, j, w)) (map snd (filter (\<lambda>e. fst e = i) xs)) = filter (\<lambda>e. fst e = i) xs"
    for i :: node and xs :: "(node \<times> node \<times> weight) list"
    by (induction xs) auto
  then show ?thesis
    by (simp add: edge_list_def adj_view_def mset_upt_filter del: map_map mset_concat)
qed

lemma adj_edge_set: "(a, b, w) \<in> set (edge_list (adj_view g)) \<longleftrightarrow> a < adj_nodes g \<and> (a, b, w) \<in> set (adj_edges g)"
  using arg_cong [OF adj_edge_mset [of g], of set_mset] by auto

lemma adj_find_edgeD:
  assumes "adj_find_edge g a b = Some e"
  obtains w where "a < adj_nodes g" "e < length (adj_edges g)" "adj_edges g ! e = (a, b, w)"
    "(a, b, w) \<in> set (edge_list (adj_view g))"
proof -
  have "a < adj_nodes g" and e: "e < length (adj_edges g)" "fst (adj_edges g ! e) = a" "fst (snd (adj_edges g ! e)) = b"
    using assms by (auto simp: adj_find_edge_def position_eq_Some split: if_splits)
  moreover from e have "adj_edges g ! e = (a, b, snd (snd (adj_edges g ! e)))"
    by (cases "adj_edges g ! e") auto
  ultimately show ?thesis
    using that nth_mem [OF e(1)] unfolding adj_edge_set by metis
qed

lemma mset_remove_nth: "e < length xs \<Longrightarrow> mset (take e xs @ drop (Suc e) xs) = mset xs - {#xs ! e#}"
  by (metis add_mset_remove_trivial id_take_nth_drop mset.simps(2) mset_append union_mset_add_mset_right)

section \<open>Numbers\<close>

definition exponent_log2 :: "f64 \<Rightarrow> f64" where
  "exponent_log2 x = (case x of Num q \<Rightarrow> if expo q = 0 then Zero False else Num (of_int (expo q)) | _ \<Rightarrow> NaN)"

definition truncating_u256 :: "f64 \<Rightarrow> u256" where
  "truncating_u256 x =
     (case x of NaN \<Rightarrow> 0 | Inf s \<Rightarrow> if s then 0 else - 1 | Zero s \<Rightarrow> 0
      | Num q \<Rightarrow> if q < 1 then 0 else if 2 ^ 256 \<le> q then - 1 else word_of_int \<lfloor>q\<rfloor>)"

definition nearest_f64 :: "u256 \<Rightarrow> f64" where
  "nearest_f64 u = f64_of_nat (unat u)"

lemma exponent_log2_ok: "log2_ok exponent_log2"
proof -
  have "\<bar>of_int (expo q)\<bar> \<le> (of_nat k :: rat)" if q: "pow2 (- int k) \<le> q" "q \<le> pow2 (int k)" for k q
  proof -
    have "0 < q" using q(1) pow2_pos [of "- int k"] by linarith
    moreover have "pow2 (int k) < pow2 (int k + 1)" by (simp add: pow2_less_iff)
    ultimately have "- int k \<le> expo q" "expo q < int k + 1"
      using expo_ge [OF q(1)] expo_less [of q "int k + 1"] q(2) by simp_all
    then have "\<bar>expo q\<bar> \<le> int k" by linarith
    then have "(of_int \<bar>expo q\<bar> :: rat) \<le> of_int (int k)" by (simp only: of_int_le_iff)
    then show ?thesis by simp
  qed
  then show ?thesis
    by (auto simp: log2_ok_def exponent_log2_def split: f64.split)
qed

lemma f64_of_nat_near:
  assumes "0 < n" "n < 2 ^ 256"
  shows "\<exists>q. f64_of_nat n = Num q \<and> of_nat n / 2 \<le> q \<and> q \<le> 2 * of_nat n"
proof -
  let ?q = "of_nat n :: rat"
  have pos: "0 < ?q" "pow2 0 \<le> ?q" using assms(1) by (simp_all add: pow2_def)
  have "?q < of_nat (2 ^ 256)"
    using assms(2) by (simp only: of_nat_less_iff)
  then have "?q < pow2 256" by (simp add: pow2_def)
  then have e: "- 1022 \<le> expo ?q" "expo ?q < 1023"
    using expo_ge [OF pos(2)] expo_less [OF pos(1)] by fastforce+
  obtain v where v: "f64_round ?q = Num v" "pow2 (expo ?q) \<le> v" "v \<le> pow2 (expo ?q + 1)"
    using f64_round_expo [OF pos(1) e] .
  moreover have "pow2 (expo ?q + 1) = 2 * pow2 (expo ?q)"
    using pow2_add [of "expo ?q" 1] by (simp add: pow2_def [of 1])
  ultimately show ?thesis
    using expo_bounds [OF pos(1)] by (auto simp: f64_of_nat_def)
qed

lemma nearest_f64_ok:
  "u \<noteq> 0 \<Longrightarrow> \<exists>q. nearest_f64 u = Num q \<and> of_nat (unat u) / 2 \<le> q \<and> q \<le> 2 * of_nat (unat u)"
  unfolding nearest_f64_def using unat_less [of u] by (intro f64_of_nat_near) (simp_all add: unat_gt_0)

section \<open>The platform\<close>

definition list_platform :: "adjacency platform" where
  "list_platform =
     \<lparr>pf_log2 = exponent_log2, pf_to_f64_lossy = nearest_f64, pf_from_f64_lossy = truncating_u256,
      pf_new_graph = \<lparr>adj_nodes = 0, adj_edges = []\<rparr>, pf_add_node = adj_add_node, pf_extend_with_edges = adj_extend,
      pf_find_edge = adj_find_edge, pf_set_weight = adj_set_weight, pf_remove_edge = adj_remove_edge, pf_view = adj_view\<rparr>"

lemma node_count_adj [simp]: "node_count (adj_view g) = adj_nodes g"
  by (simp add: adj_view_def)

interpretation lists: price_platform list_platform
proof unfold_locales
  fix u :: u256
  assume "u \<noteq> 0"
  then show "\<exists>q. pf_to_f64_lossy list_platform u = Num q \<and> of_nat (unat u) / 2 \<le> q \<and> q \<le> 2 * of_nat (unat u)"
    using nearest_f64_ok by (simp add: list_platform_def)
next
  fix g :: adjacency and t
  have "filter_mset (\<lambda>e. fst e < Suc (adj_nodes g)) (filter_mset (\<lambda>e. fst e < adj_nodes g) M) =
      filter_mset (\<lambda>e. fst e < adj_nodes g) M" for M :: "(node \<times> node \<times> weight) multiset"
    by (simp add: filter_filter_mset) (rule filter_mset_cong; auto)
  then show "mset (edge_list (pf_view list_platform (pf_add_node list_platform t g))) = mset (edge_list (pf_view list_platform g))"
    by (simp add: list_platform_def adj_edge_mset adj_add_node_def)
next
  fix g :: adjacency and es :: "(node \<times> node \<times> weight) list"
  assume "\<forall>(a, b, w) \<in> set es. a < node_count (pf_view list_platform g) \<and> b < node_count (pf_view list_platform g)"
  then have "filter_mset (\<lambda>e. fst e < adj_nodes g) (mset es) = mset es"
    by (intro filter_mset_eq_conv [THEN iffD2]) (auto simp: list_platform_def)
  then show "node_count (pf_view list_platform (pf_extend_with_edges list_platform es g)) = node_count (pf_view list_platform g) \<and>
      mset (edge_list (pf_view list_platform (pf_extend_with_edges list_platform es g))) =
      mset (edge_list (pf_view list_platform g)) + mset es"
    by (simp add: list_platform_def adj_edge_mset adj_extend_def)
next
  fix g a b
  show "pf_find_edge list_platform g a b = None \<longleftrightarrow> (\<forall>w. (a, b, w) \<notin> set (edge_list (pf_view list_platform g)))"
    by (force simp: list_platform_def adj_find_edge_def adj_edge_set position_eq_None)
next
  fix g a b e w'
  assume "pf_find_edge list_platform g a b = Some e"
  then obtain w where "a < adj_nodes g" "e < length (adj_edges g)" "adj_edges g ! e = (a, b, w)"
    "(a, b, w) \<in> set (edge_list (adj_view g))"
    by (auto simp: list_platform_def elim: adj_find_edgeD)
  then show "node_count (pf_view list_platform (pf_set_weight list_platform e w' g)) = node_count (pf_view list_platform g) \<and>
      (\<exists>w. (a, b, w) \<in> set (edge_list (pf_view list_platform g)) \<and>
         mset (edge_list (pf_view list_platform (pf_set_weight list_platform e w' g))) =
         mset (edge_list (pf_view list_platform g)) - {#(a, b, w)#} + {#(a, b, w')#})"
    by (auto simp: list_platform_def adj_edge_mset adj_set_weight_def mset_update filter_diff_mset)
next
  fix g a b e
  assume "pf_find_edge list_platform g a b = Some e"
  then obtain w where "a < adj_nodes g" "e < length (adj_edges g)" "adj_edges g ! e = (a, b, w)"
    "(a, b, w) \<in> set (edge_list (adj_view g))"
    by (auto simp: list_platform_def elim: adj_find_edgeD)
  then show "node_count (pf_view list_platform (pf_remove_edge list_platform e g)) = node_count (pf_view list_platform g) \<and>
      (\<exists>w. (a, b, w) \<in> set (edge_list (pf_view list_platform g)) \<and>
         mset (edge_list (pf_view list_platform (pf_remove_edge list_platform e g))) =
         mset (edge_list (pf_view list_platform g)) - {#(a, b, w)#})"
    using mset_remove_nth [of e "adj_edges g"]
    by (auto simp: list_platform_def adj_edge_mset adj_remove_edge_def filter_diff_mset)
qed (simp_all add: list_platform_def exponent_log2_ok truncating_u256_def adj_add_node_def)

end
