(* ===== verification/PriceReduction.thy ===== *)
theory PriceReduction
  imports PricePlatform
begin

text \<open>
  Overlaps of the order graph: the search for negative cycles over all subgraphs is exact, and
  filling negative cycles ends with an orderbook that has none, or with the error that a rate
  cannot be represented.  The arguments rest on the correctness of the shortest path search, on
  the invariant of the order graph, and on the balances as a measure of progress.
\<close>

section \<open>Subgraphs without negative cycles\<close>

definition overlapping :: "weight graph \<Rightarrow> bool" where
  "overlapping g \<longleftrightarrow> (\<exists>v es. walk g v es v \<and> weight_total es < 0)"

text \<open>A set of nodes that no edge leaves and in which no cycle is negative.\<close>

definition clear_of_cycles :: "weight graph \<Rightarrow> node set \<Rightarrow> bool" where
  "clear_of_cycles g R \<longleftrightarrow> (\<forall>(a, b, w) \<in> set (edge_list g). a \<in> R \<longrightarrow> b \<in> R) \<and>
     (\<forall>v \<in> R. \<forall>es. walk g v es v \<longrightarrow> 0 \<le> weight_total es)"

lemma clear_empty: "clear_of_cycles g {}"
  by (auto simp: clear_of_cycles_def)

lemma clear_union: "clear_of_cycles g R \<Longrightarrow> clear_of_cycles g S \<Longrightarrow> clear_of_cycles g (R \<union> S)"
  unfolding clear_of_cycles_def by fastforce

lemma walk_stays:
  "walk g u es v \<Longrightarrow> \<forall>(a, b, w) \<in> set (edge_list g). a \<in> R \<longrightarrow> b \<in> R \<Longrightarrow> u \<in> R \<Longrightarrow> set (walk_nodes u es) \<subseteq> R"
proof (induction g u es v rule: walk.induct)
  case (2 g u i j w es v)
  have "(u, j, w) \<in> set (edge_list g)" "walk g j es v" using 2(2) by auto
  moreover from this have "j \<in> R" using 2(3,4) by blast
  ultimately show ?case
    using 2 by (simp add: walk_nodes_def)
qed (simp add: walk_nodes_def)

lemma walk_transfer:
  "walk g u es v \<Longrightarrow> u \<in> R \<Longrightarrow> \<forall>(a, b, w) \<in> set (edge_list g). a \<in> R \<longrightarrow> b \<in> R \<Longrightarrow>
   \<forall>(a, b, w) \<in> set (edge_list g). a \<in> R \<longrightarrow> (a, b, w) \<in> set (edge_list g') \<Longrightarrow> walk g' u es v"
proof (induction g u es v rule: walk.induct)
  case (2 g u i j w es v)
  have "(u, j, w) \<in> set (edge_list g)" "walk g j es v" "i = u" using 2(2) by auto
  moreover from this have "j \<in> R" "(u, j, w) \<in> set (edge_list g')" using 2(3-) by blast+
  ultimately show ?case
    using 2 by simp
qed simp

lemma clear_cong:
  assumes "clear_of_cycles g R" "\<And>a b w. a \<in> R \<Longrightarrow> (a, b, w) \<in> set (edge_list g') \<longleftrightarrow> (a, b, w) \<in> set (edge_list g)"
  shows "clear_of_cycles g' R"
proof -
  have closed: "\<forall>(a, b, w) \<in> set (edge_list g'). a \<in> R \<longrightarrow> b \<in> R"
    using assms by (auto simp: clear_of_cycles_def)
  moreover have "0 \<le> weight_total es" if "v \<in> R" "walk g' v es v" for v es
  proof -
    have "walk g v es v"
      using assms(2) by (intro walk_transfer [OF that(2,1) closed]) auto
    then show ?thesis
      using assms(1) that(1) by (simp add: clear_of_cycles_def)
  qed
  ultimately show ?thesis by (simp add: clear_of_cycles_def)
qed

lemma walk_append: "walk g u (es @ fs) w \<longleftrightarrow> (\<exists>v. walk g u es v \<and> walk g v fs w)"
  by (induction g u es w rule: walk.induct) auto

lemma weight_total_append [simp]: "weight_total (es @ fs) = weight_total es + weight_total fs"
  by (simp add: weight_total_def)

lemma weight_total_eq: "weights.total = weight_total"
  by (simp add: fun_eq_iff weights.total_def weight_total_def)

lemma walk_target: "walk g u es v \<Longrightarrow> \<forall>(a, b, w) \<in> set (edge_list g). b < n \<Longrightarrow> u < n \<Longrightarrow> v < n"
  by (induction g u es v rule: walk.induct) auto

text \<open>The path that a successful search finds, or that there is none.\<close>

lemma found_path:
  assumes "weights.search_result_ok g s (Some (Ok st))" "v < node_count g"
  obtains (unreachable) "path_to st s v = Ok None" "\<nexists>es. walk g s es v"
    | (path) es where "path_to st s v = Ok (Some (walk_nodes s es))" "walk g s es v" "distinct (walk_nodes s es)"
      "\<And>es'. walk g s es' v \<Longrightarrow> weight_total es \<le> weight_total es'"
proof -
  have "case path_to st s v of
      Ok (Some p) \<Rightarrow> \<exists>es. walk g s es v \<and> p = walk_nodes s es \<and> distinct p \<and>
        (\<forall>es'. walk g s es' v \<longrightarrow> weight_total es \<le> weight_total es')
    | Ok None \<Rightarrow> \<not> (\<exists>es. walk g s es v) | _ \<Rightarrow> False"
    using assms unfolding weights.search_result_ok_def weight_total_eq by simp
  then show ?thesis
    using unreachable path by (auto split: result.splits option.splits)
qed

text \<open>What is reachable from the source of a successful search is clear.\<close>

lemma clear_reachable:
  assumes "weights.search_result_ok g s (Some (Ok st))" "\<forall>(a, b, w) \<in> set (edge_list g). b < node_count g"
  shows "clear_of_cycles g (set (connected_nodes st s))"
proof -
  have nodes: "set (connected_nodes st s) = {v. v < node_count g \<and> (\<exists>es. walk g s es v)}"
    using assms(1) unfolding weights.search_result_ok_def by simp
  have "b \<in> set (connected_nodes st s)" if e: "(a, b, w) \<in> set (edge_list g)" and a: "a \<in> set (connected_nodes st s)" for a b w
  proof -
    obtain es where "walk g s es a" using a nodes by blast
    then have "walk g s (es @ [(a, b, w)]) b" using e by (simp add: walk_snoc)
    then show ?thesis using nodes assms(2) e by blast
  qed
  moreover have "0 \<le> weight_total es" if v: "v \<in> set (connected_nodes st s)" and cycle: "walk g v es v" for v es
  proof -
    obtain fs where fs: "walk g s fs v" "v < node_count g" using v nodes by blast
    then obtain gs where gs: "walk g s gs v" "\<And>es'. walk g s es' v \<Longrightarrow> weight_total gs \<le> weight_total es'"
      using found_path [OF assms(1)] by metis
    have "walk g s (gs @ es) v" using gs(1) cycle walk_append by blast
    from gs(2) [OF this] show ?thesis by simp
  qed
  ultimately show ?thesis
    unfolding clear_of_cycles_def by blast
qed

section \<open>The projection as a graph\<close>

definition MAX_TOKENS :: nat where
  "MAX_TOKENS = 181"

context price_platform
begin

lemma edge_iff:
  assumes "synced pf ob"
  shows "(a, b, w) \<in> set (edge_list (projection pf ob)) \<longleftrightarrow>
    a < 2 ^ 16 \<and> b < 2 ^ 16 \<and> w \<in># cheapest_weight (pf_log2 pf) (pair_orders (ob_orders ob) \<lparr>pair_buy = token_id a, pair_sell = token_id b\<rparr>)"
proof -
  have "edge_weights (projection pf ob) p = cheapest_weight (pf_log2 pf) (pair_orders (ob_orders ob) p)" for p
    using assms unfolding synced_def by blast
  moreover have "a < 2 ^ 16 \<and> b < 2 ^ 16" if "(a, b, w) \<in> set (edge_list (projection pf ob))"
    using assms that by (auto simp: synced_def tokens_only_def)
  ultimately show ?thesis
    using edge_weights_iff [of w "projection pf ob" "\<lparr>pair_buy = token_id a, pair_sell = token_id b\<rparr>"]
      node_index_token_id [of a] node_index_token_id [of b] by auto
qed

lemma edge_facts:
  assumes "orderbook_inv pf ob" "(a, b, w) \<in> set (edge_list (projection pf ob))"
  shows "pair_orders (ob_orders ob) \<lparr>pair_buy = token_id a, pair_sell = token_id b\<rparr> \<noteq> []" "a \<noteq> b"
    "a < node_count (projection pf ob)" "b < node_count (projection pf ob)" "a < 2 ^ 16" "b < 2 ^ 16"
    "w \<noteq> weight_infinite" "\<bar>sint w\<bar> \<le> WEIGHT_BOUND"
proof -
  let ?pair = "\<lparr>pair_buy = token_id a, pair_sell = token_id b\<rparr>"
  let ?os = "pair_orders (ob_orders ob) ?pair"
  note e = edge_iff [OF orderbook_invD(1) [OF assms(1)], THEN iffD1, OF assms(2)]
  show ab: "a < 2 ^ 16" "b < 2 ^ 16" and os: "?os \<noteq> []"
    using e by (simp_all add: cheapest_weight_def split: if_splits)
  have w: "w = rate_weight (pf_log2 pf) (po_rate (last ?os))"
    using e os by (simp add: cheapest_weight_def)
  have ok: "pair_ok (node_count (projection pf ob)) (ob_users ob) ?pair ?os"
    by (rule orderbook_invD(3) [OF assms(1)])
  then have "token_id a \<noteq> token_id b" "node_index (token_id a) < node_count (projection pf ob)"
      "node_index (token_id b) < node_count (projection pf ob)"
    using os by (simp_all add: pair_ok_def)
  then show "a \<noteq> b" "a < node_count (projection pf ob)" "b < node_count (projection pf ob)"
    unfolding node_index_token_id [OF ab(1)] node_index_token_id [OF ab(2)] by blast+
  have "order_rate (po_rate (last ?os))"
    by (rule pair_rate [OF assms(1) os])
  from rate_weight_bound [OF log2 this] show "w \<noteq> weight_infinite" "\<bar>sint w\<bar> \<le> WEIGHT_BOUND"
    by (simp_all add: w)
qed

lemma projection_search:
  assumes "orderbook_inv pf ob" "node_count (projection pf ob) \<le> MAX_TOKENS" "s < node_count (projection pf ob)"
  shows "weights.search_result_ok (projection pf ob) s (shortest_path weight_measure (projection pf ob) s None)"
proof (rule weights.shortest_path_unbounded)
  let ?g = "projection pf ob"
  have "a < node_count ?g \<and> b < node_count ?g \<and> w \<noteq> m_infinite weight_measure \<and> \<bar>sint w\<bar> \<le> WEIGHT_BOUND"
    if "(a, b, w) \<in> set (edge_list ?g)" for a b w
    using edge_facts [OF assms(1) that] by (simp add: weight_measure_def)
  moreover have "0 \<le> WEIGHT_BOUND"
    by (simp add: WEIGHT_BOUND_def)
  ultimately show "weights.edges_within WEIGHT_BOUND ?g"
    unfolding weights.edges_within_def by blast
  have "loop_free ?g"
    unfolding loop_free_def using edge_facts(2) [OF assms(1)] by blast
  moreover have "int (node_count ?g) * int (node_count ?g) \<le> 181 * 181"
    using assms(2) by (intro mult_mono) (simp_all add: MAX_TOKENS_def)
  ultimately have "pass_bound ?g * int (node_count ?g) \<le> 181 * 181"
    by (simp add: pass_bound_def)
  then show "WEIGHT_BOUND * (pass_bound ?g * int (node_count ?g) + 1) \<le> 2 ^ 127 - 2"
    by (simp add: WEIGHT_BOUND_def)
qed (rule assms(3))

section \<open>Filling cycles\<close>

lemma walk_links: "walk g u es v \<Longrightarrow> links (walk_nodes u es) = map (\<lambda>(i, j, w). (i, j)) es"
proof (induction g u es v rule: walk.induct)
  case (2 g u i j w es v)
  then show ?case by (auto simp: walk_nodes_def links_def)
qed (simp add: walk_nodes_def links_def)

lemma walk_edges: "walk g u es v \<Longrightarrow> set es \<subseteq> set (edge_list g)"
  by (induction g u es v rule: walk.induct) auto

lemma walk_nodes_not_Nil [simp]: "walk_nodes u es \<noteq> []"
  by (simp add: walk_nodes_def)

lemma walk_nodes_last: "walk g u es v \<Longrightarrow> last (walk_nodes u es) = v"
  by (induction g u es v rule: walk.induct) (auto simp: walk_nodes_def)

lemma walk_suffix: "walk g u es w \<Longrightarrow> v \<in> set (walk_nodes u es) \<Longrightarrow> \<exists>gs. walk g v gs w"
proof (induction g u es w rule: walk.induct)
  case (1 g u v')
  then show ?case by (intro exI [of _ "[]"]) (simp add: walk_nodes_def)
next
  case (2 g u i j w es v')
  show ?case
  proof (cases "v = u")
    case True
    then show ?thesis using 2(2) by blast
  next
    case False
    then show ?thesis using 2 by (auto simp: walk_nodes_def)
  qed
qed

lemma walk_tokens: "orderbook_inv pf ob \<Longrightarrow> walk (projection pf ob) u es v \<Longrightarrow> j \<in> set (tl (walk_nodes u es)) \<Longrightarrow> j < 2 ^ 16"
  using walk_edges edge_facts(6) by (fastforce simp: walk_nodes_def)

text \<open>The pairs along a walk have orders; along a path without repetitions they sell different tokens.\<close>

lemma walk_pairs:
  assumes inv: "orderbook_inv pf ob" and walk: "walk (projection pf ob) u es v" and nodes: "distinct (tl (walk_nodes u es))"
  shows "\<forall>p \<in> set (pairs_on_path (walk_nodes u es)). pair_orders (ob_orders ob) p \<noteq> []"
    "distinct (map pair_sell (pairs_on_path (walk_nodes u es)))"
    "pair_sell ` set (pairs_on_path (walk_nodes u es)) = token_id ` set (tl (walk_nodes u es))"
proof -
  have pairs: "pairs_on_path (walk_nodes u es) = map (\<lambda>(i, j, w). \<lparr>pair_buy = token_id i, pair_sell = token_id j\<rparr>) es"
    by (simp add: pairs_on_path_def walk_links [OF walk] comp_def case_prod_unfold)
  have edges: "e \<in> set (edge_list (projection pf ob))" if "e \<in> set es" for e
    using walk_edges [OF walk] that by blast
  show "\<forall>p \<in> set (pairs_on_path (walk_nodes u es)). pair_orders (ob_orders ob) p \<noteq> []"
    unfolding pairs using edge_facts(1) [OF inv edges] by fastforce
  have tl: "tl (walk_nodes u es) = map (\<lambda>(i, j, w). j) es"
    by (simp add: walk_nodes_def)
  have sells: "map pair_sell (pairs_on_path (walk_nodes u es)) = map token_id (tl (walk_nodes u es))"
    by (simp add: pairs tl comp_def case_prod_unfold)
  have "inj_on token_id (set (tl (walk_nodes u es)))"
  proof (rule inj_onI)
    have bound: "n < 2 ^ 16" if n: "n \<in> set (tl (walk_nodes u es))" for n
      using n edge_facts(6) [OF inv edges] unfolding tl by fastforce
    fix m n assume "m \<in> set (tl (walk_nodes u es))" "n \<in> set (tl (walk_nodes u es))" "token_id m = token_id n"
    then show "m = n" using node_index_token_id [OF bound] by metis
  qed
  with nodes show "distinct (map pair_sell (pairs_on_path (walk_nodes u es)))"
    unfolding sells by (simp add: distinct_map)
  show "pair_sell ` set (pairs_on_path (walk_nodes u es)) = token_id ` set (tl (walk_nodes u es))"
    using arg_cong [OF sells, of set] by simp
qed

text \<open>Edges between nodes that are not sold to stay, and no edge appears.\<close>

lemma frame_edges:
  assumes "synced pf ob" "synced pf ob'" "orderbook_frame pf sold ob ob'"
  shows "token_id b \<notin> sold \<Longrightarrow> (a, b, w) \<in> set (edge_list (projection pf ob')) \<longleftrightarrow> (a, b, w) \<in> set (edge_list (projection pf ob))"
    and "(a, b, w) \<in> set (edge_list (projection pf ob')) \<Longrightarrow> \<exists>w'. (a, b, w') \<in> set (edge_list (projection pf ob))"
proof -
  let ?pair = "\<lparr>pair_buy = token_id a, pair_sell = token_id b\<rparr>"
  show "token_id b \<notin> sold \<Longrightarrow> (a, b, w) \<in> set (edge_list (projection pf ob')) \<longleftrightarrow> (a, b, w) \<in> set (edge_list (projection pf ob))"
    using assms(3) unfolding edge_iff [OF assms(1)] edge_iff [OF assms(2)] by (simp add: orderbook_frame_def)
  assume e: "(a, b, w) \<in> set (edge_list (projection pf ob'))"
  then have "pair_orders (ob_orders ob') ?pair \<noteq> []" "a < 2 ^ 16" "b < 2 ^ 16"
    unfolding edge_iff [OF assms(2)] by (simp_all add: cheapest_weight_def split: if_splits)
  moreover from this have "pair_orders (ob_orders ob) ?pair \<noteq> []"
    using assms(3) unfolding orderbook_frame_def by blast
  ultimately show "\<exists>w'. (a, b, w') \<in> set (edge_list (projection pf ob))"
    unfolding edge_iff [OF assms(1)] by (simp add: cheapest_weight_def)
qed

text \<open>A set that is clear of negative cycles stays so when only tokens outside of it are sold.\<close>

lemma clear_kept:
  assumes inv: "orderbook_inv pf ob" "orderbook_inv pf ob'" and frame: "orderbook_frame pf (token_id ` T) ob ob'"
    and T: "T \<subseteq> {..<2 ^ 16}" "T \<inter> R = {}" and R: "clear_of_cycles (projection pf ob) R"
  shows "clear_of_cycles (projection pf ob') R"
proof (rule clear_cong [OF R])
  fix a b w assume a: "a \<in> R"
  have closed: "b \<in> R" if "(a, b, w) \<in> set (edge_list (projection pf ob))" for w
    using R a that unfolding clear_of_cycles_def by blast
  have kept: "token_id b \<notin> token_id ` T" if "b \<in> R" "b < 2 ^ 16"
  proof
    assume "token_id b \<in> token_id ` T"
    then obtain j where j: "j \<in> T" "token_id b = token_id j" by blast
    then have "b = j"
      using T(1) that(2) node_index_token_id by (metis lessThan_iff subsetD)
    then show False using j(1) that(1) T(2) by blast
  qed
  note edges = frame_edges [OF orderbook_invD(1) [OF inv(1)] orderbook_invD(1) [OF inv(2)] frame]
  show "(a, b, w) \<in> set (edge_list (projection pf ob')) \<longleftrightarrow> (a, b, w) \<in> set (edge_list (projection pf ob))"
  proof
    assume e: "(a, b, w) \<in> set (edge_list (projection pf ob))"
    then show "(a, b, w) \<in> set (edge_list (projection pf ob'))"
      using edges(1) [OF kept [OF closed [OF e] edge_facts(6) [OF inv(1) e]]] by blast
  next
    assume e: "(a, b, w) \<in> set (edge_list (projection pf ob'))"
    then obtain w' where "(a, b, w') \<in> set (edge_list (projection pf ob))"
      using edges(2) by blast
    from closed [OF this] show "(a, b, w) \<in> set (edge_list (projection pf ob))"
      using edges(1) [OF kept [OF _ edge_facts(6) [OF inv(2) e]]] e by blast
  qed
qed

lemma cycle_apart:
  assumes walk: "walk g (hd c) es (hd c)" "c = walk_nodes (hd c) es" "weight_total es < 0" and R: "clear_of_cycles g R"
  shows "set c \<inter> R = {}"
proof -
  have "hd c \<notin> R"
    using R walk(1,3) by (force simp: clear_of_cycles_def)
  moreover have "hd c \<in> R" if v: "v \<in> set c" "v \<in> R" for v
  proof -
    obtain gs where gs: "walk g v gs (hd c)"
      using walk_suffix [OF walk(1), of v] v(1) walk(2) by auto
    have "set (walk_nodes v gs) \<subseteq> R"
      using R v(2) by (intro walk_stays [OF gs]) (simp_all add: clear_of_cycles_def)
    then show ?thesis
      using walk_nodes_last [OF gs] last_in_set [OF walk_nodes_not_Nil, of v gs] by auto
  qed
  ultimately show ?thesis by blast
qed

lemma fill_cycle:
  assumes inv: "orderbook_inv pf ob" and c: "closed_cycle c" "walk (projection pf ob) (hd c) es (hd c)" "c = walk_nodes (hd c) es"
    and neg: "weight_total es < 0" and R: "clear_of_cycles (projection pf ob) R"
  obtains r ob' where "fill_path pf c ob = (r, ob')" "orderbook_inv pf ob'" "orderbook_frame pf UNIV ob ob'"
    "clear_of_cycles (projection pf ob') R"
    "r = Err (UnreducableOrderbook c) \<or> (\<exists>fl. r = Ok fl \<and> total_held (ob_users ob') < total_held (ob_users ob))"
proof -
  have distinct: "distinct (tl (walk_nodes (hd c) es))"
    using c(1,3) by (simp add: closed_cycle_def)
  have "length c = Suc (length es)"
    by (subst c(3)) (simp add: walk_nodes_def)
  then have ne: "es \<noteq> []"
    using c(1) by (auto simp: closed_cycle_def)
  note pairs = walk_pairs [OF inv c(2) distinct]
  have "pairs_on_path c \<noteq> []"
    using ne c(3) walk_links [OF c(2)] by (simp add: pairs_on_path_def)
  then obtain r ob' where ob': "fill_path pf c ob = (r, ob')" "orderbook_inv pf ob'"
    "orderbook_frame pf (pair_sell ` set (pairs_on_path c)) ob ob'"
    "r = Err (UnreducableOrderbook c) \<or> (\<exists>fl. r = Ok fl \<and> total_held (ob_users ob') < total_held (ob_users ob))"
    using fill_path_spec [OF inv pairs(1,2)] c(3) by metis
  moreover have "orderbook_frame pf (token_id ` set (tl c)) ob ob'"
    using ob'(3) pairs(3) c(3) by simp
  moreover have "set (tl c) \<subseteq> {..<2 ^ 16}"
    using walk_tokens [OF inv c(2)] c(3) by auto
  moreover have "set (tl c) \<inter> R = {}"
    using cycle_apart [OF c(2,3) neg R] by (cases c) auto
  ultimately have "clear_of_cycles (projection pf ob') R"
    using clear_kept [OF inv _ _ _ _ R] by blast
  moreover have "orderbook_frame pf UNIV ob ob'"
    using ob'(3) by (simp add: orderbook_frame_def)
  ultimately show ?thesis
    using that ob' by blast
qed

section \<open>The loop over the subgraphs\<close>

lemma search_cases:
  assumes "orderbook_inv pf ob" "node_count (projection pf ob) \<le> MAX_TOKENS" "s < node_count (projection pf ob)"
  obtains (clear) st where "shortest_path weight_measure (projection pf ob) s None = Some (Ok st)"
      "clear_of_cycles (projection pf ob) (set (connected_nodes st s))" "s \<in> set (connected_nodes st s)"
    | (cycle) c es where "shortest_path weight_measure (projection pf ob) s None = Some (Err c)" "closed_cycle c"
      "walk (projection pf ob) (hd c) es (hd c)" "c = walk_nodes (hd c) es" "weight_total es < 0"
proof -
  let ?r = "shortest_path weight_measure (projection pf ob) s None"
  note ok = projection_search [OF assms]
  consider st where "?r = Some (Ok st)" | c where "?r = Some (Err c)" | "?r = None \<or> ?r = Some Panic"
    by (metis not_None_eq result.exhaust)
  then show ?thesis
  proof cases
    case (1 st)
    have "\<forall>(a, b, w) \<in> set (edge_list (projection pf ob)). b < node_count (projection pf ob)"
      using edge_facts(4) [OF assms(1)] by blast
    then have "clear_of_cycles (projection pf ob) (set (connected_nodes st s))"
      using clear_reachable ok unfolding 1 by blast
    moreover have "set (connected_nodes st s) = {v. v < node_count (projection pf ob) \<and> (\<exists>es. walk (projection pf ob) s es v)}"
      using ok unfolding 1 weights.search_result_ok_def by simp
    then have "s \<in> set (connected_nodes st s)"
      using assms(3) walk.simps(1) [of "projection pf ob" s s] by blast
    ultimately show ?thesis using clear 1 by blast
  next
    case (2 c)
    then have "closed_cycle c \<and> (\<exists>es. walk (projection pf ob) (hd c) es (hd c) \<and> c = walk_nodes (hd c) es \<and> weight_total es < 0)"
      using ok unfolding weights.search_result_ok_def weight_total_eq by simp
    then show ?thesis using cycle 2 by blast
  next
    case 3
    then show ?thesis using ok unfolding weights.search_result_ok_def by auto
  qed
qed

lemma reduce_loop_spec:
  "orderbook_inv pf ob \<Longrightarrow> node_count (projection pf ob) \<le> MAX_TOKENS \<Longrightarrow> token < node_count (projection pf ob) \<Longrightarrow>
   clear_of_cycles (projection pf ob) R \<Longrightarrow>
   \<exists>r ob'. reduce_loop pf token ob = Some (r, ob') \<and> orderbook_inv pf ob' \<and> orderbook_frame pf UNIV ob ob' \<and>
     ((\<exists>path. r = Err (UnreducableOrderbook path)) \<or>
      (\<exists>nodes. r = Ok nodes \<and> token \<in> set nodes \<and> clear_of_cycles (projection pf ob') (R \<union> set nodes)))"
proof (induction "total_held (ob_users ob)" arbitrary: ob rule: less_induct)
  case less
  show ?case
  proof (cases rule: search_cases [OF less.prems(1-3)])
    case (1 st)
    then have "reduce_loop pf token ob = Some (Ok (connected_nodes st token), ob)"
      by (simp add: reduce_loop.simps)
    then show ?thesis
      using less.prems(1) orderbook_frame_refl [of pf UNIV ob] clear_union [OF less.prems(4) 1(2)] 1(3)
      by (intro exI [of _ "Ok (connected_nodes st token)"] exI [of _ ob]) simp
  next
    case (2 c es)
    obtain r ob1 where ob1: "fill_path pf c ob = (r, ob1)" "orderbook_inv pf ob1" "orderbook_frame pf UNIV ob ob1"
      "clear_of_cycles (projection pf ob1) R"
      "r = Err (UnreducableOrderbook c) \<or> (\<exists>fl. r = Ok fl \<and> total_held (ob_users ob1) < total_held (ob_users ob))"
      using fill_cycle [OF less.prems(1) 2(2-5) less.prems(4)] by blast
    from ob1(5) show ?thesis
    proof (elim disjE exE conjE)
      assume "r = Err (UnreducableOrderbook c)"
      then have "reduce_loop pf token ob = Some (Err (UnreducableOrderbook c), ob1)"
        using 2(1) ob1(1) by (simp add: reduce_loop.simps)
      then show ?thesis using ob1(2,3) by simp
    next
      fix fl assume r: "r = Ok fl" and dec: "total_held (ob_users ob1) < total_held (ob_users ob)"
      have "node_count (projection pf ob1) = node_count (projection pf ob)"
        using ob1(3) by (simp add: orderbook_frame_def)
      then obtain r' ob' where ob': "reduce_loop pf token ob1 = Some (r', ob')" "orderbook_inv pf ob'" "orderbook_frame pf UNIV ob1 ob'"
        "(\<exists>path. r' = Err (UnreducableOrderbook path)) \<or>
         (\<exists>nodes. r' = Ok nodes \<and> token \<in> set nodes \<and> clear_of_cycles (projection pf ob') (R \<union> set nodes))"
        using less.hyps [OF dec ob1(2) _ _ ob1(4)] less.prems(2,3) by auto
      moreover have "reduce_loop pf token ob = reduce_loop pf token ob1"
        using 2(1) ob1(1) r by (simp add: reduce_loop.simps [of pf token ob])
      moreover have "orderbook_frame pf UNIV ob ob'"
        using orderbook_frame_trans [OF ob1(3) ob'(3)] by simp
      ultimately show ?thesis by auto
    qed
  qed
qed

lemma reduce_all:
  "orderbook_inv pf ob \<Longrightarrow> node_count (projection pf ob) \<le> MAX_TOKENS \<Longrightarrow> clear_of_cycles (projection pf ob) R \<Longrightarrow>
   set tokens \<subseteq> {..<node_count (projection pf ob)} \<Longrightarrow> {..<node_count (projection pf ob)} \<subseteq> R \<union> set tokens \<Longrightarrow>
   \<exists>r ob'. for_each_until (reduce_token pf) ob tokens = (r, ob') \<and>
     orderbook_inv pf ob' \<and> orderbook_frame pf UNIV ob ob' \<and>
     ((\<exists>path. r = Some (Some (Err (UnreducableOrderbook path)))) \<or>
      r = None \<and> (\<exists>S. clear_of_cycles (projection pf ob') S \<and> {..<node_count (projection pf ob')} \<subseteq> S))"
proof (induction "length tokens" arbitrary: tokens ob R rule: less_induct)
  case less
  show ?case
  proof (cases tokens)
    case Nil
    then show ?thesis
      using less.prems orderbook_frame_refl [of pf UNIV ob] by auto
  next
    case (Cons token rest)
    then obtain r ob1 where ob1: "reduce_loop pf token ob = Some (r, ob1)" "orderbook_inv pf ob1" "orderbook_frame pf UNIV ob ob1"
      and r: "(\<exists>path. r = Err (UnreducableOrderbook path)) \<or>
        (\<exists>nodes. r = Ok nodes \<and> token \<in> set nodes \<and> clear_of_cycles (projection pf ob1) (R \<union> set nodes))"
      using reduce_loop_spec [OF less.prems(1,2) _ less.prems(3), of token] less.prems(4) by auto
    from r show ?thesis
    proof (elim disjE exE conjE)
      fix path assume "r = Err (UnreducableOrderbook path)"
      then show ?thesis
        using ob1 Cons by (simp add: reduce_token_def)
    next
      fix nodes assume nodes: "r = Ok nodes" "token \<in> set nodes" "clear_of_cycles (projection pf ob1) (R \<union> set nodes)"
      let ?rest = "filter (\<lambda>t. t \<notin> set nodes) rest"
      have count: "node_count (projection pf ob1) = node_count (projection pf ob)"
        using ob1(3) by (simp add: orderbook_frame_def)
      have "length ?rest < length tokens" "set ?rest \<subseteq> {..<node_count (projection pf ob1)}"
        "{..<node_count (projection pf ob1)} \<subseteq> (R \<union> set nodes) \<union> set ?rest"
        using Cons less.prems(4,5) nodes(2) by (auto simp: count le_imp_less_Suc)
      from less.hyps [OF this(1) ob1(2) _ nodes(3) this(2,3)] less.prems(2)
      obtain r' ob' where ob': "for_each_until (reduce_token pf) ob1 ?rest = (r', ob')"
        "orderbook_inv pf ob'" "orderbook_frame pf UNIV ob1 ob'"
        "(\<exists>path. r' = Some (Some (Err (UnreducableOrderbook path)))) \<or>
         r' = None \<and> (\<exists>S. clear_of_cycles (projection pf ob') S \<and> {..<node_count (projection pf ob')} \<subseteq> S)"
        unfolding count by blast
      moreover have "orderbook_frame pf UNIV ob ob'"
        using orderbook_frame_trans [OF ob1(3) ob'(3)] by simp
      ultimately show ?thesis
        using ob1(1) nodes(1) Cons by (simp add: reduce_token_def)
    qed
  qed
qed

lemma clear_not_overlapping:
  assumes "orderbook_inv pf ob" "clear_of_cycles (projection pf ob) S" "{..<node_count (projection pf ob)} \<subseteq> S"
  shows "\<not> overlapping (projection pf ob)"
proof
  assume "overlapping (projection pf ob)"
  then obtain v es where walk: "walk (projection pf ob) v es v" and neg: "weight_total es < 0"
    by (auto simp: overlapping_def)
  obtain i j w es' where "es = (i, j, w) # es'"
    using neg by (cases es) (auto simp: weight_total_def)
  then have "v < node_count (projection pf ob)"
    using walk edge_facts(3) [OF assms(1), of v j w] by auto
  then have "0 \<le> weight_total es"
    using assms(2,3) walk by (auto simp: clear_of_cycles_def)
  with neg show False by simp
qed

lemma reduce_spec:
  assumes "orderbook_inv pf ob" "node_count (projection pf ob) \<le> MAX_TOKENS"
  shows "(\<exists>path. reduce_overlapping_orders pf ob = Some (Err (UnreducableOrderbook path))) \<or>
    (\<exists>ob'. reduce_overlapping_orders pf ob = Some (Ok ob') \<and> orderbook_inv pf ob' \<and> orderbook_frame pf UNIV ob ob' \<and>
       \<not> overlapping (projection pf ob'))"
proof -
  let ?n = "node_count (projection pf ob)"
  have "set (subgraphs_new [0..<?n]) = {..<?n}"
    by (auto simp: subgraphs_new_def)
  then obtain r ob' where loop: "for_each_until (reduce_token pf) ob (subgraphs_new [0..<?n]) = (r, ob')"
    and ob': "orderbook_inv pf ob'" "orderbook_frame pf UNIV ob ob'"
    and r: "(\<exists>path. r = Some (Some (Err (UnreducableOrderbook path)))) \<or>
      r = None \<and> (\<exists>S. clear_of_cycles (projection pf ob') S \<and> {..<node_count (projection pf ob')} \<subseteq> S)"
    using reduce_all [OF assms clear_empty, of "subgraphs_new [0..<?n]"] by auto
  have "reduce_overlapping_orders pf ob = (case r of Some failed \<Rightarrow> failed | None \<Rightarrow> Some (Ok ob'))"
    unfolding reduce_overlapping_orders_def loop by (cases r) simp_all
  with r show ?thesis
    using ob' clear_not_overlapping [OF ob'(1)] by auto
qed

section \<open>Detecting overlaps\<close>

lemma search_all:
  "orderbook_inv pf ob \<Longrightarrow> node_count (projection pf ob) \<le> MAX_TOKENS \<Longrightarrow> clear_of_cycles (projection pf ob) R \<Longrightarrow>
   set tokens \<subseteq> {..<node_count (projection pf ob)} \<Longrightarrow>
   \<exists>r. for_each_until (search_token pf ob) () tokens = (r, ()) \<and>
     (r = Some (Some (Ok True)) \<and> overlapping (projection pf ob) \<or>
      r = None \<and> (\<exists>S. clear_of_cycles (projection pf ob) S \<and> R \<union> set tokens \<subseteq> S))"
proof (induction "length tokens" arbitrary: tokens R rule: less_induct)
  case less
  show ?case
  proof (cases tokens)
    case Nil
    then show ?thesis using less.prems(3) by auto
  next
    case (Cons token rest)
    then have token: "token < node_count (projection pf ob)"
      using less.prems(4) by simp
    show ?thesis
    proof (cases rule: search_cases [OF less.prems(1,2) token])
      case (1 st)
      let ?rest = "filter (\<lambda>t. t \<notin> set (connected_nodes st token)) rest"
      have "length ?rest < length tokens" "set ?rest \<subseteq> {..<node_count (projection pf ob)}"
        using Cons less.prems(4) by (auto simp: le_imp_less_Suc)
      from less.hyps [OF this(1) less.prems(1,2) clear_union [OF less.prems(3) 1(2)] this(2)]
      obtain r where r: "for_each_until (search_token pf ob) () ?rest = (r, ())"
        "r = Some (Some (Ok True)) \<and> overlapping (projection pf ob) \<or>
         r = None \<and> (\<exists>S. clear_of_cycles (projection pf ob) S \<and> R \<union> set (connected_nodes st token) \<union> set ?rest \<subseteq> S)"
        by blast
      have "for_each_until (search_token pf ob) () tokens = (r, ())"
        using r(1) 1(1) Cons by (simp add: search_token_def)
      moreover have "R \<union> set tokens \<subseteq> S" if "R \<union> set (connected_nodes st token) \<union> set ?rest \<subseteq> S" for S
        using that Cons 1(3) by auto
      ultimately show ?thesis
        using r(2) by (intro exI [of _ r]) blast
    next
      case (2 c es)
      then have "overlapping (projection pf ob)"
        by (auto simp: overlapping_def)
      then show ?thesis using Cons 2(1) by (simp add: search_token_def)
    qed
  qed
qed

text \<open>A negative cycle passes a token other than the fee token, from which the search starts.\<close>

lemma overlapping_away_from_zero:
  assumes "orderbook_inv pf ob" "overlapping (projection pf ob)"
  obtains v es where "walk (projection pf ob) v es v" "weight_total es < 0" "0 < v" "v < node_count (projection pf ob)"
proof -
  obtain v es where walk: "walk (projection pf ob) v es v" and neg: "weight_total es < 0"
    using assms(2) by (auto simp: overlapping_def)
  obtain i j w es' where es: "es = (i, j, w) # es'"
    using neg by (cases es) (auto simp: weight_total_def)
  then have e: "(v, j, w) \<in> set (edge_list (projection pf ob))" "i = v" and rest: "walk (projection pf ob) j es' v"
    using walk by auto
  show ?thesis
  proof (cases "v = 0")
    case True
    have "walk (projection pf ob) j (es' @ [(v, j, w)]) j"
      using rest e by (simp add: walk_snoc)
    moreover have "weight_total (es' @ [(v, j, w)]) < 0"
      using neg es by (simp add: weight_total_def)
    ultimately show ?thesis
      using that edge_facts(2,4) [OF assms(1) e(1)] True by blast
  next
    case False
    then show ?thesis using that walk neg edge_facts(3) [OF assms(1) e(1)] by blast
  qed
qed

lemma is_overlapping_spec:
  assumes "orderbook_inv pf ob" "node_count (projection pf ob) \<le> MAX_TOKENS"
  shows "is_overlapping pf ob = Some (Ok (overlapping (projection pf ob)))"
proof -
  let ?n = "node_count (projection pf ob)"
  let ?tokens = "subgraphs_new (drop 1 [0..<?n])"
  have tokens: "set ?tokens = {1..<?n}"
    by (auto simp: subgraphs_new_def)
  then obtain r where loop: "for_each_until (search_token pf ob) () ?tokens = (r, ())"
    and r: "r = Some (Some (Ok True)) \<and> overlapping (projection pf ob) \<or>
      r = None \<and> (\<exists>S. clear_of_cycles (projection pf ob) S \<and> {} \<union> set ?tokens \<subseteq> S)"
    using search_all [OF assms clear_empty, of ?tokens] ivl_subset [of 1 ?n 0 ?n]
    by (metis (no_types, lifting) atLeast0LessThan le0 le_refl)
  have "\<not> overlapping (projection pf ob)" if none: "r = None"
  proof
    assume "overlapping (projection pf ob)"
    then obtain v es where v: "walk (projection pf ob) v es v" "weight_total es < 0" "v \<in> set ?tokens"
      using overlapping_away_from_zero [OF assms(1)] tokens by (metis atLeastLessThan_iff One_nat_def Suc_leI)
    obtain S where "clear_of_cycles (projection pf ob) S" "v \<in> S"
      using r none v(3) by auto
    then have "0 \<le> weight_total es"
      using v(1) by (auto simp: clear_of_cycles_def)
    with v(2) show False by simp
  qed
  with r show ?thesis
    unfolding is_overlapping_def loop by (auto split: option.split)
qed

end

section \<open>Properties of the order graph\<close>

text \<open>Two orders whose rates overlap, on the platform of edge lists.\<close>

definition sample_element :: "address \<Rightarrow> u16 \<Rightarrow> u16 \<Rightarrow> element" where
  "sample_element user buy sell =
     \<lparr>el_user = user, el_balance = 1000000, el_pair = \<lparr>pair_buy = buy, pair_sell = sell\<rparr>,
      el_valid = \<lparr>valid_from_batch = 0, valid_to_batch = 10\<rparr>, el_price = \<lparr>price_numer = 100000, price_denom = 200000\<rparr>,
      el_remaining_sell_amount = 200000, el_id = 0\<rparr>"

definition sample_elements :: "element list" where
  "sample_elements = [sample_element 1 0 1, sample_element 2 1 0]"

lemma sample_accepted:
  "accepted_elements sample_elements =
     map (\<lambda>el. (\<lparr>po_user = el_user el, po_id = 0, po_pair = el_pair el, po_amount = Remaining 200000,
       po_rate = price_exchange_rate (f64_div (f64_of_nat 100000) (f64_of_nat 200000))\<rparr>, el)) sample_elements"
proof -
  have "map_option (\<lambda>ord. (ord, sample_element u b s)) (pg_order_new (sample_element u b s)) =
      Some (\<lparr>po_user = u, po_id = 0, po_pair = \<lparr>pair_buy = b, pair_sell = s\<rparr>, po_amount = Remaining 200000,
        po_rate = price_exchange_rate (f64_div (f64_of_nat 100000) (f64_of_nat 200000))\<rparr>, sample_element u b s)" for u b s
    by (simp add: pg_order_new_def sample_element_def is_unbounded_def UNBOUNDED_AMOUNT_def limit_price_from_fraction_def)
  moreover have "\<not> is_dust_order (sample_element u b s)" for u b s
    by (simp add: is_dust_order_def is_dust_iff sample_element_def)
  moreover have "el_pair (sample_element u b s) = \<lparr>pair_buy = b, pair_sell = s\<rparr>" "el_user (sample_element u b s) = u" for u b s
    by (simp_all add: sample_element_def)
  ultimately show ?thesis
    by (simp add: accepted_elements_def sample_elements_def List.map_filter_simps)
qed

lemma sample_graph:
  obtains ob where "from_elements list_platform sample_elements = Ok ob" "orderbook_inv list_platform ob"
    "node_count (projection list_platform ob) = 2" "pair_orders (ob_orders ob) \<lparr>pair_buy = 0, pair_sell = 1\<rparr> \<noteq> []"
proof -
  obtain ob where ob: "from_elements list_platform sample_elements = Ok ob" "orderbook_inv list_platform ob"
    "\<And>pair. mset (pair_orders (ob_orders ob) pair) = mset (accepted_orders sample_elements pair)"
    "node_count (projection list_platform ob) = Suc (unat (Max (insert 0 (set (accepted_tokens sample_elements)))))"
    using lists.from_elements_spec [of sample_elements] by metis
  have "set (accepted_tokens sample_elements) = {0, 1}"
    unfolding accepted_tokens_def sample_accepted by (auto simp: sample_elements_def sample_element_def)
  then have "node_count (projection list_platform ob) = 2"
    using ob(4) by simp
  moreover have "accepted_orders sample_elements \<lparr>pair_buy = 0, pair_sell = 1\<rparr> \<noteq> []"
    unfolding accepted_orders_def sample_accepted by (simp add: sample_elements_def sample_element_def)
  then have "pair_orders (ob_orders ob) \<lparr>pair_buy = 0, pair_sell = 1\<rparr> \<noteq> []"
    using ob(3) by (metis mset_zero_iff)
  ultimately show ?thesis
    using that ob(1,2) by blast
qed

text \<open>
  C32: Every order that is made of an element has a positive finite exchange rate between
  \<open>2 ^ - 130\<close> and \<open>2 ^ 130\<close>, and the weight of its edge is finite and at most \<open>2 ^ 112\<close> in absolute value, on
  every platform whose logarithm stays within the exponents; an element gives no order exactly
  when its price has a zero numerator or denominator.
\<close>

theorem order_scalars_well_typed:
  assumes "log2_ok log2"
  shows "case pg_order_new el of
      None \<Rightarrow> price_numer (el_price el) = 0 \<or> price_denom (el_price el) = 0
    | Some ord \<Rightarrow> price_numer (el_price el) \<noteq> 0 \<and> price_denom (el_price el) \<noteq> 0 \<and>
        is_strictly_positive_and_finite (po_rate ord) \<and>
        (\<exists>q. po_rate ord = Num q \<and> pow2 (- 130) \<le> q \<and> q \<le> pow2 130) \<and>
        rate_weight log2 (po_rate ord) \<noteq> weight_infinite \<and> \<bar>sint (rate_weight log2 (po_rate ord))\<bar> \<le> 2 ^ 112"
proof (cases "limit_price_from_fraction (el_price el)")
  case None
  then show ?thesis
    by (auto simp: pg_order_new_def Let_def limit_price_from_fraction_def split: if_splits)
next
  case (Some price)
  then have rate: "order_rate (price_exchange_rate price)"
    by (rule from_fraction_order_rate)
  moreover obtain q where "price_exchange_rate price = Num q" "pow2 (- 130) \<le> q" "q \<le> pow2 130"
    using rate by (auto simp: order_rate_def split: f64.splits)
  ultimately show ?thesis
    using Some rate_weight_bound [OF assms rate] order_rate_positive [OF rate]
    by (auto simp: pg_order_new_def Let_def limit_price_from_fraction_def WEIGHT_BOUND_def split: if_splits)
qed

theorem order_scalars_well_typed_witness:
  "log2_ok exponent_log2 \<and> (\<exists>ord. pg_order_new (sample_element 1 0 1) = Some ord \<and> is_strictly_positive_and_finite (po_rate ord))"
proof -
  have "pg_order_new (sample_element 1 0 1) \<noteq> None"
    by (simp add: pg_order_new_def sample_element_def limit_price_from_fraction_def)
  then show ?thesis
    using order_scalars_well_typed [OF exponent_log2_ok, of "sample_element 1 0 1"] exponent_log2_ok by auto
qed

text \<open>
  C6: Building an orderbook from any elements does not panic and establishes its invariant: the
  orders of every pair are sorted, of known users and with valid rates, the projection has exactly
  one edge for every pair with orders, with the weight of the cheapest, and cheapest orders can
  trade more than dust.  The orders of a pair are those of the accepted elements (not dust,
  different tokens, a valid price), the balances those of the first accepted element of a user and
  token, and the nodes the tokens up to the largest accepted one.
\<close>

theorem from_elements_establishes_invariant:
  assumes "price_platform pf"
  shows "\<exists>ob. from_elements pf elements = Ok ob \<and> orderbook_inv pf ob \<and>
     (\<forall>pair. mset (pair_orders (ob_orders ob) pair) = mset (accepted_orders elements pair)) \<and>
     (\<forall>u t. held (ob_users ob) u t = accepted_balance elements u t) \<and>
     node_count (projection pf ob) = Suc (unat (Max (insert 0 (set (accepted_tokens elements)))))"
  using price_platform.from_elements_spec [OF assms, of elements] by metis

theorem from_elements_establishes_invariant_witness:
  "price_platform list_platform \<and> (\<exists>ob. from_elements list_platform sample_elements = Ok ob \<and> orderbook_inv list_platform ob)"
  using from_elements_establishes_invariant [OF lists.price_platform_axioms, of sample_elements] lists.price_platform_axioms by blast

text \<open>
  C5: Filling a path whose pairs have orders and that sells no token twice never panics and keeps
  the invariant.  Either the rates along the path cannot be represented, an error that leaves the
  orderbook unchanged, or the path is filled: then the held balances have shrunk in total, none has
  grown, and pairs and balances of tokens that the path does not sell are as before.
\<close>

theorem fill_path_safe:
  assumes "price_platform pf" "orderbook_inv pf ob" "\<forall>p \<in> set (pairs_on_path path). pair_orders (ob_orders ob) p \<noteq> []"
    and "distinct (map pair_sell (pairs_on_path path))" "pairs_on_path path \<noteq> []"
  shows "\<exists>r ob'. fill_path pf path ob = (r, ob') \<and> orderbook_inv pf ob' \<and>
     (r = Err (UnreducableOrderbook path) \<and> ob' = ob \<or>
      (\<exists>fl. r = Ok fl \<and> total_held (ob_users ob') < total_held (ob_users ob))) \<and>
     (\<forall>u t. unat (held (ob_users ob') u t) \<le> unat (held (ob_users ob) u t)) \<and>
     (\<forall>t. t \<notin> pair_sell ` set (pairs_on_path path) \<longrightarrow>
        (\<forall>u. held (ob_users ob') u t = held (ob_users ob) u t) \<and>
        (\<forall>p. pair_sell p = t \<longrightarrow> pair_orders (ob_orders ob') p = pair_orders (ob_orders ob) p))"
proof -
  obtain r ob' where "fill_path pf path ob = (r, ob')" "orderbook_inv pf ob'"
    "orderbook_frame pf (pair_sell ` set (pairs_on_path path)) ob ob'"
    "r = Err (UnreducableOrderbook path) \<and> ob' = ob \<or> (\<exists>fl. r = Ok fl \<and> total_held (ob_users ob') < total_held (ob_users ob))"
    using price_platform.fill_path_spec [OF assms] by blast
  then show ?thesis
    unfolding orderbook_frame_def by (intro exI [of _ r] exI [of _ ob']) blast
qed

theorem fill_path_safe_witness:
  "\<exists>ob r ob'. from_elements list_platform sample_elements = Ok ob \<and> fill_path list_platform [0, 1] ob = (r, ob') \<and>
     orderbook_inv list_platform ob' \<and> r \<noteq> Panic"
proof -
  obtain ob where ob: "from_elements list_platform sample_elements = Ok ob" "orderbook_inv list_platform ob"
    "pair_orders (ob_orders ob) \<lparr>pair_buy = 0, pair_sell = 1\<rparr> \<noteq> []"
    by (rule sample_graph)
  have "pairs_on_path [0, 1] = [\<lparr>pair_buy = 0, pair_sell = 1\<rparr>]"
    by (simp add: pairs_on_path_def links_def token_id_def)
  then show ?thesis
    using fill_path_safe [OF lists.price_platform_axioms ob(2), of "[0, 1]"] ob by fastforce
qed

text \<open>
  C4: Reducing an orderbook of at most 181 tokens returns, without panic: with the error that a
  rate along a cycle cannot be represented, or with an orderbook that keeps the invariant, has no
  negative cycle in its order graph, and in which no balance has grown.
\<close>

theorem reduce_overlapping_orders_correct:
  assumes "price_platform pf" "orderbook_inv pf ob" "node_count (projection pf ob) \<le> MAX_TOKENS"
  shows "(\<exists>path. reduce_overlapping_orders pf ob = Some (Err (UnreducableOrderbook path))) \<or>
    (\<exists>ob'. reduce_overlapping_orders pf ob = Some (Ok ob') \<and> orderbook_inv pf ob' \<and> \<not> overlapping (projection pf ob') \<and>
       (\<forall>u t. unat (held (ob_users ob') u t) \<le> unat (held (ob_users ob) u t)))"
  using price_platform.reduce_spec [OF assms] unfolding orderbook_frame_def by blast

theorem reduce_overlapping_orders_correct_witness:
  "\<exists>ob. from_elements list_platform sample_elements = Ok ob \<and> node_count (projection list_platform ob) \<le> MAX_TOKENS \<and>
     reduce_overlapping_orders list_platform ob \<noteq> None"
proof -
  obtain ob where ob: "from_elements list_platform sample_elements = Ok ob" "orderbook_inv list_platform ob"
    "node_count (projection list_platform ob) = 2"
    by (rule sample_graph)
  moreover from this have "node_count (projection list_platform ob) \<le> MAX_TOKENS"
    by (simp add: MAX_TOKENS_def)
  ultimately show ?thesis
    using reduce_overlapping_orders_correct [OF lists.price_platform_axioms ob(2)] by fastforce
qed

text \<open>
  The search for overlaps in an orderbook of at most 181 tokens returns, without panic, and
  answers whether the order graph has a negative cycle, although it skips the fee token as a start.
\<close>

theorem is_overlapping_correct:
  assumes "price_platform pf" "orderbook_inv pf ob" "node_count (projection pf ob) \<le> MAX_TOKENS"
  shows "is_overlapping pf ob = Some (Ok (overlapping (projection pf ob)))"
  by (rule price_platform.is_overlapping_spec [OF assms])

theorem is_overlapping_correct_witness:
  "\<exists>ob. from_elements list_platform sample_elements = Ok ob \<and> node_count (projection list_platform ob) \<le> MAX_TOKENS \<and>
     is_overlapping list_platform ob = Some (Ok (overlapping (projection list_platform ob)))"
proof -
  obtain ob where ob: "from_elements list_platform sample_elements = Ok ob" "orderbook_inv list_platform ob"
    "node_count (projection list_platform ob) = 2"
    by (rule sample_graph)
  moreover from this have "node_count (projection list_platform ob) \<le> MAX_TOKENS"
    by (simp add: MAX_TOKENS_def)
  ultimately show ?thesis
    using is_overlapping_correct [OF lists.price_platform_axioms ob(2)] by blast
qed

end
