(* ===== verification/PriceApi.thy ===== *)
theory PriceApi
  imports PriceReduction
begin

text \<open>
  The queries of \<open>pricegraph\<close> (\<open>src/pricegraph/src/lib.rs\<close>, \<open>api/price_estimation.rs\<close>, \<open>api/price_source.rs\<close> and
  \<open>api/transitive_orderbook.rs\<close>): a \<open>Pricegraph\<close> keeps an orderbook and its reduction; price estimates
  and transitive orderbooks are folds over the transitive orders of a token pair, each found by a
  search and filled before the next.  A computation that does not return is \<open>None\<close>.
\<close>

section \<open>Building\<close>

definition FEE_TOKEN :: u16 where
  "FEE_TOKEN = 0"

record 'g pricegraph =
  pg_full_orderbook :: "'g orderbook"
  pg_reduced_orderbook :: "(orderbook_error, 'g orderbook) result"

definition from_orderbook :: "'g platform \<Rightarrow> 'g orderbook \<Rightarrow> 'g pricegraph res option" where
  "from_orderbook pf ob =
     (case reduce_overlapping_orders pf ob of
        None \<Rightarrow> None
      | Some Panic \<Rightarrow> Some Panic
      | Some reduced_orderbook \<Rightarrow>
          Some (Ok \<lparr>pg_full_orderbook = ob, pg_reduced_orderbook = reduced_orderbook\<rparr>))"

definition pricegraph_new :: "'g platform \<Rightarrow> element list \<Rightarrow> 'g pricegraph res option" where
  "pricegraph_new pf elements =
     (case from_elements pf elements of
        Ok ob \<Rightarrow> from_orderbook pf ob
      | _ \<Rightarrow> Some Panic)"

definition pricegraph_read :: "'g platform \<Rightarrow> u8 list \<Rightarrow> (invalid_length, 'g pricegraph) result option" where
  "pricegraph_read pf bytes =
     (case read_all bytes of
        Ok elements \<Rightarrow>
          (case pricegraph_new pf elements of
             None \<Rightarrow> None
           | Some (Ok pg) \<Rightarrow> Some (Ok pg)
           | Some _ \<Rightarrow> Some Panic)
      | Err e \<Rightarrow> Some (Err e)
      | Panic \<Rightarrow> Some Panic)"

section \<open>Floating point comparisons\<close>

definition f64_ge :: "f64 \<Rightarrow> f64 \<Rightarrow> bool" where
  "f64_ge x y \<longleftrightarrow> x \<noteq> NaN \<and> y \<noteq> NaN \<and> \<not> f64_less x y"

definition f64_is_zero :: "f64 \<Rightarrow> bool" where
  "f64_is_zero x \<longleftrightarrow> (case x of Zero _ \<Rightarrow> True | _ \<Rightarrow> False)"

text \<open>\<open>f64::max\<close>: a NaN gives way to the other argument.\<close>

definition f64_max :: "f64 \<Rightarrow> f64 \<Rightarrow> f64" where
  "f64_max x y = (if x = NaN then y else if y = NaN then x else if f64_less x y then y else x)"

section \<open>Loops over transitive orders\<close>

text \<open>The body of a loop over flows goes on or leaves the loop, with its new state.\<close>

datatype 's loop_step = Leave 's | Stay 's

text \<open>\<open>significant_transitive_orders\<close>: dust trades are filtered out.\<close>

partial_function (option) significant_next :: "'g platform \<Rightarrow> 'g transitive_orders \<Rightarrow>
    (string, (orderbook_error, flow) result option \<times> 'g transitive_orders) result option" where
  "significant_next pf iter =
     (case transitive_orders_next pf iter of
        Some (Ok (Some (Ok fl), iter)) \<Rightarrow>
          if is_dust_trade fl then significant_next pf iter else Some (Ok (Some (Ok fl), iter))
      | item \<Rightarrow> item)"

text \<open>\<open>for flow in flows { let flow = flow?; ... }\<close>\<close>

partial_function (option) for_flows ::
    "('g transitive_orders \<Rightarrow> (string, (orderbook_error, flow) result option \<times> 'g transitive_orders) result option) \<Rightarrow>
     ('s \<Rightarrow> flow \<Rightarrow> 's loop_step) \<Rightarrow> 's \<Rightarrow> 'g transitive_orders \<Rightarrow> (orderbook_error, 's) result option" where
  "for_flows nxt body s iter =
     (case nxt iter of
        None \<Rightarrow> None
      | Some (Ok (None, _)) \<Rightarrow> Some (Ok s)
      | Some (Ok (Some (Ok fl), iter)) \<Rightarrow>
          (case body s fl of
             Leave s \<Rightarrow> Some (Ok s)
           | Stay s \<Rightarrow> for_flows nxt body s iter)
      | Some (Ok (Some (Err e), _)) \<Rightarrow> Some (Err e)
      | Some _ \<Rightarrow> Some Panic)"

declare significant_next.simps [code] for_flows.simps [code]

text \<open>The loop over the significant transitive orders of the reduced orderbook.\<close>

definition reduced_flows ::
    "'g platform \<Rightarrow> 'g pricegraph \<Rightarrow> token_pair_range \<Rightarrow> ('s \<Rightarrow> flow \<Rightarrow> 's loop_step) \<Rightarrow> 's \<Rightarrow>
     (orderbook_error, 's) result option" where
  "reduced_flows pf pg pair_range body s =
     (case pg_reduced_orderbook pg of
        Err e \<Rightarrow> Some (Err e)
      | Panic \<Rightarrow> Some Panic
      | Ok ob \<Rightarrow>
          (case reduced_transitive_orders pf pair_range ob of
             None \<Rightarrow> None
           | Some (Ok iter) \<Rightarrow> for_flows (significant_next pf) body s iter
           | Some _ \<Rightarrow> Some Panic))"

section \<open>Price estimation\<close>

definition estimate_step :: "f64 \<Rightarrow> f64 \<times> f64 \<Rightarrow> flow \<Rightarrow> (f64 \<times> f64) loop_step" where
  "estimate_step max_sell_amount = (\<lambda>(cumulative_buy_volume, cumulative_sell_volume) fl.
     if (case rate_new (f64_div cumulative_buy_volume max_sell_amount) of
           Some current_exchange_rate \<Rightarrow> f64_ge current_exchange_rate (rate_inverse (flow_rate fl))
         | None \<Rightarrow> False)
     then Leave (cumulative_buy_volume, cumulative_sell_volume)
     else
       let cumulative_buy_volume = f64_add cumulative_buy_volume (f64_div (flow_capacity fl) (flow_rate fl));
           cumulative_sell_volume = f64_mul cumulative_buy_volume (flow_rate fl)
       in if f64_ge cumulative_sell_volume max_sell_amount
          then Leave (cumulative_buy_volume, cumulative_sell_volume)
          else Stay (cumulative_buy_volume, cumulative_sell_volume))"

definition marginal_price :: "f64 \<Rightarrow> f64 \<times> f64 \<Rightarrow> f64 option" where
  "marginal_price max_sell_amount = (\<lambda>(cumulative_buy_volume, cumulative_sell_volume).
     case rate_new (f64_div cumulative_buy_volume (f64_max max_sell_amount cumulative_sell_volume)) of
       None \<Rightarrow> None
     | Some exchange_rate \<Rightarrow>
         (let price = rate_price exchange_rate
          in if is_dust_amount (f64_as_u128 (f64_mul max_sell_amount price)) then None else Some price))"

definition estimate_limit_price ::
    "'g platform \<Rightarrow> 'g pricegraph \<Rightarrow> token_pair_range \<Rightarrow> f64 \<Rightarrow> (orderbook_error, f64 option) result option" where
  "estimate_limit_price pf pg pair_range max_sell_amount =
     (if \<not> is_strictly_positive_and_finite max_sell_amount \<or> is_dust_amount (f64_as_u128 max_sell_amount)
      then Some (Ok None)
      else map_option (rmap (marginal_price max_sell_amount))
             (reduced_flows pf pg (token_pair_range_inverse pair_range) (estimate_step max_sell_amount) (Zero False, Zero False)))"

definition order_for_sell_amount ::
    "'g platform \<Rightarrow> 'g pricegraph \<Rightarrow> token_pair_range \<Rightarrow> f64 \<Rightarrow> (orderbook_error, transitive_order option) result option" where
  "order_for_sell_amount pf pg pair_range amount =
     map_option (rmap (map_option (\<lambda>price. \<lparr>tr_buy = f64_mul amount price, tr_sell = amount\<rparr>)))
       (estimate_limit_price pf pg pair_range amount)"

definition limit_step :: "exchange_rate \<Rightarrow> f64 \<times> f64 \<Rightarrow> flow \<Rightarrow> (f64 \<times> f64) loop_step" where
  "limit_step max_xrate = (\<lambda>(total_buy_volume, total_sell_volume) fl.
     if f64_less max_xrate (flow_rate fl) then Leave (total_buy_volume, total_sell_volume)
     else Stay (f64_add total_buy_volume (f64_div (flow_capacity fl) (flow_rate fl)),
                f64_add total_sell_volume (flow_capacity fl)))"

definition volume_order :: "f64 \<times> f64 \<Rightarrow> transitive_order option" where
  "volume_order = (\<lambda>(total_buy_volume, total_sell_volume).
     if f64_is_zero total_buy_volume \<or> f64_is_zero total_sell_volume then None
     else Some \<lparr>tr_buy = total_buy_volume, tr_sell = total_sell_volume\<rparr>)"

definition order_for_limit_price ::
    "'g platform \<Rightarrow> 'g pricegraph \<Rightarrow> token_pair_range \<Rightarrow> f64 \<Rightarrow> (orderbook_error, transitive_order option) result option" where
  "order_for_limit_price pf pg pair_range limit_price =
     (case limit_price_new limit_price of
        None \<Rightarrow> Some (Ok None)
      | Some limit_price \<Rightarrow>
          map_option (rmap volume_order)
            (reduced_flows pf pg (token_pair_range_inverse pair_range)
              (limit_step (rate_inverse (price_exchange_rate limit_price))) (Zero False, Zero False)))"

definition order_at_limit_price ::
    "'g platform \<Rightarrow> 'g pricegraph \<Rightarrow> token_pair_range \<Rightarrow> f64 \<Rightarrow> (orderbook_error, transitive_order option) result option" where
  "order_at_limit_price pf pg pair_range limit_price =
     map_option (rmap (map_option (\<lambda>ord. \<lparr>tr_buy = f64_mul (tr_sell ord) limit_price, tr_sell = tr_sell ord\<rparr>)))
       (order_for_limit_price pf pg pair_range limit_price)"

definition OWL_BASE_UNIT :: f64 where
  "OWL_BASE_UNIT = Num (10 ^ 18)"

definition estimate_token_price ::
    "'g platform \<Rightarrow> 'g pricegraph \<Rightarrow> u16 \<Rightarrow> nat option \<Rightarrow> (orderbook_error, f64 option) result option" where
  "estimate_token_price pf pg token hops =
     (if token = FEE_TOKEN then Some (Ok (Some OWL_BASE_UNIT))
      else map_option (rmap (map_option (\<lambda>price_in_token. f64_mul OWL_BASE_UNIT (f64_div (Num 1) price_in_token))))
             (estimate_limit_price pf pg \<lparr>range_pair = \<lparr>pair_buy = token, pair_sell = FEE_TOKEN\<rparr>, range_hops = hops\<rparr> OWL_BASE_UNIT))"

section \<open>Transitive orderbooks\<close>

record transitive_orderbook =
  tob_asks :: "transitive_order list"
  tob_bids :: "transitive_order list"

definition ask_prices :: "transitive_orderbook \<Rightarrow> (f64 \<times> f64) list" where
  "ask_prices tob = map (\<lambda>ord. (f64_mul (f64_div (tr_buy ord) (tr_sell ord)) FEE_FACTOR, tr_sell ord)) (tob_asks tob)"

definition bid_prices :: "transitive_orderbook \<Rightarrow> (f64 \<times> f64) list" where
  "bid_prices tob = map (\<lambda>ord. (f64_div (f64_div (tr_sell ord) (tr_buy ord)) FEE_FACTOR, tr_buy ord)) (tob_bids tob)"

definition spread_step :: "f64 \<Rightarrow> transitive_order list \<Rightarrow> flow \<Rightarrow> transitive_order list loop_step" where
  "spread_step max_xrate orders fl =
     (if f64_less max_xrate (flow_rate fl) then Leave orders else Stay (orders @ [as_transitive_order fl]))"

text \<open>
  \<open>fill_transitive_orders\<close>: with a spread the first item is peeked at, and handed out again by the
  loop.
\<close>

definition peeked ::
    "'g platform \<Rightarrow> (orderbook_error, flow) result option \<times> 'g transitive_orders \<Rightarrow> f64 \<Rightarrow>
     (orderbook_error, transitive_order list) result option" where
  "peeked pf = (\<lambda>(item, iter) spread.
     case item of
       None \<Rightarrow> Some (Ok [])
     | Some (Err e) \<Rightarrow> Some (Err e)
     | Some Panic \<Rightarrow> Some Panic
     | Some (Ok fl) \<Rightarrow>
         (let max_xrate = f64_mul (flow_rate fl) (f64_add (Num 1) spread)
          in case spread_step max_xrate [] fl of
               Leave orders \<Rightarrow> Some (Ok orders)
             | Stay orders \<Rightarrow> for_flows (transitive_orders_next pf) (spread_step max_xrate) orders iter))"

definition fill_transitive_orders ::
    "'g platform \<Rightarrow> 'g orderbook \<Rightarrow> token_pair_range \<Rightarrow> f64 option \<Rightarrow> (orderbook_error, transitive_order list) result option" where
  "fill_transitive_orders pf ob pair_range spread =
     (if (case spread of Some spread \<Rightarrow> \<not> f64_less (Zero False) spread | None \<Rightarrow> False) then Some Panic
      else case transitive_orders_new pf pair_range ob of
        None \<Rightarrow> None
      | Some (Err e) \<Rightarrow> Some (Err e)
      | Some Panic \<Rightarrow> Some Panic
      | Some (Ok iter) \<Rightarrow>
          (case spread of
             None \<Rightarrow> for_flows (transitive_orders_next pf) (spread_step (Inf False)) [] iter
           | Some spread \<Rightarrow>
               (case transitive_orders_next pf iter of
                  None \<Rightarrow> None
                | Some (Ok first) \<Rightarrow> peeked pf first spread
                | Some _ \<Rightarrow> Some Panic)))"

text \<open>
  Sorting by exchange rate.  Every element is compared at least once when there are two, so that a
  rate that is not a number panics; the order of equal elements in an unstable sort is not
  specified, here it is the order of insertion.
\<close>

fun insert_by_exchange_rate :: "transitive_order \<Rightarrow> transitive_order list \<Rightarrow> transitive_order list" where
  "insert_by_exchange_rate x [] = [x]"
| "insert_by_exchange_rate x (y # ys) =
     (if f64_less (tr_exchange_rate x) (tr_exchange_rate y) then x # y # ys else y # insert_by_exchange_rate x ys)"

definition sort_by_exchange_rate :: "transitive_order list \<Rightarrow> ('e, transitive_order list) result" where
  "sort_by_exchange_rate orders =
     (if 2 \<le> length orders \<and> (\<exists>ord \<in> set orders. tr_exchange_rate ord = NaN) then Panic
      else Ok (fold insert_by_exchange_rate orders []))"

text \<open>The loop over the ring trades of a market.\<close>

partial_function (option) ring_loop ::
    "'g platform \<Rightarrow> pg_market \<Rightarrow> transitive_orderbook \<Rightarrow> 'g orderbook \<Rightarrow>
     (orderbook_error, transitive_orderbook \<times> 'g orderbook) result option" where
  "ring_loop pf m tob ob =
     (case fill_market_ring_trade pf m ob of
        None \<Rightarrow> None
      | Some (Ok (Some trade), ob) \<Rightarrow>
          ring_loop pf m
            (tob\<lparr>tob_asks := tob_asks tob @ [as_transitive_order (ring_ask trade)],
                 tob_bids := tob_bids tob @ [as_transitive_order (ring_bid trade)]\<rparr>) ob
      | Some (Ok None, ob) \<Rightarrow> Some (Ok (tob, ob))
      | Some (Err e, ob) \<Rightarrow> Some (Err e)
      | Some (Panic, ob) \<Rightarrow> Some Panic)"

declare ring_loop.simps [code]

definition extend_and_sort ::
    "transitive_orderbook \<Rightarrow> transitive_order list \<Rightarrow> transitive_order list \<Rightarrow> (orderbook_error, transitive_orderbook) result" where
  "extend_and_sort tob asks bids =
     rbind (sort_by_exchange_rate (tob_asks tob @ asks)) (\<lambda>asks.
     rbind (sort_by_exchange_rate (tob_bids tob @ bids)) (\<lambda>bids.
       Ok \<lparr>tob_asks = asks, tob_bids = bids\<rparr>))"

definition find_transitive_orderbook ::
    "'g platform \<Rightarrow> 'g pricegraph \<Rightarrow> pg_market \<Rightarrow> nat option \<Rightarrow> f64 option \<Rightarrow> (orderbook_error, transitive_orderbook) result option" where
  "find_transitive_orderbook pf pg m hops spread =
     (case ring_loop pf m \<lparr>tob_asks = [], tob_bids = []\<rparr> (pg_full_orderbook pg) of
        None \<Rightarrow> None
      | Some (Err e) \<Rightarrow> Some (Err e)
      | Some Panic \<Rightarrow> Some Panic
      | Some (Ok (tob, ob)) \<Rightarrow>
          (case fill_market_ring_trade pf (market_inverse m) ob of
             None \<Rightarrow> None
           | Some (Err e, _) \<Rightarrow> Some (Err e)
           | Some (Panic, _) \<Rightarrow> Some Panic
           | Some (Ok _, ob) \<Rightarrow>
               (case map_option expect (fill_transitive_orders pf ob (into_range (ask_pair m) hops) spread) of
                  None \<Rightarrow> None
                | Some (Ok asks) \<Rightarrow>
                    (case map_option expect (fill_transitive_orders pf ob (into_range (bid_pair m) hops) spread) of
                       None \<Rightarrow> None
                     | Some (Ok bids) \<Rightarrow> Some (extend_and_sort tob asks bids)
                     | Some (Err e) \<Rightarrow> Some (Err e)
                     | Some Panic \<Rightarrow> Some Panic)
                | Some (Err e) \<Rightarrow> Some (Err e)
                | Some Panic \<Rightarrow> Some Panic)))"

definition best_transitive_order ::
    "'g platform \<Rightarrow> 'g pricegraph \<Rightarrow> token_pair \<Rightarrow> (orderbook_error, transitive_order option) result option" where
  "best_transitive_order pf pg pair =
     (case pg_reduced_orderbook pg of
        Err e \<Rightarrow> Some (Err e)
      | Panic \<Rightarrow> Some Panic
      | Ok ob \<Rightarrow>
          map_option (\<lambda>r. rmap (map_option as_transitive_order) (expect r))
            (reduced_find_optimal_transitive_order pf (into_unbounded_range pair) ob))"

definition best_ask_transitive_order ::
    "'g platform \<Rightarrow> 'g pricegraph \<Rightarrow> pg_market \<Rightarrow> (orderbook_error, transitive_order option) result option" where
  "best_ask_transitive_order pf pg m = best_transitive_order pf pg (ask_pair m)"

definition best_bid_transitive_order ::
    "'g platform \<Rightarrow> 'g pricegraph \<Rightarrow> pg_market \<Rightarrow> (orderbook_error, transitive_order option) result option" where
  "best_bid_transitive_order pf pg m = best_transitive_order pf pg (bid_pair m)"

section \<open>Prices\<close>

lemma f64_round_less:
  assumes "f64_round x = Num v"
  shows "v < 2 ^ 1024"
proof -
  have "0 \<le> round_half_even (\<bar>x\<bar> / ulp \<bar>x\<bar>)"
    using ulp_pos [of "\<bar>x\<bar>"] by (intro round_half_even_ge) simp
  then have "0 \<le> of_int (round_half_even (\<bar>x\<bar> / ulp \<bar>x\<bar>)) * ulp \<bar>x\<bar>"
    using ulp_pos [of "\<bar>x\<bar>"] by simp
  then show ?thesis
    using assms unfolding f64_round_def Let_def by (auto split: if_splits intro: less_le_trans [of _ 0] order_le_less_trans [of _ 0])
qed

lemma f64_div_less: "f64_div x y = Num q \<Longrightarrow> q < 2 ^ 1024"
  by (cases x; cases y) (auto simp: f64_div_def Let_def dest: f64_round_less)

lemma f64_round_finite:
  assumes "0 < x" "x + 2 ^ 970 < 2 ^ 1024"
  shows "(\<exists>v. f64_round x = Num v \<and> 0 < v) \<or> f64_round x = Zero False"
proof -
  define v where "v = of_int (round_half_even (x / ulp x)) * ulp x"
  have "x < pow2 1024"
    using assms(2) by (simp add: pow2_def)
  then have "max (expo x) (- 1022) - 52 \<le> 971"
    using expo_less [OF assms(1), of 1024] by simp
  then have ulp: "ulp x \<le> pow2 971"
    unfolding ulp_def by (simp only: pow2_le_iff)
  have "(of_int (round_half_even (x / ulp x)) - x / ulp x) * ulp x \<le> 1 / 2 * ulp x"
    by (rule mult_right_mono [OF order_trans [OF abs_ge_self round_half_even_error] less_imp_le [OF ulp_pos]])
  then have "v \<le> x + ulp x / 2"
    using ulp_pos [of x] by (simp add: v_def algebra_simps)
  also have "ulp x / 2 \<le> 2 ^ 970"
    using ulp by (simp add: pow2_def)
  finally have "v < 2 ^ 1024"
    using assms(2) by linarith
  moreover have "0 \<le> round_half_even (x / ulp x)"
    using assms(1) ulp_pos [of x] by (intro round_half_even_ge) simp
  then have "0 \<le> v"
    using ulp_pos [of x] by (simp add: v_def)
  moreover have "f64_round x = (if v = 0 then Zero False else if 2 ^ 1024 \<le> v then Inf False else Num v)"
    using assms(1) by (simp add: f64_round_def Let_def v_def)
  ultimately show ?thesis by (auto simp: order_less_le)
qed

lemma rate_price_finite:
  assumes "0 < q" "q < 2 ^ 1024"
  shows "(\<exists>p. rate_price (Num q) = Num p \<and> 0 < p) \<or> rate_price (Num q) = Zero False"
proof -
  have "q / (2254053867552801 / 2251799813685248) \<le> 2 ^ 1024 / (2254053867552801 / 2251799813685248)"
    using assms(2) by (intro divide_right_mono) simp_all
  moreover have "(2 :: rat) ^ 1024 / (2254053867552801 / 2251799813685248) + 2 ^ 970 < 2 ^ 1024"
    by simp
  ultimately have "q / (2254053867552801 / 2251799813685248) + 2 ^ 970 < 2 ^ 1024"
    by linarith
  then show ?thesis
    using f64_round_finite [of "q / (2254053867552801 / 2251799813685248)"] assms(1)
    by (simp add: rate_price_def FEE_FACTOR_eq f64_div_Num)
qed

lemma f64_round_not_zero:
  assumes "pow2 (- 1075) < q"
  shows "f64_round q \<noteq> Zero s"
proof (cases "pow2 (- 1022) \<le> q")
  case True
  then show ?thesis using f64_round_ge [of "- 1022" q] by auto
next
  case False
  have q: "0 < q" using assms pow2_pos [of "- 1075"] by linarith
  then have ulp: "ulp q = pow2 (- 1074)"
    using expo_less [OF q, of "- 1022"] False by (simp add: ulp_def max_def)
  have "pow2 (- 1074) = 2 * pow2 (- 1075)"
    using pow2_add [of 1 "- 1075"] by (simp add: pow2_def)
  then have "1 / 2 < q / ulp q"
    unfolding ulp using assms pow2_pos [of "- 1074"] by (simp add: field_simps)
  then have "0 < round_half_even (q / ulp q)"
    using round_half_even_error [of "q / ulp q"] by linarith
  then have "0 < of_int (round_half_even (q / ulp q)) * ulp q"
    using ulp_pos [of q] by simp
  then show ?thesis
    using q by (auto simp: f64_round_def Let_def split: if_splits)
qed

lemma rate_price_positive:
  assumes "pow2 (- 1074) \<le> q" "q < 2 ^ 1024"
  shows "is_strictly_positive_and_finite (rate_price (Num q))"
proof -
  have q: "0 < q" using assms(1) pow2_pos [of "- 1074"] by linarith
  have "pow2 (- 1074) = 2 * pow2 (- 1075)"
    using pow2_add [of 1 "- 1075"] by (simp add: pow2_def)
  then have "pow2 (- 1075) * (2254053867552801 / 2251799813685248) < q"
    using assms(1) pow2_pos [of "- 1075"] by linarith
  then have "pow2 (- 1075) < q / (2254053867552801 / 2251799813685248)"
    by (subst pos_less_divide_eq) simp_all
  then have "rate_price (Num q) \<noteq> Zero False"
    using f64_round_not_zero q by (simp add: rate_price_def FEE_FACTOR_eq f64_div_Num)
  then show ?thesis
    using rate_price_finite [OF q assms(2)] by (auto simp: is_strictly_positive_and_finite_iff)
qed

text \<open>
  A flow with a positive finite rate and capacity, which buys a positive finite amount as a
  transitive order.
\<close>

definition valid_flow :: "flow \<Rightarrow> bool" where
  "valid_flow fl \<longleftrightarrow> is_strictly_positive_and_finite (flow_rate fl) \<and> is_strictly_positive_and_finite (flow_capacity fl) \<and>
     is_strictly_positive_and_finite (tr_buy (as_transitive_order fl))"

lemma rate_along_positive:
  "rate_along ob x pairs = Some y \<Longrightarrow> is_strictly_positive_and_finite x \<Longrightarrow> is_strictly_positive_and_finite y"
  by (induction pairs arbitrary: x) (auto simp: rate_step_def rate_checked_mul_def Let_def split: bind_splits if_splits)

context price_platform
begin

lemma limited_by_range:
  assumes "orderbook_inv pf ob" "\<forall>p \<in> set pairs. pair_orders (ob_orders ob) p \<noteq> []" "limited_by ob x pairs (Num q)" "0 < q"
  shows "pow2 (- 1074) \<le> q \<and> q < 2 ^ 1024"
proof -
  obtain p y where p: "p \<in> set pairs" "computed_rate y"
    "Num q = f64_mul (pf_to_f64_lossy pf (effective_amount (ob_users ob) (last (pair_orders (ob_orders ob) p)))) y"
    using assms(3) unfolding limited_by_def by (metis in_set_conv_decomp)
  obtain s where "5000 \<le> s" "pf_to_f64_lossy pf (effective_amount (ob_users ob) (last (pair_orders (ob_orders ob) p))) = Num s"
    using to_f64_tradeable [OF assms(1)] assms(2) p(1) by blast
  moreover obtain z where "y = Num z" "0 < z"
    using p(2) less_le_trans [OF pow2_pos] by (auto simp: computed_rate_def)
  ultimately have "0 < s * z" "f64_round (s * z) = Num q"
    using p(3) by (simp_all add: f64_mul_Num)
  then show ?thesis
    using f64_round_least f64_round_less by blast
qed

lemma limited_flow_valid:
  assumes "orderbook_inv pf ob" "\<forall>p \<in> set pairs. pair_orders (ob_orders ob) p \<noteq> []"
    "limited_by ob rate_identity pairs (flow_capacity fl)" "is_strictly_positive_and_finite (flow_capacity fl)"
    "rate_along ob rate_identity pairs = Some (flow_rate fl)"
  shows "valid_flow fl"
proof -
  obtain q where q: "flow_capacity fl = Num q" "0 < q"
    using assms(4) by (auto simp: is_strictly_positive_and_finite_iff)
  then have "is_strictly_positive_and_finite (rate_price (Num q))"
    using limited_by_range [OF assms(1,2), of rate_identity q] rate_price_positive [of q] assms(3) by simp
  moreover have "is_strictly_positive_and_finite (flow_rate fl)"
    by (rule rate_along_positive [OF assms(5)]) (simp add: rate_identity_def is_strictly_positive_and_finite_iff)
  ultimately show ?thesis
    using assms(4) q(1) by (simp add: valid_flow_def as_transitive_order_def rate_price_def)
qed

end

section \<open>Finding transitive orders\<close>

text \<open>The iterator of a pair, without a bound on the hops, on an orderbook that keeps its invariant.\<close>

definition search_ok :: "'g platform \<Rightarrow> node \<Rightarrow> node \<Rightarrow> 'g orderbook \<Rightarrow> bool" where
  "search_ok pf buy sell ob \<longleftrightarrow> orderbook_inv pf ob \<and> node_count (projection pf ob) \<le> MAX_TOKENS \<and>
     buy < node_count (projection pf ob) \<and> sell < node_count (projection pf ob) \<and> buy \<noteq> sell"

context price_platform
begin

lemma path_walk_cases:
  assumes "search_ok pf buy sell ob" "walk (projection pf ob) buy es sell" "distinct (walk_nodes buy es)"
  obtains (unreducable) "find_path_flow pf (walk_nodes buy es) ob = Err (UnreducableOrderbook (walk_nodes buy es))"
    | (filled) fl ob' where "find_path_flow pf (walk_nodes buy es) ob = Ok fl"
      "fill_path_with_flow pf (walk_nodes buy es) fl ob = (Ok (), ob')" "search_ok pf buy sell ob'"
      "total_held (ob_users ob') < total_held (ob_users ob)" "is_strictly_positive_and_finite (flow_capacity fl)"
      "rate_along ob rate_identity (pairs_on_path (walk_nodes buy es)) = Some (flow_rate fl)" "valid_flow fl"
proof -
  have inv: "orderbook_inv pf ob"
    using assms(1) by (simp add: search_ok_def)
  have "distinct (tl (walk_nodes buy es))"
    using assms(3) by (simp add: walk_nodes_def)
  note pairs = walk_pairs [OF inv assms(2) this]
  have "es \<noteq> []"
    using assms(1,2) by (auto simp: search_ok_def)
  then have ne: "pairs_on_path (walk_nodes buy es) \<noteq> []"
    using walk_links [OF assms(2)] by (simp add: pairs_on_path_def)
  show ?thesis
  proof (cases rule: path_cases [OF inv pairs(1,2) ne])
    case 1
    then show ?thesis by (rule unreducable)
  next
    case (2 fl ob')
    moreover from this have "search_ok pf buy sell ob'"
      using assms(1) by (simp add: search_ok_def orderbook_frame_def)
    moreover have "valid_flow fl"
      by (rule limited_flow_valid [OF inv pairs(1) 2(8,6,7)])
    ultimately show ?thesis using filled by blast
  qed
qed

lemma find_path_and_flow_cases:
  assumes "search_ok pf buy sell ob"
  obtains (overlap) c es where "find_path_and_flow pf buy sell None ob = Some (Err (OverlapError c))"
      "walk (projection pf ob) (hd c) es (hd c)" "weight_total es < 0"
    | (unreachable) "find_path_and_flow pf buy sell None ob = Some (Ok None)" "\<nexists>es. walk (projection pf ob) buy es sell"
    | (path) es where "find_path_and_flow pf buy sell None ob =
        Some (rmap (\<lambda>fl. Some (walk_nodes buy es, fl)) (find_path_flow pf (walk_nodes buy es) ob))"
      "walk (projection pf ob) buy es sell" "distinct (walk_nodes buy es)"
      "\<And>es'. walk (projection pf ob) buy es' sell \<Longrightarrow> weight_total es \<le> weight_total es'"
proof -
  have ok: "orderbook_inv pf ob" "node_count (projection pf ob) \<le> MAX_TOKENS" "buy < node_count (projection pf ob)"
    "sell < node_count (projection pf ob)"
    using assms by (simp_all add: search_ok_def)
  note search = projection_search [OF ok(1-3)]
  show ?thesis
  proof (cases rule: search_cases [OF ok(1-3)])
    case (1 st)
    show ?thesis
    proof (cases rule: found_path [OF search [unfolded 1(1)] ok(4)])
      case 1
      then show ?thesis
        using unreachable \<open>shortest_path _ _ _ _ = _\<close> by (simp add: find_path_and_flow_def)
    next
      case (2 es)
      then show ?thesis
        using path [of es] \<open>shortest_path _ _ _ _ = _\<close> by (simp add: find_path_and_flow_def)
    qed
  next
    case (2 c es)
    then show ?thesis
      using overlap [of c es] by (simp add: find_path_and_flow_def)
  qed
qed

end

section \<open>Iterating over transitive orders\<close>

definition iter_ok :: "'g platform \<Rightarrow> 'g transitive_orders \<Rightarrow> bool" where
  "iter_ok pf iter \<longleftrightarrow>
     (case to_pair iter of
        None \<Rightarrow> True
      | Some (buy, sell) \<Rightarrow> to_hops iter = None \<and> search_ok pf buy sell (to_orderbook iter) \<and>
          (case to_first_order iter of
             None \<Rightarrow> True
           | Some order \<Rightarrow> find_path_and_flow pf buy sell None (to_orderbook iter) = Some (Ok (Some order))))"

context price_platform
begin

text \<open>Searching for the next transitive order and filling it.\<close>

lemma find_and_fill_cases:
  assumes "search_ok pf buy sell ob"
  obtains (failed) e where "find_path_and_flow pf buy sell None ob = Some (Err e)"
    | (finished) "find_path_and_flow pf buy sell None ob = Some (Ok None)"
    | (filled) path fl ob' where "find_path_and_flow pf buy sell None ob = Some (Ok (Some (path, fl)))"
      "fill_path_with_flow pf path fl ob = (Ok (), ob')" "search_ok pf buy sell ob'"
      "total_held (ob_users ob') < total_held (ob_users ob)" "valid_flow fl"
proof (cases rule: find_path_and_flow_cases [OF assms])
  case (3 es)
  show ?thesis
  proof (cases rule: path_walk_cases [OF assms 3(2,3)])
    case 1
    then show ?thesis using failed 3(1) by simp
  next
    case (2 fl ob')
    then show ?thesis
      using filled [of "walk_nodes buy es" fl ob'] 2 3(1) by simp
  qed
qed (use failed finished in blast)+

lemma next_cases:
  assumes "iter_ok pf iter"
  obtains (finished) iter' where "transitive_orders_next pf iter = Some (Ok (None, iter'))"
    | (failed) e iter' where "transitive_orders_next pf iter = Some (Ok (Some (Err e), iter'))"
    | (found) fl iter' where "transitive_orders_next pf iter = Some (Ok (Some (Ok fl), iter'))" "iter_ok pf iter'" "valid_flow fl"
      "total_held (ob_users (to_orderbook iter')) < total_held (ob_users (to_orderbook iter))"
proof (cases "to_errored iter \<or> to_pair iter = None")
  case True
  then show ?thesis using finished by (auto simp: transitive_orders_next_def)
next
  case False
  then obtain buy sell where pair: "to_pair iter = Some (buy, sell)" "\<not> to_errored iter" by auto
  then have ok: "search_ok pf buy sell (to_orderbook iter)" "to_hops iter = None"
    and first: "\<And>order. to_first_order iter = Some order \<Longrightarrow>
      find_path_and_flow pf buy sell None (to_orderbook iter) = Some (Ok (Some order))"
    using assms by (auto simp: iter_ok_def)
  show ?thesis
  proof (cases rule: find_and_fill_cases [OF ok(1)])
    case (1 e)
    then have "to_first_order iter = None" using first by (cases "to_first_order iter") auto
    then show ?thesis using 1 failed pair ok(2) by (simp add: transitive_orders_next_def)
  next
    case 2
    then have "to_first_order iter = None" using first by (cases "to_first_order iter") auto
    then show ?thesis using 2 finished pair ok(2) by (simp add: transitive_orders_next_def)
  next
    case (3 path fl ob')
    have "to_first_order iter = None \<or> to_first_order iter = Some (path, fl)"
      using first 3(1) by (cases "to_first_order iter") auto
    then have "transitive_orders_next pf iter = Some (Ok (Some (Ok fl), iter\<lparr>to_orderbook := ob', to_first_order := None\<rparr>))"
      using 3(1,2) pair ok(2) by (auto simp: transitive_orders_next_def fill_transitive_order_def)
    moreover have "iter_ok pf (iter\<lparr>to_orderbook := ob', to_first_order := None\<rparr>)"
      using 3(3) pair ok(2) by (simp add: iter_ok_def)
    ultimately show ?thesis using found 3(4,5) by simp
  qed
qed

end

text \<open>The flows that an iterator yields until it ends, with an error or without.\<close>

fun yields ::
    "('i \<Rightarrow> (string, (orderbook_error, flow) result option \<times> 'i) result option) \<Rightarrow> 'i \<Rightarrow> flow list \<Rightarrow> orderbook_error option \<Rightarrow> bool" where
  "yields nxt iter [] e \<longleftrightarrow>
     (case nxt iter of
        Some (Ok (None, _)) \<Rightarrow> e = None
      | Some (Ok (Some (Err e'), _)) \<Rightarrow> e = Some e'
      | _ \<Rightarrow> False)"
| "yields nxt iter (fl # fls) e \<longleftrightarrow> (\<exists>iter'. nxt iter = Some (Ok (Some (Ok fl), iter')) \<and> yields nxt iter' fls e)"

fun fold_flows :: "('s \<Rightarrow> flow \<Rightarrow> 's loop_step) \<Rightarrow> 's \<Rightarrow> flow list \<Rightarrow> orderbook_error option \<Rightarrow> (orderbook_error, 's) result" where
  "fold_flows body s [] e = (case e of None \<Rightarrow> Ok s | Some e \<Rightarrow> Err e)"
| "fold_flows body s (fl # fls) e =
     (case body s fl of Leave s \<Rightarrow> Ok s | Stay s \<Rightarrow> fold_flows body s fls e)"

lemma for_flows_fold: "yields nxt iter fls e \<Longrightarrow> for_flows nxt body s iter = Some (fold_flows body s fls e)"
proof (induction fls arbitrary: iter s)
  case Nil
  then show ?case
    by (subst for_flows.simps) (auto split: option.splits result.splits)
next
  case (Cons fl fls)
  then show ?case
    by (subst for_flows.simps) (auto split: loop_step.split)
qed

lemma yields_cong: "nxt iter = nxt iter' \<Longrightarrow> yields nxt iter fls e \<longleftrightarrow> yields nxt iter' fls e"
  by (cases fls) simp_all

lemma yields_significant:
  "yields (transitive_orders_next pf) iter fls e \<Longrightarrow> yields (significant_next pf) iter (filter (\<lambda>fl. \<not> is_dust_trade fl) fls) e"
proof (induction fls arbitrary: iter)
  case Nil
  then show ?case
    by (auto simp: significant_next.simps [of pf iter] split: option.splits result.splits)
next
  case (Cons fl fls)
  then obtain iter' where nxt: "transitive_orders_next pf iter = Some (Ok (Some (Ok fl), iter'))"
    and rest: "yields (significant_next pf) iter' (filter (\<lambda>fl. \<not> is_dust_trade fl) fls) e"
    by auto
  show ?case
  proof (cases "is_dust_trade fl")
    case True
    then have "significant_next pf iter = significant_next pf iter'"
      using nxt by (simp add: significant_next.simps [of pf iter])
    then show ?thesis
      using yields_cong [of "significant_next pf" iter iter'] rest True by simp
  next
    case False
    then show ?thesis
      using nxt rest by (simp add: significant_next.simps [of pf iter])
  qed
qed

context price_platform
begin

lemma iteration_ends:
  "iter_ok pf iter \<Longrightarrow> \<exists>fls e. yields (transitive_orders_next pf) iter fls e \<and> list_all valid_flow fls"
proof (induction "total_held (ob_users (to_orderbook iter))" arbitrary: iter rule: less_induct)
  case less
  show ?case
  proof (cases rule: next_cases [OF less.prems])
    case (1 iter')
    then show ?thesis by (intro exI [of _ "[]"] exI [of _ None]) simp
  next
    case (2 e iter')
    then show ?thesis by (intro exI [of _ "[]"] exI [of _ "Some e"]) simp
  next
    case (3 fl iter')
    then obtain fls e where "yields (transitive_orders_next pf) iter' fls e \<and> list_all valid_flow fls"
      using less.hyps by blast
    then show ?thesis
      using 3 by (intro exI [of _ "fl # fls"] exI [of _ e]) simp
  qed
qed

lemma reduce_nothing:
  assumes "orderbook_inv pf ob" "node_count (projection pf ob) \<le> MAX_TOKENS" "\<not> overlapping (projection pf ob)"
  shows "reduce_overlapping_orders pf ob = Some (Ok ob)"
proof -
  have loop: "reduce_loop pf token ob = Some (Ok nodes, ob)" if "token < node_count (projection pf ob)"
      "shortest_path weight_measure (projection pf ob) token None = Some (Ok st)" "nodes = connected_nodes st token" for token st nodes
    using that by (simp add: reduce_loop.simps)
  have step: "\<exists>nodes. reduce_token pf ob token = (Continue nodes, ob)" if token: "token < node_count (projection pf ob)" for token
  proof (cases rule: search_cases [OF assms(1,2) token])
    case (1 st)
    then show ?thesis using loop [OF token 1(1) refl] by (simp add: reduce_token_def)
  next
    case (2 c es)
    then show ?thesis using assms(3) by (auto simp: overlapping_def)
  qed
  have "set tokens \<subseteq> {..<node_count (projection pf ob)} \<Longrightarrow> for_each_until (reduce_token pf) ob tokens = (None, ob)" for tokens
  proof (induction "length tokens" arbitrary: tokens rule: less_induct)
    case less
    show ?case
    proof (cases tokens)
      case (Cons token rest)
      then obtain nodes where "reduce_token pf ob token = (Continue nodes, ob)"
        using step less.prems by auto
      moreover have "for_each_until (reduce_token pf) ob (filter (\<lambda>t. t \<notin> set nodes) rest) = (None, ob)"
        using less.prems Cons by (intro less.hyps) (auto simp: le_imp_less_Suc)
      ultimately show ?thesis using Cons by simp
    qed simp
  qed
  from this [of "subgraphs_new [0..<node_count (projection pf ob)]"] show ?thesis
    by (simp add: reduce_overlapping_orders_def subgraphs_new_def atLeast0LessThan)
qed

text \<open>Starting to iterate over the transitive orders of a pair.\<close>

lemma transitive_orders_new_cases:
  assumes "orderbook_inv pf ob" "node_count (projection pf ob) \<le> MAX_TOKENS" "range_hops r = None"
  obtains (failed) e where "transitive_orders_new pf r ob = Some (Err e)" "find_optimal_transitive_order pf r ob = Some (Err e)"
    | (ready) iter where "transitive_orders_new pf r ob = Some (Ok iter)" "iter_ok pf iter"
proof (cases "is_token_pair_valid pf (range_pair r) ob")
  case True
  let ?buy = "node_index (pair_buy (range_pair r))" and ?sell = "node_index (pair_sell (range_pair r))"
  have ok: "search_ok pf ?buy ?sell ob"
    using True assms by (simp add: search_ok_def is_token_pair_valid_def) (simp add: node_index_def)
  show ?thesis
  proof (cases rule: find_and_fill_cases [OF ok])
    case (1 e)
    then show ?thesis
      using failed [of e] True assms(3) by (simp add: transitive_orders_new_def find_optimal_transitive_order_def Let_def)
  next
    case 2
    then show ?thesis
      using ready True assms(3) ok by (simp add: transitive_orders_new_def Let_def iter_ok_def)
  next
    case (3 path fl ob')
    then show ?thesis
      using ready True assms(3) ok by (simp add: transitive_orders_new_def Let_def iter_ok_def)
  qed
next
  case False
  then show ?thesis
    using ready by (simp add: transitive_orders_new_def iter_ok_def)
qed

lemma reduced_flows_cases:
  assumes "pg_reduced_orderbook pg = Ok ob" "orderbook_inv pf ob" "node_count (projection pf ob) \<le> MAX_TOKENS" "range_hops r = None"
  obtains (failed) e where "find_optimal_transitive_order pf r ob = Some (Err e)"
      "\<And>body s. (reduced_flows pf pg r body s :: (orderbook_error, 's) result option) = Some Panic"
    | (flows) iter fls e where "transitive_orders_new pf r ob = Some (Ok iter)" "yields (transitive_orders_next pf) iter fls e"
      "list_all valid_flow fls"
      "\<And>body s. (reduced_flows pf pg r body s :: (orderbook_error, 's) result option) =
         Some (fold_flows body s (filter (\<lambda>fl. \<not> is_dust_trade fl) fls) e)"
proof (cases rule: transitive_orders_new_cases [OF assms(2-4)])
  case (1 e)
  then show ?thesis
    using failed [of e] assms(1) by (simp add: reduced_flows_def reduced_transitive_orders_def)
next
  case (2 iter)
  obtain fls e where "yields (transitive_orders_next pf) iter fls e" "list_all valid_flow fls"
    using iteration_ends [OF 2(2)] by blast
  note yield = this
  show ?thesis
    by (rule flows [OF 2(1) yield])
      (simp add: reduced_flows_def reduced_transitive_orders_def 2(1) assms(1) for_flows_fold [OF yields_significant [OF yield(1)]])
qed

end

section \<open>Volumes\<close>

text \<open>The volumes at a limit price are those of the transitive orders before the first one above it.\<close>

lemma fold_limit_step:
  "fold_flows (limit_step x) (b, s) fls e =
     (if (\<forall>fl \<in> set fls. \<not> f64_less x (flow_rate fl)) \<and> e \<noteq> None then Err (the e)
      else let used = takeWhile (\<lambda>fl. \<not> f64_less x (flow_rate fl)) fls
           in Ok (foldl f64_add b (map (\<lambda>fl. f64_div (flow_capacity fl) (flow_rate fl)) used),
                  foldl f64_add s (map flow_capacity used)))"
proof (induction fls arbitrary: b s)
  case (Cons fl fls)
  then show ?case by (auto simp: limit_step_def Let_def)
qed (auto simp: Let_def)

end
