(* ===== verification/PriceSources.thy ===== *)
theory PriceSources
  imports TokenInfo AuctionElement AuctionData PriceApi OrderedMap
begin

text \<open>
  Price estimation (\<open>price_estimation.rs\<close>, \<open>price_estimation/{price_source,average_price_source,
  priority_price_source,threaded_price_source,orderbook_based}.rs\<close>): the trait \<open>PriceSource\<close>, the sources that
  combine others, the source on top of \<open>pricegraph\<close>, and the price oracle that the solver's input is
  taken from.  A source is an operation on a state that stands for everything behind the sources;
  it answers for a list of tokens with a map of prices, an error or a panic, and \<open>None\<close> means that
  it does not return.  Calls that run concurrently are made one after the other.
\<close>

section \<open>Price sources\<close>

type_synonym price_map = "(u16 \<times> u128) list"
type_synonym 's price_source = "u16 list \<Rightarrow> 's \<Rightarrow> (price_map res \<times> 's) option"

definition noop_get_prices :: "'s price_source" where
  "noop_get_prices tokens s = Some (Ok [], s)"

text \<open>The hardcoded prices.\<close>

definition data_get_prices :: "token_data \<Rightarrow> 's price_source" where
  "data_get_prices td tokens s =
     Some (Ok (fold (\<lambda>token result.
       case Option.bind (hm_get td token) tio_external_price of
         Some price \<Rightarrow> hm_insert token price result
       | None \<Rightarrow> result) tokens []), s)"

section \<open>Averages\<close>

definition lossless_merge :: "('k \<times> 'v) list list \<Rightarrow> ('k \<times> 'v list) list" where
  "lossless_merge map_collection =
     fold (\<lambda>(key, v) gathered_maps. hm_insert key (hm_or_default gathered_maps key [] @ [v]) gathered_maps)
       (concat map_collection) []"

text \<open>The sum of the prices wraps around.\<close>

definition average :: "u128 list \<Rightarrow> ('e, u128) result" where
  "average ps = (let price = sum_list ps div of_nat (length ps) in if price = 0 then Panic else Ok price)"

definition average_prices :: "price_map list \<Rightarrow> price_map res" where
  "average_prices price_maps =
     rmap hm_collect (traverse (\<lambda>(token, ps). rmap (Pair token) (average ps)) (lossless_merge price_maps))"

fun acquired_prices ::
    "'s price_source list \<Rightarrow> u16 list \<Rightarrow> 's \<Rightarrow> (price_map list res \<times> 's) option" where
  "acquired_prices [] tokens s = Some (Ok [], s)"
| "acquired_prices (source # sources) tokens s =
     (case source tokens s of
        None \<Rightarrow> None
      | Some (Panic, s) \<Rightarrow> Some (Panic, s)
      | Some (Err _, s) \<Rightarrow> acquired_prices sources tokens s
      | Some (Ok ps, s) \<Rightarrow> map_option (\<lambda>(r, s). (rmap (Cons ps) r, s)) (acquired_prices sources tokens s))"

definition average_price_sources :: "'s price_source list \<Rightarrow> 's price_source" where
  "average_price_sources sources tokens s =
     map_option (\<lambda>(r, s).
       (rbind r (\<lambda>acquired. if acquired \<noteq> [] then average_prices acquired else Err ''All price sources failed!''), s))
       (acquired_prices sources tokens s)"

section \<open>Priorities\<close>

text \<open>\<open>HashMap::extend\<close>: later values replace earlier ones.\<close>

definition hm_extend :: "('k \<times> 'v) list \<Rightarrow> ('k \<times> 'v) list \<Rightarrow> ('k \<times> 'v) list" where
  "hm_extend m kvs = fold (\<lambda>(k, v). hm_insert k v) kvs m"

fun priority_loop :: "'s price_source list \<Rightarrow> u16 list \<Rightarrow> price_map \<Rightarrow> 's \<Rightarrow> (price_map res \<times> 's) option" where
  "priority_loop [] remaining_tokens result s = Some (Ok result, s)"
| "priority_loop (source # sources) remaining_tokens result s =
     (case source remaining_tokens s of
        None \<Rightarrow> None
      | Some (Panic, s) \<Rightarrow> Some (Panic, s)
      | Some (Ok partial_result, s) \<Rightarrow>
          (let remaining_tokens = filter (\<lambda>token. hm_get partial_result token = None) remaining_tokens;
               result = hm_extend result partial_result
           in if remaining_tokens = [] then Some (Ok result, s) else priority_loop sources remaining_tokens result s)
      | Some (Err _, s) \<Rightarrow>
          if remaining_tokens = [] then Some (Ok result, s) else priority_loop sources remaining_tokens result s)"

definition priority_get_prices :: "'s price_source list \<Rightarrow> 's price_source" where
  "priority_get_prices sources tokens = priority_loop sources tokens []"

section \<open>Sources updated in the background\<close>

record 's threaded_source =
  threaded_prices :: price_map
  threaded_inner :: 's

definition threaded_new :: "'s \<Rightarrow> 's threaded_source" where
  "threaded_new s = \<lparr>threaded_prices = [], threaded_inner = s\<rparr>"

definition update_prices :: "'s price_source \<Rightarrow> 's token_info_fetching \<Rightarrow> 's \<Rightarrow> (price_map res \<times> 's) option" where
  "update_prices source f s =
     (case all_ids f s of
        (Ok tokens, s) \<Rightarrow> source tokens s
      | (Err e, s) \<Rightarrow> Some (Err (fetch_message e), s)
      | (Panic, s) \<Rightarrow> Some (Panic, s))"

text \<open>One round of the background task; \<open>None\<close> when it hangs or dies.\<close>

definition threaded_update ::
    "'s price_source \<Rightarrow> 's token_info_fetching \<Rightarrow> 's threaded_source \<Rightarrow> 's threaded_source option" where
  "threaded_update source f t =
     (case update_prices source f (threaded_inner t) of
        Some (Ok ps, s) \<Rightarrow> Some \<lparr>threaded_prices = hm_extend (threaded_prices t) ps, threaded_inner = s\<rparr>
      | Some (Err _, s) \<Rightarrow> Some (t\<lparr>threaded_inner := s\<rparr>)
      | _ \<Rightarrow> None)"

definition threaded_get_prices :: "'s threaded_source price_source" where
  "threaded_get_prices tokens t =
     Some (Ok (hm_collect (List.map_filter (\<lambda>token. map_option (Pair token) (hm_get (threaded_prices t) token)) tokens)), t)"

section \<open>Prices from the orderbook\<close>

text \<open>An estimate that fails is logged and counts as no estimate.\<close>

definition inner_estimate_token_price ::
    "'g platform \<Rightarrow> 'g pricegraph \<Rightarrow> u16 \<Rightarrow> nat option \<Rightarrow> f64 option res option" where
  "inner_estimate_token_price pf pg token hops =
     (case estimate_token_price pf pg token hops of
        None \<Rightarrow> None
      | Some (Ok estimate) \<Rightarrow> Some (Ok estimate)
      | Some (Err _) \<Rightarrow> Some (Ok None)
      | Some Panic \<Rightarrow> Some Panic)"

fun estimated_prices :: "(u16 \<Rightarrow> f64 option res option) \<Rightarrow> u16 list \<Rightarrow> price_map res option" where
  "estimated_prices estimate [] = Some (Ok [])"
| "estimated_prices estimate (token # tokens) =
     (case estimate token of
        None \<Rightarrow> None
      | Some Panic \<Rightarrow> Some Panic
      | Some (Err e) \<Rightarrow> Some (Err e)
      | Some (Ok None) \<Rightarrow> estimated_prices estimate tokens
      | Some (Ok (Some price_in_reference)) \<Rightarrow>
          (let price = f64_as_u128 price_in_reference
           in if price = 0 then estimated_prices estimate tokens
              else map_option (rmap (Cons (token, price))) (estimated_prices estimate tokens)))"

definition pricegraph_get_prices :: "'g platform \<Rightarrow> 'g pricegraph \<Rightarrow> 's price_source" where
  "pricegraph_get_prices pf pg tokens s =
     map_option (\<lambda>r. (rmap hm_collect r, s))
       (estimated_prices (\<lambda>token. inner_estimate_token_price pf pg token None) tokens)"

definition estimator_get_prices :: "'g platform \<Rightarrow> reader \<Rightarrow> system_time \<Rightarrow> 's price_source" where
  "estimator_get_prices pf rd now tokens s =
     (case rbind (currently_being_solved now) (\<lambda>batch. get_auction_data_for_batch rd (batch_into_u32 batch)) of
        Err e \<Rightarrow> Some (Err e, s)
      | Panic \<Rightarrow> Some (Panic, s)
      | Ok (accounts, orders) \<Rightarrow>
          (case pricegraph_new pf (map (\<lambda>ord. to_element ord (read_balance accounts (sell_token ord) (account_id ord))) orders) of
             None \<Rightarrow> None
           | Some (Ok pg) \<Rightarrow> pricegraph_get_prices pf pg tokens s
           | Some (Err e) \<Rightarrow> Some (Err e, s)
           | Some Panic \<Rightarrow> Some (Panic, s)))"

section \<open>The price oracle\<close>

record token_info =
  ti_alias :: "string option"
  ti_decimals :: "u8 option"
  ti_external_price :: u128

type_synonym tokens = "(u16 \<times> token_info option) list"

record 's price_oracle =
  token_info_fetcher :: "'s token_info_fetching"
  oracle_source :: "'s price_source"
  native_token :: u16

text \<open>The sources of the oracle: hardcoded prices first, then the average of all others.\<close>

definition price_oracle_new ::
    "'s token_info_fetching \<Rightarrow> token_data \<Rightarrow> 's price_source \<Rightarrow> 's price_source list \<Rightarrow> bool \<Rightarrow> u16 \<Rightarrow> 's price_oracle" where
  "price_oracle_new fetcher td estimator external use_external_price_source native =
     (let price_sources = [estimator] @ (if use_external_price_source then external else []);
          averaged_source = average_price_sources price_sources;
          prioritized_source = priority_get_prices [data_get_prices td, averaged_source]
      in \<lparr>token_info_fetcher = fetcher, oracle_source = prioritized_source, native_token = native\<rparr>)"

definition oracle_get_prices :: "'s price_oracle \<Rightarrow> u16 list \<Rightarrow> 's \<Rightarrow> (price_map res \<times> 's) option" where
  "oracle_get_prices oracle tokens s =
     (if tokens = [] then Some (Ok [], s)
      else map_option (\<lambda>(r, s). (case r of Err _ \<Rightarrow> Ok [] | r \<Rightarrow> r, s)) (oracle_source oracle tokens s))"

fun token_prices_loop :: "price_map \<Rightarrow> u16 list \<Rightarrow> (u16 \<times> token_base_info) list \<Rightarrow> tokens \<Rightarrow> tokens" where
  "token_prices_loop ps [] token_infos tokens = tokens"
| "token_prices_loop ps (tid # token_ids) token_infos tokens =
     (case hm_get ps tid of
        Some price \<Rightarrow>
          (let info = \<lparr>ti_alias = None, ti_decimals = None, ti_external_price = price\<rparr>
           in case hm_get token_infos tid of
                Some base_info \<Rightarrow>
                  token_prices_loop ps token_ids (hm_remove tid token_infos)
                    (bt_insert tid
                      (Some (info\<lparr>ti_alias := Some (tbi_alias base_info), ti_decimals := Some (tbi_decimals base_info)\<rparr>)) tokens)
              | None \<Rightarrow> token_prices_loop ps token_ids token_infos (bt_insert tid (Some info) tokens))
      | None \<Rightarrow> token_prices_loop ps token_ids token_infos (bt_insert tid None tokens))"

definition token_ids_to_price :: "order list \<Rightarrow> u16 list" where
  "token_ids_to_price orders = remdups (concat (map (\<lambda>ord. [buy_token ord, sell_token ord]) orders) @ [0])"

definition get_token_prices :: "'s price_oracle \<Rightarrow> order list \<Rightarrow> 's \<Rightarrow> (tokens res \<times> 's) option" where
  "get_token_prices oracle orders s =
     (let ids = token_ids_to_price orders
      in case oracle_get_prices oracle ids s of
           None \<Rightarrow> None
         | Some (Ok ps, s) \<Rightarrow>
             Some (case get_token_infos (token_info_fetcher oracle) ids s of
                     (Ok token_infos, s) \<Rightarrow> (Ok (token_prices_loop ps ids token_infos []), s)
                   | (Err _, s) \<Rightarrow> (Ok (token_prices_loop ps ids [] []), s)
                   | (Panic, s) \<Rightarrow> (Panic, s))
         | Some (Err e, s) \<Rightarrow> Some (Err e, s)
         | Some (Panic, s) \<Rightarrow> Some (Panic, s))"

definition get_native_token_price :: "'s price_oracle \<Rightarrow> 's \<Rightarrow> (u128 option res \<times> 's) option" where
  "get_native_token_price oracle s =
     map_option (\<lambda>(r, s). (case r of Ok ps \<Rightarrow> Ok (hm_get ps (native_token oracle)) | Err _ \<Rightarrow> Ok None | Panic \<Rightarrow> Panic, s))
       (oracle_source oracle [native_token oracle] s)"

section \<open>The contract of a price source\<close>

definition price_answer :: "u16 list \<Rightarrow> price_map \<Rightarrow> bool" where
  "price_answer tokens ps \<longleftrightarrow> hm_wf ps \<and> fst ` set ps \<subseteq> set tokens \<and> 0 \<notin> snd ` set ps"

text \<open>
  A price source answers only for tokens it was asked for, at most once each, and with prices that
  are not zero.
\<close>

locale price_source =
  fixes src :: "'s price_source"
    and keeps :: "'s \<Rightarrow> bool"
  assumes answers: "keeps s \<Longrightarrow> src tokens s = Some (r, s') \<Longrightarrow>
      keeps s' \<and> (case r of Ok ps \<Rightarrow> price_answer tokens ps | _ \<Rightarrow> True)"

lemma price_answer_Nil [simp]: "price_answer tokens []"
  by (simp add: price_answer_def)

lemma hm_insert_set: "set (hm_insert k v m) \<subseteq> insert (k, v) (set m)"
  by (induction m) auto

lemma price_answer_insert:
  "price_answer tokens ps \<Longrightarrow> token \<in> set tokens \<Longrightarrow> price \<noteq> 0 \<Longrightarrow> price_answer tokens (hm_insert token price ps)"
  using hm_insert_set [of token price ps] by (fastforce simp: price_answer_def image_iff)

lemma price_answer_mono: "price_answer tokens ps \<Longrightarrow> set tokens \<subseteq> set tokens' \<Longrightarrow> price_answer tokens' ps"
  by (auto simp: price_answer_def)

lemma price_answer_extend:
  "price_answer tokens m \<Longrightarrow> fst ` set kvs \<subseteq> set tokens \<Longrightarrow> 0 \<notin> snd ` set kvs \<Longrightarrow> price_answer tokens (hm_extend m kvs)"
  unfolding hm_extend_def
proof (induction kvs arbitrary: m)
  case (Cons kv kvs)
  obtain k v where "kv = (k, v)"
    by (cases kv)
  with Cons show ?case
    by (auto intro!: Cons.IH price_answer_insert)
qed simp

lemma hm_collect_extend: "hm_collect kvs = hm_extend [] kvs"
  by (simp add: hm_collect_def hm_extend_def case_prod_beta')

lemma price_answer_collect:
  "fst ` set kvs \<subseteq> set tokens \<Longrightarrow> 0 \<notin> snd ` set kvs \<Longrightarrow> price_answer tokens (hm_collect kvs)"
  unfolding hm_collect_extend by (rule price_answer_extend) simp_all

lemma map_of_hm_extend: "map_of (hm_extend m kvs) = map_of m ++ map_of (rev kvs)"
  unfolding hm_extend_def
  by (induction kvs arbitrary: m) (auto simp: map_add_def fun_eq_iff split: option.split)

lemma map_of_hm_extend_wf: "hm_wf kvs \<Longrightarrow> map_of (hm_extend m kvs) = map_of m ++ map_of kvs"
  using map_of_hm_collect [of kvs] by (simp add: map_of_hm_extend map_of_hm_collect_distinct)

interpretation noop: price_source noop_get_prices "\<lambda>_. True"
  by unfold_locales (auto simp: noop_get_prices_def)

text \<open>The type \<open>NonZeroU128\<close> of the hardcoded prices.\<close>

definition nonzero_prices :: "token_data \<Rightarrow> bool" where
  "nonzero_prices td \<longleftrightarrow> list_all (\<lambda>(_, info). tio_external_price info \<noteq> Some 0) td"

lemma data_prices_answer:
  assumes "nonzero_prices td"
  shows "set ts \<subseteq> set tokens \<Longrightarrow> price_answer tokens ps \<Longrightarrow>
    price_answer tokens (fold (\<lambda>token result. case Option.bind (hm_get td token) tio_external_price of
         Some price \<Rightarrow> hm_insert token price result | None \<Rightarrow> result) ts ps)"
proof (induction ts arbitrary: ps)
  case (Cons t ts)
  have "price \<noteq> 0" if "Option.bind (hm_get td t) tio_external_price = Some price" for price
    using that assms by (auto simp: nonzero_prices_def list_all_iff bind_eq_Some_conv dest!: map_of_SomeD)
  with Cons show ?case
    by (auto intro: price_answer_insert split: option.split)
qed simp

lemma data_price_source: "nonzero_prices td \<Longrightarrow> price_source (data_get_prices td) (\<lambda>_. True)"
  using data_prices_answer [of td _ _ "[]"] by unfold_locales (auto simp: data_get_prices_def)

lemma data_get_prices_lookup:
  "map_of (fold (\<lambda>token result. case Option.bind (hm_get td token) tio_external_price of
         Some price \<Rightarrow> hm_insert token price result | None \<Rightarrow> result) tokens ps) t =
   (case Option.bind (hm_get td t) tio_external_price of
      Some price \<Rightarrow> if t \<in> set tokens then Some price else hm_get ps t
    | None \<Rightarrow> hm_get ps t)"
  by (induction tokens arbitrary: ps) (auto split: option.split)

definition threaded_keeps :: "('s \<Rightarrow> bool) \<Rightarrow> 's threaded_source \<Rightarrow> bool" where
  "threaded_keeps keeps t \<longleftrightarrow> keeps (threaded_inner t) \<and> 0 \<notin> snd ` set (threaded_prices t)"

interpretation threaded: price_source threaded_get_prices "threaded_keeps keeps"
proof
  fix s tokens r s'
  assume t: "threaded_keeps keeps s" "threaded_get_prices tokens s = Some (r, s')"
  have "hm_get (threaded_prices s) token \<noteq> Some 0" for token
    using t(1) by (force simp: threaded_keeps_def dest!: map_of_SomeD)
  with t show "threaded_keeps keeps s' \<and> (case r of Ok ps \<Rightarrow> price_answer tokens ps | _ \<Rightarrow> True)"
    by (auto simp: threaded_get_prices_def threaded_keeps_def List.map_filter_def image_iff
        intro!: price_answer_collect)
qed

lemma estimated_prices_answer:
  "estimated_prices estimate ts = Some (Ok ps) \<Longrightarrow> fst ` set ps \<subseteq> set ts \<and> 0 \<notin> snd ` set ps"
proof (induction ts arbitrary: ps)
  case (Cons t ts)
  from Cons.prems obtain price qs where "ps = qs \<or> ps = (t, price) # qs \<and> price \<noteq> 0" "estimated_prices estimate ts = Some (Ok qs)"
    by (auto simp: Let_def split: option.splits result.splits if_splits)
  with Cons.IH show ?case
    by fastforce
qed simp

interpretation pricegraph: price_source "pricegraph_get_prices pf pg" "\<lambda>_. True"
  by unfold_locales
    (auto simp: pricegraph_get_prices_def split: result.splits intro!: price_answer_collect dest!: estimated_prices_answer)

lemma pricegraph_answer: "pricegraph_get_prices pf pg tokens s = Some (Ok ps, s') \<Longrightarrow> price_answer tokens ps"
  using pricegraph.answers [OF TrueI, of pf pg tokens s "Ok ps"] by simp

interpretation estimator: price_source "estimator_get_prices pf rd now" "\<lambda>_. True"
  by unfold_locales
    (auto simp: estimator_get_prices_def split: result.splits option.splits dest: pricegraph_answer)

section \<open>Averages\<close>

definition values_of :: "'k \<Rightarrow> ('k \<times> 'v) list \<Rightarrow> 'v list" where
  "values_of k kvs = map snd (filter (\<lambda>kv. fst kv = k) kvs)"

lemma lossless_merge_lookup:
  "hm_get (lossless_merge ms) k = (if values_of k (concat ms) = [] then None else Some (values_of k (concat ms)))"
proof -
  let ?step = "\<lambda>(key, v) m. hm_insert key (hm_or_default m key [] @ [v]) m"
  have "hm_get (fold ?step kvs m) k =
      (if values_of k kvs = [] then hm_get m k else Some (hm_or_default m k [] @ values_of k kvs))" for kvs m
    by (induction kvs arbitrary: m) (auto simp: values_of_def hm_or_default_def split: option.splits)
  from this [of "concat ms" "[]"] show ?thesis
    by (simp add: lossless_merge_def hm_or_default_def)
qed

lemma lossless_merge_wf: "hm_wf (lossless_merge ms)"
proof -
  let ?step = "\<lambda>(key, v) m. hm_insert key (hm_or_default m key [] @ [v]) m"
  have "hm_wf m \<Longrightarrow> hm_wf (fold ?step kvs m)" for kvs and m :: "('a \<times> 'b list) list"
    by (induction kvs arbitrary: m) auto
  from this [of "[]"] show ?thesis
    by (simp add: lossless_merge_def)
qed

lemma lossless_merge_entry: "(k, vs) \<in> set (lossless_merge ms) \<Longrightarrow> vs = values_of k (concat ms) \<and> vs \<noteq> []"
  using lossless_merge_lookup [of ms k] by (auto simp: hm_entry_iff [OF lossless_merge_wf] split: if_splits)

lemma traverse_map_of:
  assumes "traverse (\<lambda>(k, v). rmap (Pair k) (g v)) m = Ok kvs"
  shows "map fst kvs = map fst m"
    and "hm_get kvs k = (case hm_get m k of None \<Rightarrow> None | Some v \<Rightarrow> (case g v of Ok w \<Rightarrow> Some w | _ \<Rightarrow> None))"
  using assms
proof (induction m arbitrary: kvs)
  case (Cons kv m)
  { case 1 then show ?case using Cons.IH(1) by (auto simp: rbind_eq_Ok split: prod.splits) }
  { case 2 then show ?case using Cons.IH(2) by (auto simp: rbind_eq_Ok split: prod.splits) }
qed simp_all

lemma average_prices_lookup:
  assumes "average_prices ms = Ok r"
  shows "hm_wf r"
    and "hm_get r t = (if values_of t (concat ms) = [] then None
       else case average (values_of t (concat ms)) :: u128 res of Ok p \<Rightarrow> Some p | _ \<Rightarrow> None)"
proof -
  obtain kvs where kvs: "traverse (\<lambda>(token, ps). rmap (Pair token) (average ps)) (lossless_merge ms) = (Ok kvs :: price_map res)"
      "r = hm_collect kvs"
    using assms by (auto simp: average_prices_def)
  note tr = traverse_map_of [OF kvs(1)]
  show "hm_wf r"
    unfolding kvs(2) by (rule hm_wf_collect)
  have "hm_wf kvs"
    using lossless_merge_wf [of ms] tr(1) by simp
  then have "hm_get r = hm_get kvs"
    unfolding kvs(2) by (rule map_of_hm_collect_distinct)
  then show "hm_get r t = (if values_of t (concat ms) = [] then None
       else case average (values_of t (concat ms)) :: u128 res of Ok p \<Rightarrow> Some p | _ \<Rightarrow> None)"
    by (simp add: tr(2) lossless_merge_lookup)
qed

lemma average_prices_Ok:
  assumes "\<And>t. values_of t (concat ms) \<noteq> [] \<Longrightarrow> is_ok (average (values_of t (concat ms)) :: u128 res)"
  shows "is_ok (average_prices ms)"
proof -
  have "is_ok (traverse (\<lambda>(token, ps). rmap (Pair token) (average ps)) (lossless_merge ms) :: price_map res)"
    using assms by (intro traverse_Ok_all) (auto simp: is_ok_iff dest!: lossless_merge_entry)
  then show ?thesis
    by (auto simp: average_prices_def is_ok_iff)
qed

text \<open>An average without overflow lies between the least and the greatest price.\<close>

lemma sum_list_unat: "sum_list (map unat ps) < 2 ^ 128 \<Longrightarrow> unat (sum_list ps) = sum_list (map unat ps)" for ps :: "u128 list"
proof (induction ps)
  case (Cons p ps)
  then have "unat (sum_list ps) = sum_list (map unat ps)" "unat p + unat (sum_list ps) < 2 ^ LENGTH(128)"
    by simp_all
  then show ?case
    using unat_add_lem [of p "sum_list ps"] by simp
qed simp

lemma average_exact:
  assumes "ps \<noteq> []" "0 \<notin> set ps" "sum_list (map unat ps) < 2 ^ 128"
  shows "\<exists>p. average ps = Ok p \<and> unat p = sum_list (map unat ps) div length ps \<and>
    (\<exists>lo \<in> set ps. lo \<le> p) \<and> (\<exists>hi \<in> set ps. p \<le> hi)"
proof -
  let ?us = "map unat ps"
  have "1 \<le> unat p" if "p \<in> set ps" for p
    using that assms(2) by (metis One_nat_def Suc_leI unat_gt_0)
  then have "length ps \<le> sum_list ?us"
    using sum_list_mono [of ps "\<lambda>_. 1 :: nat" unat] by (simp add: sum_list_triv)
  with assms(3) have len: "length ps < 2 ^ 128"
    by simp
  have n: "unat (of_nat (length ps) :: u128) = length ps"
    using len by (simp only: unat_of_nat len_of_numeral_defs) simp
  let ?p = "sum_list ps div of_nat (length ps)"
  have p: "unat ?p = sum_list ?us div length ps"
    by (simp add: unat_div_distrib n sum_list_unat [OF assms(3)])
  let ?lo = "Min (set ps)" and ?hi = "Max (set ps)"
  have mem: "?lo \<in> set ps" "?hi \<in> set ps"
    using assms(1) by simp_all
  have "sum_list (map (\<lambda>_. unat ?lo) ps) \<le> sum_list ?us" "sum_list ?us \<le> sum_list (map (\<lambda>_. unat ?hi) ps)"
    by (intro sum_list_mono; simp flip: word_le_nat_alt)+
  then have "unat ?lo * length ps \<le> sum_list ?us" "sum_list ?us \<le> unat ?hi * length ps"
    by (simp_all add: sum_list_triv mult.commute)
  then have "unat ?lo \<le> unat ?p" "unat ?p \<le> unat ?hi"
    unfolding p using assms(1) div_le_mono [of "sum_list ?us" "unat ?hi * length ps" "length ps"]
    by (simp_all add: less_eq_div_iff_mult_less_eq)
  moreover have "0 < unat ?p"
    unfolding p using \<open>length ps \<le> sum_list ?us\<close> assms(1) by (simp add: div_greater_zero_iff)
  ultimately show ?thesis
    using p mem by (auto simp: average_def Let_def word_le_nat_alt)
qed

lemma acquired_answers:
  assumes "list_all (\<lambda>src. price_source src keeps) sources" "keeps s" "acquired_prices sources tokens s = Some (r, s')"
  shows "keeps s' \<and> (case r of Ok ms \<Rightarrow> list_all (price_answer tokens) ms | _ \<Rightarrow> True)"
  using assms
proof (induction sources arbitrary: s r)
  case (Cons src sources)
  have src: "price_source src keeps" and rest: "list_all (\<lambda>src. price_source src keeps) sources"
    using Cons.prems(1) by simp_all
  obtain r1 s1 where m: "src tokens s = Some (r1, s1)"
    using Cons.prems(3) by (cases "src tokens s") auto
  note a = price_source.answers [OF src Cons.prems(2) m]
  show ?case
  proof (cases r1)
    case (Ok ps)
    then obtain r2 where "acquired_prices sources tokens s1 = Some (r2, s')" "r = rmap (Cons ps) r2"
      using Cons.prems(3) m by auto
    with Cons.IH [OF rest, of s1 r2] a Ok show ?thesis
      by (cases r2) auto
  qed (use Cons m a rest in auto)
qed simp

lemma average_price_source:
  assumes "list_all (\<lambda>src. price_source src keeps) sources"
  shows "price_source (average_price_sources sources) keeps"
proof
  fix s tokens r s'
  assume s: "keeps s" "average_price_sources sources tokens s = Some (r, s')"
  then obtain r1 where acq: "acquired_prices sources tokens s = Some (r1, s')"
      and r: "r = rbind r1 (\<lambda>acquired. if acquired \<noteq> [] then average_prices acquired else Err ''All price sources failed!'')"
    by (auto simp: average_price_sources_def)
  note a = acquired_answers [OF assms s(1) acq]
  have "price_answer tokens avg" if avg: "r = Ok avg" for avg
  proof -
    obtain ms where ms: "r1 = Ok ms" "average_prices ms = Ok avg"
      using r avg by (cases r1) (auto split: if_splits)
    note lookup = average_prices_lookup [OF ms(2)]
    have "t \<in> set tokens \<and> price \<noteq> 0" if "(t, price) \<in> set avg" for t price
    proof -
      have "hm_get avg t = Some price"
        using that lookup(1) by simp
      then have vs: "values_of t (concat ms) \<noteq> []" "(average (values_of t (concat ms)) :: u128 res) = Ok price"
        unfolding lookup(2) by (auto split: if_splits result.splits)
      then obtain kvs kv where "kvs \<in> set ms" "kv \<in> set kvs" "fst kv = t"
        by (auto simp: values_of_def filter_empty_conv)
      then have "t \<in> set tokens"
        using a ms(1) by (force simp: list_all_iff price_answer_def)
      with vs(2) show ?thesis
        by (auto simp: average_def Let_def split: if_splits)
    qed
    with lookup(1) show ?thesis
      by (force simp: price_answer_def)
  qed
  with a show "keeps s' \<and> (case r of Ok ps \<Rightarrow> price_answer tokens ps | _ \<Rightarrow> True)"
    by (simp split: result.split)
qed

section \<open>Priorities\<close>

text \<open>The entries found so far are never replaced, because later sources are asked for other tokens.\<close>

lemma priority_loop_answers:
  assumes "list_all (\<lambda>src. price_source src keeps) sources" "keeps s"
    and "priority_loop sources rem res s = Some (r, s')"
    and "price_answer tokens res" "set rem \<subseteq> set tokens" "\<And>t. t \<in> set rem \<Longrightarrow> hm_get res t = None"
  shows "keeps s' \<and> (case r of Ok ps \<Rightarrow> price_answer tokens ps \<and> map_of res \<subseteq>\<^sub>m map_of ps | _ \<Rightarrow> True)"
  using assms
proof (induction sources arbitrary: s rem res)
  case (Cons src sources)
  have src: "price_source src keeps" and rest: "list_all (\<lambda>src. price_source src keeps) sources"
    using Cons.prems(1) by simp_all
  obtain r1 s1 where m: "src rem s = Some (r1, s1)"
    using Cons.prems(3) by (cases "src rem s") auto
  note a = price_source.answers [OF src Cons.prems(2) m]
  show ?case
  proof (cases r1)
    case (Ok ps)
    let ?rem = "filter (\<lambda>token. hm_get ps token = None) rem" and ?res = "hm_extend res ps"
    have ps: "price_answer rem ps"
      using a Ok by simp
    then have get: "map_of ?res = map_of res ++ map_of ps"
      by (simp add: map_of_hm_extend_wf price_answer_def)
    have dom: "dom (map_of ps) \<subseteq> set rem"
      using ps by (simp add: price_answer_def dom_map_of_conv_image_fst)
    have le: "map_of res \<subseteq>\<^sub>m map_of ?res"
      unfolding get using Cons.prems(6) dom by (auto simp: map_le_def map_add_def split: option.split)
    have ans: "price_answer tokens ?res"
      using ps Cons.prems(4,5) by (intro price_answer_extend) (auto simp: price_answer_def)
    have none: "hm_get ?res t = None" if "t \<in> set ?rem" for t
      using that Cons.prems(6) by (auto simp: get map_add_def)
    show ?thesis
    proof (cases "?rem = []")
      case True
      then show ?thesis
        using Cons.prems(3) m a Ok ans le by (auto simp: Let_def)
    next
      case False
      then have loop: "priority_loop sources ?rem ?res s1 = Some (r, s')"
        using Cons.prems(3) m Ok by (auto simp: Let_def)
      have "set ?rem \<subseteq> set tokens" "keeps s1"
        using Cons.prems(5) a by auto
      from Cons.IH [OF rest this(2) loop ans this(1) none] le show ?thesis
        by (cases r) (auto intro: map_le_trans)
    qed
  next
    case (Err e)
    then show ?thesis
      using Cons m a rest by (auto simp: map_le_refl split: if_splits)
  next
    case Panic
    then show ?thesis
      using Cons.prems(3) m a by auto
  qed
qed auto

lemma priority_price_source:
  assumes "list_all (\<lambda>src. price_source src keeps) sources"
  shows "price_source (priority_get_prices sources) keeps"
proof
  fix s tokens r s'
  assume "keeps s" "priority_get_prices sources tokens s = Some (r, s')"
  with priority_loop_answers [OF assms, of s tokens "[]" r s' tokens]
  show "keeps s' \<and> (case r of Ok ps \<Rightarrow> price_answer tokens ps | _ \<Rightarrow> True)"
    by (auto simp: priority_get_prices_def split: result.splits)
qed

text \<open>What the first source answers is the result for its tokens.\<close>

lemma priority_first_answer:
  assumes "list_all (\<lambda>src. price_source src keeps) (src # sources)" "keeps s"
    and "src tokens s = Some (Ok ps, s1)" "priority_get_prices (src # sources) tokens s = Some (Ok res, s')"
  shows "map_of ps \<subseteq>\<^sub>m map_of res"
proof -
  let ?rem = "filter (\<lambda>token. hm_get ps token = None) tokens"
  have a: "keeps s1" "price_answer tokens ps"
    using price_source.answers [of src keeps s tokens "Ok ps" s1] assms by simp_all
  then have ps: "map_of (hm_extend [] ps) = map_of ps" "price_answer tokens (hm_extend [] ps)"
    using price_answer_extend [OF price_answer_Nil, of ps tokens] by (simp_all add: map_of_hm_extend_wf price_answer_def)
  show ?thesis
  proof (cases "?rem = []")
    case True
    then show ?thesis
      using assms(3,4) ps(1) by (simp add: priority_get_prices_def)
  next
    case False
    then have loop: "priority_loop sources ?rem (hm_extend [] ps) s1 = Some (Ok res, s')"
      using assms(3,4) by (auto simp: priority_get_prices_def Let_def)
    have "list_all (\<lambda>src. price_source src keeps) sources"
      using assms(1) by simp
    from priority_loop_answers [OF this a(1) loop ps(2)] ps(1) show ?thesis
      by auto
  qed
qed

section \<open>The oracle\<close>

lemma oracle_source_contract:
  assumes "nonzero_prices td" "price_source estimator keeps" "list_all (\<lambda>src. price_source src keeps) external"
  shows "price_source (oracle_source (price_oracle_new fetcher td estimator external use native)) keeps"
proof -
  have "price_source (data_get_prices td) keeps"
  proof
    fix s tokens r s'
    assume "keeps s" "data_get_prices td tokens s = Some (r, s')"
    with price_source.answers [OF data_price_source [OF assms(1)] TrueI, of tokens s r s']
    show "keeps s' \<and> (case r of Ok ps \<Rightarrow> price_answer tokens ps | _ \<Rightarrow> True)"
      by (auto simp: data_get_prices_def)
  qed
  moreover have "price_source (average_price_sources ([estimator] @ (if use then external else []))) keeps"
    using assms(2,3) by (intro average_price_source) simp
  ultimately show ?thesis
    by (auto simp: price_oracle_new_def Let_def intro!: priority_price_source)
qed

lemma token_prices_loop_spec:
  assumes "bt_wf tokens" "distinct ids"
  shows "bt_wf (token_prices_loop ps ids infos tokens)"
    and "hm_get (token_prices_loop ps ids infos tokens) t =
      (if t \<in> set ids then Some (map_option (\<lambda>price.
         \<lparr>ti_alias = map_option tbi_alias (hm_get infos t), ti_decimals = map_option tbi_decimals (hm_get infos t),
          ti_external_price = price\<rparr>) (hm_get ps t))
       else hm_get tokens t)"
proof -
  have "bt_wf (token_prices_loop ps ids infos tokens) \<and>
    hm_get (token_prices_loop ps ids infos tokens) t =
      (if t \<in> set ids then Some (map_option (\<lambda>price.
         \<lparr>ti_alias = map_option tbi_alias (hm_get infos t), ti_decimals = map_option tbi_decimals (hm_get infos t),
          ti_external_price = price\<rparr>) (hm_get ps t))
       else hm_get tokens t)"
    using assms
    by (induction ids arbitrary: infos tokens) (auto simp: Let_def split: option.splits)
  then show "bt_wf (token_prices_loop ps ids infos tokens)"
    and "hm_get (token_prices_loop ps ids infos tokens) t =
      (if t \<in> set ids then Some (map_option (\<lambda>price.
         \<lparr>ti_alias = map_option tbi_alias (hm_get infos t), ti_decimals = map_option tbi_decimals (hm_get infos t),
          ti_external_price = price\<rparr>) (hm_get ps t))
       else hm_get tokens t)"
    by blast+
qed

lemma token_ids_to_price_set:
  "set (token_ids_to_price orders) = insert 0 (buy_token ` set orders \<union> sell_token ` set orders)"
  "distinct (token_ids_to_price orders)"
  by (auto simp: token_ids_to_price_def)

section \<open>Properties\<close>

text \<open>
  C21: when the prices of no token add up to \<open>2 ^ 128\<close> or more, the averages are computed for exactly the
  tokens that some map prices, and each is the rounded down mean of its prices, between the least and
  the greatest of them.
\<close>

theorem average_prices_correct:
  assumes "\<And>t. 0 \<notin> set (values_of t (concat ms))" "\<And>t. sum_list (map unat (values_of t (concat ms))) < 2 ^ 128"
  shows "case average_prices ms of
      Ok r \<Rightarrow> \<forall>t. case hm_get r t of
        None \<Rightarrow> values_of t (concat ms) = []
      | Some price \<Rightarrow>
          unat price = sum_list (map unat (values_of t (concat ms))) div length (values_of t (concat ms)) \<and>
          (\<exists>lo \<in> set (values_of t (concat ms)). lo \<le> price) \<and> (\<exists>hi \<in> set (values_of t (concat ms)). price \<le> hi)
    | _ \<Rightarrow> False"
proof -
  have avg: "\<exists>p. average (values_of t (concat ms)) = (Ok p :: u128 res) \<and>
      unat p = sum_list (map unat (values_of t (concat ms))) div length (values_of t (concat ms)) \<and>
      (\<exists>lo \<in> set (values_of t (concat ms)). lo \<le> p) \<and> (\<exists>hi \<in> set (values_of t (concat ms)). p \<le> hi)"
    if "values_of t (concat ms) \<noteq> []" for t
    using average_exact [OF that] assms by blast
  then have "is_ok (average_prices ms)"
    by (intro average_prices_Ok) (fastforce simp: is_ok_iff)
  then obtain r where r: "average_prices ms = Ok r"
    by (auto simp: is_ok_iff)
  show ?thesis
    unfolding r using avg by (fastforce simp: average_prices_lookup(2) [OF r])
qed

theorem average_prices_correct_witness:
  "\<exists>r. average_prices [[(1, 10), (2, 7)], [(1, 13)]] = Ok r \<and> (\<forall>p. hm_get r 1 = Some p \<longrightarrow> unat p = 11)"
proof -
  let ?ms = "[[(1, 10), (2, 7)], [(1, 13)]] :: price_map list"
  have vs: "values_of t (concat ?ms) = (if t = 1 then [10, 13] else if t = 2 then [7] else [])" for t
    by (simp add: values_of_def)
  have "case average_prices ?ms of
      Ok r \<Rightarrow> \<forall>t. case hm_get r t of
        None \<Rightarrow> values_of t (concat ?ms) = []
      | Some price \<Rightarrow>
          unat price = sum_list (map unat (values_of t (concat ?ms))) div length (values_of t (concat ?ms)) \<and>
          (\<exists>lo \<in> set (values_of t (concat ?ms)). lo \<le> price) \<and> (\<exists>hi \<in> set (values_of t (concat ?ms)). price \<le> hi)
    | _ \<Rightarrow> False"
    by (rule average_prices_correct) (simp_all only: vs, simp_all)
  then show ?thesis
    unfolding vs by (cases "average_prices ?ms") (auto simp: numeral_2_eq_2 [symmetric] dest!: spec [where x = 1])
qed

text \<open>
  The sum of the prices wraps around: two sources that agree on \<open>2 * 10 ^ 38\<close> (a token without decimals at
  200 USD) give an average below a sixth of it, and two prices of \<open>2 ^ 127\<close> make the average panic, against
  the message of the \<open>expect\<close> that an average of nonzero numbers stays nonzero.
\<close>

theorem average_prices_wraps:
  "(\<exists>price. average_prices [[(t, 2 * 10 ^ 38)], [(t, 2 * 10 ^ 38)]] = Ok [(t, price)] \<and> 6 * unat price < 2 * 10 ^ 38) \<and>
   average_prices [[(t, 2 ^ 127)], [(t, 2 ^ 127)]] = Panic"
proof -
  have "average_prices [[(t, p)], [(t, p)]] = rmap (\<lambda>price. [(t, price)]) (average [p, p])" for p
    by (cases "average [p, p] :: u128 res") (simp_all add: average_prices_def lossless_merge_def hm_or_default_def hm_collect_def)
  moreover have avg: "average [2 * 10 ^ 38, 2 * 10 ^ 38] = Ok 29858816539530768268312696284115894272"
    by (simp add: average_def)
  moreover have "average [2 ^ 127, 2 ^ 127] = Panic"
    by (simp add: average_def)
  moreover have "6 * unat (29858816539530768268312696284115894272 :: u128) < 2 * 10 ^ 38"
    by simp
  ultimately show ?thesis
    by auto
qed

text \<open>
  C20: the oracle answers with the hardcoded price for every token that has one, whatever the
  orderbook and the external sources say, and otherwise only with nonzero prices of tokens it was asked
  for.
\<close>

theorem oracle_hardcoded_first:
  assumes "nonzero_prices td" "price_source estimator keeps" "list_all (\<lambda>src. price_source src keeps) external" "keeps s"
    and "oracle_source (price_oracle_new fetcher td estimator external use native) tokens s = Some (Ok res, s')"
  shows "price_answer tokens res \<and>
    (\<forall>t \<in> set tokens. case Option.bind (hm_get td t) tio_external_price of Some price \<Rightarrow> hm_get res t = Some price | None \<Rightarrow> True)"
proof -
  let ?avg = "average_price_sources ([estimator] @ (if use then external else []))"
  have "list_all (\<lambda>src. price_source src keeps) [data_get_prices td, ?avg]"
  proof -
    have "price_source (data_get_prices td) keeps"
      using price_source.answers [OF data_price_source [OF assms(1)] TrueI]
      by unfold_locales (auto simp: data_get_prices_def)
    then show ?thesis
      using assms(2,3) by (auto intro!: average_price_source)
  qed
  note sources = this
  have run: "priority_get_prices [data_get_prices td, ?avg] tokens s = Some (Ok res, s')"
    using assms(5) by (simp add: price_oracle_new_def Let_def)
  have "map_of (fold (\<lambda>token result. case Option.bind (hm_get td token) tio_external_price of
      Some price \<Rightarrow> hm_insert token price result | None \<Rightarrow> result) tokens []) \<subseteq>\<^sub>m map_of res"
    by (rule priority_first_answer [OF sources assms(4) _ run]) (simp add: data_get_prices_def)
  then have "hm_get res t = Some price" if "t \<in> set tokens" "Option.bind (hm_get td t) tio_external_price = Some price" for t price
    using that data_get_prices_lookup [of td tokens "[]" t] by (auto simp: map_le_def dom_def)
  moreover have "price_answer tokens res"
    using price_source.answers [OF priority_price_source [OF sources] assms(4) run] by simp
  ultimately show ?thesis
    by (simp split: option.split)
qed

theorem oracle_hardcoded_first_witness:
  "\<exists>res. oracle_source (price_oracle_new (data_fetching sample_tokens) sample_tokens noop_get_prices [] False 1) [3, 1] () = Some (Ok res, ()) \<and>
     price_answer [3, 1] res \<and> hm_get res 1 = Some 5"
proof -
  let ?run = "oracle_source (price_oracle_new (data_fetching sample_tokens) sample_tokens noop_get_prices [] False 1) [3, 1] ()"
  have run: "?run = Some (Ok [(1, 5)], ())"
    by code_simp
  have "price_answer [3, 1] [(1, 5)] \<and> (\<forall>t \<in> set [3, 1]. case Option.bind (hm_get sample_tokens t) tio_external_price of
      Some price \<Rightarrow> hm_get [(1, 5)] t = Some price | None \<Rightarrow> True)"
    by (rule oracle_hardcoded_first [OF _ noop.price_source_axioms _ _ run]) (simp_all add: nonzero_prices_def sample_tokens_def)
  with run show ?thesis
    by simp
qed

definition priced_entry :: "price_map \<Rightarrow> (u16 \<times> token_base_info) list \<Rightarrow> u16 \<times> token_info option \<Rightarrow> bool" where
  "priced_entry ps infos = (\<lambda>(t, entry). entry = map_option (\<lambda>price.
     \<lparr>ti_alias = map_option tbi_alias (hm_get infos t), ti_decimals = map_option tbi_decimals (hm_get infos t),
      ti_external_price = price\<rparr>) (hm_get ps t))"

lemma token_prices_entries:
  assumes "tokens = token_prices_loop ps (token_ids_to_price orders) infos []"
  shows "bt_wf tokens" "fst ` set tokens = insert 0 (buy_token ` set orders \<union> sell_token ` set orders)"
    "list_all (priced_entry ps infos) tokens"
proof -
  let ?ids = "token_ids_to_price orders"
  show wf: "bt_wf tokens"
    unfolding assms using token_prices_loop_spec(1) [of "[]" ?ids] token_ids_to_price_set(2) by simp
  have get: "hm_get tokens t = (if t \<in> set ?ids then Some (map_option (\<lambda>price.
       \<lparr>ti_alias = map_option tbi_alias (hm_get infos t), ti_decimals = map_option tbi_decimals (hm_get infos t),
        ti_external_price = price\<rparr>) (hm_get ps t)) else None)" for t
    unfolding assms using token_prices_loop_spec(2) [of "[]" ?ids] token_ids_to_price_set(2) by simp
  have "fst ` set tokens = set ?ids"
    using get by (auto simp: dom_map_of_conv_image_fst [symmetric] split: if_splits)
  then show "fst ` set tokens = insert 0 (buy_token ` set orders \<union> sell_token ` set orders)"
    by (simp only: token_ids_to_price_set)
  show "list_all (priced_entry ps infos) tokens"
    using get by (auto simp: list_all_iff priced_entry_def bt.entry_iff [OF wf] split: if_splits)
qed

text \<open>
  The token information for the solver has exactly one entry for each token of the orders and
  for the reference token, in ascending order; an entry is empty exactly when there is no price for the
  token, and otherwise carries it, with the alias and decimals when they are known.  A failing source or
  token information is not an error.
\<close>

theorem get_token_prices_complete:
  "case get_token_prices oracle orders s of
     Some (Ok tokens, s') \<Rightarrow>
       bt_wf tokens \<and> fst ` set tokens = insert 0 (buy_token ` set orders \<union> sell_token ` set orders) \<and>
       (\<exists>ps infos s1. oracle_get_prices oracle (token_ids_to_price orders) s = Some (Ok ps, s1) \<and>
          list_all (priced_entry ps infos) tokens)
   | Some (Err _, _) \<Rightarrow> False
   | _ \<Rightarrow> True"
proof (cases "oracle_get_prices oracle (token_ids_to_price orders) s")
  case None
  then show ?thesis by (simp add: get_token_prices_def)
next
  case (Some p)
  obtain r s1 where p: "p = (r, s1)"
    by (cases p)
  have no_err: "r \<noteq> Err e" for e
  proof -
    have "(case r' of Err _ \<Rightarrow> Ok [] | r' \<Rightarrow> r') \<noteq> Err e" for r' :: "price_map res"
      by (cases r') simp_all
    then show ?thesis
      using Some p by (auto simp: oracle_get_prices_def split: if_splits)
  qed
  obtain r2 s2 where infos: "get_token_infos (token_info_fetcher oracle) (token_ids_to_price orders) s1 = (r2, s2)"
    by (cases "get_token_infos (token_info_fetcher oracle) (token_ids_to_price orders) s1")
  note entries = token_prices_entries [OF refl]
  show ?thesis
    using Some p no_err infos entries
    by (cases r; cases r2) (simp_all add: get_token_prices_def Let_def, blast+)
qed

end
