(* ===== verification/PriceClients.thy ===== *)
theory PriceClients
  imports PriceSources
begin

text \<open>
  The external price sources (\<open>price_estimation/clients/{generic_client,kraken}.rs\<close>, \<open>clients/oneinch/api.rs\<close> and
  \<open>clients/kraken/api.rs\<close>): clients of exchanges that are asked for the price of a token in US dollars.
  What an exchange answers over HTTP is a parameter.  Symbols are compared in upper case, here for
  ASCII letters.
\<close>

definition from_fetch :: "('s, 'a) fetch \<Rightarrow> ('s, 'a) effect" where
  "from_fetch m s = (case m s of (Ok a, s) \<Rightarrow> (Ok a, s) | (Err e, s) \<Rightarrow> (Err (fetch_message e), s) | (Panic, s) \<Rightarrow> (Panic, s))"

section \<open>The generic client\<close>

definition char_upper :: "char \<Rightarrow> char" where
  "char_upper c = (let k = of_char c :: nat in if 97 \<le> k \<and> k < 123 then char_of (k - 32) else c)"

definition to_uppercase :: "string \<Rightarrow> string" where
  "to_uppercase s = map char_upper s"

record ('s, 't) api =
  api_symbol :: "'t \<Rightarrow> string"
  api_get_token_list :: "('s, 't list) effect"
  api_get_price :: "'t \<Rightarrow> 't \<Rightarrow> ('s, f64) effect"
  reference_token_symbol :: string

record 't api_tokens =
  listed_tokens :: "(string \<times> 't) list"
  stable_coin :: 't

record ('s, 't) generic_client =
  client_api_tokens :: "'t api_tokens option"
  client_world :: 's

definition client_new :: "'s \<Rightarrow> ('s, 't) generic_client" where
  "client_new s = \<lparr>client_api_tokens = None, client_world = s\<rparr>"

abbreviation on_world :: "('s, 'a) effect \<Rightarrow> (('s, 't) generic_client, 'a) effect" where
  "on_world \<equiv> ezoom client_world (\<lambda>s c. c\<lparr>client_world := s\<rparr>)"

definition create_api_tokens :: "('s, 't) api \<Rightarrow> ('s, 't api_tokens) effect" where
  "create_api_tokens api =
     ebind (api_get_token_list api) (\<lambda>tokens.
       let tokens = hm_collect (map (\<lambda>token. (to_uppercase (api_symbol api token), token)) tokens);
           reference = to_uppercase (reference_token_symbol api)
       in elift (case hm_get tokens reference of
                   Some coin \<Rightarrow> Ok \<lparr>listed_tokens = hm_remove reference tokens, stable_coin = coin\<rparr>
                 | None \<Rightarrow> Err (''exchange does not track '' @ reference)))"

definition get_api_tokens :: "('s, 't) api \<Rightarrow> (('s, 't) generic_client, 't api_tokens) effect" where
  "get_api_tokens api c =
     (case client_api_tokens c of
        Some tokens \<Rightarrow> (Ok tokens, c)
      | None \<Rightarrow>
          ebind (effect_context ''failed to perform lazy initialization'' (on_world (create_api_tokens api)))
            (\<lambda>initialized. ebind (emodify (\<lambda>c. c\<lparr>client_api_tokens := Some initialized\<rparr>)) (\<lambda>_. elift (Ok initialized))) c)"

text \<open>Which tokens are priced, and with which request.\<close>

definition price_request :: "('s, 't) api \<Rightarrow> 't api_tokens \<Rightarrow> token_base_info \<Rightarrow> ('s, f64) effect option" where
  "price_request api tokens info =
     (let symb = to_uppercase (token_symbol info)
      in if symb = api_symbol api (stable_coin tokens) then Some (elift (Ok (Num 1)))
         else map_option (\<lambda>token. api_get_price api token (stable_coin tokens)) (hm_get (listed_tokens tokens) symb))"

fun join_prices ::
    "(token_base_info \<Rightarrow> ('s, f64) effect option) \<Rightarrow> (u16 \<times> token_base_info) list \<Rightarrow> ('s, price_map) effect" where
  "join_prices request [] = elift (Ok [])"
| "join_prices request ((tid, info) # infos) =
     (case request info of
        None \<Rightarrow> join_prices request infos
      | Some m \<Rightarrow> (\<lambda>s.
          case m s of
            (Ok price, s) \<Rightarrow>
              (let owl_price = get_owl_price info price
               in if owl_price = 0 then join_prices request infos s
                  else ebind (join_prices request infos) (\<lambda>ps. elift (Ok ((tid, owl_price) # ps))) s)
          | (Err _, s) \<Rightarrow> join_prices request infos s
          | (Panic, s) \<Rightarrow> (Panic, s)))"

definition client_get_prices ::
    "('s, 't) api \<Rightarrow> 's token_info_fetching \<Rightarrow> u16 list \<Rightarrow> (('s, 't) generic_client, price_map) effect" where
  "client_get_prices api fetcher tokens =
     (if tokens = [] then elift (Ok [])
      else ebind (get_api_tokens api) (\<lambda>api_tokens.
           ebind (on_world (from_fetch (get_token_infos fetcher tokens))) (\<lambda>token_infos.
           ebind (on_world (join_prices (price_request api api_tokens) token_infos)) (\<lambda>ps.
             elift (Ok (hm_collect ps))))))"

section \<open>1inch\<close>

record oneinch_token =
  oi_symbol :: string
  oi_decimals :: u8

text \<open>\<open>quote\<close> is the request for the amounts traded, by symbols and amount.\<close>

definition oneinch_get_price ::
    "(string \<Rightarrow> string \<Rightarrow> string \<Rightarrow> ('s, u128 \<times> u128) effect) \<Rightarrow> oneinch_token \<Rightarrow> oneinch_token \<Rightarrow> ('s, f64) effect" where
  "oneinch_get_price quote src dst =
     (let one_token_from = show_nat (unat ((10 :: u128) ^ unat (oi_decimals src)));
          decimal_correction = f64_powi (Num 10) (int (unat (oi_decimals src)) - int (unat (oi_decimals dst)))
      in ebind (effect_context ''failed to get price from 1inch'' (quote (oi_symbol src) (oi_symbol dst) one_token_from))
           (\<lambda>(to_token_amount, from_token_amount).
             elift (Ok (f64_div (f64_mul decimal_correction (f64_of_nat (unat to_token_amount))) (f64_of_nat (unat from_token_amount))))))"

definition oneinch_api ::
    "('s, oneinch_token list) effect \<Rightarrow> (string \<Rightarrow> string \<Rightarrow> string \<Rightarrow> ('s, u128 \<times> u128) effect) \<Rightarrow> ('s, oneinch_token) api" where
  "oneinch_api token_list quote =
     \<lparr>api_symbol = oi_symbol, api_get_token_list = token_list, api_get_price = oneinch_get_price quote,
      reference_token_symbol = ''OWL''\<rparr>"

record dexag_token =
  dx_name :: string
  dx_symbol :: string
  dx_address :: "address option"

definition dexag_get_token_list :: "(string \<Rightarrow> ('s, dexag_token list) effect) \<Rightarrow> ('s, dexag_token list) effect" where
  "dexag_get_token_list get_json = effect_context ''failed to get token list from dexag response'' (get_json ''token-list-full'')"

text \<open>A request is its path and its query.\<close>

definition dexag_get_price ::
    "(string \<Rightarrow> (string \<times> string) list \<Rightarrow> ('s, f64) effect) \<Rightarrow> dexag_token \<Rightarrow> dexag_token \<Rightarrow> ('s, f64) effect" where
  "dexag_get_price get_json src dst =
     effect_context ''failed to get price from dexag''
       (get_json ''price'' [(''from'', dx_symbol src), (''to'', dx_symbol dst), (''fromAmount'', ''1''), (''dex'', ''ag'')])"

definition dexag_api ::
    "(string \<Rightarrow> ('s, dexag_token list) effect) \<Rightarrow> (string \<Rightarrow> (string \<times> string) list \<Rightarrow> ('s, f64) effect) \<Rightarrow> ('s, dexag_token) api" where
  "dexag_api get_list get_price =
     \<lparr>api_symbol = dx_symbol, api_get_token_list = dexag_get_token_list get_list, api_get_price = dexag_get_price get_price,
      reference_token_symbol = ''DAI''\<rparr>"

section \<open>Kraken\<close>

record kraken_asset =
  altname :: string

record kraken_pair =
  kp_base :: string
  kp_quote :: string

text \<open>The prices of a ticker: today's and that of the last 24 hours.\<close>

type_synonym ticker_info = "f64 \<times> f64"

definition last_24h :: "ticker_info \<Rightarrow> f64" where
  "last_24h p = snd p"

record 's kraken_api =
  kraken_assets :: "('s, (string \<times> kraken_asset) list) effect"
  kraken_asset_pairs :: "('s, (string \<times> kraken_pair) list) effect"
  kraken_ticker :: "string list \<Rightarrow> ('s, (string \<times> ticker_info) list) effect"

record 'a kraken_result =
  kr_error :: "string list"
  kr_result :: "'a option"

definition kraken_into_result :: "'a kraken_result \<Rightarrow> 'a res" where
  "kraken_into_result kr =
     (case kr_result kr of
        Some a \<Rightarrow> Ok a
      | None \<Rightarrow> Err (if kr_error kr \<noteq> [] then ''Kraken API errors'' else ''unknown Kraken API error''))"

definition kraken_http_assets :: "string \<Rightarrow> (string \<Rightarrow> ('s, 'a kraken_result) effect) \<Rightarrow> ('s, 'a) effect" where
  "kraken_http_assets base_url get_json =
     ebind (effect_context ''failed to parse assets JSON'' (get_json (base_url @ ''/Assets''))) (\<lambda>kr. elift (kraken_into_result kr))"

definition kraken_http_asset_pairs :: "string \<Rightarrow> (string \<Rightarrow> ('s, 'a kraken_result) effect) \<Rightarrow> ('s, 'a) effect" where
  "kraken_http_asset_pairs base_url get_json =
     ebind (effect_context ''failed to parse asset pairs JSON'' (get_json (base_url @ ''/AssetPairs''))) (\<lambda>kr. elift (kraken_into_result kr))"

text \<open>\<open>join\<close> of strings\<close>

fun join_with :: "string \<Rightarrow> string list \<Rightarrow> string" where
  "join_with sep [] = []"
| "join_with sep [x] = x"
| "join_with sep (x # xs) = x @ sep @ join_with sep xs"

definition kraken_http_ticker ::
    "string \<Rightarrow> (string \<Rightarrow> ('s, (string \<times> ticker_info) list kraken_result) effect) \<Rightarrow> string list \<Rightarrow>
     ('s, (string \<times> ticker_info) list) effect" where
  "kraken_http_ticker base_url get_json pairs =
     (if pairs = [] then elift (Ok [])
      else ebind (effect_context ''failed to parse ticker JSON'' (get_json (base_url @ ''/Ticker?pair='' @ join_with '','' pairs)))
             (\<lambda>kr. elift (kraken_into_result kr)))"

definition kraken_http_api ::
    "string \<Rightarrow> (string \<Rightarrow> ('s, (string \<times> kraken_asset) list kraken_result) effect) \<Rightarrow>
     (string \<Rightarrow> ('s, (string \<times> kraken_pair) list kraken_result) effect) \<Rightarrow>
     (string \<Rightarrow> ('s, (string \<times> ticker_info) list kraken_result) effect) \<Rightarrow> 's kraken_api" where
  "kraken_http_api base_url get_assets get_pairs get_ticker =
     \<lparr>kraken_assets = kraken_http_assets base_url get_assets, kraken_asset_pairs = kraken_http_asset_pairs base_url get_pairs,
      kraken_ticker = kraken_http_ticker base_url get_ticker\<rparr>"

definition find_asset :: "string \<Rightarrow> (string \<times> kraken_asset) list \<Rightarrow> string option" where
  "find_asset symb assets =
     (if hm_get assets symb \<noteq> None then Some symb
      else map_option fst (List.find (\<lambda>(_, asset). altname asset = symb) assets))"

definition ends_with :: "string \<Rightarrow> string \<Rightarrow> bool" where
  "ends_with s suf \<longleftrightarrow> length suf \<le> length s \<and> drop (length s - length suf) s = suf"

definition find_asset_pair :: "string \<Rightarrow> string \<Rightarrow> (string \<times> kraken_pair) list \<Rightarrow> string option" where
  "find_asset_pair asset to asset_pairs =
     map_option fst
       (List.find (\<lambda>(_, pair). kp_base pair = asset \<and> kp_quote pair = to)
         (filter (\<lambda>(name, _). \<not> ends_with name ''.d'') asset_pairs))"

definition get_token_asset_pairs ::
    "'s kraken_api \<Rightarrow> (u16 \<times> token_base_info) list \<Rightarrow> ('s, (string \<times> u16 \<times> token_base_info) list) effect" where
  "get_token_asset_pairs api tokens =
     ebind (kraken_assets api) (\<lambda>assets.
     ebind (kraken_asset_pairs api) (\<lambda>asset_pairs.
     ebind (elift (ok_or (find_asset ''USD'' assets) ''unable to locate USD asset'')) (\<lambda>usd.
       elift (Ok (hm_collect (List.map_filter (\<lambda>(tid, info).
         Option.bind (find_asset (token_symbol info) assets) (\<lambda>asset.
         map_option (\<lambda>pair. (pair, (tid, info))) (find_asset_pair asset usd asset_pairs))) tokens))))))"

definition kraken_get_prices :: "'s kraken_api \<Rightarrow> 's token_info_fetching \<Rightarrow> u16 list \<Rightarrow> ('s, price_map) effect" where
  "kraken_get_prices api fetcher tokens =
     ebind (from_fetch (get_token_infos fetcher tokens)) (\<lambda>token_infos.
     ebind (effect_context ''failed to generate asset pairs mapping for tokens'' (get_token_asset_pairs api token_infos))
       (\<lambda>token_asset_pairs.
     ebind (kraken_ticker api (map fst token_asset_pairs)) (\<lambda>ticker_infos.
       elift (Ok (hm_collect (List.map_filter (\<lambda>(pair, info).
         Option.bind (hm_get token_asset_pairs pair) (\<lambda>(tid, token_info).
           let price = get_owl_price token_info (last_24h info)
           in if price = 0 then None else Some (tid, price))) ticker_infos))))))"

text \<open>As price sources; these always return.\<close>

definition as_price_source :: "(u16 list \<Rightarrow> ('s, price_map) effect) \<Rightarrow> 's price_source" where
  "as_price_source m tokens s = Some (m tokens s)"

section \<open>The clients are price sources\<close>

definition answers_ok :: "('s \<Rightarrow> bool) \<Rightarrow> ('s, 'a) effect \<Rightarrow> ('a \<Rightarrow> bool) \<Rightarrow> bool" where
  "answers_ok keeps m Q \<longleftrightarrow> (\<forall>s r s'. keeps s \<longrightarrow> m s = (r, s') \<longrightarrow> keeps s' \<and> (\<forall>a. r = Ok a \<longrightarrow> Q a))"

lemma answers_ok_bind:
  assumes "answers_ok keeps m Q" "\<And>a. Q a \<Longrightarrow> answers_ok keeps (k a) R"
  shows "answers_ok keeps (ebind m k) R"
  unfolding answers_ok_def
proof (intro allI impI)
  fix s r s' assume s: "keeps s" "ebind m k s = (r, s')"
  obtain r1 s1 where m: "m s = (r1, s1)"
    by (cases "m s")
  with assms(1) s(1) have "keeps s1 \<and> (\<forall>a. r1 = Ok a \<longrightarrow> Q a)"
    unfolding answers_ok_def by blast
  then show "keeps s' \<and> (\<forall>a. r = Ok a \<longrightarrow> R a)"
    using s(2) m assms(2) by (cases r1) (auto simp: ebind_def answers_ok_def)
qed

lemma answers_okD: "answers_ok keeps m Q \<Longrightarrow> keeps s \<Longrightarrow> m s = (r, s') \<Longrightarrow> keeps s' \<and> (\<forall>a. r = Ok a \<longrightarrow> Q a)"
  unfolding answers_ok_def by blast

lemma answers_ok_mono: "answers_ok keeps m Q \<Longrightarrow> (\<And>a. Q a \<Longrightarrow> R a) \<Longrightarrow> answers_ok keeps m R"
  unfolding answers_ok_def by blast

lemma answers_ok_lift: "(\<And>a. r = Ok a \<Longrightarrow> Q a) \<Longrightarrow> answers_ok keeps (elift r) Q"
  by (simp add: answers_ok_def elift_def)

lemma answers_ok_context: "answers_ok keeps m Q \<Longrightarrow> answers_ok keeps (effect_context msg m) Q"
  by (fastforce simp: answers_ok_def effect_context_def split: prod.splits result.splits)

lemma answers_ok_fetch: "fetch_ok keeps m Q E \<Longrightarrow> answers_ok keeps (from_fetch m) Q"
  unfolding answers_ok_def from_fetch_def
  by (intro allI impI) (auto dest: fetch_okD split: prod.splits result.splits)

lemma answers_ok_zoom:
  "answers_ok keeps m Q \<Longrightarrow> answers_ok (\<lambda>c. keeps (client_world c)) (on_world m) Q"
  by (fastforce simp: answers_ok_def ezoom_def split: prod.splits)

lemma as_price_source_contract:
  "(\<And>tokens. answers_ok keeps (m tokens) (price_answer tokens)) \<Longrightarrow> price_source (as_price_source m) keeps"
  by unfold_locales (auto simp: as_price_source_def answers_ok_def split: result.split)

lemma join_prices_ok:
  assumes "\<And>info m. request info = Some m \<Longrightarrow> answers_ok keeps m (\<lambda>_. True)"
  shows "answers_ok keeps (join_prices request infos) (\<lambda>ps. fst ` set ps \<subseteq> fst ` set infos \<and> 0 \<notin> snd ` set ps)"
proof (induction infos)
  case Nil
  then show ?case by (simp add: answers_ok_def elift_def)
next
  case (Cons p infos)
  obtain tid info where p: "p = (tid, info)"
    by (cases p)
  let ?Q = "\<lambda>infos ps. fst ` set ps \<subseteq> fst ` set infos \<and> 0 \<notin> snd ` set (ps :: price_map)"
  have mono: "answers_ok keeps (join_prices request infos) (?Q (p # infos))"
    using Cons.IH by (rule answers_ok_mono) auto
  show ?case
  proof (cases "request info")
    case None
    with mono p show ?thesis by simp
  next
    case (Some m)
    have "answers_ok keeps (ebind (join_prices request infos) (\<lambda>ps. elift (Ok ((tid, v) # ps)))) (?Q (p # infos))" if "v \<noteq> 0" for v
      using that p by (intro answers_ok_bind [OF Cons.IH] answers_ok_lift) force
    note push = this
    show ?thesis
      unfolding answers_ok_def
    proof (intro allI impI)
      fix s r s' assume s: "keeps s" "join_prices request (p # infos) s = (r, s')"
      obtain r1 s1 where m: "m s = (r1, s1)"
        by (cases "m s")
      have s1: "keeps s1"
        using answers_okD [OF assms [OF Some] s(1) m] by blast
      show "keeps s' \<and> (\<forall>ps. r = Ok ps \<longrightarrow> ?Q (p # infos) ps)"
      proof (cases r1)
        case (Ok price)
        then show ?thesis
          using s(2) m answers_okD [OF mono s1, of r s'] answers_okD [OF push s1, of "get_owl_price info price" r s']
          by (simp add: p Some Let_def split: if_splits)
      next
        case (Err e)
        then show ?thesis
          using s(2) m answers_okD [OF mono s1, of r s'] by (simp add: p Some)
      next
        case Panic
        then show ?thesis
          using s(2) m s1 by (auto simp: p Some)
      qed
    qed
  qed
qed

definition api_keeps :: "('s \<Rightarrow> bool) \<Rightarrow> ('s, 't) api \<Rightarrow> bool" where
  "api_keeps keeps api \<longleftrightarrow>
     answers_ok keeps (api_get_token_list api) (\<lambda>_. True) \<and> (\<forall>a b. answers_ok keeps (api_get_price api a b) (\<lambda>_. True))"

definition kraken_keeps :: "('s \<Rightarrow> bool) \<Rightarrow> 's kraken_api \<Rightarrow> bool" where
  "kraken_keeps keeps api \<longleftrightarrow>
     answers_ok keeps (kraken_assets api) (\<lambda>_. True) \<and> answers_ok keeps (kraken_asset_pairs api) (\<lambda>_. True) \<and>
     (\<forall>pairs. answers_ok keeps (kraken_ticker api pairs) (\<lambda>_. True))"

lemma get_api_tokens_ok:
  assumes "api_keeps keeps api"
  shows "answers_ok (\<lambda>c. keeps (client_world c)) (get_api_tokens api) (\<lambda>_. True)"
proof -
  let ?keeps = "\<lambda>c. keeps (client_world c)"
  have "answers_ok keeps (create_api_tokens api) (\<lambda>_. True)"
    using assms unfolding create_api_tokens_def api_keeps_def Let_def
    by (auto intro!: answers_ok_bind answers_ok_lift)
  then have init: "answers_ok ?keeps (ebind (effect_context msg (on_world (create_api_tokens api)))
      (\<lambda>initialized. ebind (emodify (\<lambda>c. c\<lparr>client_api_tokens := Some initialized\<rparr>)) (\<lambda>_. elift (Ok initialized)))) (\<lambda>_. True)" for msg
    by (intro answers_ok_bind [OF answers_ok_context [OF answers_ok_zoom]])
      (auto simp: answers_ok_def ebind_def emodify_def elift_def)
  show ?thesis
    unfolding answers_ok_def get_api_tokens_def using init [unfolded answers_ok_def] by (auto split: option.splits)
qed

lemma hm_collect_set: "set (hm_collect kvs) \<subseteq> set kvs"
proof -
  have "set (fold (\<lambda>kv m. hm_insert (fst kv) (snd kv) m) kvs m) \<subseteq> set m \<union> set kvs" for m
  proof (induction kvs arbitrary: m)
    case (Cons kv kvs)
    then show ?case
      using hm_insert_set [of "fst kv" "snd kv" m] by fastforce
  qed simp
  from this [of "[]"] show ?thesis
    by (simp add: hm_collect_def)
qed

context token_source
begin

lemma kraken_answers:
  assumes "kraken_keeps keeps api"
  shows "answers_ok keeps (kraken_get_prices api f tokens) (price_answer tokens)"
proof -
  have pairs: "answers_ok keeps (get_token_asset_pairs api infos) (\<lambda>pairs. fst ` snd ` set pairs \<subseteq> set tokens)"
    if "infos_of tok tokens infos" for infos
  proof -
    have "i \<in> set tokens" if "(i, info) \<in> set infos" for i info
      using that \<open>infos_of tok tokens infos\<close> by (auto simp: infos_of_def)
    then show ?thesis
      unfolding get_token_asset_pairs_def using assms unfolding kraken_keeps_def
      by (intro answers_ok_bind [of _ _ "\<lambda>_. True"] answers_ok_lift)
        (auto simp: List.map_filter_def bind_eq_Some_conv dest!: set_mp [OF hm_collect_set])
  qed
  show ?thesis
    unfolding kraken_get_prices_def
  proof (intro answers_ok_bind [OF answers_ok_fetch [OF get_token_infos_ok]]
      answers_ok_bind [OF answers_ok_context [OF pairs]] answers_ok_bind [of _ _ "\<lambda>_. True"] answers_ok_lift)
    show "answers_ok keeps (kraken_ticker api p) (\<lambda>_. True)" for p
      using assms by (simp add: kraken_keeps_def)
  next
    fix pairs ticker ps
    assume "fst ` snd ` set pairs \<subseteq> set tokens"
      and "Ok (hm_collect (List.map_filter (\<lambda>(pair, info). Option.bind (hm_get pairs pair) (\<lambda>(tid, token_info).
           let price = get_owl_price token_info (last_24h info) in if price = 0 then None else Some (tid, price))) ticker)) = Ok ps"
    then show "price_answer tokens ps"
      by (force simp: List.map_filter_def Let_def bind_eq_Some_conv intro!: price_answer_collect dest: map_of_SomeD split: if_splits)
  qed
qed

lemma client_answers:
  assumes "api_keeps keeps api"
  shows "answers_ok (\<lambda>c. keeps (client_world c)) (client_get_prices api f tokens) (price_answer tokens)"
proof -
  have request: "answers_ok keeps m (\<lambda>_. True)" if "price_request api api_tokens info = Some m" for api_tokens info m
    using that assms by (auto simp: price_request_def Let_def api_keeps_def split: if_splits intro: answers_ok_lift)
  have sub: "fst ` set infos \<subseteq> set tokens" if "infos_of tok tokens infos" for infos
    using that by (force simp: infos_of_def)
  show ?thesis
  proof (cases "tokens = []")
    case True
    then show ?thesis
      by (simp add: client_get_prices_def answers_ok_def elift_def)
  next
    case False
    have "price_answer tokens (hm_collect ps)"
      if "infos_of tok tokens infos" "fst ` set ps \<subseteq> fst ` set infos \<and> 0 \<notin> snd ` set ps" for infos ps
      using sub [OF that(1)] that(2) by (intro price_answer_collect) blast+
    with False show ?thesis
      unfolding client_get_prices_def
      by (auto intro!: answers_ok_bind [OF get_api_tokens_ok [OF assms]]
          answers_ok_bind [OF answers_ok_zoom [OF answers_ok_fetch [OF get_token_infos_ok]]]
          answers_ok_bind [OF answers_ok_zoom [OF join_prices_ok [OF request]]] answers_ok_lift)
  qed
qed

end

text \<open>On the hardcoded token data, and on the cache around any source.\<close>

text \<open>The HTTP clients keep what their requests keep.\<close>

lemma kraken_http_keeps:
  assumes "\<And>url. answers_ok keeps (get_assets url) (\<lambda>_. True)" "\<And>url. answers_ok keeps (get_pairs url) (\<lambda>_. True)"
    and "\<And>url. answers_ok keeps (get_ticker url) (\<lambda>_. True)"
  shows "kraken_keeps keeps (kraken_http_api base_url get_assets get_pairs get_ticker)"
  unfolding kraken_keeps_def kraken_http_api_def kraken_http_assets_def kraken_http_asset_pairs_def kraken_http_ticker_def
  using assms by (auto intro!: answers_ok_bind [OF answers_ok_context] answers_ok_lift)

lemma dexag_keeps:
  assumes "\<And>url. answers_ok keeps (get_list url) (\<lambda>_. True)" "\<And>url query. answers_ok keeps (get_price url query) (\<lambda>_. True)"
  shows "api_keeps keeps (dexag_api get_list get_price)"
  unfolding api_keeps_def dexag_api_def dexag_get_token_list_def dexag_get_price_def
  using assms by (auto intro!: answers_ok_context)

lemma kraken_keeps_True: "kraken_keeps (\<lambda>_. True) api"
  by (simp add: kraken_keeps_def answers_ok_def)

lemma api_keeps_True: "api_keeps (\<lambda>_. True) api"
  by (simp add: api_keeps_def answers_ok_def)

interpretation kraken: price_source "as_price_source (kraken_get_prices api (data_fetching td))" "\<lambda>_. True"
  by (intro as_price_source_contract token_source.kraken_answers [OF data_source] kraken_keeps_True)

interpretation client: price_source "as_price_source (client_get_prices api (data_fetching td))" "\<lambda>_. True"
  using as_price_source_contract [OF token_source.client_answers [OF data_source api_keeps_True]] .

lemma cached_kraken_source:
  assumes "token_source f tok keeps" "kraken_keeps (cache_keeps tok keeps view) api"
  shows "price_source (as_price_source (kraken_get_prices api (cached_fetching f schedule))) (cache_keeps tok keeps view)"
  by (intro as_price_source_contract token_source.kraken_answers [OF token_source.cached_source [OF assms(1)]] assms(2))

section \<open>Properties\<close>

text \<open>
  The tokens that have the same symbol, WETH and ETH for instance, share an asset pair, and only one
  of them is kept under the pair: Kraken never prices both.
\<close>

lemma hm_collect_values:
  "hm_get (hm_collect (List.map_filter (\<lambda>(k, v). Option.bind (hm_get m k) (g k v)) kvs)) t = Some p \<Longrightarrow>
   \<exists>k v e. (k, v) \<in> set kvs \<and> hm_get m k = Some e \<and> g k v e = Some (t, p)"
  using set_mp [OF hm_collect_set] by (fastforce simp: List.map_filter_def bind_eq_Some_conv dest!: map_of_SomeD)

lemma asset_pairs_sound:
  assumes "get_token_asset_pairs api infos s = (Ok pairs, s')" "hm_wf infos"
  obtains pair_of where "hm_wf pairs"
    "\<And>pair i info. hm_get pairs pair = Some (i, info) \<Longrightarrow> hm_get infos i = Some info \<and> pair_of (token_symbol info) = Some pair"
proof -
  from assms(1) obtain assets asset_pairs usd where
    pairs: "pairs = hm_collect (List.map_filter (\<lambda>(tid, info).
         Option.bind (find_asset (token_symbol info) assets) (\<lambda>asset.
         map_option (\<lambda>pair. (pair, (tid, info))) (find_asset_pair asset usd asset_pairs))) infos)"
    by (auto simp: get_token_asset_pairs_def ebind_def elift_def split: prod.splits result.splits)
  let ?pair_of = "\<lambda>symb. Option.bind (find_asset symb assets) (\<lambda>asset. find_asset_pair asset usd asset_pairs)"
  have "hm_get infos i = Some info \<and> ?pair_of (token_symbol info) = Some pair" if "hm_get pairs pair = Some (i, info)" for pair i info
  proof -
    have "(pair, (i, info)) \<in> set (List.map_filter (\<lambda>(tid, info).
         Option.bind (find_asset (token_symbol info) assets) (\<lambda>asset.
         map_option (\<lambda>pair. (pair, (tid, info))) (find_asset_pair asset usd asset_pairs))) infos)"
      using map_of_SomeD [OF that] hm_collect_set unfolding pairs by (rule rev_subsetD)
    then have "(i, info) \<in> set infos" "?pair_of (token_symbol info) = Some pair"
      by (auto simp: List.map_filter_def bind_eq_Some_conv)
    then show ?thesis
      using map_of_is_SomeI [OF assms(2)] by blast
  qed
  note sound = this
  have "hm_wf pairs"
    unfolding pairs by (rule hm_wf_collect)
  then show ?thesis
    by (rule that [of ?pair_of]) (rule sound)
qed

theorem kraken_one_per_symbol:
  assumes infos: "get_token_infos fetcher tokens s = (Ok infos, s1)" and wf: "hm_wf infos"
    and run: "kraken_get_prices api fetcher tokens s = (Ok ps, s')"
    and ij: "i \<noteq> j" "hm_get infos i = Some info" "hm_get infos j = Some info'" "token_symbol info = token_symbol info'"
  shows "hm_get ps i = None \<or> hm_get ps j = None"
proof (rule ccontr)
  assume "\<not> (hm_get ps i = None \<or> hm_get ps j = None)"
  then obtain p q where pq: "hm_get ps i = Some p" "hm_get ps j = Some q"
    by auto
  obtain pairs s2 ticker where pairs: "get_token_asset_pairs api infos s1 = (Ok pairs, s2)"
    and ps: "ps = hm_collect (List.map_filter (\<lambda>(pair, info).
         Option.bind (hm_get pairs pair) (\<lambda>(tid, token_info).
           let price = get_owl_price token_info (last_24h info)
           in if price = 0 then None else Some (tid, price))) ticker)"
    using run infos
    by (auto simp: kraken_get_prices_def ebind_def from_fetch_def effect_context_def elift_def
        split: prod.splits result.splits)
  obtain pair_of where "hm_wf pairs" and sound:
    "\<And>pair i info. hm_get pairs pair = Some (i, info) \<Longrightarrow> hm_get infos i = Some info \<and> pair_of (token_symbol info) = Some pair"
    by (rule asset_pairs_sound [OF pairs wf]) blast
  have entry: "\<exists>pair info. hm_get pairs pair = Some (t, info)" if "hm_get ps t = Some p" for t p
    using hm_collect_values [OF that [unfolded ps]] by (auto simp: Let_def split: if_splits)
  from entry [OF pq(1)] entry [OF pq(2)] sound ij show False
    by (metis option.inject prod.inject)
qed

definition sample_kraken :: "unit kraken_api" where
  "sample_kraken =
     \<lparr>kraken_assets = elift (Ok [(''XETH'', \<lparr>altname = ''ETH''\<rparr>), (''ZUSD'', \<lparr>altname = ''USD''\<rparr>)]),
      kraken_asset_pairs = elift (Ok [(''XETHZUSD'', \<lparr>kp_base = ''XETH'', kp_quote = ''ZUSD''\<rparr>)]),
      kraken_ticker = (\<lambda>pairs. elift (Ok (map (\<lambda>pair. (pair, (Num 200, Num 200))) pairs)))\<rparr>"

text \<open>Of the two tokens of the sample with the symbol ETH the one collected last is priced.\<close>

lemma sample_owl_price:
  assumes "tbi_decimals info = 18" "0 < n" "n * 5 ^ 18 < 2 ^ 53"
  shows "get_owl_price info (f64_of_nat n) = of_nat (n * 10 ^ 18)"
proof -
  have "unat (get_owl_price info (f64_of_nat n)) = n * 10 ^ 18"
    using get_owl_price_exact [of info n] assms by simp
  then show ?thesis
    by (metis of_nat_unat ucast_id)
qed

lemma f64_of_nat_samples: "f64_of_nat 200 = Num 200" "f64_of_nat 1 = Num 1"
  using f64_of_nat_exact [of 200] f64_of_nat_exact [of 1] by simp_all

lemmas sample_run_simps =
  data_fetching_def default_fetching_def Let_def default_get_token_infos_def data_get_token_info_def
  override_into_base_info_def ebind_def elift_def from_fetch_def effect_context_def hm_collect_def
  List.map_filter_def token_symbol_def SYMBOL_OVERRIDES_def

lemma sample_kraken_run:
  "fst (kraken_get_prices sample_kraken (data_fetching sample_tokens) [3, 1] ()) = Ok [(1, 200000000000000000000)] \<and>
   fst (kraken_get_prices sample_kraken (data_fetching sample_tokens) [3] ()) = Ok [(3, 200000000000000000000)]"
  using sample_owl_price [of _ 200, unfolded f64_of_nat_samples]
  by (simp add: kraken_get_prices_def get_token_asset_pairs_def sample_kraken_def sample_tokens_def find_asset_def
      find_asset_pair_def ends_with_def last_24h_def sample_run_simps)

text \<open>
  The symbols of an exchange are listed in upper case, but the reference coin keeps its own spelling: when
  the exchange spells it in lower case, a token with that symbol is neither recognised as the
  reference coin nor found in the list, and gets no price.
\<close>

definition sample_api :: "string list \<Rightarrow> (unit, string) api" where
  "sample_api symbols =
     \<lparr>api_symbol = (\<lambda>t. t), api_get_token_list = elift (Ok symbols),
      api_get_price = (\<lambda>_ _. elift (Ok (Num 2))), reference_token_symbol = ''DAI''\<rparr>"

definition sample_dai :: token_data where
  "sample_dai = [(7, \<lparr>tio_address = 70, tio_alias = ''DAI'', tio_decimals = 18, tio_external_price = None\<rparr>)]"

lemma reference_coin_spelling:
  "fst (client_get_prices (sample_api [''dai'']) (data_fetching sample_dai) [7] (client_new ())) = Ok [] \<and>
   fst (client_get_prices (sample_api [''DAI'']) (data_fetching sample_dai) [7] (client_new ())) = Ok [(7, 1000000000000000000)]"
proof -
  have up: "to_uppercase ''dai'' = ''DAI''" "to_uppercase ''DAI'' = ''DAI''"
    by code_simp+
  show ?thesis
    using sample_owl_price [of _ 1, unfolded f64_of_nat_samples]
    by (simp add: client_get_prices_def get_api_tokens_def create_api_tokens_def price_request_def client_new_def
        sample_api_def sample_dai_def ezoom_def emodify_def up sample_run_simps)
qed

end
