(* ===== verification/PriceQueries.thy ===== *)
theory PriceQueries
  imports PriceApi
begin

text \<open>
  What the queries of \<open>pricegraph\<close> return: the best transitive order of a pair, the volume available at a
  limit price, and the bounds of an estimated price; and an orderbook of nine orders on which they
  panic, because the rate along the only path is not representable.
\<close>

section \<open>A chain of orders at the highest price\<close>

definition chain_element :: "nat \<Rightarrow> element" where
  "chain_element i =
     \<lparr>el_user = of_nat i, el_balance = 10000, el_pair = \<lparr>pair_buy = token_id i, pair_sell = token_id (Suc i)\<rparr>,
      el_valid = \<lparr>valid_from_batch = 0, valid_to_batch = 10\<rparr>, el_price = \<lparr>price_numer = - 1, price_denom = 10000\<rparr>,
      el_remaining_sell_amount = 10000, el_id = 0\<rparr>"

definition chain_elements :: "element list" where
  "chain_elements = map chain_element [0..<9]"

definition chain_rate :: exchange_rate where
  "chain_rate = price_exchange_rate (f64_div (f64_of_nat (2 ^ 128 - 1)) (f64_of_nat 10000))"

definition chain_order :: "nat \<Rightarrow> pg_order" where
  "chain_order i =
     \<lparr>po_user = of_nat i, po_id = 0, po_pair = \<lparr>pair_buy = token_id i, pair_sell = token_id (Suc i)\<rparr>,
      po_amount = Unlimited, po_rate = chain_rate\<rparr>"

lemma token_id_inject: "i < 2 ^ 16 \<Longrightarrow> j < 2 ^ 16 \<Longrightarrow> token_id i = token_id j \<longleftrightarrow> i = j"
  using node_index_token_id by metis

lemma chain_rate_large: "\<exists>c. chain_rate = Num c \<and> pow2 114 \<le> c"
proof -
  have "f64_of_nat (2 ^ 128 - 1) = Num (2 ^ 128)"
    using f64_round_eval [of 127 "2 ^ 128 - 1" "2 ^ 53"] by (simp add: f64_of_nat_def pow2_def round_half_even_def Let_def)
  moreover have "f64_of_nat 10000 = Num 10000"
    using f64_of_nat_exact [of 10000] by simp
  moreover have "pow2 114 \<le> 2 ^ 128 / 10000" "2 ^ 128 / 10000 < pow2 115"
    by (simp_all add: pow2_def)
  then obtain q where q: "f64_round (2 ^ 128 / 10000) = Num q" "pow2 114 \<le> q" "q \<le> pow2 115"
    by (rule f64_round_between) simp_all
  ultimately have "chain_rate = f64_round (q * (2254053867552801 / 2251799813685248))"
    using less_le_trans [OF pow2_pos q(2)]
    by (simp add: chain_rate_def price_exchange_rate_def f64_div_def f64_mul_def FEE_FACTOR_eq)
  moreover have "pow2 114 \<le> q * (2254053867552801 / 2251799813685248)"
    "q * (2254053867552801 / 2251799813685248) < pow2 116"
    using q(2,3) by (simp_all add: pow2_def)
  then obtain c where "f64_round (q * (2254053867552801 / 2251799813685248)) = Num c" "pow2 114 \<le> c"
    by (rule f64_round_between) simp_all
  ultimately show ?thesis by auto
qed

lemma chain_accepted: "accepted_elements chain_elements = map (\<lambda>i. (chain_order i, chain_element i)) [0..<9]"
proof -
  have "pg_order_new (chain_element i) = Some (chain_order i)" for i
    by (simp add: pg_order_new_def chain_element_def chain_order_def chain_rate_def is_unbounded_def UNBOUNDED_AMOUNT_def
        limit_price_from_fraction_def unat_max_u128)
  moreover have "\<not> is_dust_order (chain_element i)" for i
    by (simp add: is_dust_order_def is_dust_iff chain_element_def)
  moreover have "pair_buy (el_pair (chain_element i)) \<noteq> pair_sell (el_pair (chain_element i))" if "i < 9" for i
    using that token_id_inject [of i "Suc i"] by (simp add: chain_element_def)
  moreover have "List.map_filter (\<lambda>el. map_option (\<lambda>ord. (ord, el)) (pg_order_new el)) (map f xs) =
      map (\<lambda>i. (g i, f i)) xs" if "\<And>i. pg_order_new (f i) = Some (g i)" for f g and xs :: "nat list"
    using that by (induction xs) (simp_all add: List.map_filter_simps)
  ultimately show ?thesis
    by (simp add: accepted_elements_def chain_elements_def filter_True del: upt_rec_numeral)
qed

lemma chain_pair_orders:
  "accepted_orders chain_elements \<lparr>pair_buy = token_id a, pair_sell = token_id b\<rparr> =
     (if a < 9 \<and> b = Suc a then [chain_order a] else [])" if "a < 2 ^ 16" "b < 2 ^ 16" for a b
proof -
  have "filter (\<lambda>i. token_id i = token_id a \<and> token_id (Suc i) = token_id b) [0..<9] =
      filter (\<lambda>i. i = a \<and> Suc i = b) [0..<9]"
    using that by (intro filter_cong) (auto simp: token_id_inject)
  also have "\<dots> = (if a < 9 \<and> b = Suc a then [a] else [])"
    by (cases "a < 9"; cases "b = Suc a") (auto simp: upt_rec numeral_eq_Suc less_Suc_eq)
  finally show ?thesis
    by (simp add: accepted_orders_def chain_accepted filter_map comp_def chain_order_def del: upt_rec_numeral)
qed

lemma rate_along_grows:
  "rate_along ob (Num x) pairs = Some y \<Longrightarrow> \<forall>p \<in> set pairs. po_rate (last (pair_orders (ob_orders ob) p)) = Num c \<Longrightarrow>
   pow2 114 \<le> c \<Longrightarrow> pow2 (114 * int k) \<le> x \<Longrightarrow> x < 2 ^ 1024 \<Longrightarrow>
   \<exists>v. y = Num v \<and> pow2 (114 * int (k + length pairs)) \<le> v \<and> v < 2 ^ 1024"
proof (induction pairs arbitrary: x k)
  case (Cons p pairs)
  have pos: "0 < x" "0 < c"
    using Cons.prems(3,4) pow2_pos less_le_trans by blast+
  have "pow2 (114 * int k) * pow2 114 \<le> x * c"
    using Cons.prems(3,4) pos by (intro mult_mono) (simp_all add: less_imp_le)
  then have "pow2 (114 * int (Suc k)) \<le> x * c"
    by (simp add: pow2_add [symmetric] algebra_simps)
  moreover obtain z where z: "rate_step ob (Num x) p = Some z" "rate_along ob z pairs = Some y"
    using Cons.prems(1) by (auto split: bind_splits)
  then have "f64_round (x * c) = z" "is_strictly_positive_and_finite z"
    using Cons.prems(2) pos by (auto simp: rate_step_def rate_checked_mul_def Let_def f64_mul_Num split: if_splits)
  ultimately obtain v where v: "z = Num v" "pow2 (114 * int (Suc k)) \<le> v" "v < 2 ^ 1024"
    using f64_round_ge [of "114 * int (Suc k)" "x * c"] by (auto simp: is_strictly_positive_and_finite_iff)
  then show ?case
    using Cons.IH [of v "Suc k"] Cons.prems(2,3) z(2) by simp
qed auto

text \<open>In the graph of the chain every edge leads to the next token.\<close>

lemma chain_walk:
  "walk g u es v \<Longrightarrow> \<forall>(a, b, w) \<in> set (edge_list g). b = Suc a \<Longrightarrow> v = u + length es \<and> walk_nodes u es = [u..<Suc v]"
proof (induction g u es v rule: walk.induct)
  case (2 g u i j w es v)
  then have "j = Suc u" "v = j + length es" "walk_nodes j es = [j..<Suc v]" by auto
  then show ?case
    by (simp add: walk_nodes_def upt_conv_Cons del: upt_Suc)
qed (simp add: walk_nodes_def)

context price_platform
begin

lemma chain_orderbook:
  obtains ob where "from_elements pf chain_elements = Ok ob" "orderbook_inv pf ob" "node_count (projection pf ob) = 10"
    "\<And>a b. a < 2 ^ 16 \<Longrightarrow> b < 2 ^ 16 \<Longrightarrow> pair_orders (ob_orders ob) \<lparr>pair_buy = token_id a, pair_sell = token_id b\<rparr> =
       (if a < 9 \<and> b = Suc a then [chain_order a] else [])"
proof -
  obtain ob where ob: "from_elements pf chain_elements = Ok ob" "orderbook_inv pf ob"
    "\<And>pair. mset (pair_orders (ob_orders ob) pair) = mset (accepted_orders chain_elements pair)"
    "node_count (projection pf ob) = Suc (unat (Max (insert 0 (set (accepted_tokens chain_elements)))))"
    using from_elements_spec [of chain_elements] by metis
  have "set (accepted_tokens chain_elements) = {0, 1, 2, 3, 4, 5, 6, 7, 8, 9}"
    unfolding accepted_tokens_def chain_accepted by (auto simp: chain_element_def token_id_def upt_rec)
  then have "node_count (projection pf ob) = 10"
    using ob(4) by (simp add: max_def)
  moreover have "pair_orders (ob_orders ob) \<lparr>pair_buy = token_id a, pair_sell = token_id b\<rparr> =
      (if a < 9 \<and> b = Suc a then [chain_order a] else [])" if "a < 2 ^ 16" "b < 2 ^ 16" for a b
    using ob(3) [of "\<lparr>pair_buy = token_id a, pair_sell = token_id b\<rparr>"] chain_pair_orders [OF that]
    by (cases "a < 9 \<and> b = Suc a") simp_all
  ultimately show ?thesis using that ob(1,2) by blast
qed

lemma chain_not_overlapping:
  assumes "orderbook_inv pf ob"
    and orders: "\<And>a b. a < 2 ^ 16 \<Longrightarrow> b < 2 ^ 16 \<Longrightarrow> pair_orders (ob_orders ob) \<lparr>pair_buy = token_id a, pair_sell = token_id b\<rparr> =
       (if a < 9 \<and> b = Suc a then [chain_order a] else [])"
  shows "\<forall>(a, b, w) \<in> set (edge_list (projection pf ob)). b = Suc a" "\<not> overlapping (projection pf ob)"
    "k \<le> 9 \<Longrightarrow> \<exists>es. walk (projection pf ob) 0 es k"
proof -
  show step: "\<forall>(a, b, w) \<in> set (edge_list (projection pf ob)). b = Suc a"
  proof clarify
    fix a b w assume e: "(a, b, w) \<in> set (edge_list (projection pf ob))"
    from edge_facts(1) [OF assms(1) e] orders [OF edge_facts(5,6) [OF assms(1) e]] show "b = Suc a"
      by (simp split: if_splits)
  qed
  show "\<not> overlapping (projection pf ob)"
    using chain_walk [OF _ step] by (fastforce simp: overlapping_def weight_total_def)
  show "k \<le> 9 \<Longrightarrow> \<exists>es. walk (projection pf ob) 0 es k"
  proof (induction k)
    case 0
    show ?case by (intro exI [of _ "[]"]) simp
  next
    case (Suc k)
    then obtain es where "walk (projection pf ob) 0 es k" by auto
    moreover have "pair_orders (ob_orders ob) \<lparr>pair_buy = token_id k, pair_sell = token_id (Suc k)\<rparr> = [chain_order k]"
      using orders [of k "Suc k"] Suc.prems by simp
    then have "(k, Suc k, rate_weight (pf_log2 pf) chain_rate) \<in> set (edge_list (projection pf ob))"
      unfolding edge_iff [OF orderbook_invD(1) [OF assms(1)]] using Suc.prems
      by (simp add: cheapest_weight_def chain_order_def)
    ultimately have "walk (projection pf ob) 0 (es @ [(k, Suc k, rate_weight (pf_log2 pf) chain_rate)]) (Suc k)"
      by (simp add: walk_snoc)
    then show ?case by blast
  qed
qed

text \<open>The rate along the whole chain exceeds every floating point number.\<close>

lemma chain_unreducable:
  assumes inv: "orderbook_inv pf ob" and count: "node_count (projection pf ob) = 10"
    and orders: "\<And>a b. a < 2 ^ 16 \<Longrightarrow> b < 2 ^ 16 \<Longrightarrow> pair_orders (ob_orders ob) \<lparr>pair_buy = token_id a, pair_sell = token_id b\<rparr> =
       (if a < 9 \<and> b = Suc a then [chain_order a] else [])"
  shows "find_path_and_flow pf 0 9 None ob = Some (Err (UnreducableOrderbook [0..<10]))"
proof -
  note chain = chain_not_overlapping [OF inv orders]
  have ok: "search_ok pf 0 9 ob"
    using inv count by (simp add: search_ok_def MAX_TOKENS_def)
  show ?thesis
  proof (cases rule: find_path_and_flow_cases [OF ok])
    case (1 c es)
    then show ?thesis using chain(2) by (auto simp: overlapping_def)
  next
    case 2
    then show ?thesis using chain(3) [of 9] by simp
  next
    case (3 es)
    have nodes: "walk_nodes 0 es = [0..<10]"
      using chain_walk [OF 3(2) chain(1)] by simp
    show ?thesis
    proof (cases rule: path_walk_cases [OF ok 3(2,3)])
      case 1
      then show ?thesis using 3(1) nodes by simp
    next
      case (2 fl ob')
      obtain c where c: "chain_rate = Num c" "pow2 114 \<le> c"
        using chain_rate_large by blast
      have pairs: "pairs_on_path (walk_nodes 0 es) = map (\<lambda>i. \<lparr>pair_buy = token_id i, pair_sell = token_id (Suc i)\<rparr>) [0..<9]"
        unfolding nodes by (simp add: pairs_on_path_def links_def upt_rec)
      have "\<forall>p \<in> set (pairs_on_path (walk_nodes 0 es)). po_rate (last (pair_orders (ob_orders ob) p)) = Num c"
        unfolding pairs using orders c(1) by (auto simp: chain_order_def)
      from rate_along_grows [OF 2(6) [unfolded rate_identity_def] this c(2), of 0]
      show ?thesis by (auto simp: pairs pow2_def)
    qed
  qed
qed

end

section \<open>Properties\<close>

lemma returned:
  "(case x of None \<Rightarrow> False | Some (Ok a) \<Rightarrow> f a | Some (Err e) \<Rightarrow> g e | Some Panic \<Rightarrow> False) \<Longrightarrow> x \<noteq> None \<and> x \<noteq> Some Panic"
  by (cases x) (auto split: result.splits)

text \<open>
  C7: Without a bound on the hops, the search for the best transitive order of a pair in an
  orderbook of at most 181 tokens returns and does not panic.  It answers that there is none exactly
  when the pair is invalid or no path of orders leads from the bought to the sold token; otherwise
  the flow it returns is that of a path of least weight, without repeated tokens, and has a
  positive finite capacity and the product of the rates along the path.  It fails only when the order
  graph has a negative cycle, or when the rate along a best path is not representable.
\<close>

theorem best_transitive_order_correct:
  assumes "price_platform pf" "orderbook_inv pf ob" "node_count (projection pf ob) \<le> MAX_TOKENS" "range_hops r = None"
  shows "let buy = node_index (pair_buy (range_pair r)); sell = node_index (pair_sell (range_pair r));
             best = (\<lambda>es. walk (projection pf ob) buy es sell \<and> distinct (walk_nodes buy es) \<and>
               (\<forall>es'. walk (projection pf ob) buy es' sell \<longrightarrow> weight_total es \<le> weight_total es'))
         in case find_optimal_transitive_order pf r ob of
           Some (Ok None) \<Rightarrow> is_token_pair_valid pf (range_pair r) ob \<longrightarrow> \<not> (\<exists>es. walk (projection pf ob) buy es sell)
         | Some (Ok (Some fl)) \<Rightarrow> is_token_pair_valid pf (range_pair r) ob \<and> is_strictly_positive_and_finite (flow_capacity fl) \<and>
             (\<exists>es. best es \<and> rate_along ob rate_identity (pairs_on_path (walk_nodes buy es)) = Some (flow_rate fl))
         | Some (Err (OverlapError c)) \<Rightarrow> overlapping (projection pf ob)
         | Some (Err (UnreducableOrderbook path)) \<Rightarrow> \<exists>es. best es \<and> path = walk_nodes buy es
         | _ \<Rightarrow> False"
proof (cases "is_token_pair_valid pf (range_pair r) ob")
  case True
  let ?buy = "node_index (pair_buy (range_pair r))" and ?sell = "node_index (pair_sell (range_pair r))"
  have ok: "search_ok pf ?buy ?sell ob"
    using True assms by (simp add: search_ok_def is_token_pair_valid_def) (simp add: node_index_def)
  have find: "find_optimal_transitive_order pf r ob = map_option (rmap (map_option snd)) (find_path_and_flow pf ?buy ?sell None ob)"
    using True assms(4) by (simp add: find_optimal_transitive_order_def)
  show ?thesis
  proof (cases rule: price_platform.find_path_and_flow_cases [OF assms(1) ok])
    case (1 c es)
    then show ?thesis unfolding find Let_def by (auto simp: overlapping_def)
  next
    case 2
    then show ?thesis unfolding find Let_def by simp
  next
    case (3 es)
    show ?thesis
    proof (cases rule: price_platform.path_walk_cases [OF assms(1) ok 3(2,3)])
      case 1
      then show ?thesis unfolding find Let_def using 3 by auto
    next
      case (2 fl ob')
      then show ?thesis unfolding find Let_def using 3 True by auto
    qed
  qed
next
  case False
  then show ?thesis by (simp add: find_optimal_transitive_order_def)
qed

theorem best_transitive_order_correct_witness:
  "\<exists>ob. from_elements list_platform chain_elements = Ok ob \<and> node_count (projection list_platform ob) \<le> MAX_TOKENS \<and>
     find_optimal_transitive_order list_platform (into_unbounded_range \<lparr>pair_buy = 0, pair_sell = 1\<rparr>) ob \<notin> {None, Some Panic}"
proof -
  obtain ob where ob: "from_elements list_platform chain_elements = Ok ob" "orderbook_inv list_platform ob"
    "node_count (projection list_platform ob) = 10"
    by (rule lists.chain_orderbook)
  have max: "node_count (projection list_platform ob) \<le> MAX_TOKENS"
    using ob(3) by (simp add: MAX_TOKENS_def)
  let ?r = "into_unbounded_range \<lparr>pair_buy = 0, pair_sell = 1\<rparr>"
  have "range_hops ?r = None"
    by (simp add: into_unbounded_range_def into_range_def)
  note best = best_transitive_order_correct [OF lists.price_platform_axioms ob(2) max this, unfolded Let_def]
  have "find_optimal_transitive_order list_platform ?r ob \<noteq> None" "find_optimal_transitive_order list_platform ?r ob \<noteq> Some Panic"
    by (rule conjunct1 [OF returned [OF best]], rule conjunct2 [OF returned [OF best]])
  then show ?thesis
    using ob(1) max by (intro exI [of _ ob]) simp
qed

text \<open>
  C8: For a query without a bound on the hops, on a reduced orderbook of at most 181 tokens, the
  order for a valid limit price is made of the significant transitive orders of the inverse pair: these are finitely many, each with a
  positive finite rate and capacity, and the order sums up the volumes of those before the first
  one whose rate is above the inverse limit.  An error that ends the iteration is passed on if no
  transitive order above the limit comes before.  The query panics only if the search for the
  first transitive order fails.
\<close>

theorem order_for_limit_price_correct:
  assumes "price_platform pf" "pg_reduced_orderbook pg = Ok ob" "orderbook_inv pf ob" "node_count (projection pf ob) \<le> MAX_TOKENS"
    and "range_hops r = None" "is_strictly_positive_and_finite price"
  shows "(\<exists>e. find_optimal_transitive_order pf (token_pair_range_inverse r) ob = Some (Err e) \<and>
       order_for_limit_price pf pg r price = Some Panic) \<or>
    (\<exists>iter fls e. transitive_orders_new pf (token_pair_range_inverse r) ob = Some (Ok iter) \<and>
       yields (transitive_orders_next pf) iter fls e \<and> list_all valid_flow fls \<and>
       (let significant = filter (\<lambda>fl. \<not> is_dust_trade fl) fls;
            allowed = (\<lambda>fl. \<not> f64_less (rate_inverse (price_exchange_rate price)) (flow_rate fl));
            used = takeWhile allowed significant;
            buy = foldl f64_add (Zero False) (map (\<lambda>fl. f64_div (flow_capacity fl) (flow_rate fl)) used);
            sell = foldl f64_add (Zero False) (map flow_capacity used)
        in order_for_limit_price pf pg r price = Some
             (if (\<forall>fl \<in> set significant. allowed fl) \<and> e \<noteq> None then Err (the e)
              else Ok (if f64_is_zero buy \<or> f64_is_zero sell then None else Some \<lparr>tr_buy = buy, tr_sell = sell\<rparr>))))"
proof -
  have r: "range_hops (token_pair_range_inverse r) = None"
    using assms(5) by (simp add: token_pair_range_inverse_def)
  have query: "order_for_limit_price pf pg r price = map_option (rmap volume_order)
      (reduced_flows pf pg (token_pair_range_inverse r) (limit_step (rate_inverse (price_exchange_rate price))) (Zero False, Zero False))"
    using assms(6) by (simp add: order_for_limit_price_def limit_price_new_def)
  show ?thesis
  proof (cases rule: price_platform.reduced_flows_cases [OF assms(1-4) r, where 's = "f64 \<times> f64"])
    case (1 e)
    then show ?thesis by (simp add: query)
  next
    case (2 iter fls e)
    show ?thesis
      using 2(1-3) unfolding query 2(4) fold_limit_step
      by (intro disjI2 exI [of _ iter] exI [of _ fls] exI [of _ e] conjI) (auto simp: Let_def volume_order_def)
  qed
qed

theorem order_for_limit_price_correct_witness:
  "\<exists>ob. from_elements list_platform chain_elements = Ok ob \<and>
     order_for_limit_price list_platform \<lparr>pg_full_orderbook = ob, pg_reduced_orderbook = Ok ob\<rparr>
       (into_unbounded_range \<lparr>pair_buy = 1, pair_sell = 0\<rparr>) (Num 1) \<noteq> None"
proof -
  obtain ob where ob: "from_elements list_platform chain_elements = Ok ob" "orderbook_inv list_platform ob"
    "node_count (projection list_platform ob) = 10"
    by (rule lists.chain_orderbook)
  let ?pg = "\<lparr>pg_full_orderbook = ob, pg_reduced_orderbook = Ok ob\<rparr>"
  have "node_count (projection list_platform ob) \<le> MAX_TOKENS" "is_strictly_positive_and_finite (Num 1)"
    "range_hops (into_unbounded_range \<lparr>pair_buy = 1, pair_sell = 0\<rparr>) = None" "pg_reduced_orderbook ?pg = Ok ob"
    using ob(3) by (simp_all add: MAX_TOKENS_def is_strictly_positive_and_finite_iff into_unbounded_range_def into_range_def)
  then show ?thesis
    using order_for_limit_price_correct [of list_platform ?pg ob "into_unbounded_range \<lparr>pair_buy = 1, pair_sell = 0\<rparr>" "Num 1"]
      lists.price_platform_axioms ob(1,2) by (auto simp: Let_def)
qed

lemma estimated_price:
  assumes "estimate_limit_price pf pg r max_sell_amount = Some (Ok (Some price))"
  shows "is_strictly_positive_and_finite max_sell_amount \<and> is_strictly_positive_and_finite price \<and>
    10000 \<le> unat (f64_as_u128 max_sell_amount) \<and> 10000 \<le> unat (f64_as_u128 (f64_mul max_sell_amount price))"
proof -
  have amount: "is_strictly_positive_and_finite max_sell_amount" "10000 \<le> unat (f64_as_u128 max_sell_amount)"
    and "\<exists>volumes. marginal_price max_sell_amount volumes = Some price"
    using assms by (auto simp: estimate_limit_price_def is_dust_iff rmap_eq_Ok split: if_splits) blast
  then obtain b s where "marginal_price max_sell_amount (b, s) = Some price" by auto
  then obtain x where x: "rate_new (f64_div b (f64_max max_sell_amount s)) = Some x" "price = rate_price x"
    and dust: "10000 \<le> unat (f64_as_u128 (f64_mul max_sell_amount price))"
    by (auto simp: marginal_price_def Let_def is_dust_iff split: option.splits if_splits)
  then have "x = f64_div b (f64_max max_sell_amount s)" "is_strictly_positive_and_finite x"
    by (auto simp: rate_new_def split: if_splits)
  then obtain q where "x = Num q" "0 < q" "q < 2 ^ 1024"
    using f64_div_less by (metis is_strictly_positive_and_finite_iff)
  then have "(\<exists>p. price = Num p \<and> 0 < p) \<or> price = Zero False"
    using rate_price_finite x(2) by simp
  moreover have "price \<noteq> Zero False"
    using dust amount(1) by (auto simp: is_strictly_positive_and_finite_iff f64_mul_def)
  ultimately show ?thesis
    using amount dust by (auto simp: is_strictly_positive_and_finite_iff)
qed

text \<open>
  An estimated price is positive and finite, and is only given for a positive finite amount
  of at least 10000, for which the amount bought at this price is also at least 10000.
\<close>

theorem estimated_price_bounds:
  "case estimate_limit_price pf pg r max_sell_amount of
     Some (Ok (Some price)) \<Rightarrow> is_strictly_positive_and_finite max_sell_amount \<and> is_strictly_positive_and_finite price \<and>
       10000 \<le> unat (f64_as_u128 max_sell_amount) \<and> 10000 \<le> unat (f64_as_u128 (f64_mul max_sell_amount price))
   | _ \<Rightarrow> True"
  using estimated_price [of pf pg r max_sell_amount] by (auto split: option.splits result.splits)

text \<open>
  C34: Nine orders at the highest price, each buying a token and selling the next, make queries
  over the whole chain panic: the orderbook has no overlap and its reduction succeeds, but the rate
  along the only path from the first to the last token is not representable, and the error of the
  search is taken for a negative cycle.
\<close>

theorem unrepresentable_rate_panics:
  assumes "price_platform pf"
  shows "\<exists>pg ob. pricegraph_new pf chain_elements = Some (Ok pg) \<and> pg_reduced_orderbook pg = Ok ob \<and>
     \<not> overlapping (projection pf ob) \<and>
     best_ask_transitive_order pf pg \<lparr>market_base = 9, market_quote = 0\<rparr> = Some Panic \<and>
     estimate_token_price pf pg 9 None = Some Panic"
proof -
  obtain ob where ob: "from_elements pf chain_elements = Ok ob" "orderbook_inv pf ob" "node_count (projection pf ob) = 10"
    and orders: "\<And>a b. a < 2 ^ 16 \<Longrightarrow> b < 2 ^ 16 \<Longrightarrow> pair_orders (ob_orders ob) \<lparr>pair_buy = token_id a, pair_sell = token_id b\<rparr> =
       (if a < 9 \<and> b = Suc a then [chain_order a] else [])"
    using price_platform.chain_orderbook [OF assms] by metis
  let ?pg = "\<lparr>pg_full_orderbook = ob, pg_reduced_orderbook = Ok ob\<rparr>"
  have clear: "\<not> overlapping (projection pf ob)"
    by (rule price_platform.chain_not_overlapping(2) [OF assms ob(2) orders])
  have max: "node_count (projection pf ob) \<le> MAX_TOKENS"
    using ob(3) by (simp add: MAX_TOKENS_def)
  have new: "pricegraph_new pf chain_elements = Some (Ok ?pg)"
    using price_platform.reduce_nothing [OF assms ob(2) max clear] ob(1) by (simp add: pricegraph_new_def from_orderbook_def)
  let ?r = "into_unbounded_range \<lparr>pair_buy = 0, pair_sell = 9\<rparr>"
  have r: "range_hops ?r = None"
    by (simp add: into_unbounded_range_def into_range_def)
  have failed: "find_optimal_transitive_order pf ?r ob = Some (Err (UnreducableOrderbook [0..<10]))"
    using price_platform.chain_unreducable [OF assms ob(2,3) orders] ob(3)
    by (simp add: find_optimal_transitive_order_def is_token_pair_valid_def node_index_def into_unbounded_range_def into_range_def
        del: upt_rec_numeral)
  then have best: "best_ask_transitive_order pf ?pg \<lparr>market_base = 9, market_quote = 0\<rparr> = Some Panic"
    by (simp add: best_ask_transitive_order_def best_transitive_order_def ask_pair_def reduced_find_optimal_transitive_order_def)
  have "\<not> is_dust_amount (f64_as_u128 OWL_BASE_UNIT)" "is_strictly_positive_and_finite OWL_BASE_UNIT"
    by (simp_all add: OWL_BASE_UNIT_def is_dust_iff is_strictly_positive_and_finite_iff)
  moreover have "reduced_flows pf ?pg ?r body s = Some Panic" for body and s :: "f64 \<times> f64"
  proof (cases rule: price_platform.transitive_orders_new_cases [OF assms ob(2) max r])
    case (1 e)
    then show ?thesis by (simp add: reduced_flows_def reduced_transitive_orders_def)
  next
    case (2 iter)
    then show ?thesis
      using failed by (auto simp: transitive_orders_new_def find_optimal_transitive_order_def Let_def split: if_splits)
  qed
  ultimately have "estimate_token_price pf ?pg 9 None = Some Panic"
    by (simp add: estimate_token_price_def estimate_limit_price_def FEE_TOKEN_def token_pair_range_inverse_def token_pair_inverse_def
        into_unbounded_range_def into_range_def)
  with new clear best show ?thesis
    by (intro exI [of _ ?pg] exI [of _ ob]) simp
qed

theorem unrepresentable_rate_panics_witness:
  "\<exists>pg. pricegraph_new list_platform chain_elements = Some (Ok pg) \<and> estimate_token_price list_platform pg 9 None = Some Panic"
  using unrepresentable_rate_panics [OF lists.price_platform_axioms] by blast

end
