(* ===== verification/PriceMarkets.thy ===== *)
theory PriceMarkets
  imports PriceQueries
begin

text \<open>
  Ring trades over a market: filling negative cycles until one passes both tokens of the market, and
  the transitive orderbook of a market that is made of these ring trades and of the transitive orders
  that remain in both directions.
\<close>

section \<open>Paths along orders\<close>

text \<open>A path of orders, from one token to the next: no token but the first is passed again.\<close>

definition linked :: "weight graph \<Rightarrow> node list \<Rightarrow> bool" where
  "linked g p \<longleftrightarrow> 2 \<le> length p \<and> distinct (tl p) \<and> (\<forall>(a, b) \<in> set (links p). \<exists>w. (a, b, w) \<in> set (edge_list g))"

text \<open>The orderbooks that filling such paths one after the other leads to.\<close>

inductive filled_from :: "'g platform \<Rightarrow> 'g orderbook \<Rightarrow> 'g orderbook \<Rightarrow> bool" for pf ob where
  filled_refl: "filled_from pf ob ob"
| filled_step: "filled_from pf ob ob1 \<Longrightarrow> linked (projection pf ob1) path \<Longrightarrow> fill_path pf path ob1 = (Ok fl, ob2) \<Longrightarrow>
    filled_from pf ob ob2"

lemma filled_from_trans: "filled_from pf ob1 ob2 \<Longrightarrow> filled_from pf ob ob1 \<Longrightarrow> filled_from pf ob ob2"
  by (induction rule: filled_from.induct) (auto intro: filled_from.intros)

lemma filled_from_once: "linked (projection pf ob) path \<Longrightarrow> fill_path pf path ob = (Ok fl, ob') \<Longrightarrow> filled_from pf ob ob'"
  by (blast intro: filled_from.intros)

text \<open>A path of orders whose rate is not representable.\<close>

definition fails_along :: "'g platform \<Rightarrow> 'g orderbook \<Rightarrow> path \<Rightarrow> bool" where
  "fails_along pf ob path \<longleftrightarrow> linked (projection pf ob) path \<and> find_path_flow pf path ob = Err (UnreducableOrderbook path)"

lemma map_snd_links: "map snd (links p) = tl p"
  by (simp add: links_def map_snd_zip_take)

lemma links_append: "p \<noteq> [] \<Longrightarrow> links (p @ q) = links p @ links (last p # q)"
  by (induction p rule: induct_list012) (auto simp: links_def)

lemma links_targets: "b \<in> set (tl p) \<Longrightarrow> \<exists>a. (a, b) \<in> set (links p)"
  using arg_cong [OF map_snd_links [of p], of set] by force

text \<open>A cycle that starts at one node and is split at another.\<close>

lemma linked_split:
  assumes c: "closed_cycle c" "linked g c" and split: "p @ tl q = c" "p \<noteq> []" "last p = nd" "hd q = nd" "hd p = hd c" "last q = last c"
    and nd: "nd \<noteq> hd c"
  shows "linked g p" "linked g q" "set (tl p) \<inter> set (tl q) = {}"
proof -
  note p = split(2)
  have q: "q = last p # tl q"
    using split nd c(1) by (cases q) (auto simp: closed_cycle_def)
  have "tl q \<noteq> []"
    using q split(3,6) nd c(1) by (metis closed_cycle_def last_ConsL)
  moreover have "tl p \<noteq> []"
    using p split(3,5) nd by (cases p) auto
  ultimately have "2 \<le> length p" "2 \<le> length q"
    using p q by (cases p; cases "tl p"; cases q; cases "tl q"; simp)+
  moreover have "links c = links p @ links q"
    using links_append [OF p, of "tl q"] split(1) q by simp
  moreover have "tl c = tl p @ tl q"
    using split(1) p by auto
  ultimately show "linked g p" "linked g q" "set (tl p) \<inter> set (tl q) = {}"
    using c by (auto simp: linked_def closed_cycle_def)
qed

context price_platform
begin

lemma linked_pairs:
  assumes inv: "orderbook_inv pf ob" and p: "linked (projection pf ob) p"
  shows "\<forall>pair \<in> set (pairs_on_path p). pair_orders (ob_orders ob) pair \<noteq> []" "distinct (map pair_sell (pairs_on_path p))"
    "pairs_on_path p \<noteq> []" "pair_sell ` set (pairs_on_path p) = token_id ` set (tl p)" "set (tl p) \<subseteq> {..<2 ^ 16}"
proof -
  show "\<forall>pair \<in> set (pairs_on_path p). pair_orders (ob_orders ob) pair \<noteq> []"
    using p edge_facts(1) [OF inv] by (fastforce simp: linked_def pairs_on_path_def)
  show small: "set (tl p) \<subseteq> {..<2 ^ 16}"
    using p links_targets [of _ p] edge_facts(6) [OF inv] by (fastforce simp: linked_def)
  have sells: "map pair_sell (pairs_on_path p) = map token_id (tl p)"
    unfolding map_snd_links [of p, symmetric] by (simp add: pairs_on_path_def case_prod_unfold)
  have "inj_on token_id {..<2 ^ 16}"
    by (rule inj_onI) (simp add: token_id_inject)
  then show "distinct (map pair_sell (pairs_on_path p))"
    unfolding sells distinct_map using p inj_on_subset [OF _ small] by (simp add: linked_def)
  show "pair_sell ` set (pairs_on_path p) = token_id ` set (tl p)"
    using arg_cong [OF sells, of set] by simp
  show "pairs_on_path p \<noteq> []"
    using p by (cases p; cases "tl p") (auto simp: linked_def pairs_on_path_def links_def)
qed

lemma fill_linked:
  assumes "orderbook_inv pf ob" "linked (projection pf ob) p"
  obtains (unreducable) "fill_path pf p ob = (Err (UnreducableOrderbook p), ob)" "fails_along pf ob p"
    | (filled) fl ob' where "fill_path pf p ob = (Ok fl, ob')" "orderbook_inv pf ob'"
      "orderbook_frame pf (token_id ` set (tl p)) ob ob'" "total_held (ob_users ob') < total_held (ob_users ob)"
      "valid_flow fl" "filled_from pf ob ob'"
proof (cases rule: path_cases [OF assms(1) linked_pairs(1-3) [OF assms]])
  case 1
  then show ?thesis
    using unreducable assms(2) by (simp add: fill_path_def fails_along_def)
next
  case (2 fl ob')
  then have fill: "fill_path pf p ob = (Ok fl, ob')"
    by (simp add: fill_path_def)
  show ?thesis
    using filled [OF fill 2(3)] 2(4,5) linked_pairs(4) [OF assms]
      limited_flow_valid [OF assms(1) linked_pairs(1) [OF assms] 2(8,6,7)] filled_from_once [OF assms(2) fill] by simp
qed

text \<open>Filling a path leaves paths to other tokens alone.\<close>

lemma linked_after:
  assumes "orderbook_inv pf ob" "orderbook_inv pf ob'" "orderbook_frame pf (token_id ` set (tl p)) ob ob'"
    and "linked (projection pf ob) p" "linked (projection pf ob) q" "set (tl p) \<inter> set (tl q) = {}"
  shows "linked (projection pf ob') q"
proof -
  have "\<exists>w. (a, b, w) \<in> set (edge_list (projection pf ob'))" if e: "(a, b) \<in> set (links q)" for a b
  proof -
    obtain w where w: "(a, b, w) \<in> set (edge_list (projection pf ob))"
      using assms(5) e by (auto simp: linked_def)
    have "b \<in> set (tl q)"
      using e map_snd_links [of q] by (metis image_eqI set_map snd_conv)
    then have "token_id b \<notin> token_id ` set (tl p)"
      using assms(6) linked_pairs(5) [OF assms(1,4)] linked_pairs(5) [OF assms(1,5)] token_id_inject by blast
    then show ?thesis
      using frame_edges(1) [OF orderbook_invD(1) [OF assms(1)] orderbook_invD(1) [OF assms(2)] assms(3)] w by blast
  qed
  then show ?thesis
    using assms(5) by (auto simp: linked_def)
qed

lemma cycle_linked:
  assumes "closed_cycle c" "walk (projection pf ob) (hd c) es (hd c)" "c = walk_nodes (hd c) es"
  shows "linked (projection pf ob) c"
proof -
  have "links c = map (\<lambda>(i, j, w). (i, j)) es"
    using walk_links [OF assms(2)] assms(3) by simp
  then show ?thesis
    using assms(1) walk_edges [OF assms(2)] by (auto simp: linked_def closed_cycle_def)
qed

text \<open>A negative cycle either is not along the market, or splits into its two directions.\<close>

lemma cycle_cases:
  assumes "closed_cycle c" "linked (projection pf ob) c" "base \<noteq> quote"
  obtains (elsewhere) c' where "rbind (with_starting_node quote c) (cycle_split_at base) = Err c'" "linked (projection pf ob) c'"
      "set (tl c') = set (tl c)"
    | (market) ask bid where "rbind (with_starting_node quote c) (cycle_split_at base) = Ok (ask, bid)"
      "linked (projection pf ob) ask" "linked (projection pf ob) bid" "set (tl ask) \<inter> set (tl bid) = {}"
      "set (tl ask) \<union> set (tl bid) = set (tl c)" "quote \<in> set (tl c)" "base \<in> set (tl c)"
proof (cases "quote \<in> set c")
  case True
  then obtain c' where c': "with_starting_node quote c = Ok c'" "closed_cycle c'" "hd c' = quote" "length c' = length c"
    "set (links c') = set (links c)"
    using cycle_start_and_split [OF assms(1), of quote] by auto
  have linked: "linked (projection pf ob) c'"
    using c' assms(2) by (auto simp: linked_def closed_cycle_def)
  have tl: "set (tl c') = set (tl c)"
    unfolding map_snd_links [symmetric] using c'(5) by simp
  show ?thesis
  proof (cases "base \<in> set c'")
    case True
    then obtain p q where pq: "cycle_split_at base c' = Ok (p, q)" "p \<noteq> []" "p @ tl q = c'" "last p = base" "hd q = base"
      "hd p = hd c'" "last q = last c'"
      using cycle_start_and_split [OF c'(2), of base base] by auto
    have "base \<in> set (tl c')"
      using True assms(3) c'(3) by (cases c') auto
    moreover have "quote \<in> set (tl c')"
      using c'(2,3) by (cases c' rule: rev_cases) (auto simp: closed_cycle_def tl_append split: list.split)
    moreover have "tl c' = tl p @ tl q"
      using pq(2,3) by auto
    ultimately show ?thesis
      using market [of p q] linked_split [OF c'(2) linked pq(3,2,4-7)] assms(3) c'(1,3) pq(1) tl by auto
  next
    case False
    then have "cycle_split_at base c' = Err c'"
      using cycle_start_and_split [OF c'(2), of base base] by simp
    then show ?thesis using elsewhere [of c'] c'(1) linked tl by simp
  qed
next
  case False
  then have "with_starting_node quote c = Err c"
    using cycle_start_and_split [OF assms(1), of quote] by simp
  then show ?thesis using elsewhere [of c] assms(2) by simp
qed

end

section \<open>Ring trades\<close>

text \<open>
  The result of looking for a ring trade in an orderbook, and the orderbook that is left behind by
  filling cycles.  Failing and panicking mean that it has a path whose rate is not representable.
\<close>

definition market_result ::
    "'g platform \<Rightarrow> node \<Rightarrow> node \<Rightarrow> node set \<Rightarrow> 'g orderbook \<Rightarrow> (orderbook_error, ring_trade option) result \<Rightarrow> 'g orderbook \<Rightarrow> bool" where
  "market_result pf base quote R ob r ob' \<longleftrightarrow> filled_from pf ob ob' \<and>
     (case r of
        Panic \<Rightarrow> \<exists>path. fails_along pf ob' path
      | Err e \<Rightarrow> \<exists>path. e = UnreducableOrderbook path \<and> fails_along pf ob' path
      | Ok trade \<Rightarrow> orderbook_inv pf ob' \<and> orderbook_frame pf UNIV ob ob' \<and> clear_of_cycles (projection pf ob') R \<and>
          (case trade of
             None \<Rightarrow> \<exists>S. clear_of_cycles (projection pf ob') S \<and> quote \<in> S
           | Some trade \<Rightarrow> total_held (ob_users ob') < total_held (ob_users ob) \<and> base \<notin> R \<and> quote \<notin> R \<and>
               valid_flow (ring_ask trade) \<and> valid_flow (ring_bid trade)))"

context price_platform
begin

lemma market_result_mono:
  assumes "market_result pf base quote R ob1 r ob'" "orderbook_frame pf UNIV ob ob1"
    "total_held (ob_users ob1) < total_held (ob_users ob)" "filled_from pf ob ob1"
  shows "market_result pf base quote R ob r ob'"
  using assms orderbook_frame_trans [OF assms(2), of UNIV ob'] filled_from_trans [OF _ assms(4), of ob']
  by (auto simp: market_result_def split: result.splits option.splits)

text \<open>Both directions of a ring trade are filled one after the other.\<close>

lemma fill_both:
  assumes inv: "orderbook_inv pf ob" and ask: "linked (projection pf ob) ask" and bid: "linked (projection pf ob) bid"
    and apart: "set (tl ask) \<inter> set (tl bid) = {}" "(set (tl ask) \<union> set (tl bid)) \<inter> R = {}" and R: "clear_of_cycles (projection pf ob) R"
  obtains (failed) ob' path where "fill_ring pf ask bid ob = (Panic, ob')" "filled_from pf ob ob'" "fails_along pf ob' path"
    | (filled) trade ob' where "fill_ring pf ask bid ob = (Ok (Some trade), ob')" "filled_from pf ob ob'"
      "orderbook_inv pf ob'" "orderbook_frame pf UNIV ob ob'" "total_held (ob_users ob') < total_held (ob_users ob)"
      "clear_of_cycles (projection pf ob') R" "valid_flow (ring_ask trade)" "valid_flow (ring_bid trade)"
proof (cases rule: fill_linked [OF inv ask])
  case 1
  then show ?thesis using failed [of ob ask] filled_refl [of pf ob] by (simp add: fill_ring_def)
next
  case (2 fl ob1)
  note f1 = this
  have bid1: "linked (projection pf ob1) bid"
    by (rule linked_after [OF inv f1(2,3) ask bid apart(1)])
  show ?thesis
  proof (cases rule: fill_linked [OF f1(2) bid1])
    case 1
    then show ?thesis using failed [of ob1 bid] f1(1,6) by (simp add: fill_ring_def)
  next
    case (2 fl' ob2)
    note f2 = this
    have "clear_of_cycles (projection pf ob1) R"
      using clear_kept [OF inv f1(2,3) linked_pairs(5) [OF inv ask] _ R] apart(2) by blast
    then have "clear_of_cycles (projection pf ob2) R"
      using clear_kept [OF f1(2) f2(2,3) linked_pairs(5) [OF f1(2) bid1]] apart(2) by blast
    moreover have "orderbook_frame pf UNIV ob ob2"
      using orderbook_frame_trans [OF f1(3) f2(3)] by (simp add: orderbook_frame_def)
    ultimately show ?thesis
      using filled [of "\<lparr>ring_ask = fl, ring_bid = fl'\<rparr>" ob2] f1 f2 filled_from_trans [OF f2(6) f1(6)] by (simp add: fill_ring_def)
  qed
qed

lemma market_loop_spec:
  "orderbook_inv pf ob \<Longrightarrow> node_count (projection pf ob) \<le> MAX_TOKENS \<Longrightarrow> quote < node_count (projection pf ob) \<Longrightarrow>
   base \<noteq> quote \<Longrightarrow> clear_of_cycles (projection pf ob) R \<Longrightarrow>
   \<exists>r ob'. market_loop pf base quote ob = Some (r, ob') \<and> market_result pf base quote R ob r ob'"
proof (induction "total_held (ob_users ob)" arbitrary: ob rule: less_induct)
  case less
  show ?case
  proof (cases rule: search_cases [OF less.prems(1-3)])
    case (1 st)
    then have "market_loop pf base quote ob = Some (Ok None, ob)"
      by (simp add: market_loop.simps)
    moreover have "market_result pf base quote R ob (Ok None) ob"
      using less.prems(1,5) 1(2,3) orderbook_frame_refl [of pf UNIV ob] by (auto simp: market_result_def filled_refl)
    ultimately show ?thesis by blast
  next
    case (2 c es)
    note linked = cycle_linked [OF 2(2-4)]
    have apart: "set (tl c) \<inter> R = {}"
      using cycle_apart [OF 2(3-5) less.prems(5)] by (cases c) auto
    show ?thesis
    proof (cases rule: cycle_cases [OF 2(2) linked less.prems(4)])
      case (1 c')
      note c' = this
      show ?thesis
      proof (cases rule: fill_linked [OF less.prems(1) c'(2)])
        case 1
        then show ?thesis
          using 2(1) c'(1) by (auto simp: market_loop.simps market_result_def filled_refl)
      next
        case (2 fl ob1)
        note f = this
        have frame: "orderbook_frame pf UNIV ob ob1"
          using f(3) by (simp add: orderbook_frame_def)
        have "clear_of_cycles (projection pf ob1) R"
          using clear_kept [OF less.prems(1) f(2,3) linked_pairs(5) [OF less.prems(1) c'(2)] _ less.prems(5)] apart c'(3) by simp
        moreover have "node_count (projection pf ob1) = node_count (projection pf ob)"
          using f(3) by (simp add: orderbook_frame_def)
        ultimately obtain r' ob' where "market_loop pf base quote ob1 = Some (r', ob')" "market_result pf base quote R ob1 r' ob'"
          using less.hyps [OF f(4,2)] less.prems(2-4) by auto
        moreover have "market_loop pf base quote ob = market_loop pf base quote ob1"
          using \<open>shortest_path _ _ _ _ = _\<close> c'(1) f(1) by (simp add: market_loop.simps [of pf base quote ob])
        ultimately show ?thesis
          using market_result_mono [OF _ frame f(4,6)] by auto
      qed
    next
      case (2 ask bid)
      note m = this
      have loop: "market_loop pf base quote ob = Some (fill_ring pf ask bid ob)"
        using \<open>shortest_path _ _ _ _ = _\<close> m(1) by (simp add: market_loop.simps)
      have "(set (tl ask) \<union> set (tl bid)) \<inter> R = {}"
        using apart m(5) by simp
      then show ?thesis
      proof (cases rule: fill_both [OF less.prems(1) m(2,3,4) _ less.prems(5)])
        case (2 ob' path)
        then show ?thesis using loop by (auto simp: market_result_def)
      next
        case (3 trade ob')
        then show ?thesis using loop apart m(6,7) by (auto simp: market_result_def)
      qed
    qed
  qed
qed

lemma ring_trade_spec:
  assumes "orderbook_inv pf ob" "node_count (projection pf ob) \<le> MAX_TOKENS" "clear_of_cycles (projection pf ob) R"
  shows "\<exists>r ob'. fill_market_ring_trade pf m ob = Some (r, ob') \<and>
    (if is_token_pair_valid pf (bid_pair m) ob
     then market_result pf (node_index (market_base m)) (node_index (market_quote m)) R ob r ob' else r = Ok None \<and> ob' = ob)"
proof (cases "is_token_pair_valid pf (bid_pair m) ob")
  case True
  then have "node_index (market_quote m) < node_count (projection pf ob)" "node_index (market_base m) \<noteq> node_index (market_quote m)"
    by (simp_all add: is_token_pair_valid_def bid_pair_def) (simp add: node_index_def)
  then show ?thesis
    using True market_loop_spec [OF assms(1,2) _ _ assms(3)] by (simp add: fill_market_ring_trade_def)
qed (simp add: fill_market_ring_trade_def)

end

section \<open>Transitive orderbooks\<close>

text \<open>The ring trades of a market that are filled one after the other, until there is none left.\<close>

inductive ring_trades :: "'g platform \<Rightarrow> pg_market \<Rightarrow> 'g orderbook \<Rightarrow> ring_trade list \<Rightarrow> 'g orderbook \<Rightarrow> bool" for pf m where
  no_ring_trade: "fill_market_ring_trade pf m ob = Some (Ok None, ob') \<Longrightarrow> ring_trades pf m ob [] ob'"
| next_ring_trade: "fill_market_ring_trade pf m ob = Some (Ok (Some t), ob1) \<Longrightarrow> ring_trades pf m ob1 ts ob' \<Longrightarrow>
    ring_trades pf m ob (t # ts) ob'"

definition valid_ring :: "ring_trade \<Rightarrow> bool" where
  "valid_ring t \<longleftrightarrow> valid_flow (ring_ask t) \<and> valid_flow (ring_bid t)"

text \<open>Filling paths from an orderbook on meets a path whose rate is not representable.\<close>

definition meets_unrepresentable :: "'g platform \<Rightarrow> 'g orderbook \<Rightarrow> path \<Rightarrow> bool" where
  "meets_unrepresentable pf ob path \<longleftrightarrow> (\<exists>ob'. filled_from pf ob ob' \<and> fails_along pf ob' path)"

lemma meets_later: "filled_from pf ob ob1 \<Longrightarrow> meets_unrepresentable pf ob1 path \<Longrightarrow> meets_unrepresentable pf ob path"
  by (auto simp: meets_unrepresentable_def intro: filled_from_trans)

definition ring_loop_ok ::
    "'g platform \<Rightarrow> pg_market \<Rightarrow> transitive_orderbook \<Rightarrow> 'g orderbook \<Rightarrow>
     (orderbook_error, transitive_orderbook \<times> 'g orderbook) result \<Rightarrow> bool" where
  "ring_loop_ok pf m tob ob r \<longleftrightarrow>
     (case r of
        Panic \<Rightarrow> \<exists>path. meets_unrepresentable pf ob path
      | Err e \<Rightarrow> \<exists>path. e = UnreducableOrderbook path \<and> meets_unrepresentable pf ob path
      | Ok (tob', ob') \<Rightarrow> orderbook_inv pf ob' \<and> orderbook_frame pf UNIV ob ob' \<and> filled_from pf ob ob' \<and>
          (is_token_pair_valid pf (bid_pair m) ob' \<longrightarrow>
            (\<exists>S. clear_of_cycles (projection pf ob') S \<and> node_index (market_quote m) \<in> S)) \<and>
          (\<exists>ts. ring_trades pf m ob ts ob' \<and> list_all valid_ring ts \<and>
             tob_asks tob' = tob_asks tob @ map (as_transitive_order \<circ> ring_ask) ts \<and>
             tob_bids tob' = tob_bids tob @ map (as_transitive_order \<circ> ring_bid) ts))"

lemma market_inverse_tokens [simp]:
  "market_base (market_inverse m) = market_quote m" "market_quote (market_inverse m) = market_base m"
  by (simp_all add: market_inverse_def)

lemma pair_valid_inverse: "is_token_pair_valid pf (bid_pair (market_inverse m)) ob \<longleftrightarrow> is_token_pair_valid pf (bid_pair m) ob"
  by (auto simp: is_token_pair_valid_def bid_pair_def)

text \<open>Going on after a ring trade.\<close>

lemma ring_loop_ok_step:
  assumes "fill_market_ring_trade pf m ob = Some (Ok (Some t), ob1)" "valid_ring t" "orderbook_frame pf UNIV ob ob1" "filled_from pf ob ob1"
    and "ring_loop_ok pf m (tob\<lparr>tob_asks := tob_asks tob @ [as_transitive_order (ring_ask t)],
          tob_bids := tob_bids tob @ [as_transitive_order (ring_bid t)]\<rparr>) ob1 r"
  shows "ring_loop_ok pf m tob ob r"
proof (cases r)
  case (Ok p)
  obtain tob' ob' where p: "p = (tob', ob')" by (cases p)
  obtain ts where ts: "ring_trades pf m ob1 ts ob'" "list_all valid_ring ts"
    "tob_asks tob' = tob_asks tob @ map (as_transitive_order \<circ> ring_ask) (t # ts)"
    "tob_bids tob' = tob_bids tob @ map (as_transitive_order \<circ> ring_bid) (t # ts)"
    using assms(5) Ok p by (auto simp: ring_loop_ok_def)
  have "ring_trades pf m ob (t # ts) ob'" "list_all valid_ring (t # ts)"
    using assms(1,2) ts(1,2) by (auto intro: ring_trades.intros)
  moreover have "orderbook_frame pf UNIV ob ob'" "filled_from pf ob ob'"
    using assms(5) Ok p orderbook_frame_trans [OF assms(3), of UNIV ob'] filled_from_trans [OF _ assms(4), of ob']
    by (auto simp: ring_loop_ok_def)
  ultimately show ?thesis
    using assms(5) Ok p ts(3,4) unfolding ring_loop_ok_def by auto
next
  case (Err e)
  then show ?thesis using assms(5) meets_later [OF assms(4)] by (auto simp: ring_loop_ok_def)
next
  case Panic
  then show ?thesis using assms(5) meets_later [OF assms(4)] by (auto simp: ring_loop_ok_def)
qed

context price_platform
begin

lemma ring_loop_spec:
  "orderbook_inv pf ob \<Longrightarrow> node_count (projection pf ob) \<le> MAX_TOKENS \<Longrightarrow>
   \<exists>r. ring_loop pf m tob ob = Some r \<and> ring_loop_ok pf m tob ob r"
proof (induction "total_held (ob_users ob)" arbitrary: ob tob rule: less_induct)
  case less
  obtain r ob1 where r: "fill_market_ring_trade pf m ob = Some (r, ob1)"
    and ok: "if is_token_pair_valid pf (bid_pair m) ob
      then market_result pf (node_index (market_base m)) (node_index (market_quote m)) {} ob r ob1 else r = Ok None \<and> ob1 = ob"
    using ring_trade_spec [OF less.prems clear_empty] by blast
  show ?case
  proof (cases r)
    case (Ok trade)
    show ?thesis
    proof (cases trade)
      case None
      have "ring_trades pf m ob [] ob1"
        using r Ok None by (auto intro: ring_trades.intros)
      then have "ring_loop_ok pf m tob ob (Ok (tob, ob1))"
        using ok Ok None less.prems(1) orderbook_frame_refl [of pf UNIV ob] filled_refl [of pf ob]
        by (cases "is_token_pair_valid pf (bid_pair m) ob") (auto simp: ring_loop_ok_def market_result_def intro!: exI [of _ "[]"])
      then show ?thesis using r Ok None by (simp add: ring_loop.simps)
    next
      case (Some t)
      have ob1: "orderbook_inv pf ob1" "orderbook_frame pf UNIV ob ob1" "total_held (ob_users ob1) < total_held (ob_users ob)"
        "filled_from pf ob ob1" "valid_ring t"
        using ok Ok Some by (auto simp: market_result_def valid_ring_def split: if_splits)
      moreover have "node_count (projection pf ob1) = node_count (projection pf ob)"
        using ob1(2) by (simp add: orderbook_frame_def)
      ultimately obtain r' where r': "ring_loop pf m (tob\<lparr>tob_asks := tob_asks tob @ [as_transitive_order (ring_ask t)],
          tob_bids := tob_bids tob @ [as_transitive_order (ring_bid t)]\<rparr>) ob1 = Some r'"
        "ring_loop_ok pf m (tob\<lparr>tob_asks := tob_asks tob @ [as_transitive_order (ring_ask t)],
          tob_bids := tob_bids tob @ [as_transitive_order (ring_bid t)]\<rparr>) ob1 r'"
        using less.hyps [of ob1] less.prems(2) by metis
      have "ring_loop pf m tob ob = Some r'"
        using r r'(1) Ok Some by (simp add: ring_loop.simps [of pf m tob ob])
      then show ?thesis
        using ring_loop_ok_step [OF r [unfolded Ok Some] ob1(5,2,4) r'(2)] by blast
    qed
  next
    case (Err e)
    then show ?thesis
      using r ok
      by (auto simp: ring_loop.simps [of pf m tob ob] ring_loop_ok_def market_result_def meets_unrepresentable_def split: if_splits)
  next
    case Panic
    then obtain path where "meets_unrepresentable pf ob path"
      using ok by (auto simp: market_result_def meets_unrepresentable_def split: if_splits)
    then show ?thesis
      using r Panic by (auto simp: ring_loop.simps [of pf m tob ob] ring_loop_ok_def)
  qed
qed

text \<open>After that, the inverse market has no ring trade.\<close>

lemma inverse_market:
  assumes "ring_loop_ok pf m tob0 ob (Ok (tob, ob'))" "node_count (projection pf ob) \<le> MAX_TOKENS"
  obtains (ready) ob'' where "fill_market_ring_trade pf (market_inverse m) ob' = Some (Ok None, ob'')"
      "orderbook_inv pf ob''" "node_count (projection pf ob'') \<le> MAX_TOKENS"
    | (failed) path ob'' where "fill_market_ring_trade pf (market_inverse m) ob' = Some (Err (UnreducableOrderbook path), ob'')"
      "meets_unrepresentable pf ob path"
    | (panics) path ob'' where "fill_market_ring_trade pf (market_inverse m) ob' = Some (Panic, ob'')" "meets_unrepresentable pf ob path"
proof -
  have inv: "orderbook_inv pf ob'" "node_count (projection pf ob') \<le> MAX_TOKENS" and before: "filled_from pf ob ob'"
    using assms by (auto simp: ring_loop_ok_def orderbook_frame_def)
  obtain S where S: "clear_of_cycles (projection pf ob') S"
    "is_token_pair_valid pf (bid_pair m) ob' \<longrightarrow> node_index (market_quote m) \<in> S"
    using assms(1) clear_empty [of "projection pf ob'"] by (auto simp: ring_loop_ok_def)
  obtain r ob'' where r: "fill_market_ring_trade pf (market_inverse m) ob' = Some (r, ob'')"
    "if is_token_pair_valid pf (bid_pair m) ob'
     then market_result pf (node_index (market_quote m)) (node_index (market_base m)) S ob' r ob'' else r = Ok None \<and> ob'' = ob'"
    using ring_trade_spec [OF inv S(1), of "market_inverse m"] unfolding pair_valid_inverse market_inverse_tokens by blast
  have meets: "meets_unrepresentable pf ob path" if "filled_from pf ob' ob''" "fails_along pf ob'' path" for path
    using that filled_from_trans [OF that(1) before] by (auto simp: meets_unrepresentable_def)
  show ?thesis
  proof (cases r)
    case (Ok trade)
    then show ?thesis
      using r S(2) inv ready by (auto simp: market_result_def orderbook_frame_def split: if_splits option.splits)
  next
    case (Err e)
    then show ?thesis using r failed meets by (auto simp: market_result_def split: if_splits)
  next
    case Panic
    then show ?thesis using r panics meets by (auto simp: market_result_def split: if_splits)
  qed
qed

end

text \<open>
  The transitive orders of a pair: all flows without a spread, otherwise those before the first one
  whose rate exceeds the rate of the first flow by more than the spread.
\<close>

definition within_spread :: "f64 option \<Rightarrow> flow list \<Rightarrow> flow list" where
  "within_spread spread fls =
     (case spread of
        None \<Rightarrow> fls
      | Some sp \<Rightarrow> takeWhile (\<lambda>fl. \<not> f64_less (f64_mul (flow_rate (hd fls)) (f64_add (Num 1) sp)) (flow_rate fl)) fls)"

definition invalid_spread :: "f64 option \<Rightarrow> bool" where
  "invalid_spread spread \<longleftrightarrow> (\<exists>sp. spread = Some sp \<and> \<not> f64_less (Zero False) sp)"

text \<open>
  The flows that are listed for a pair are those that the iterator yields, within the spread; an
  error is that of the first search, or one that ends the iteration within the spread.
\<close>

definition lists_flows ::
    "'g platform \<Rightarrow> 'g orderbook \<Rightarrow> token_pair \<Rightarrow> f64 option \<Rightarrow> (orderbook_error, flow list) result \<Rightarrow> bool" where
  "lists_flows pf ob pair spread r \<longleftrightarrow>
     (case r of
        Ok sel \<Rightarrow> \<exists>iter fls e. transitive_orders_new pf (into_range pair None) ob = Some (Ok iter) \<and>
          yields (transitive_orders_next pf) iter fls e \<and> list_all valid_flow fls \<and>
          sel = within_spread spread fls \<and> (sel = fls \<longrightarrow> e = None)
      | Err e \<Rightarrow> find_optimal_transitive_order pf (into_range pair None) ob = Some (Err e) \<or>
          (\<exists>iter fls. transitive_orders_new pf (into_range pair None) ob = Some (Ok iter) \<and>
            yields (transitive_orders_next pf) iter fls (Some e) \<and> within_spread spread fls = fls)
      | Panic \<Rightarrow> invalid_spread spread)"

lemma fold_spread_step:
  "fold_flows (spread_step x) orders fls e =
     (let used = takeWhile (\<lambda>fl. \<not> f64_less x (flow_rate fl)) fls
      in if used = fls \<and> e \<noteq> None then Err (the e) else Ok (orders @ map as_transitive_order used))"
  by (induction fls arbitrary: orders) (auto simp: spread_step_def Let_def)

lemma takeWhile_all: "list_all valid_flow fls \<Longrightarrow> takeWhile (\<lambda>fl. \<not> f64_less (Inf False) (flow_rate fl)) fls = fls"
  by (auto simp: takeWhile_eq_all_conv list_all_iff valid_flow_def is_strictly_positive_and_finite_iff)

lemma peeked_fold:
  assumes "yields (transitive_orders_next pf) iter fls e" "transitive_orders_next pf iter = Some (Ok first)"
  shows "peeked pf first sp = Some (fold_flows (spread_step (f64_mul (flow_rate (hd fls)) (f64_add (Num 1) sp))) [] fls e)"
proof (cases fls)
  case Nil
  then show ?thesis
    using assms by (cases first) (auto simp: peeked_def split: option.splits result.splits)
next
  case (Cons fl rest)
  then show ?thesis
    using assms for_flows_fold by (cases first) (fastforce simp: peeked_def Let_def split: loop_step.split)
qed

context price_platform
begin

lemma fill_transitive_orders_spec:
  assumes "orderbook_inv pf ob" "node_count (projection pf ob) \<le> MAX_TOKENS"
  obtains r where "fill_transitive_orders pf ob (into_range pair None) spread = Some (rmap (map as_transitive_order) r)"
    "lists_flows pf ob pair spread r"
proof (cases "invalid_spread spread")
  case True
  then show ?thesis
    using that [of Panic] by (auto simp: invalid_spread_def fill_transitive_orders_def lists_flows_def)
next
  case False
  then have sp: "\<not> (case spread of Some spread \<Rightarrow> \<not> f64_less (Zero False) spread | None \<Rightarrow> False)"
    by (auto simp: invalid_spread_def split: option.splits)
  have hops: "range_hops (into_range pair None) = None"
    by (simp add: into_range_def)
  show ?thesis
  proof (cases rule: transitive_orders_new_cases [OF assms hops])
    case (1 e)
    then show ?thesis
      using that [of "Err e"] sp by (simp add: fill_transitive_orders_def lists_flows_def)
  next
    case (2 iter)
    obtain fls e where fls: "yields (transitive_orders_next pf) iter fls e" "list_all valid_flow fls"
      using iteration_ends [OF 2(2)] by blast
    define r where "r = (let used = within_spread spread fls in if used = fls \<and> e \<noteq> None then Err (the e) else Ok used)"
    obtain first where "transitive_orders_next pf iter = Some (Ok first)"
      by (cases rule: next_cases [OF 2(2)]) blast+
    note peek = peeked_fold [OF fls(1) this] this
    have "fill_transitive_orders pf ob (into_range pair None) spread = Some (rmap (map as_transitive_order) r)"
      using sp 2(1) peek for_flows_fold [OF fls(1), of "spread_step (Inf False)" "[]"] takeWhile_all [OF fls(2)]
      by (cases spread) (auto simp: fill_transitive_orders_def r_def within_spread_def fold_spread_step Let_def)
    moreover have "lists_flows pf ob pair spread r"
      using 2(1) fls by (auto simp: r_def lists_flows_def Let_def)
    ultimately show ?thesis by (rule that)
  qed
qed

end

definition sorted_by_exchange_rate :: "transitive_order list \<Rightarrow> bool" where
  "sorted_by_exchange_rate orders \<longleftrightarrow> sorted_wrt (\<lambda>a b. \<not> f64_less (tr_exchange_rate b) (tr_exchange_rate a)) orders"

lemma f64_less_order:
  "f64_less a b \<Longrightarrow> \<not> f64_less b a"
  "b \<noteq> NaN \<Longrightarrow> \<not> f64_less b a \<Longrightarrow> \<not> f64_less c b \<Longrightarrow> \<not> f64_less c a"
  by (cases a; cases b; auto) (cases a; cases b; cases c; auto)

lemma set_insert_by_exchange_rate: "set (insert_by_exchange_rate x orders) = insert x (set orders)"
  by (induction orders) auto

lemma sorted_insert_by_exchange_rate:
  assumes "sorted_by_exchange_rate orders" "\<forall>ord \<in> insert x (set orders). tr_exchange_rate ord \<noteq> NaN"
  shows "sorted_by_exchange_rate (insert_by_exchange_rate x orders)"
  using assms
proof (induction orders)
  case (Cons y ys)
  show ?case
  proof (cases "f64_less (tr_exchange_rate x) (tr_exchange_rate y)")
    case True
    have "\<not> f64_less (tr_exchange_rate z) (tr_exchange_rate x)" if "z \<in> insert y (set ys)" for z
      using f64_less_order(2) [of "tr_exchange_rate y" "tr_exchange_rate x" "tr_exchange_rate z"] f64_less_order(1) [OF True]
        Cons.prems that by (auto simp: sorted_by_exchange_rate_def)
    then show ?thesis
      using Cons.prems(1) True by (simp add: sorted_by_exchange_rate_def)
  next
    case False
    then show ?thesis
      using Cons by (auto simp: sorted_by_exchange_rate_def set_insert_by_exchange_rate)
  qed
qed (simp add: sorted_by_exchange_rate_def)

lemma sort_by_exchange_rate_sorted:
  assumes "sort_by_exchange_rate orders = Ok orders'"
  shows "sorted_by_exchange_rate orders'"
proof (cases "2 \<le> length orders")
  case False
  then have "length orders < 2" by simp
  then show ?thesis
    using assms by (cases orders) (auto simp: sort_by_exchange_rate_def sorted_by_exchange_rate_def split: if_splits)
next
  case True
  have "sorted_by_exchange_rate (fold insert_by_exchange_rate xs ys)"
    if "sorted_by_exchange_rate ys" "\<forall>ord \<in> set xs \<union> set ys. tr_exchange_rate ord \<noteq> NaN" for xs ys
    using that by (induction xs arbitrary: ys) (simp_all add: sorted_insert_by_exchange_rate set_insert_by_exchange_rate)
  moreover have "sorted_by_exchange_rate []" by (simp add: sorted_by_exchange_rate_def)
  ultimately show ?thesis
    using assms True by (auto simp: sort_by_exchange_rate_def split: if_splits)
qed

lemma mset_sort_by_exchange_rate: "sort_by_exchange_rate orders = Ok orders' \<Longrightarrow> mset orders' = mset orders"
proof -
  have "mset (insert_by_exchange_rate x ys) = add_mset x (mset ys)" for x ys
    by (induction ys) auto
  then have "mset (fold insert_by_exchange_rate xs ys) = mset xs + mset ys" for xs ys
    by (induction xs arbitrary: ys) simp_all
  then show "sort_by_exchange_rate orders = Ok orders' \<Longrightarrow> mset orders' = mset orders"
    by (auto simp: sort_by_exchange_rate_def split: if_splits)
qed

lemma valid_flow_number: "valid_flow fl \<Longrightarrow> tr_exchange_rate (as_transitive_order fl) \<noteq> NaN"
proof -
  assume "valid_flow fl"
  then obtain b c r where num: "tr_buy (as_transitive_order fl) = Num b" "flow_capacity fl = Num c" "0 < c" "flow_rate fl = Num r" "0 < r"
    by (auto simp: valid_flow_def is_strictly_positive_and_finite_iff)
  have "f64_div (Num b) y \<noteq> NaN" if "y \<noteq> NaN" for y
    using that by (cases y) (simp_all add: f64_div_def)
  moreover have "tr_sell (as_transitive_order fl) \<noteq> NaN"
    using num(2-5) by (simp add: as_transitive_order_def f64_div_Num)
  ultimately show ?thesis
    using num(1) by (simp add: tr_exchange_rate_def)
qed

text \<open>The two sides of a transitive orderbook: they are sorted without a panic.\<close>

definition made_of :: "transitive_order list \<Rightarrow> flow list \<Rightarrow> bool" where
  "made_of orders fls \<longleftrightarrow> mset orders = image_mset as_transitive_order (mset fls) \<and> sorted_by_exchange_rate orders"

lemma sort_flows:
  assumes "list_all valid_flow fls"
  obtains orders where "sort_by_exchange_rate (map as_transitive_order fls) = (Ok orders :: (orderbook_error, transitive_order list) result)"
    "made_of orders fls"
proof -
  have "\<forall>ord \<in> set (map as_transitive_order fls). tr_exchange_rate ord \<noteq> NaN"
    using assms valid_flow_number by (auto simp: list_all_iff)
  then obtain orders where orders: "sort_by_exchange_rate (map as_transitive_order fls) =
      (Ok orders :: (orderbook_error, transitive_order list) result)"
    by (auto simp: sort_by_exchange_rate_def)
  then show ?thesis
    using that [OF orders] sort_by_exchange_rate_sorted [OF orders] mset_sort_by_exchange_rate [OF orders] by (simp add: made_of_def)
qed

lemma set_within_spread: "x \<in> set (within_spread spread fls) \<Longrightarrow> x \<in> set fls"
  by (cases spread) (auto simp: within_spread_def dest: set_takeWhileD)

lemma lists_flows_valid: "lists_flows pf ob pair spread (Ok fls) \<Longrightarrow> list_all valid_flow fls"
  by (auto simp: lists_flows_def list_all_iff dest: set_within_spread)

text \<open>Extending the ring trades with the flows of both directions.\<close>

lemma extend_and_sort_flows:
  assumes "tob_asks tob = map (as_transitive_order \<circ> ring_ask) ts" "tob_bids tob = map (as_transitive_order \<circ> ring_bid) ts"
    "list_all valid_ring ts" "list_all valid_flow asks" "list_all valid_flow bids"
  obtains tob' where "extend_and_sort tob (map as_transitive_order asks) (map as_transitive_order bids) = Ok tob'"
    "made_of (tob_asks tob') (map ring_ask ts @ asks)" "made_of (tob_bids tob') (map ring_bid ts @ bids)"
proof -
  have "list_all valid_flow (map ring_ask ts @ asks)" "list_all valid_flow (map ring_bid ts @ bids)"
    using assms(3-5) by (auto simp: list_all_iff valid_ring_def)
  note valid = this
  obtain os where os: "sort_by_exchange_rate (map as_transitive_order (map ring_ask ts @ asks)) =
      (Ok os :: (orderbook_error, transitive_order list) result)" "made_of os (map ring_ask ts @ asks)"
    using sort_flows [OF valid(1)] .
  obtain os' where os': "sort_by_exchange_rate (map as_transitive_order (map ring_bid ts @ bids)) =
      (Ok os' :: (orderbook_error, transitive_order list) result)" "made_of os' (map ring_bid ts @ bids)"
    using sort_flows [OF valid(2)] .
  show ?thesis
    using that [of "\<lparr>tob_asks = os, tob_bids = os'\<rparr>"] os os' assms(1,2) by (simp add: extend_and_sort_def)
qed

context price_platform
begin

lemma transitive_orderbook_listed:
  assumes "ring_loop pf m \<lparr>tob_asks = [], tob_bids = []\<rparr> (pg_full_orderbook pg) = Some (Ok (tob, ob))"
    "ring_loop_ok pf m \<lparr>tob_asks = [], tob_bids = []\<rparr> (pg_full_orderbook pg) (Ok (tob, ob))"
    "fill_market_ring_trade pf (market_inverse m) ob = Some (Ok None, ob')"
    "orderbook_inv pf ob'" "node_count (projection pf ob') \<le> MAX_TOKENS"
  shows "\<exists>r. find_transitive_orderbook pf pg m None spread = Some r \<and>
    (case r of
       Ok tob \<Rightarrow> \<exists>ts ob1 ob2 asks bids. ring_trades pf m (pg_full_orderbook pg) ts ob1 \<and>
         fill_market_ring_trade pf (market_inverse m) ob1 = Some (Ok None, ob2) \<and>
         lists_flows pf ob2 (ask_pair m) spread (Ok asks) \<and> lists_flows pf ob2 (bid_pair m) spread (Ok bids) \<and>
         made_of (tob_asks tob) (map ring_ask ts @ asks) \<and> made_of (tob_bids tob) (map ring_bid ts @ bids)
     | Err e \<Rightarrow> \<exists>path. e = UnreducableOrderbook path \<and> meets_unrepresentable pf (pg_full_orderbook pg) path
     | Panic \<Rightarrow> invalid_spread spread \<or> (\<exists>path. meets_unrepresentable pf (pg_full_orderbook pg) path) \<or>
         (\<exists>ts ob1 ob2 e. ring_trades pf m (pg_full_orderbook pg) ts ob1 \<and>
           fill_market_ring_trade pf (market_inverse m) ob1 = Some (Ok None, ob2) \<and>
           (lists_flows pf ob2 (ask_pair m) spread (Err e) \<or> lists_flows pf ob2 (bid_pair m) spread (Err e))))"
proof -
  obtain ts where ts: "ring_trades pf m (pg_full_orderbook pg) ts ob" "list_all valid_ring ts"
    "tob_asks tob = map (as_transitive_order \<circ> ring_ask) ts" "tob_bids tob = map (as_transitive_order \<circ> ring_bid) ts"
    using assms(2) by (auto simp: ring_loop_ok_def)
  obtain ra where ra: "fill_transitive_orders pf ob' (into_range (ask_pair m) None) spread = Some (rmap (map as_transitive_order) ra)"
    "lists_flows pf ob' (ask_pair m) spread ra"
    using fill_transitive_orders_spec [OF assms(4,5)] .
  obtain rb where rb: "fill_transitive_orders pf ob' (into_range (bid_pair m) None) spread = Some (rmap (map as_transitive_order) rb)"
    "lists_flows pf ob' (bid_pair m) spread rb"
    using fill_transitive_orders_spec [OF assms(4,5)] .
  note query = find_transitive_orderbook_def assms(1,3) ra(1) rb(1)
  have panic: ?thesis if "find_transitive_orderbook pf pg m None spread = Some Panic"
    "invalid_spread spread \<or> (\<exists>e. lists_flows pf ob' (ask_pair m) spread (Err e) \<or> lists_flows pf ob' (bid_pair m) spread (Err e))"
    using that ts(1) assms(3) by auto
  show ?thesis
  proof (cases "\<exists>asks bids. ra = Ok asks \<and> rb = Ok bids")
    case True
    then obtain asks bids where ab: "ra = Ok asks" "rb = Ok bids" by blast
    obtain tob' where "extend_and_sort tob (map as_transitive_order asks) (map as_transitive_order bids) = Ok tob'"
      "made_of (tob_asks tob') (map ring_ask ts @ asks)" "made_of (tob_bids tob') (map ring_bid ts @ bids)"
      using extend_and_sort_flows [OF ts(3,4,2) lists_flows_valid lists_flows_valid] ra(2) rb(2) ab by metis
    moreover from this(1) have "find_transitive_orderbook pf pg m None spread = Some (Ok tob')"
      by (simp add: query ab)
    ultimately show ?thesis
      using ra(2) rb(2) ab ts(1) assms(3) by (intro exI [of _ "Ok tob'"]) (simp, blast)
  next
    case False
    then have "find_transitive_orderbook pf pg m None spread = Some Panic"
      by (cases ra; cases rb) (simp_all add: query)
    moreover have "invalid_spread spread \<or>
        (\<exists>e. lists_flows pf ob' (ask_pair m) spread (Err e) \<or> lists_flows pf ob' (bid_pair m) spread (Err e))"
      using False ra(2) rb(2) by (cases ra; cases rb) (auto simp: lists_flows_def [of _ _ _ _ Panic])
    ultimately show ?thesis by (rule panic)
  qed
qed

end

section \<open>Properties of markets\<close>

text \<open>
  C9: Looking for a ring trade over a valid market, in an orderbook of at most 181 tokens, returns,
  and leaves an orderbook behind that is reached by filling paths of orders one after the other.
  When it finds no ring trade, that orderbook keeps the invariant, no balance has grown, and no cycle
  through a token that can be reached from the quote token is negative; when it finds one, the
  invariant is kept, the held balances have shrunk, and both directions of the trade have a
  positive finite rate and capacity.  It fails, and it panics, only if the orderbook left behind has
  a path of orders whose rate is not representable; the error then names this path.
\<close>

theorem market_ring_trade_correct:
  assumes "price_platform pf" "orderbook_inv pf ob" "node_count (projection pf ob) \<le> MAX_TOKENS" "is_token_pair_valid pf (bid_pair m) ob"
  shows "\<exists>r ob'. fill_market_ring_trade pf m ob = Some (r, ob') \<and> filled_from pf ob ob' \<and>
    (case r of
       Ok None \<Rightarrow> orderbook_inv pf ob' \<and> (\<forall>u t. unat (held (ob_users ob') u t) \<le> unat (held (ob_users ob) u t)) \<and>
         (\<forall>v fs es. walk (projection pf ob') (node_index (market_quote m)) fs v \<and> walk (projection pf ob') v es v \<longrightarrow> 0 \<le> weight_total es)
     | Ok (Some trade) \<Rightarrow> orderbook_inv pf ob' \<and> total_held (ob_users ob') < total_held (ob_users ob) \<and>
         valid_flow (ring_ask trade) \<and> valid_flow (ring_bid trade)
     | Err e \<Rightarrow> \<exists>path. e = UnreducableOrderbook path \<and> fails_along pf ob' path
     | Panic \<Rightarrow> \<exists>path. fails_along pf ob' path)"
proof -
  obtain r ob' where r: "fill_market_ring_trade pf m ob = Some (r, ob')"
    "market_result pf (node_index (market_base m)) (node_index (market_quote m)) {} ob r ob'"
    using price_platform.ring_trade_spec [OF assms(1-3) clear_empty, of m] assms(4) by auto
  have "0 \<le> weight_total es" if "clear_of_cycles g S" "q \<in> S" "walk g q fs v" "walk g v es v" for g S q fs v es
  proof -
    have "set (walk_nodes q fs) \<subseteq> S"
      using that(1,2) by (intro walk_stays [OF that(3)]) (simp_all add: clear_of_cycles_def)
    then have "v \<in> S"
      using price_platform.walk_nodes_last [OF assms(1) that(3)] last_in_set [of "walk_nodes q fs"] by (auto simp: walk_nodes_def)
    then show ?thesis
      using that(1,4) by (auto simp: clear_of_cycles_def)
  qed
  then show ?thesis
    using r unfolding market_result_def orderbook_frame_def
    by (intro exI [of _ r] exI [of _ ob']) (auto split: result.splits option.splits)
qed

theorem market_ring_trade_correct_witness:
  "\<exists>ob. from_elements list_platform sample_elements = Ok ob \<and>
     is_token_pair_valid list_platform (bid_pair \<lparr>market_base = 1, market_quote = 0\<rparr>) ob \<and>
     fill_market_ring_trade list_platform \<lparr>market_base = 1, market_quote = 0\<rparr> ob \<noteq> None"
proof -
  obtain ob where ob: "from_elements list_platform sample_elements = Ok ob" "orderbook_inv list_platform ob"
    "node_count (projection list_platform ob) = 2"
    by (rule sample_graph)
  moreover from this have "is_token_pair_valid list_platform (bid_pair \<lparr>market_base = 1, market_quote = 0\<rparr>) ob"
    "node_count (projection list_platform ob) \<le> MAX_TOKENS"
    by (simp_all add: is_token_pair_valid_def bid_pair_def MAX_TOKENS_def)
  ultimately show ?thesis
    using market_ring_trade_correct [OF lists.price_platform_axioms ob(2), of "\<lparr>market_base = 1, market_quote = 0\<rparr>"] by fastforce
qed

text \<open>
  C33: Computing the transitive orderbook of a market without a bound on the hops, from an
  orderbook of at most 181 tokens, returns.  In a result, the asks are the asks of the ring trades
  that were filled one after the other until there was none left, together with the transitive
  orders of the ask pair in the orderbook that remains, within the spread; likewise for the bids; both
  are sorted by exchange rate.  An error names a path of orders whose rate is not representable, in an
  orderbook that filling paths leads to.  A panic means that the spread is not positive, that there is
  such a path, or that iterating over the transitive orders of one of the two pairs, after the ring
  trades, ended with an error within the spread.  Once the ring trades of the market are filled, the
  inverse market has no ring trade, as the code asserts.
\<close>

theorem transitive_orderbook_correct:
  assumes "price_platform pf" "orderbook_inv pf (pg_full_orderbook pg)" "node_count (projection pf (pg_full_orderbook pg)) \<le> MAX_TOKENS"
  shows "(\<exists>r. find_transitive_orderbook pf pg m None spread = Some r \<and>
      (case r of
         Ok tob \<Rightarrow> \<exists>ts ob1 ob2 asks bids. ring_trades pf m (pg_full_orderbook pg) ts ob1 \<and>
           fill_market_ring_trade pf (market_inverse m) ob1 = Some (Ok None, ob2) \<and>
           lists_flows pf ob2 (ask_pair m) spread (Ok asks) \<and> lists_flows pf ob2 (bid_pair m) spread (Ok bids) \<and>
           made_of (tob_asks tob) (map ring_ask ts @ asks) \<and> made_of (tob_bids tob) (map ring_bid ts @ bids)
       | Err e \<Rightarrow> \<exists>path. e = UnreducableOrderbook path \<and> meets_unrepresentable pf (pg_full_orderbook pg) path
       | Panic \<Rightarrow> invalid_spread spread \<or> (\<exists>path. meets_unrepresentable pf (pg_full_orderbook pg) path) \<or>
           (\<exists>ts ob1 ob2 e. ring_trades pf m (pg_full_orderbook pg) ts ob1 \<and>
             fill_market_ring_trade pf (market_inverse m) ob1 = Some (Ok None, ob2) \<and>
             (lists_flows pf ob2 (ask_pair m) spread (Err e) \<or> lists_flows pf ob2 (bid_pair m) spread (Err e))))) \<and>
    (\<forall>tob ob trade ob'. ring_loop pf m \<lparr>tob_asks = [], tob_bids = []\<rparr> (pg_full_orderbook pg) = Some (Ok (tob, ob)) \<longrightarrow>
       fill_market_ring_trade pf (market_inverse m) ob \<noteq> Some (Ok (Some trade), ob'))"
proof -
  let ?full = "pg_full_orderbook pg"
  obtain r where loop: "ring_loop pf m \<lparr>tob_asks = [], tob_bids = []\<rparr> ?full = Some r"
    and ok: "ring_loop_ok pf m \<lparr>tob_asks = [], tob_bids = []\<rparr> ?full r"
    using price_platform.ring_loop_spec [OF assms] by blast
  show ?thesis
  proof (cases r)
    case (Ok p)
    obtain tob ob where p: "p = (tob, ob)" by (cases p)
    show ?thesis
    proof (cases rule: price_platform.inverse_market [OF assms(1) ok [unfolded Ok p] assms(3)])
      case (1 ob')
      note result = price_platform.transitive_orderbook_listed [OF assms(1) loop [unfolded Ok p] ok [unfolded Ok p] 1, of spread]
      then show ?thesis using loop Ok p 1(1) by (intro conjI) simp_all
    next
      case (2 path ob')
      then show ?thesis using loop Ok p by (simp add: find_transitive_orderbook_def)
    next
      case (3 path ob')
      then show ?thesis using loop Ok p by (auto simp: find_transitive_orderbook_def)
    qed
  next
    case (Err e)
    then show ?thesis using loop ok by (auto simp: find_transitive_orderbook_def ring_loop_ok_def)
  next
    case Panic
    then show ?thesis using loop ok by (simp add: find_transitive_orderbook_def ring_loop_ok_def)
  qed
qed

theorem transitive_orderbook_correct_witness:
  "\<exists>ob. from_elements list_platform sample_elements = Ok ob \<and> node_count (projection list_platform ob) \<le> MAX_TOKENS \<and>
     find_transitive_orderbook list_platform \<lparr>pg_full_orderbook = ob, pg_reduced_orderbook = Ok ob\<rparr>
       \<lparr>market_base = 1, market_quote = 0\<rparr> None None \<noteq> None"
proof -
  obtain ob where ob: "from_elements list_platform sample_elements = Ok ob" "orderbook_inv list_platform ob"
    "node_count (projection list_platform ob) = 2"
    by (rule sample_graph)
  moreover have max: "node_count (projection list_platform ob) \<le> MAX_TOKENS"
    using ob(3) by (simp add: MAX_TOKENS_def)
  moreover have "\<exists>r. find_transitive_orderbook list_platform \<lparr>pg_full_orderbook = ob, pg_reduced_orderbook = Ok ob\<rparr>
      \<lparr>market_base = 1, market_quote = 0\<rparr> None None = Some r"
    using transitive_orderbook_correct [of list_platform "\<lparr>pg_full_orderbook = ob, pg_reduced_orderbook = Ok ob\<rparr>"
        "\<lparr>market_base = 1, market_quote = 0\<rparr>" None] lists.price_platform_axioms ob(2) max by fastforce
  ultimately show ?thesis by auto
qed

end
