(* ===== verification/EstimatorModels.thy ===== *)
theory EstimatorModels
  imports PriceSources PriceMarkets
begin

text \<open>
  The data of the \<open>price-estimator\<close> service (\<open>price-estimator/src/models.rs\<close>, \<open>models/{currency_pair,markets_results,query}.rs\<close>,
  \<open>error.rs\<close>): amounts in atoms or base units, currency pairs and how they are parsed and resolved to
  tokens, the aggregated orderbook of a market, query parameters and rejections.  How the Ethereum
  library reads the digits of an address is a parameter.
\<close>

section \<open>Amounts\<close>

datatype token_amount = Atoms u128 | BaseUnits f64

definition into_base_units :: "token_amount \<Rightarrow> token_base_info \<Rightarrow> ('e, token_amount) result" where
  "into_base_units amnt token =
     (case amnt of
        Atoms atoms \<Rightarrow>
          rmap (\<lambda>base_unit. BaseUnits (f64_div (f64_of_nat (unat atoms)) (f64_of_nat (unat base_unit)))) (base_unit_in_atoms token)
      | base_units \<Rightarrow> Ok base_units)"

definition into_atoms :: "token_amount \<Rightarrow> token_base_info \<Rightarrow> ('e, token_amount) result" where
  "into_atoms amnt token =
     (case amnt of
        BaseUnits units \<Rightarrow>
          rmap (\<lambda>base_unit. Atoms (f64_as_u128 (f64_mul units (f64_of_nat (unat base_unit))))) (base_unit_in_atoms token)
      | atoms \<Rightarrow> Ok atoms)"

definition as_atoms :: "token_amount \<Rightarrow> token_base_info \<Rightarrow> ('e, u128) result" where
  "as_atoms amnt token =
     rbind (into_atoms amnt token) (\<lambda>a. case a of Atoms atoms \<Rightarrow> Ok atoms | _ \<Rightarrow> Panic)"

record estimated_order_result =
  base_token_id :: u16
  quote_token_id :: u16
  buy_amount_in_base :: token_amount
  sell_amount_in_quote :: token_amount

text \<open>The factor between prices in atoms and in base units.\<close>

definition decimals_factor :: "token_base_info \<Rightarrow> token_base_info \<Rightarrow> f64" where
  "decimals_factor base_token quote_token =
     f64_powi (Num 10) (int (unat (tbi_decimals quote_token)) - int (unat (tbi_decimals base_token)))"

definition price_estimate_into_base_units ::
    "f64 option \<Rightarrow> token_base_info \<Rightarrow> token_base_info \<Rightarrow> f64 option" where
  "price_estimate_into_base_units price base_token quote_token =
     map_option (\<lambda>p. f64_div p (decimals_factor base_token quote_token)) price"

section \<open>Currency pairs\<close>

datatype token_ref = RefId u16 | RefAddress address | RefSymbol string

record currency_pair =
  cp_base :: token_ref
  cp_quote :: token_ref

text \<open>\<open>str::split\<close> with a character\<close>

fun split_on :: "char \<Rightarrow> string \<Rightarrow> string list" where
  "split_on c [] = [[]]"
| "split_on c (x # xs) =
     (if x = c then [] # split_on c xs
      else (case split_on c xs of part # parts \<Rightarrow> (x # part) # parts | [] \<Rightarrow> [[x]]))"

definition strip_prefix :: "string \<Rightarrow> string \<Rightarrow> string option" where
  "strip_prefix pre s = (if take (length pre) s = pre then Some (drop (length pre) s) else None)"

definition ref_parse_address :: "(string \<Rightarrow> address option) \<Rightarrow> string \<Rightarrow> address option" where
  "ref_parse_address parse_hex s = Option.bind (strip_prefix ''0x'' s) parse_hex"

definition token_ref_from_str :: "(string \<Rightarrow> address option) \<Rightarrow> string \<Rightarrow> token_ref" where
  "token_ref_from_str parse_hex s =
     (case parse_u16 s of
        Some tid \<Rightarrow> RefId tid
      | None \<Rightarrow>
          (case ref_parse_address parse_hex s of
             Some addr \<Rightarrow> RefAddress addr
           | None \<Rightarrow> RefSymbol s))"

definition currency_pair_from_str :: "(string \<Rightarrow> address option) \<Rightarrow> string \<Rightarrow> currency_pair res" where
  "currency_pair_from_str parse_hex s =
     (case split_on (CHR ''-'') s of
        [base, quote] \<Rightarrow> Ok \<lparr>cp_base = token_ref_from_str parse_hex base, cp_quote = token_ref_from_str parse_hex quote\<rparr>
      | _ \<Rightarrow> Err ''currency pair expected 'X-Y' format'')"

definition as_token_id :: "'s token_info_fetching \<Rightarrow> token_ref \<Rightarrow> ('s, u16) fetch" where
  "as_token_id f tref =
     (case tref of
        RefId tid \<Rightarrow> elift (Ok tid)
      | RefAddress addr \<Rightarrow>
          ebind (find_by_address f addr) (\<lambda>found.
            elift (ok_or (map_option fst found) (Failure ''token address not found'')))
      | RefSymbol symb \<Rightarrow>
          ebind (find_by_symbol f symb) (\<lambda>found.
            elift (ok_or (map_option fst found) (Failure (''token symbol '' @ symb @ '' not found'')))))"

definition as_market :: "'s token_info_fetching \<Rightarrow> currency_pair \<Rightarrow> ('s, pg_market) fetch" where
  "as_market f pair =
     ebind (as_token_id f (cp_base pair)) (\<lambda>base.
     ebind (as_token_id f (cp_quote pair)) (\<lambda>quote.
       elift (Ok \<lparr>market_base = base, market_quote = quote\<rparr>)))"

section \<open>Markets\<close>

record market_order =
  mo_price :: f64
  mo_volume :: f64

record markets_result =
  mr_asks :: "market_order list"
  mr_bids :: "market_order list"

datatype price_ordering = PriceAscending | PriceDescending

text \<open>Whether the comparison is \<open>Less\<close>; it also is when a price is not a number.\<close>

definition price_less :: "price_ordering \<Rightarrow> market_order \<Rightarrow> market_order \<Rightarrow> bool" where
  "price_less po a b =
     (let (a, b) = (case po of PriceAscending \<Rightarrow> (a, b) | PriceDescending \<Rightarrow> (b, a))
      in f64_less (mo_price a) (mo_price b) \<or> mo_price a = NaN \<or> mo_price b = NaN)"

fun insert_by_price :: "price_ordering \<Rightarrow> market_order \<Rightarrow> market_order list \<Rightarrow> market_order list" where
  "insert_by_price po x [] = [x]"
| "insert_by_price po x (y # ys) =
     (if price_less po x y then x # y # ys else y # insert_by_price po x ys)"

definition f64_eq :: "f64 \<Rightarrow> f64 \<Rightarrow> bool" where
  "f64_eq x y \<longleftrightarrow> x \<noteq> NaN \<and> y \<noteq> NaN \<and> \<not> f64_less x y \<and> \<not> f64_less y x"

definition aggregate_step :: "market_order list \<Rightarrow> market_order \<Rightarrow> market_order list" where
  "aggregate_step result ord =
     (if result \<noteq> [] \<and> f64_eq (mo_price (last result)) (mo_price ord)
      then butlast result @ [(last result)\<lparr>mo_volume := f64_add (mo_volume (last result)) (mo_volume ord)\<rparr>]
      else result @ [ord])"

text \<open>
  The sort is unstable, so that the order in which equal prices are added up is not specified; here it
  is the order of insertion.
\<close>

definition sort_and_aggregate_orders_by_price :: "market_order list \<Rightarrow> price_ordering \<Rightarrow> market_order list" where
  "sort_and_aggregate_orders_by_price orders po =
     foldl aggregate_step []
       (filter (\<lambda>ord. mo_price ord \<noteq> NaN) (fold (insert_by_price po) orders []))"

definition markets_result_from :: "transitive_orderbook \<Rightarrow> markets_result" where
  "markets_result_from tob =
     (let to_order = (\<lambda>(price, volume). \<lparr>mo_price = price, mo_volume = volume\<rparr>)
      in \<lparr>mr_asks = sort_and_aggregate_orders_by_price (map to_order (ask_prices tob)) PriceAscending,
          mr_bids = sort_and_aggregate_orders_by_price (map to_order (bid_prices tob)) PriceDescending\<rparr>)"

definition convert_to_base_units ::
    "market_order list \<Rightarrow> token_base_info \<Rightarrow> token_base_info \<Rightarrow> ('e, market_order list) result" where
  "convert_to_base_units orders base_token quote_token =
     traverse (\<lambda>ord.
       rmap (\<lambda>base_unit.
         \<lparr>mo_price = f64_div (mo_price ord) (decimals_factor base_token quote_token),
          mo_volume = f64_div (mo_volume ord) (f64_of_nat (unat base_unit))\<rparr>)
         (base_unit_in_atoms base_token)) orders"

definition markets_into_base_units ::
    "markets_result \<Rightarrow> token_base_info \<Rightarrow> token_base_info \<Rightarrow> ('e, markets_result) result" where
  "markets_into_base_units mr base_token quote_token =
     rbind (convert_to_base_units (mr_asks mr) base_token quote_token) (\<lambda>asks.
     rbind (convert_to_base_units (mr_bids mr) base_token quote_token) (\<lambda>bids.
       Ok \<lparr>mr_asks = asks, mr_bids = bids\<rparr>))"

section \<open>Query parameters\<close>

definition MAX_HOPS :: nat where
  "MAX_HOPS = 30"

datatype amount_unit = UnitAtoms | UnitBaseUnits

datatype estimation_time = Now | AtBatch batch_id | AtBlock block_number | AtTimestamp u64

datatype rounding = RoundingEnabled | RoundingDisabled

record query_parameters =
  qp_unit :: amount_unit
  qp_hops :: "nat option"
  qp_time :: estimation_time
  qp_ignore_addresses :: "address list"
  qp_rounding_buffer :: rounding

record raw_query =
  raw_atoms :: "bool option"
  raw_unit :: "amount_unit option"
  raw_hops :: "nat option"
  raw_batch_id :: "batch_id option"
  raw_block_number :: "u64 option"
  raw_timestamp :: "u64 option"
  raw_ignore_addresses :: "string option"
  raw_rounding_buffer :: "rounding option"

definition query_parse_address :: "(string \<Rightarrow> address option) \<Rightarrow> string \<Rightarrow> address res" where
  "query_parse_address parse_hex s =
     (let digits = (case strip_prefix ''0x'' s of Some rest \<Rightarrow> rest | None \<Rightarrow> s)
      in ok_or (parse_hex digits) (''failed to parse address: '' @ digits))"

definition parse_addresses :: "(string \<Rightarrow> address option) \<Rightarrow> string \<Rightarrow> address list res" where
  "parse_addresses parse_hex s = traverse (query_parse_address parse_hex) (split_on (CHR '','') s)"

definition query_unit :: "bool option \<Rightarrow> amount_unit option \<Rightarrow> amount_unit res" where
  "query_unit atoms un =
     (case (atoms, un) of
        (Some True, None) \<Rightarrow> Ok UnitAtoms
      | (Some False, None) \<Rightarrow> Ok UnitBaseUnits
      | (None, Some un) \<Rightarrow> Ok un
      | (None, None) \<Rightarrow> Ok UnitBaseUnits
      | _ \<Rightarrow> Err ''only one of 'atoms' or 'unit' parameters can be specified'')"

definition query_time :: "batch_id option \<Rightarrow> u64 option \<Rightarrow> u64 option \<Rightarrow> estimation_time res" where
  "query_time batch block timestamp =
     (case (batch, block, timestamp) of
        (None, None, None) \<Rightarrow> Ok Now
      | (Some batch, None, None) \<Rightarrow> Ok (AtBatch batch)
      | (None, Some block, None) \<Rightarrow> Ok (AtBlock (Number block))
      | (None, None, Some timestamp) \<Rightarrow> Ok (AtTimestamp timestamp)
      | _ \<Rightarrow> Err ''only one of 'batchId', 'blockNumber', or 'timestamp' parameters can be specified'')"

definition query_try_from :: "(string \<Rightarrow> address option) \<Rightarrow> raw_query \<Rightarrow> query_parameters res" where
  "query_try_from parse_hex raw =
     (if (case raw_hops raw of Some hops \<Rightarrow> \<not> hops \<le> MAX_HOPS | None \<Rightarrow> False) then Err ''hops parameter is limited to 30''
      else
        rbind (query_unit (raw_atoms raw) (raw_unit raw)) (\<lambda>un.
        rbind (query_time (raw_batch_id raw) (raw_block_number raw) (raw_timestamp raw)) (\<lambda>time.
        rbind (case raw_ignore_addresses raw of Some s \<Rightarrow> parse_addresses parse_hex s | None \<Rightarrow> Ok []) (\<lambda>ignored.
          Ok \<lparr>qp_unit = un, qp_hops = raw_hops raw, qp_time = time, qp_ignore_addresses = ignored,
              qp_rounding_buffer = (case raw_rounding_buffer raw of Some b \<Rightarrow> b | None \<Rightarrow> RoundingEnabled)\<rparr>))))"

section \<open>Rejections\<close>

datatype rejection_reason = NoTokenInfo | TokenNotFound | InternalError string

datatype rejection = Custom rejection_reason | RouteNotFound | InvalidQuery | OtherRejection

fun as_http_error :: "rejection_reason \<Rightarrow> nat \<times> string" where
  "as_http_error NoTokenInfo = (400, ''requested base units for token with missing ERC20 info'')"
| "as_http_error TokenNotFound = (400, ''token symbol or address not found'')"
| "as_http_error (InternalError _) = (500, ''internal server error'')"

fun handle_rejection :: "rejection \<Rightarrow> nat \<times> string" where
  "handle_rejection (Custom reason) = as_http_error reason"
| "handle_rejection RouteNotFound = (404, ''invalid url path'')"
| "handle_rejection InvalidQuery = (400, ''invalid url query'')"
| "handle_rejection OtherRejection = (500, ''unexpected internal error'')"

section \<open>Splitting and parsing\<close>

lemma split_on_nonempty [simp]: "split_on c s \<noteq> []"
  by (induction s) (auto split: list.split)

lemma length_split_on: "length (split_on c s) = count_list s c + 1"
proof (induction s)
  case (Cons x s)
  then show ?case
    using split_on_nonempty [of c s] by (cases "split_on c s") auto
qed simp

lemma split_on_none: "c \<notin> set s \<Longrightarrow> split_on c s = [s]"
  by (induction s) auto

lemma split_on_append: "c \<notin> set a \<Longrightarrow> split_on c (a @ c # b) = a # split_on c b"
  by (induction a) auto

lemma strip_prefix_Some: "strip_prefix pre s = Some rest \<longleftrightarrow> s = pre @ rest"
  unfolding strip_prefix_def by (metis append_eq_conv_conj append_take_drop_id option.distinct(1) option.inject)

lemma currency_pair_ok_iff: "is_ok (currency_pair_from_str parse_hex s) \<longleftrightarrow> count_list s (CHR ''-'') = 1"
proof -
  have "length (split_on (CHR ''-'') s) = 2 \<longleftrightarrow> (\<exists>a b. split_on (CHR ''-'') s = [a, b])"
    by (auto simp: length_Suc_conv numeral_2_eq_2)
  then show ?thesis
    by (auto simp: currency_pair_from_str_def length_split_on split: list.splits)
qed

lemma parse_addresses_ok_iff:
  "is_ok (parse_addresses parse_hex s) \<longleftrightarrow> list_all (\<lambda>part. is_ok (query_parse_address parse_hex part)) (split_on (CHR '','') s)"
proof
  assume "is_ok (parse_addresses parse_hex s)"
  then obtain as where "list_all2 (\<lambda>x y. query_parse_address parse_hex x = Ok y) (split_on (CHR '','') s) as"
    by (auto simp: parse_addresses_def is_ok_iff traverse_eq_Ok)
  then show "list_all (\<lambda>part. is_ok (query_parse_address parse_hex part)) (split_on (CHR '','') s)"
    by (auto simp: list_all_iff list_all2_conv_all_nth is_ok_iff in_set_conv_nth)
qed (auto simp: parse_addresses_def list_all_iff intro!: traverse_Ok_all)

lemma query_unit_ok_iff: "is_ok (query_unit a u) \<longleftrightarrow> a = None \<or> u = None"
  by (cases a; cases u) (auto simp: query_unit_def split: bool.split)

lemma query_time_ok_iff:
  "is_ok (query_time b n t) \<longleftrightarrow> (b = None \<and> n = None) \<or> (b = None \<and> t = None) \<or> (n = None \<and> t = None)"
  by (cases b; cases n; cases t) (auto simp: query_time_def)

lemma query_not_Panic: "query_unit a u \<noteq> Panic" "query_time b n t \<noteq> Panic"
  by (auto simp: query_unit_def query_time_def split: option.splits bool.splits)

lemma is_ok_bind3:
  "is_ok (rbind m1 (\<lambda>a. rbind m2 (\<lambda>b. rbind m3 (\<lambda>c. Ok (g a b c))))) \<longleftrightarrow> is_ok m1 \<and> is_ok m2 \<and> is_ok m3"
  by (cases m1; cases m2; cases m3) auto

section \<open>Strict weak orders on prices\<close>

definition before :: "price_ordering \<Rightarrow> f64 \<Rightarrow> f64 \<Rightarrow> bool" where
  "before po x y = (case po of PriceAscending \<Rightarrow> f64_less x y | PriceDescending \<Rightarrow> f64_less y x)"

lemma before_asym: "before po x y \<Longrightarrow> \<not> before po y x"
  by (cases po) (auto simp: before_def dest: f64_less_order(1))

lemma before_negtrans:
  "y \<noteq> NaN \<Longrightarrow> \<not> before po y x \<Longrightarrow> \<not> before po z y \<Longrightarrow> \<not> before po z x"
  by (cases po) (auto simp: before_def dest: f64_less_order(2))

lemma f64_eq_before: "f64_eq x y \<longleftrightarrow> x \<noteq> NaN \<and> y \<noteq> NaN \<and> \<not> before po x y \<and> \<not> before po y x"
  by (cases po) (auto simp: f64_eq_def before_def)

lemma f64_eq_equiv: "x \<noteq> NaN \<Longrightarrow> f64_eq x x" "f64_eq x y \<Longrightarrow> f64_eq y x" "f64_eq x y \<Longrightarrow> f64_eq y z \<Longrightarrow> f64_eq x z"
  using f64_less_order(1) [of x x] f64_less_order(2) [of y x z] f64_less_order(2) [of y z x] by (auto simp: f64_eq_def)

lemma before_eq: "before po x y \<Longrightarrow> f64_eq y z \<Longrightarrow> x \<noteq> NaN \<Longrightarrow> before po x z"
  using before_negtrans [of z po y x] unfolding f64_eq_before [of _ _ po] by blast

lemma before_trans: "before po x y \<Longrightarrow> before po y z \<Longrightarrow> x \<noteq> NaN \<Longrightarrow> y \<noteq> NaN \<Longrightarrow> z \<noteq> NaN \<Longrightarrow> before po x z"
  using before_negtrans [of z po y x] before_asym by blast

section \<open>Aggregated orders\<close>

lemma insert_by_price_mset: "mset (insert_by_price po x ys) = add_mset x (mset ys)"
  by (induction ys) auto

lemma sort_by_price_mset: "mset (fold (insert_by_price po) xs ys) = mset xs + mset ys"
  by (induction xs arbitrary: ys) (simp_all add: insert_by_price_mset)

definition price_sorted :: "price_ordering \<Rightarrow> market_order list \<Rightarrow> bool" where
  "price_sorted po xs \<longleftrightarrow> sorted_wrt (\<lambda>a b. \<not> before po (mo_price b) (mo_price a)) xs"

definition no_nan :: "market_order list \<Rightarrow> bool" where
  "no_nan xs \<longleftrightarrow> list_all (\<lambda>ord. mo_price ord \<noteq> NaN) xs"

lemma price_less_before: "mo_price a \<noteq> NaN \<Longrightarrow> mo_price b \<noteq> NaN \<Longrightarrow> price_less po a b \<longleftrightarrow> before po (mo_price a) (mo_price b)"
  by (cases po) (simp_all add: price_less_def before_def)

lemma insert_by_price_sorted:
  assumes "price_sorted po ys" "no_nan (x # ys)"
  shows "price_sorted po (insert_by_price po x ys)"
  using assms
proof (induction ys)
  case (Cons y ys)
  have nn: "mo_price x \<noteq> NaN" "mo_price y \<noteq> NaN" "no_nan (x # ys)"
    using Cons.prems(2) by (auto simp: no_nan_def)
  show ?case
  proof (cases "before po (mo_price x) (mo_price y)")
    case True
    then have "\<not> before po (mo_price z) (mo_price x)" if "z \<in> insert y (set ys)" for z
      using that Cons.prems(1) before_negtrans [OF nn(2), of po "mo_price x" "mo_price z"] before_asym
      by (auto simp: price_sorted_def)
    with True Cons.prems(1) nn show ?thesis
      by (simp add: price_sorted_def price_less_before)
  next
    case False
    have "set (insert_by_price po x ys) = insert x (set ys)"
      using arg_cong [OF insert_by_price_mset, of set_mset po x ys] by simp
    with False Cons nn show ?thesis
      by (auto simp: price_sorted_def price_less_before)
  qed
qed (simp add: price_sorted_def)

lemma sort_by_price_sorted:
  "price_sorted po ys \<Longrightarrow> no_nan xs \<Longrightarrow> no_nan ys \<Longrightarrow> price_sorted po (fold (insert_by_price po) xs ys)"
proof (induction xs arbitrary: ys)
  case (Cons x xs)
  have "mset (insert_by_price po x ys) = mset (x # ys)"
    by (simp add: insert_by_price_mset)
  then have "set (insert_by_price po x ys) = set (x # ys)"
    by (metis set_mset_mset)
  then have "no_nan (insert_by_price po x ys)"
    using Cons.prems by (auto simp: no_nan_def list_all_iff)
  then show ?case
    using Cons by (auto intro!: Cons.IH insert_by_price_sorted simp: no_nan_def)
qed simp

text \<open>The volumes of the orders with a given price, added up from the left.\<close>

definition volume_at :: "market_order list \<Rightarrow> f64 \<Rightarrow> f64 option" where
  "volume_at xs price =
     (case map mo_volume (filter (\<lambda>ord. f64_eq (mo_price ord) price) xs) of
        [] \<Rightarrow> None
      | v # vs \<Rightarrow> Some (foldl f64_add v vs))"

lemma volume_at_snoc:
  "volume_at (xs @ [x]) price =
     (if f64_eq (mo_price x) price
      then Some (case volume_at xs price of None \<Rightarrow> mo_volume x | Some v \<Rightarrow> f64_add v (mo_volume x))
      else volume_at xs price)"
  by (auto simp: volume_at_def split: list.split)

definition aggregated :: "price_ordering \<Rightarrow> market_order list \<Rightarrow> market_order list \<Rightarrow> bool" where
  "aggregated po xs result \<longleftrightarrow>
     sorted_wrt (\<lambda>a b. before po (mo_price a) (mo_price b)) result \<and> no_nan result \<and>
     (\<forall>r \<in> set result. volume_at xs (mo_price r) = Some (mo_volume r)) \<and>
     (\<forall>x \<in> set xs. \<exists>r \<in> set result. f64_eq (mo_price x) (mo_price r))"

lemma volume_at_None: "volume_at xs p = None \<longleftrightarrow> (\<forall>x \<in> set xs. \<not> f64_eq (mo_price x) p)"
proof -
  have "volume_at xs p = None \<longleftrightarrow> filter (\<lambda>ord. f64_eq (mo_price ord) p) xs = []"
    by (auto simp: volume_at_def split: list.split)
  then show ?thesis
    by (simp add: filter_empty_conv)
qed

lemma aggregate_step_aggregated:
  assumes agg: "aggregated po xs result" and x: "mo_price x \<noteq> NaN"
    and le: "\<And>y. y \<in> set xs \<Longrightarrow> \<not> before po (mo_price x) (mo_price y)"
  shows "aggregated po (xs @ [x]) (aggregate_step result x)"
proof (cases "result = []")
  case True
  then have "xs = []"
    using agg by (auto simp: aggregated_def)
  with True x f64_eq_equiv(1) [OF x] show ?thesis
    by (simp add: aggregated_def aggregate_step_def no_nan_def volume_at_def)
next
  case False
  then obtain rs l where result: "result = rs @ [l]"
    by (metis rev_exhaust)
  have l: "mo_price l \<noteq> NaN" "volume_at xs (mo_price l) = Some (mo_volume l)"
    and rs: "\<And>r. r \<in> set rs \<Longrightarrow> before po (mo_price r) (mo_price l) \<and> mo_price r \<noteq> NaN \<and> volume_at xs (mo_price r) = Some (mo_volume r)"
    using agg by (auto simp: aggregated_def result no_nan_def sorted_wrt_append list_all_iff)
  have "\<not> before po (mo_price x) (mo_price l)"
  proof -
    obtain y where y: "y \<in> set xs" "f64_eq (mo_price y) (mo_price l)"
      using l(2) volume_at_None [of xs "mo_price l"] by auto
    then show ?thesis
      using le [of y] before_eq [of po "mo_price x" "mo_price l" "mo_price y"] f64_eq_equiv(2) x by blast
  qed
  then have cases: "f64_eq (mo_price l) (mo_price x) \<or> before po (mo_price l) (mo_price x)"
    using l(1) x by (auto simp: f64_eq_before [of _ _ po])
  have apart: "\<not> f64_eq (mo_price x) (mo_price r)" if "before po (mo_price r) (mo_price x)" for r
    using that by (auto simp: f64_eq_before [of _ _ po])
  have sorted: "sorted_wrt (\<lambda>a b. before po (mo_price a) (mo_price b)) rs"
    and cover: "\<And>y. y \<in> set xs \<Longrightarrow> \<exists>r \<in> insert l (set rs). f64_eq (mo_price y) (mo_price r)"
    using agg by (auto simp: aggregated_def result sorted_wrt_append)
  show ?thesis
  proof (cases "f64_eq (mo_price l) (mo_price x)")
    case True
    let ?l = "l\<lparr>mo_volume := f64_add (mo_volume l) (mo_volume x)\<rparr>"
    have step: "aggregate_step result x = rs @ [?l]"
      by (simp add: aggregate_step_def result True)
    have "volume_at (xs @ [x]) (mo_price r) = Some (mo_volume r)" if "r \<in> set rs" for r
      using rs [OF that] before_eq [of po "mo_price r" "mo_price l" "mo_price x"] True apart [of r] by (simp add: volume_at_snoc)
    moreover have "volume_at (xs @ [x]) (mo_price l) = Some (mo_volume ?l)"
      using l(2) f64_eq_equiv(2) [OF True] by (simp add: volume_at_snoc)
    moreover have "f64_eq (mo_price x) (mo_price l)"
      using True by (rule f64_eq_equiv(2))
    ultimately show ?thesis
      using sorted cover rs l(1) unfolding step aggregated_def by (auto simp: sorted_wrt_append no_nan_def list_all_iff)
  next
    case False
    then have bl: "before po (mo_price l) (mo_price x)"
      using cases by blast
    have step: "aggregate_step result x = rs @ [l, x]"
      by (simp add: aggregate_step_def result False)
    have br: "before po (mo_price r) (mo_price x)" if "r \<in> insert l (set rs)" for r
      using that rs bl before_trans [of po "mo_price r" "mo_price l" "mo_price x"] l(1) x by auto
    have "volume_at (xs @ [x]) (mo_price r) = Some (mo_volume r)" if "r \<in> insert l (set rs)" for r
      using that rs l(2) apart [OF br [OF that]] by (auto simp: volume_at_snoc)
    moreover have "volume_at xs (mo_price x) = None"
      unfolding volume_at_None using cover br apart f64_eq_equiv(2,3) by blast
    ultimately show ?thesis
      using sorted cover rs l(1) x br f64_eq_equiv(1) [OF x] unfolding step aggregated_def
      by (auto simp: sorted_wrt_append no_nan_def list_all_iff volume_at_snoc)
  qed
qed

lemma aggregate_aggregated:
  "price_sorted po xs \<Longrightarrow> no_nan xs \<Longrightarrow> aggregated po xs (foldl aggregate_step [] xs)"
proof (induction xs rule: rev_induct)
  case (snoc x xs)
  then show ?case
    by (auto intro!: aggregate_step_aggregated simp: price_sorted_def sorted_wrt_append no_nan_def)
qed (simp add: aggregated_def no_nan_def)

section \<open>Resolving currency pairs\<close>

definition refers_to :: "(u16 \<Rightarrow> token_base_info option) \<Rightarrow> token_ref \<Rightarrow> u16 \<Rightarrow> bool" where
  "refers_to tok tref i =
     (case tref of
        RefId j \<Rightarrow> i = j
      | RefAddress addr \<Rightarrow> (\<exists>info. tok i = Some info \<and> tbi_address info = addr)
      | RefSymbol name \<Rightarrow> (\<exists>info. tok i = Some info \<and> matches_symbol info name))"

context token_source
begin

lemma as_token_id_ok: "fetch_ok keeps (as_token_id f tref) (refers_to tok tref) (\<lambda>_. True)"
proof (cases tref)
  case (RefId i)
  then show ?thesis
    by (simp add: as_token_id_def refers_to_def fetch_ok_def elift_def)
next
  case (RefAddress addr)
  then show ?thesis
    by (auto simp: as_token_id_def refers_to_def ok_or_def split: option.split
        intro!: fetch_ok_bind [OF find_by_address_ok] fetch_ok_lift)
next
  case (RefSymbol name)
  then show ?thesis
    by (auto simp: as_token_id_def refers_to_def ok_or_def split: option.split
        intro!: fetch_ok_bind [OF find_by_symbol_ok] fetch_ok_lift)
qed

lemma as_market_ok:
  "fetch_ok keeps (as_market f pair)
     (\<lambda>m. refers_to tok (cp_base pair) (market_base m) \<and> refers_to tok (cp_quote pair) (market_quote m)) (\<lambda>_. True)"
  unfolding as_market_def by (intro fetch_ok_bind [OF as_token_id_ok] fetch_ok_lift) simp

end

section \<open>Properties\<close>

text \<open>
  C22: the asks and bids of a market are listed with strictly increasing, or decreasing, prices;
  every order is accounted for at its price, and the volume of an entry is the sum of the volumes of the
  orders with that price, in some order.
\<close>

theorem aggregated_orders_correct:
  assumes "no_nan orders"
  shows "\<exists>perm. mset perm = mset orders \<and> aggregated po perm (sort_and_aggregate_orders_by_price orders po)"
proof -
  let ?perm = "fold (insert_by_price po) orders []"
  have perm: "mset ?perm = mset orders"
    by (simp add: sort_by_price_mset)
  then have "set ?perm = set orders"
    by (metis set_mset_mset)
  then have nn: "no_nan ?perm"
    using assms by (simp add: no_nan_def list_all_iff)
  then have "filter (\<lambda>ord. mo_price ord \<noteq> NaN) ?perm = ?perm"
    by (auto simp: no_nan_def list_all_iff)
  moreover have "price_sorted po ?perm"
    using assms by (intro sort_by_price_sorted) (simp_all add: price_sorted_def no_nan_def)
  ultimately show ?thesis
    using perm nn aggregate_aggregated [of po ?perm] by (auto simp: sort_and_aggregate_orders_by_price_def)
qed

theorem aggregated_orders_correct_witness:
  "\<exists>perm. mset perm = mset [\<lparr>mo_price = Num 2, mo_volume = Num 1\<rparr>, \<lparr>mo_price = Num 1, mo_volume = Num 3\<rparr>, \<lparr>mo_price = Num 2, mo_volume = Num 1\<rparr>] \<and>
     aggregated PriceAscending perm (sort_and_aggregate_orders_by_price
       [\<lparr>mo_price = Num 2, mo_volume = Num 1\<rparr>, \<lparr>mo_price = Num 1, mo_volume = Num 3\<rparr>, \<lparr>mo_price = Num 2, mo_volume = Num 1\<rparr>] PriceAscending)"
  by (rule aggregated_orders_correct) (simp add: no_nan_def)

lemma parse_digits_dash: "CHR ''-'' \<in> set s \<Longrightarrow> parse_digits acc s = None"
  by (induction s arbitrary: acc) (auto simp: digit_of_def split: option.split)

lemma show_nat_no_dash: "CHR ''-'' \<notin> set (show_nat n)"
  using parse_digits_dash [of "show_nat n" 0] parse_show_nat [of n] by auto

lemma parse_u16_show_nat: "parse_u16 (show_nat (unat t)) = Some t" for t :: u16
proof -
  have "show_nat (unat t) \<noteq> []"
    by (subst show_nat.simps) simp
  then obtain c cs where c: "show_nat (unat t) = c # cs"
    by (cases "show_nat (unat t)") auto
  then have "c \<noteq> CHR ''+''"
    using show_nat_digits [of c "unat t"] by simp
  then show ?thesis
    using parse_show_nat [of "unat t"] unat_less [of t] c by (simp add: parse_u16_def)
qed

text \<open>
  A currency pair is accepted exactly when it has one dash.  Token identifiers written in decimal are
  read back, and an address is tried before a symbol, so that a reference is a symbol only when it is
  neither an identifier nor an address.
\<close>

theorem currency_pair_parsing:
  "(is_ok (currency_pair_from_str parse_hex s) \<longleftrightarrow> count_list s (CHR ''-'') = 1) \<and>
   currency_pair_from_str parse_hex (show_nat (unat i) @ ''-'' @ show_nat (unat j)) = Ok \<lparr>cp_base = RefId i, cp_quote = RefId j\<rparr> \<and>
   (case token_ref_from_str parse_hex s of
      RefId t \<Rightarrow> parse_u16 s = Some t
    | RefAddress addr \<Rightarrow> parse_u16 s = None \<and> (\<exists>digits. s = ''0x'' @ digits \<and> parse_hex digits = Some addr)
    | RefSymbol name \<Rightarrow> name = s \<and> parse_u16 s = None \<and> ref_parse_address parse_hex s = None)"
proof (intro conjI)
  show "is_ok (currency_pair_from_str parse_hex s) \<longleftrightarrow> count_list s (CHR ''-'') = 1"
    by (rule currency_pair_ok_iff)
  show "currency_pair_from_str parse_hex (show_nat (unat i) @ ''-'' @ show_nat (unat j)) = Ok \<lparr>cp_base = RefId i, cp_quote = RefId j\<rparr>"
    by (simp add: currency_pair_from_str_def split_on_append split_on_none show_nat_no_dash token_ref_from_str_def parse_u16_show_nat)
  have "\<exists>digits. s = ''0x'' @ digits \<and> parse_hex digits = Some addr" if addr: "ref_parse_address parse_hex s = Some addr" for addr
  proof -
    from addr obtain digits where "strip_prefix ''0x'' s = Some digits" "parse_hex digits = Some addr"
      by (auto simp: ref_parse_address_def bind_eq_Some_conv)
    then show ?thesis
      by (auto simp: strip_prefix_Some)
  qed
  then show "case token_ref_from_str parse_hex s of
      RefId t \<Rightarrow> parse_u16 s = Some t
    | RefAddress addr \<Rightarrow> parse_u16 s = None \<and> (\<exists>digits. s = ''0x'' @ digits \<and> parse_hex digits = Some addr)
    | RefSymbol name \<Rightarrow> name = s \<and> parse_u16 s = None \<and> ref_parse_address parse_hex s = None"
    by (simp add: token_ref_from_str_def split: option.split)
qed

text \<open>
  Query parameters are accepted exactly when they ask for at most 30 hops, give at most one of \<open>atoms\<close> and
  \<open>unit\<close> and at most one time, and every part of the list of ignored addresses is an address.
\<close>

theorem query_accepted_iff:
  "is_ok (query_try_from parse_hex raw) \<longleftrightarrow>
     (case raw_hops raw of Some hops \<Rightarrow> hops \<le> 30 | None \<Rightarrow> True) \<and>
     (raw_atoms raw = None \<or> raw_unit raw = None) \<and>
     length (filter id [raw_batch_id raw \<noteq> None, raw_block_number raw \<noteq> None, raw_timestamp raw \<noteq> None]) \<le> 1 \<and>
     (case raw_ignore_addresses raw of
        Some s \<Rightarrow> list_all (\<lambda>part. is_ok (query_parse_address parse_hex part)) (split_on (CHR '','') s)
      | None \<Rightarrow> True)"
proof -
  have time: "is_ok (query_time b n t) \<longleftrightarrow> length (filter id [b \<noteq> None, n \<noteq> None, t \<noteq> None]) \<le> 1" for b n t
    by (cases b; cases n; cases t) (auto simp: query_time_ok_iff)
  have hops: "(case h of Some hops \<Rightarrow> \<not> hops \<le> 30 | None \<Rightarrow> False) \<longleftrightarrow> \<not> (case h of Some hops \<Rightarrow> hops \<le> (30 :: nat) | None \<Rightarrow> True)" for h
    by (simp split: option.split)
  have addrs: "is_ok (case a of Some s \<Rightarrow> parse_addresses parse_hex s | None \<Rightarrow> Ok []) \<longleftrightarrow>
      (case a of Some s \<Rightarrow> list_all (\<lambda>part. is_ok (query_parse_address parse_hex part)) (split_on (CHR '','') s) | None \<Rightarrow> True)" for a
    by (simp add: parse_addresses_ok_iff split: option.split)
  show ?thesis
    unfolding query_try_from_def MAX_HOPS_def hops time [symmetric] addrs [symmetric] query_unit_ok_iff [symmetric]
    by (simp add: is_ok_bind3)
qed

text \<open>
  An empty list of ignored addresses is rejected, because it is split into one empty part, which is
  not an address; the interface description gives the empty list as the default and as an example.
\<close>

theorem empty_ignore_addresses_rejected:
  assumes "parse_hex '''' = None"
  shows "\<not> is_ok (query_try_from parse_hex (raw\<lparr>raw_ignore_addresses := Some ''''\<rparr>))"
  using assms unfolding query_try_from_def
  by (simp add: is_ok_bind3 parse_addresses_ok_iff query_parse_address_def strip_prefix_def)

theorem empty_ignore_addresses_rejected_witness:
  "\<not> is_ok (query_try_from (\<lambda>s. if length s = 40 then Some 0 else None)
     \<lparr>raw_atoms = None, raw_unit = None, raw_hops = None, raw_batch_id = None, raw_block_number = None,
      raw_timestamp = None, raw_ignore_addresses = Some '''', raw_rounding_buffer = None\<rparr>)"
  using empty_ignore_addresses_rejected [of "\<lambda>s. if length s = 40 then Some 0 else None"
     "\<lparr>raw_atoms = None, raw_unit = None, raw_hops = None, raw_batch_id = None, raw_block_number = None,
      raw_timestamp = None, raw_ignore_addresses = None, raw_rounding_buffer = None\<rparr>"] by simp

end
