(* ===== verification/PriceEstimator.thy ===== *)
theory PriceEstimator
  imports EstimatorModels EconomicViability
begin

text \<open>
  The \<open>price-estimator\<close> service (\<open>price-estimator/src/{solver_rounding_buffer,infallible_price_source,orderbook,
  amounts_at_price,filter}.rs\<close>): the rounding buffer that the solver takes off orders and balances, the
  cache of prices that always has an answer, the two cached price graphs and how they are updated, and the
  handlers of the HTTP routes.  A handler is an operation on the state of the service; it returns a value
  or a rejection, may panic, and \<open>None\<close> means that it does not return.
\<close>

section \<open>Rounding buffers\<close>

definition MAX_ROUNDING_VOLUME :: f64 where
  "MAX_ROUNDING_VOLUME = Num 100000000000"

definition PRICE_ESTIMATION_ERROR :: f64 where
  "PRICE_ESTIMATION_ERROR = Num 10"

definition max_rounding_amount :: "f64 \<Rightarrow> f64 \<Rightarrow> f64" where
  "max_rounding_amount token_price fee_token_price =
     (let estimated_price_in_fee_token = f64_div token_price fee_token_price
      in f64_max (f64_div MAX_ROUNDING_VOLUME estimated_price_in_fee_token) (Num 1))"

definition rounding_buffer :: "f64 \<Rightarrow> f64 \<Rightarrow> f64 \<Rightarrow> f64 \<Rightarrow> f64" where
  "rounding_buffer fee_token_price sell_token_price buy_token_price extra_factor =
     (let estimated_xrate = f64_div buy_token_price sell_token_price
      in f64_mul (f64_mul (f64_mul (max_rounding_amount buy_token_price fee_token_price) estimated_xrate)
           (f64_powi PRICE_ESTIMATION_ERROR 2)) extra_factor)"

type_synonym balance_buffers = "((address \<times> u16) \<times> u128) list"

definition order_buffer :: "(u16 \<Rightarrow> ('e, u128) result) \<Rightarrow> f64 \<Rightarrow> f64 \<Rightarrow> order \<Rightarrow> ('e, u128) result" where
  "order_buffer token_prices fee_token_price extra_factor ord =
     rbind (token_prices (buy_token ord)) (\<lambda>buy_price.
     rbind (token_prices (sell_token ord)) (\<lambda>sell_price.
       Ok (f64_as_u128 (rounding_buffer fee_token_price (f64_of_nat (unat sell_price)) (f64_of_nat (unat buy_price)) extra_factor))))"

definition reduce_order :: "u128 \<Rightarrow> order \<Rightarrow> order" where
  "reduce_order buffer ord =
     ord\<lparr>denominator := saturating_sub (denominator ord) buffer,
         remaining_sell_amount := saturating_sub (remaining_sell_amount ord) buffer\<rparr>"

fun buffer_orders ::
    "(order \<Rightarrow> ('e, u128) result) \<Rightarrow> order list \<Rightarrow> balance_buffers \<Rightarrow> ('e, order list \<times> balance_buffers) result" where
  "buffer_orders buffer [] buffers = Ok ([], buffers)"
| "buffer_orders buffer (ord # orders) buffers =
     rbind (buffer ord) (\<lambda>b.
       let key = (account_id ord, sell_token ord);
           buffers = hm_insert key (max (hm_or_default buffers key 0) b) buffers
       in rmap (\<lambda>(orders, buffers). (reduce_order b ord # orders, buffers)) (buffer_orders buffer orders buffers))"

definition reduce_balances :: "balance_buffers \<Rightarrow> account_state \<Rightarrow> account_state" where
  "reduce_balances buffers accounts =
     fold (\<lambda>(key, buffer) accounts.
       case hm_get accounts key of
         Some balance \<Rightarrow> hm_insert key (saturating_sub balance (ucast buffer)) accounts
       | None \<Rightarrow> accounts) buffers accounts"

definition apply_rounding_buffer ::
    "(u16 \<Rightarrow> ('e, u128) result) \<Rightarrow> f64 \<Rightarrow> auction_data \<Rightarrow> ('e, auction_data) result" where
  "apply_rounding_buffer token_prices extra_factor = (\<lambda>(accounts, orders).
     rbind (token_prices 0) (\<lambda>fee_price.
     rmap (\<lambda>(orders, buffers). (reduce_balances buffers accounts, orders))
       (buffer_orders (order_buffer token_prices (f64_of_nat (unat fee_price)) extra_factor) orders [])))"

section \<open>Prices that are always there\<close>

record price_cache =
  pc_tokens :: "(u16 \<times> token_base_info) list"
  pc_prices :: price_map

definition price_cache_default :: price_cache where
  "price_cache_default = \<lparr>pc_tokens = [], pc_prices = []\<rparr>"

definition cache_update_prices :: "price_map \<Rightarrow> price_cache \<Rightarrow> price_cache" where
  "cache_update_prices ps pc = pc\<lparr>pc_prices := hm_extend (pc_prices pc) ps\<rparr>"

definition cache_update_tokens :: "(u16 \<times> token_base_info) list \<Rightarrow> price_cache \<Rightarrow> price_cache" where
  "cache_update_tokens infos pc = pc\<lparr>pc_tokens := hm_extend (pc_tokens pc) infos\<rparr>"

definition cached_price :: "price_cache \<Rightarrow> u16 \<Rightarrow> ('e, u128) result" where
  "cached_price pc t =
     (case hm_get (pc_prices pc) t of
        Some price \<Rightarrow> Ok price
      | None \<Rightarrow>
          (case hm_get (pc_tokens pc) t of
             Some info \<Rightarrow> base_unit_in_atoms info
           | None \<Rightarrow> Ok (case hm_get (pc_prices pc) 0 of Some price \<Rightarrow> price | None \<Rightarrow> 10 ^ 18)))"

section \<open>The service\<close>

record ('g, 's) estimator =
  pricegraph_raw :: "'g pricegraph"
  pricegraph_with_rounding_buffer :: "'g pricegraph"
  infallible_prices :: price_cache
  est_world :: 's

text \<open>
  The orderbook that the service reads (\<open>StableXOrderBookReading\<close>).  A read is an effect: the orderbook of
  the service fetches new events on every request, so that two reads need not agree.
\<close>

record 's orderbook_reading =
  reading_for_batch :: "u32 \<Rightarrow> ('s, auction_data) effect"
  reading_for_block :: "block_number \<Rightarrow> ('s, auction_data) effect"

record ('g, 's) estimator_config =
  cfg_platform :: "'g platform"
  cfg_reader :: "'s orderbook_reading"
  extra_rounding_buffer_factor :: f64
  cfg_token_info :: "'s token_info_fetching"
  external_price_sources :: "'s price_source list"
  cfg_native_token :: u16

definition estimator_new :: "('g, 's) estimator_config \<Rightarrow> 's \<Rightarrow> ('g, 's) estimator res option" where
  "estimator_new cfg s =
     map_option (rmap (\<lambda>pg. \<lparr>pricegraph_raw = pg, pricegraph_with_rounding_buffer = pg,
         infallible_prices = price_cache_default, est_world = s\<rparr>))
       (pricegraph_new (cfg_platform cfg) [])"

definition on_est_world :: "('e, 's, 'a) fallible \<Rightarrow> ('e, ('g, 's) estimator, 'a) proc" where
  "on_est_world m st = (case m (est_world st) of (r, s) \<Rightarrow> Some (r, st\<lparr>est_world := s\<rparr>))"

definition on_est_world_proc :: "('e, 's, 'a) proc \<Rightarrow> ('e, ('g, 's) estimator, 'a) proc" where
  "on_est_world_proc m st = map_option (\<lambda>(r, s). (r, st\<lparr>est_world := s\<rparr>)) (m (est_world st))"

definition update_tokens :: "('g, 's) estimator_config \<Rightarrow> (string, ('g, 's) estimator, unit) proc" where
  "update_tokens cfg =
     pbind (pmap_err fetch_message (on_est_world (all_ids (cfg_token_info cfg)))) (\<lambda>all_tokens.
     pbind (pmap_err fetch_message (on_est_world (get_token_infos (cfg_token_info cfg) all_tokens))) (\<lambda>infos.
     pmodify (\<lambda>st. st\<lparr>infallible_prices := cache_update_tokens infos (infallible_prices st)\<rparr>)))"

definition update_cached_prices ::
    "('g, 's) estimator_config \<Rightarrow> 'g pricegraph \<Rightarrow> (string, ('g, 's) estimator, unit) proc" where
  "update_cached_prices cfg pg =
     pbind (pmap_err fetch_message (on_est_world (all_ids (cfg_token_info cfg)))) (\<lambda>all_tokens.
     pbind (on_est_world_proc
       (average_price_sources (external_price_sources cfg @ [pricegraph_get_prices (cfg_platform cfg) pg]) all_tokens)) (\<lambda>ps.
     pmodify (\<lambda>st. st\<lparr>infallible_prices := cache_update_prices ps (infallible_prices st)\<rparr>)))"

text \<open>A failure is logged.\<close>

definition plog :: "(string, 's, unit) proc \<Rightarrow> (string, 's, unit) proc" where
  "plog m s = map_option (\<lambda>(r, s). (case r of Err _ \<Rightarrow> Ok () | r \<Rightarrow> r, s)) (m s)"

definition update_infallible_price_source ::
    "('g, 's) estimator_config \<Rightarrow> 'g pricegraph \<Rightarrow> (string, ('g, 's) estimator, unit) proc" where
  "update_infallible_price_source cfg pg =
     pbind (plog (update_tokens cfg)) (\<lambda>_. plog (update_cached_prices cfg pg))"

definition auction_data_at :: "('g, 's) estimator_config \<Rightarrow> system_time \<Rightarrow> estimation_time \<Rightarrow> ('s, auction_data) effect" where
  "auction_data_at cfg now time =
     (case time of
        Now \<Rightarrow>
          (case batch_current now of
             Ok batch \<Rightarrow> reading_for_batch (cfg_reader cfg) (batch_into_u32 batch)
           | _ \<Rightarrow> elift Panic)
      | AtBatch batch \<Rightarrow> reading_for_batch (cfg_reader cfg) (batch_into_u32 batch)
      | AtBlock block \<Rightarrow> reading_for_block (cfg_reader cfg) block
      | AtTimestamp _ \<Rightarrow> elift (Err ''not yet implemented''))"

definition pricegraph_from_auction_data ::
    "'g platform \<Rightarrow> auction_data \<Rightarrow> address list \<Rightarrow> 'g pricegraph res option" where
  "pricegraph_from_auction_data pf ad ignore_addresses =
     pricegraph_new pf
       (map (\<lambda>ord. to_element_with_accounts ord (fst ad))
         (filter (\<lambda>ord. account_id ord \<notin> set ignore_addresses) (snd ad)))"

definition apply_rounding_buffer_to_auction_data ::
    "('g, 's) estimator_config \<Rightarrow> auction_data \<Rightarrow> (string, ('g, 's) estimator, auction_data) proc" where
  "apply_rounding_buffer_to_auction_data cfg ad =
     pget (\<lambda>st. apply_rounding_buffer (cached_price (infallible_prices st)) (extra_rounding_buffer_factor cfg) ad)"

definition cached_pricegraph :: "rounding \<Rightarrow> ('g, 's) estimator \<Rightarrow> 'g pricegraph" where
  "cached_pricegraph kind st =
     (case kind of
        RoundingDisabled \<Rightarrow> pricegraph_raw st
      | RoundingEnabled \<Rightarrow> pricegraph_with_rounding_buffer st)"

definition estimator_pricegraph ::
    "('g, 's) estimator_config \<Rightarrow> system_time \<Rightarrow> estimation_time \<Rightarrow> address list \<Rightarrow> rounding \<Rightarrow>
     (string, ('g, 's) estimator, 'g pricegraph) proc" where
  "estimator_pricegraph cfg now time ignore_addresses kind =
     (if time = Now \<and> ignore_addresses = [] then pget (\<lambda>st. Ok (cached_pricegraph kind st))
      else
        pbind (on_est_world (auction_data_at cfg now time)) (\<lambda>ad.
        pbind (if kind = RoundingEnabled then apply_rounding_buffer_to_auction_data cfg ad else plift (Ok ad)) (\<lambda>ad.
        pcompute (pricegraph_from_auction_data (cfg_platform cfg) ad ignore_addresses))))"

definition estimator_update :: "('g, 's) estimator_config \<Rightarrow> system_time \<Rightarrow> (string, ('g, 's) estimator, unit) proc" where
  "estimator_update cfg now =
     pbind (on_est_world (auction_data_at cfg now Now)) (\<lambda>ad.
     pbind (pcompute (pricegraph_from_auction_data (cfg_platform cfg) ad [])) (\<lambda>pg.
     pbind (update_infallible_price_source cfg pg) (\<lambda>_.
     pbind (pmodify (\<lambda>st. st\<lparr>pricegraph_raw := pg\<rparr>)) (\<lambda>_.
     pbind (apply_rounding_buffer_to_auction_data cfg ad) (\<lambda>ad.
     pbind (pcompute (pricegraph_from_auction_data (cfg_platform cfg) ad [])) (\<lambda>pg.
     pmodify (\<lambda>st. st\<lparr>pricegraph_with_rounding_buffer := pg\<rparr>)))))))"

definition estimator_rounding_buffer ::
    "('g, 's) estimator_config \<Rightarrow> token_pair \<Rightarrow> ('g, 's) estimator \<Rightarrow> ('e, f64) result" where
  "estimator_rounding_buffer cfg pair st =
     (let price = (\<lambda>t. rmap (\<lambda>p. f64_of_nat (unat p)) (cached_price (infallible_prices st) t))
      in rbind (price 0) (\<lambda>fee.
         rbind (price (pair_sell pair)) (\<lambda>sell.
         rbind (price (pair_buy pair)) (\<lambda>buy.
           Ok (rounding_buffer fee sell buy (extra_rounding_buffer_factor cfg))))))"

definition estimator_native_token_price :: "('g, 's) estimator_config \<Rightarrow> ('g, 's) estimator \<Rightarrow> ('e, u128 option) result" where
  "estimator_native_token_price cfg st = rmap Some (cached_price (infallible_prices st) (cfg_native_token cfg))"

section \<open>Amounts at a price\<close>

definition order_at_price_with_rounding_buffer ::
    "'g platform \<Rightarrow> token_pair_range \<Rightarrow> f64 \<Rightarrow> 'g pricegraph \<Rightarrow> f64 option \<Rightarrow>
     (orderbook_error, transitive_order option) result option" where
  "order_at_price_with_rounding_buffer pf pair_range limit_price pg buffer =
     map_option (rmap (map_option (\<lambda>ord.
       case buffer of
         None \<Rightarrow> ord
       | Some buffer \<Rightarrow>
           (let order_limit_price = f64_div (tr_buy ord) (tr_sell ord);
                user_sell = tr_sell ord;
                user_buy = f64_mul (tr_sell ord) limit_price;
                limit_price_that_solver_sees = f64_div user_buy (f64_sub user_sell buffer)
            in if f64_ge order_limit_price limit_price_that_solver_sees
               then \<lparr>tr_buy = user_buy, tr_sell = user_sell\<rparr>
               else \<lparr>tr_buy = user_buy, tr_sell = f64_add user_sell buffer\<rparr>))))
       (order_for_limit_price pf pg pair_range limit_price)"

section \<open>Handlers\<close>

type_synonym ('g, 's, 'a) handler = "(rejection_reason, ('g, 's) estimator, 'a) proc"

definition handler_get_token_info :: "('g, 's) estimator_config \<Rightarrow> u16 \<Rightarrow> ('g, 's, token_base_info) handler" where
  "handler_get_token_info cfg t =
     pmap_err (\<lambda>_. NoTokenInfo) (on_est_world (get_token_info (cfg_token_info cfg) t))"

definition handler_get_market :: "('g, 's) estimator_config \<Rightarrow> currency_pair \<Rightarrow> ('g, 's, pg_market) handler" where
  "handler_get_market cfg pair =
     pmap_err (\<lambda>_. TokenNotFound) (on_est_world (as_market (cfg_token_info cfg) pair))"

definition handler_pricegraph ::
    "('g, 's) estimator_config \<Rightarrow> system_time \<Rightarrow> query_parameters \<Rightarrow> rounding \<Rightarrow> ('g, 's, 'g pricegraph) handler" where
  "handler_pricegraph cfg now query kind =
     pmap_err InternalError (estimator_pricegraph cfg now (qp_time query) (qp_ignore_addresses query) kind)"

definition internal :: "(orderbook_error, 'a) result option \<Rightarrow> ('g, 's, 'a) handler" where
  "internal r = pmap_err (\<lambda>_. InternalError ''orderbook error'') (pcompute r)"

definition get_markets ::
    "('g, 's) estimator_config \<Rightarrow> system_time \<Rightarrow> currency_pair \<Rightarrow> query_parameters \<Rightarrow> ('g, 's, markets_result) handler" where
  "get_markets cfg now pair query =
     pbind (handler_get_market cfg pair) (\<lambda>m.
     pbind (handler_pricegraph cfg now query RoundingDisabled) (\<lambda>pg.
     pbind (internal (find_transitive_orderbook (cfg_platform cfg) pg m (qp_hops query) None)) (\<lambda>tob.
     let result = markets_result_from tob
     in case qp_unit query of
          UnitAtoms \<Rightarrow> plift (Ok result)
        | UnitBaseUnits \<Rightarrow>
            pbind (handler_get_token_info cfg (market_base m)) (\<lambda>base_token.
            pbind (handler_get_token_info cfg (market_quote m)) (\<lambda>quote_token.
            plift (markets_into_base_units result base_token quote_token))))))"

definition requested_sell_amount ::
    "('g, 's) estimator_config \<Rightarrow> token_pair \<Rightarrow> f64 \<Rightarrow> query_parameters \<Rightarrow> ('g, 's, token_amount \<times> f64) handler" where
  "requested_sell_amount cfg pair requested query =
     (case qp_unit query of
        UnitAtoms \<Rightarrow> plift (Ok (Atoms (f64_as_u128 requested), requested))
      | UnitBaseUnits \<Rightarrow>
          pbind (handler_get_token_info cfg (pair_sell pair)) (\<lambda>info.
          plift (rmap (\<lambda>atoms. (BaseUnits requested, f64_of_nat (unat atoms)))
            (as_atoms (BaseUnits requested) info))))"

definition estimate_buy_amount ::
    "('g, 's) estimator_config \<Rightarrow> system_time \<Rightarrow> currency_pair \<Rightarrow> f64 \<Rightarrow> query_parameters \<Rightarrow>
     ('g, 's, estimated_order_result) handler" where
  "estimate_buy_amount cfg now pair requested query =
     pbind (handler_get_market cfg pair) (\<lambda>m.
     let pair_range = \<lparr>range_pair = bid_pair m, range_hops = qp_hops query\<rparr>
     in pbind (requested_sell_amount cfg (bid_pair m) requested query) (\<lambda>(sell, sell_atoms).
        pbind (handler_pricegraph cfg now query (qp_rounding_buffer query)) (\<lambda>pg.
        pbind (case qp_rounding_buffer query of
                 RoundingEnabled \<Rightarrow>
                   pget (\<lambda>st. rmap (\<lambda>buffer. f64_max (f64_sub sell_atoms buffer) (Zero False))
                     (estimator_rounding_buffer cfg (bid_pair m) st))
               | RoundingDisabled \<Rightarrow> plift (Ok sell_atoms)) (\<lambda>sell_atoms.
        pbind (internal (order_for_sell_amount (cfg_platform cfg) pg pair_range sell_atoms)) (\<lambda>order.
        let buy = Atoms (f64_as_u128 (case order of Some ord \<Rightarrow> tr_buy ord | None \<Rightarrow> Zero False))
        in pbind (if qp_unit query = UnitBaseUnits
                  then pbind (handler_get_token_info cfg (pair_buy (bid_pair m))) (\<lambda>info. plift (into_base_units buy info))
                  else plift (Ok buy)) (\<lambda>buy.
           plift (Ok \<lparr>base_token_id = pair_buy (bid_pair m), quote_token_id = pair_sell (bid_pair m),
             buy_amount_in_base = buy, sell_amount_in_quote = sell\<rparr>)))))))"

definition estimate_amounts_at_price_atoms ::
    "'g platform \<Rightarrow> token_pair_range \<Rightarrow> f64 \<Rightarrow> 'g pricegraph \<Rightarrow> f64 option \<Rightarrow>
     (orderbook_error, estimated_order_result) result option" where
  "estimate_amounts_at_price_atoms pf pair_range price_in_quote pg buffer =
     (let limit_price = f64_div (Num 1) price_in_quote
      in map_option (rmap (\<lambda>order.
           let ord = (case order of Some ord \<Rightarrow> ord | None \<Rightarrow> \<lparr>tr_buy = Zero False, tr_sell = Zero False\<rparr>)
           in \<lparr>base_token_id = pair_buy (range_pair pair_range), quote_token_id = pair_sell (range_pair pair_range),
               buy_amount_in_base = Atoms (f64_as_u128 (tr_buy ord)), sell_amount_in_quote = Atoms (f64_as_u128 (tr_sell ord))\<rparr>))
         (order_at_price_with_rounding_buffer pf pair_range limit_price pg buffer))"

definition estimate_amounts_at_price ::
    "('g, 's) estimator_config \<Rightarrow> system_time \<Rightarrow> currency_pair \<Rightarrow> f64 \<Rightarrow> query_parameters \<Rightarrow>
     ('g, 's, estimated_order_result) handler" where
  "estimate_amounts_at_price cfg now pair price_in_quote query =
     pbind (handler_get_market cfg pair) (\<lambda>m.
     let pair_range = \<lparr>range_pair = bid_pair m, range_hops = qp_hops query\<rparr>
     in pbind (handler_pricegraph cfg now query (qp_rounding_buffer query)) (\<lambda>pg.
        pbind (case qp_rounding_buffer query of
                 RoundingEnabled \<Rightarrow> pget (\<lambda>st. rmap Some (estimator_rounding_buffer cfg (bid_pair m) st))
               | RoundingDisabled \<Rightarrow> plift (Ok None)) (\<lambda>buffer.
        case qp_unit query of
          UnitAtoms \<Rightarrow> internal (estimate_amounts_at_price_atoms (cfg_platform cfg) pair_range price_in_quote pg buffer)
        | UnitBaseUnits \<Rightarrow>
            pbind (handler_get_token_info cfg (pair_buy (bid_pair m))) (\<lambda>buy_info.
            pbind (handler_get_token_info cfg (pair_sell (bid_pair m))) (\<lambda>sell_info.
            pbind (plift (base_unit_in_atoms sell_info)) (\<lambda>sell_unit.
            pbind (plift (base_unit_in_atoms buy_info)) (\<lambda>buy_unit.
            pbind (internal (estimate_amounts_at_price_atoms (cfg_platform cfg) pair_range
                (f64_mul price_in_quote (f64_div (f64_of_nat (unat sell_unit)) (f64_of_nat (unat buy_unit)))) pg buffer)) (\<lambda>result.
            pbind (plift (into_base_units (buy_amount_in_base result) buy_info)) (\<lambda>buy.
            pbind (plift (into_base_units (sell_amount_in_quote result) sell_info)) (\<lambda>sell.
            plift (Ok (result\<lparr>buy_amount_in_base := buy, sell_amount_in_quote := sell\<rparr>))))))))))))"

definition overlapping_exchange_rate :: "transitive_order \<Rightarrow> f64" where
  "overlapping_exchange_rate ord =
     f64_div (Num 1) (f64_mul (tr_exchange_rate ord) (f64_powi FEE_FACTOR 2))"

definition estimate_best_ask_price ::
    "('g, 's) estimator_config \<Rightarrow> system_time \<Rightarrow> currency_pair \<Rightarrow> query_parameters \<Rightarrow> ('g, 's, f64 option) handler" where
  "estimate_best_ask_price cfg now pair query =
     pbind (handler_get_market cfg pair) (\<lambda>m.
     pbind (handler_pricegraph cfg now query (qp_rounding_buffer query)) (\<lambda>pg.
     pbind (internal (best_ask_transitive_order (cfg_platform cfg) pg m)) (\<lambda>order.
     let price = map_option (\<lambda>ord. f64_div (Num 1) (overlapping_exchange_rate ord)) order
     in case qp_unit query of
          UnitAtoms \<Rightarrow> plift (Ok price)
        | UnitBaseUnits \<Rightarrow>
            pbind (handler_get_token_info cfg (market_base m)) (\<lambda>base_token.
            pbind (handler_get_token_info cfg (market_quote m)) (\<lambda>quote_token.
            plift (Ok (price_estimate_into_base_units price base_token quote_token)))))))"

definition get_minimum_order_size_owl :: "viability \<Rightarrow> (rejection_reason, u128) result" where
  "get_minimum_order_size_owl v =
     (let fee_ratio = 1000
      in rmap (\<lambda>fee. fee * 2 * fee_ratio) (map_err InternalError (min_average_fee v)))"

section \<open>Rounding buffers\<close>

definition sells_from :: "address \<times> u16 \<Rightarrow> order \<Rightarrow> bool" where
  "sells_from key ord \<longleftrightarrow> (account_id ord, sell_token ord) = key"

text \<open>The largest buffer of the orders that sell a token of an account.\<close>

definition largest_buffer :: "address \<times> u16 \<Rightarrow> order list \<Rightarrow> u128 list \<Rightarrow> u128 option" where
  "largest_buffer key orders bs =
     (case map snd (filter (\<lambda>(ord, b). sells_from key ord) (zip orders bs)) of
        [] \<Rightarrow> None
      | b # bs \<Rightarrow> Some (fold max bs b))"

lemma fold_max_start: "fold max bs (max b c) = max b (fold max bs (c :: u128))"
proof (induction bs arbitrary: c)
  case (Cons a bs)
  from Cons [of "max a c"] show ?case
    by (simp add: max.left_commute [of a b])
qed simp

lemma largest_buffer_Cons:
  "largest_buffer key (ord # orders) (b # bs) =
     (if sells_from key ord
      then Some (case largest_buffer key orders bs of None \<Rightarrow> b | Some b' \<Rightarrow> max b b')
      else largest_buffer key orders bs)"
proof -
  have "fold max cs (max c b) = max b (fold max cs c)" for c cs
    using fold_max_start [of cs b c] unfolding max.commute [of b c] .
  then show ?thesis
    by (auto simp: largest_buffer_def split: list.split)
qed

lemma buffer_orders_spec:
  assumes "buffer_orders buffer orders buffers = Ok (orders', buffers')" "hm_wf buffers"
  shows "\<exists>bs. list_all2 (\<lambda>ord b. buffer ord = Ok b) orders bs \<and> orders' = map2 reduce_order bs orders \<and> hm_wf buffers' \<and>
    (\<forall>key. hm_get buffers' key =
      (case largest_buffer key orders bs of None \<Rightarrow> hm_get buffers key | Some b \<Rightarrow> Some (max (hm_or_default buffers key 0) b)))"
  using assms
proof (induction orders arbitrary: buffers orders')
  case Nil
  then show ?case
    by (auto simp: largest_buffer_def intro!: exI [of _ "[]"])
next
  case (Cons ord orders)
  let ?key = "(account_id ord, sell_token ord)"
  from Cons.prems(1) obtain b rest where b: "buffer ord = Ok b"
    and rest: "buffer_orders buffer orders (hm_insert ?key (max (hm_or_default buffers ?key 0) b) buffers) = Ok (rest, buffers')"
    and orders': "orders' = reduce_order b ord # rest"
    by (auto simp: rbind_eq_Ok Let_def)
  let ?buffers = "hm_insert ?key (max (hm_or_default buffers ?key 0) b) buffers"
  obtain bs where bs: "list_all2 (\<lambda>ord b. buffer ord = Ok b) orders bs" "rest = map2 reduce_order bs orders" "hm_wf buffers'"
    "\<And>key. hm_get buffers' key =
      (case largest_buffer key orders bs of None \<Rightarrow> hm_get ?buffers key | Some b \<Rightarrow> Some (max (hm_or_default ?buffers key 0) b))"
    using Cons.IH [OF rest] Cons.prems(2) by auto
  have "hm_get buffers' key =
      (case largest_buffer key (ord # orders) (b # bs) of None \<Rightarrow> hm_get buffers key
       | Some b \<Rightarrow> Some (max (hm_or_default buffers key 0) b))" for key
    unfolding bs(4) largest_buffer_Cons
    by (auto simp: sells_from_def hm_or_default_def max.assoc split: option.split)
  with b bs(1-3) orders' show ?case
    by (intro exI [of _ "b # bs"]) simp
qed

lemma reduce_balances_get:
  assumes "hm_wf buffers"
  shows "hm_get (reduce_balances buffers accounts) key =
    map_option (\<lambda>balance. case hm_get buffers key of
      None \<Rightarrow> balance | Some buffer \<Rightarrow> saturating_sub balance (ucast buffer)) (hm_get accounts key)"
  using assms unfolding reduce_balances_def
proof (induction buffers arbitrary: accounts)
  case (Cons kb buffers)
  obtain k b where kb: "kb = (k, b)"
    by (cases kb)
  have "hm_get buffers k = None"
    using Cons.prems by (simp add: kb map_of_eq_None_iff)
  then show ?case
    using Cons.IH Cons.prems by (auto simp: kb split: option.split)
qed (simp add: option.map_ident)

definition buffered_balance :: "u256 \<Rightarrow> u128 option \<Rightarrow> u256" where
  "buffered_balance balance buffer = (case buffer of None \<Rightarrow> balance | Some b \<Rightarrow> saturating_sub balance (ucast b))"

lemma apply_rounding_buffer_spec:
  assumes "apply_rounding_buffer prs factor (accounts, orders) = Ok (accounts', orders')"
  shows "\<exists>fee bs. prs 0 = Ok fee \<and>
    list_all2 (\<lambda>ord b. order_buffer prs (f64_of_nat (unat fee)) factor ord = Ok b) orders bs \<and>
    orders' = map2 reduce_order bs orders \<and>
    (\<forall>key. hm_get accounts' key = map_option (\<lambda>balance. buffered_balance balance (largest_buffer key orders bs)) (hm_get accounts key))"
proof -
  from assms obtain fee buffers where fee: "prs 0 = Ok fee"
    and run: "buffer_orders (order_buffer prs (f64_of_nat (unat fee)) factor) orders [] = Ok (orders', buffers)"
    and accounts': "accounts' = reduce_balances buffers accounts"
    by (auto simp: apply_rounding_buffer_def rbind_eq_Ok)
  obtain bs where bs: "list_all2 (\<lambda>ord b. order_buffer prs (f64_of_nat (unat fee)) factor ord = Ok b) orders bs"
    "orders' = map2 reduce_order bs orders" "hm_wf buffers"
    "\<And>key. hm_get buffers key = (case largest_buffer key orders bs of None \<Rightarrow> hm_get [] key | Some b \<Rightarrow> Some (max (hm_or_default [] key 0) b))"
    using buffer_orders_spec [OF run] by auto
  have "hm_get buffers key = largest_buffer key orders bs" for key
    unfolding bs(4) by (simp add: hm_or_default_def max_def split: option.split)
  then have "hm_get accounts' key = map_option (\<lambda>balance. buffered_balance balance (largest_buffer key orders bs)) (hm_get accounts key)" for key
    unfolding accounts' reduce_balances_get [OF bs(3)] buffered_balance_def by simp
  with fee bs(1,2) show ?thesis
    by blast
qed


section \<open>Prices that are always there\<close>

lemma cached_price_not_Err: "cached_price pc t \<noteq> Err e"
  by (auto simp: cached_price_def base_unit_in_atoms_def Let_def split: option.split)

lemma cached_price_Panic:
  "cached_price pc t = Panic \<longleftrightarrow>
     hm_get (pc_prices pc) t = None \<and> (\<exists>info. hm_get (pc_tokens pc) t = Some info \<and> 128 \<le> unat (tbi_decimals info))"
  by (auto simp: cached_price_def base_unit_panics_iff split: option.splits)

lemma cached_price_nonzero:
  assumes "0 \<notin> snd ` set (pc_prices pc)" "cached_price pc t = Ok p"
  shows "p \<noteq> 0"
proof -
  have "hm_get (pc_prices pc) k \<noteq> Some 0" for k
    using assms(1) by (force dest: map_of_SomeD)
  moreover have "(10 :: u128) ^ 18 \<noteq> 0"
    by simp
  ultimately show ?thesis
    using assms(2) by (auto simp: cached_price_def base_unit_in_atoms_def Let_def split: option.splits if_splits)
qed

lemma order_buffer_cached:
  fixes e :: 'e
  shows "order_buffer (cached_price pc) fee factor ord \<noteq> Err e"
    and "cached_price pc (buy_token ord) = (Panic :: ('e, u128) result) \<or> cached_price pc (sell_token ord) = (Panic :: ('e, u128) result) \<Longrightarrow>
      order_buffer (cached_price pc) fee factor ord = (Panic :: ('e, u128) result)"
proof -
  show "order_buffer (cached_price pc) fee factor ord \<noteq> Err e"
    using cached_price_not_Err [of pc "buy_token ord" e] cached_price_not_Err [of pc "sell_token ord" e]
    by (auto simp: order_buffer_def rbind_eq_Err)
  assume "cached_price pc (buy_token ord) = (Panic :: ('e, u128) result) \<or> cached_price pc (sell_token ord) = (Panic :: ('e, u128) result)"
  moreover obtain "(\<exists>p. cached_price pc (buy_token ord) = (Ok p :: ('e, u128) result)) \<or> cached_price pc (buy_token ord) = (Panic :: ('e, u128) result)"
    using cached_price_not_Err [of pc "buy_token ord"] by (metis result.exhaust)
  ultimately show "order_buffer (cached_price pc) fee factor ord = (Panic :: ('e, u128) result)"
    by (auto simp: order_buffer_def)
qed

lemma buffer_orders_Panic:
  assumes "\<And>ord e. buffer ord \<noteq> Err e" "ord \<in> set orders" "buffer ord = Panic"
  shows "buffer_orders buffer orders buffers = Panic"
  using assms(2)
proof (induction orders arbitrary: buffers)
  case (Cons x orders)
  show ?case
  proof (cases "x = ord")
    case True
    then show ?thesis
      using assms(3) by simp
  next
    case False
    then show ?thesis
      using Cons assms(1) [of x] by (cases "buffer x") (auto simp: Let_def)
  qed
qed simp

section \<open>Handlers leave the caches alone\<close>

definition caches :: "('g, 's) estimator \<Rightarrow> 'g pricegraph \<times> 'g pricegraph \<times> price_cache" where
  "caches st = (pricegraph_raw st, pricegraph_with_rounding_buffer st, infallible_prices st)"

text \<open>A computation that leaves a part of the state as it was, however it ends.\<close>

definition preserves :: "('s \<Rightarrow> 'b) \<Rightarrow> ('e, 's, 'a) proc \<Rightarrow> bool" where
  "preserves part m \<longleftrightarrow> (\<forall>st r st'. m st = Some (r, st') \<longrightarrow> part st' = part st)"

abbreviation read_only :: "('e, ('g, 's) estimator, 'a) proc \<Rightarrow> bool" where
  "read_only \<equiv> preserves caches"

lemma preservesD: "preserves part m \<Longrightarrow> m st = Some (r, st') \<Longrightarrow> part st' = part st"
  by (simp add: preserves_def)

lemma preserves_bind:
  assumes "preserves part m" "\<And>a. preserves part (k a)"
  shows "preserves part (pbind m k)"
  unfolding preserves_def
proof (intro allI impI)
  fix st r st' assume run: "pbind m k st = Some (r, st')"
  have "m st \<noteq> None"
    using run by (cases "m st") (simp_all add: pbind_def)
  then obtain q st1 where q: "m st = Some (q, st1)"
    by auto
  then have "part st1 = part st"
    by (rule preservesD [OF assms(1)])
  moreover have "part st' = part st1"
    using run q preservesD [OF assms(2)] by (cases q) (auto simp: pbind_def)
  ultimately show "part st' = part st"
    by simp
qed

lemma preserves_base: "preserves part (plift r)" "preserves part (pcompute ro)" "preserves part (pget g)"
  by (auto simp: preserves_def plift_def pcompute_def pget_def)

lemma preserves_modify: "(\<And>st. part (g st) = part st) \<Longrightarrow> preserves part (pmodify g)"
  by (auto simp: preserves_def pmodify_def)

lemma preserves_err: "preserves part m \<Longrightarrow> preserves part (pmap_err g m)"
  by (fastforce simp: preserves_def pmap_err_def)

lemma preserves_log: "preserves part m \<Longrightarrow> preserves part (plog m)"
  by (fastforce simp: preserves_def plog_def)

lemma preserves_world:
  assumes "\<And>st s. part (st\<lparr>est_world := s\<rparr>) = part st"
  shows "preserves part (on_est_world m)" "preserves part (on_est_world_proc m')"
  using assms by (auto simp: preserves_def on_est_world_def on_est_world_proc_def split: prod.splits)

lemma preserves_internal: "preserves part (internal ro)"
  unfolding internal_def by (intro preserves_err preserves_base)

lemma read_only_world: "read_only (on_est_world m)"
  by (rule preserves_world) (simp add: caches_def)

lemma read_only_calls:
  "read_only (handler_get_token_info cfg t)" "read_only (handler_get_market cfg pair)" "read_only (handler_pricegraph cfg now query kind)"
proof -
  show "read_only (handler_get_token_info cfg t)" "read_only (handler_get_market cfg pair)"
    by (simp_all add: handler_get_token_info_def handler_get_market_def preserves_err read_only_world)
  show "read_only (handler_pricegraph cfg now query kind)"
    unfolding handler_pricegraph_def estimator_pricegraph_def apply_rounding_buffer_to_auction_data_def
    by (intro preserves_err) (simp add: preserves_bind preserves_base read_only_world)
qed

lemmas read_only_intros = preserves_bind preserves_base preserves_internal read_only_calls

lemma handlers_read_only:
  "read_only (get_markets cfg now pair query)" "read_only (estimate_buy_amount cfg now pair requested query)"
  "read_only (estimate_amounts_at_price cfg now pair price query)" "read_only (estimate_best_ask_price cfg now pair query)"
  unfolding get_markets_def estimate_buy_amount_def estimate_amounts_at_price_def estimate_best_ask_price_def
    requested_sell_amount_def Let_def case_prod_beta
  by (auto intro!: read_only_intros split: amount_unit.split rounding.split)

section \<open>Correctness of the service\<close>


definition unpriced_large :: "price_cache \<Rightarrow> u16 \<Rightarrow> bool" where
  "unpriced_large pc t \<longleftrightarrow> hm_get (pc_prices pc) t = None \<and>
     (case hm_get (pc_tokens pc) t of None \<Rightarrow> False | Some info \<Rightarrow> 128 \<le> unat (tbi_decimals info))"

lemma cached_price_large: "cached_price pc t = Panic \<longleftrightarrow> unpriced_large pc t"
  by (auto simp: cached_price_Panic unpriced_large_def split: option.split)

lemma order_buffer_Ok:
  assumes "\<not> unpriced_large pc (buy_token ord)" "\<not> unpriced_large pc (sell_token ord)"
  shows "\<exists>b. order_buffer (cached_price pc) fee factor ord = (Ok b :: ('e, u128) result)"
proof -
  have "\<exists>p. cached_price pc t = (Ok p :: ('e, u128) result)" if "\<not> unpriced_large pc t" for t
    using that cached_price_not_Err [of pc t] cached_price_large [of pc t] by (metis result.exhaust)
  from this [OF assms(1)] this [OF assms(2)] show ?thesis
    by (auto simp: order_buffer_def)
qed

lemma buffer_orders_Ok:
  assumes "\<And>ord. ord \<in> set orders \<Longrightarrow> \<exists>b. buffer ord = Ok b"
  shows "\<exists>r. buffer_orders buffer orders buffers = Ok r"
  using assms
proof (induction orders arbitrary: buffers)
  case (Cons ord orders)
  obtain b where "buffer ord = Ok b"
    using Cons.prems by auto
  moreover have "\<exists>r. buffer_orders buffer orders buffers = Ok r" for buffers
    using Cons by simp
  ultimately show ?case
    by (metis (no_types, lifting) buffer_orders.simps(2) rbind.simps(1) rmap.simps(1))
qed simp

lemma default_buffered:
  "\<exists>accounts' orders'. apply_rounding_buffer (cached_price price_cache_default) factor (accounts, orders) =
     (Ok (accounts', orders') :: auction_data res)"
proof -
  obtain fee where fee: "(cached_price price_cache_default 0 :: u128 res) = Ok fee"
    by (simp add: cached_price_def price_cache_default_def)
  have "\<exists>r. buffer_orders (order_buffer (cached_price price_cache_default) (f64_of_nat (unat fee)) factor) orders [] =
      (Ok r :: (order list \<times> balance_buffers) res)"
    by (rule buffer_orders_Ok) (simp add: order_buffer_Ok unpriced_large_def price_cache_default_def)
  with fee show ?thesis
    by (auto simp: apply_rounding_buffer_def)
qed



lemma rounding_buffer_never_Err:
  "apply_rounding_buffer (cached_price pc) factor (accounts, orders) \<noteq> Err (e :: string)"
proof -
  have "buffer_orders (order_buffer (cached_price pc) fee factor) orders buffers \<noteq> Err (e :: string)" for fee buffers
    by (induction orders arbitrary: buffers) (auto simp: rbind_eq_Err order_buffer_cached(1) Let_def rmap_eq_Err)
  then show ?thesis
    by (auto simp: apply_rounding_buffer_def rbind_eq_Err rmap_eq_Err cached_price_not_Err)
qed

text \<open>
  C12: The rounding buffer of prices from the cache is always found, whatever tokens the orders trade, unless a
  token of an order, or the fee token, has no price and is listed with 128 decimals or more: then the update of
  the order book panics.
\<close>

theorem rounding_buffer_total:
  "case apply_rounding_buffer (cached_price pc) factor (accounts, orders) :: (string, auction_data) result of
     Ok _ \<Rightarrow> \<not> list_ex (unpriced_large pc) (0 # map buy_token orders @ map sell_token orders)
   | Err _ \<Rightarrow> False
   | Panic \<Rightarrow> list_ex (unpriced_large pc) (0 # map buy_token orders @ map sell_token orders)"
proof -
  let ?price = "cached_price pc :: u16 \<Rightarrow> (string, u128) result"
  consider "?price 0 = Panic" | fee where "?price 0 = Ok fee"
    using cached_price_not_Err [of pc 0] by (metis result.exhaust)
  then show ?thesis
  proof cases
    case 1
    then have "unpriced_large pc 0"
      using cached_price_large by metis
    with 1 show ?thesis
      by (simp add: apply_rounding_buffer_def)
  next
    case 2
    let ?buffer = "order_buffer ?price (f64_of_nat (unat fee)) factor"
    have zero: "\<not> unpriced_large pc 0"
      using 2 cached_price_large [of pc 0] by (metis result.distinct(3))
    show ?thesis
    proof (cases "\<exists>ord \<in> set orders. unpriced_large pc (buy_token ord) \<or> unpriced_large pc (sell_token ord)")
      case True
      then obtain ord where "ord \<in> set orders" "?buffer ord = Panic"
        using order_buffer_cached(2) cached_price_large by metis
      then have "buffer_orders ?buffer orders [] = Panic"
        using buffer_orders_Panic order_buffer_cached(1) by metis
      with True 2 show ?thesis
        by (auto simp: apply_rounding_buffer_def list_ex_iff)
    next
      case False
      then obtain r where "buffer_orders ?buffer orders [] = Ok r"
        using buffer_orders_Ok [of orders ?buffer] order_buffer_Ok by metis
      with False 2 zero show ?thesis
        by (auto simp: apply_rounding_buffer_def list_ex_iff)
    qed
  qed
qed

text \<open>
  The handlers of the HTTP routes change neither the cached price graphs nor the cached prices, whether they
  answer, reject the request or panic.
\<close>

theorem handlers_keep_caches:
  "read_only (get_markets cfg now pair query) \<and> read_only (estimate_buy_amount cfg now pair requested query) \<and>
   read_only (estimate_amounts_at_price cfg now pair price query) \<and> read_only (estimate_best_ask_price cfg now pair query)"
  using handlers_read_only by blast

lemma pricegraph_from_auction_data_not_Err: "pricegraph_from_auction_data pf ad ignored \<noteq> Some (Err e)"
  by (auto simp: pricegraph_from_auction_data_def pricegraph_new_def from_orderbook_def split: result.splits option.splits)

lemma apply_rounding_buffer_cached_not_Err: "apply_rounding_buffer (cached_price pc) factor ad \<noteq> Err (e :: string)"
  using rounding_buffer_never_Err [of pc factor "fst ad" "snd ad"] by (metis prod.collapse)

lemma plog_not_Err: "plog m st \<noteq> Some (Err e, st')"
  by (auto simp: plog_def split: result.splits)

lemma update_infallible_not_Err: "update_infallible_price_source cfg pg st \<noteq> Some (Err e, st')"
  by (auto simp: update_infallible_price_source_def pbind_eq_Some_Err plog_not_Err)

lemma on_est_world_eq_Some: "on_est_world m st = Some (r, st') \<longleftrightarrow> (\<exists>s. m (est_world st) = (r, s) \<and> st' = st\<lparr>est_world := s\<rparr>)"
  by (auto simp: on_est_world_def split: prod.splits)

lemma estimator_update_Err:
  assumes "estimator_update cfg now st = Some (Err e, st')"
  shows "\<exists>s. auction_data_at cfg now Now (est_world st) = (Err e, s) \<and> st' = st\<lparr>est_world := s\<rparr>"
  using assms
  by (auto simp: estimator_update_def pbind_eq_Some_Err pstep_simps on_est_world_eq_Some apply_rounding_buffer_to_auction_data_def
      pricegraph_from_auction_data_not_Err apply_rounding_buffer_cached_not_Err update_infallible_not_Err)

text \<open>The cached graphs are those of some auction data, with the prices that are cached.\<close>

definition snapshot :: "('g, 's) estimator_config \<Rightarrow> auction_data \<Rightarrow> ('g, 's) estimator \<Rightarrow> bool" where
  "snapshot cfg ad st \<longleftrightarrow>
     pricegraph_from_auction_data (cfg_platform cfg) ad [] = Some (Ok (pricegraph_raw st)) \<and>
     (\<exists>ad'. apply_rounding_buffer (cached_price (infallible_prices st)) (extra_rounding_buffer_factor cfg) ad = (Ok ad' :: auction_data res) \<and>
        pricegraph_from_auction_data (cfg_platform cfg) ad' [] = Some (Ok (pricegraph_with_rounding_buffer st)))"

lemma snapshot_caches: "caches st' = caches st \<Longrightarrow> snapshot cfg ad st' \<longleftrightarrow> snapshot cfg ad st"
  by (simp add: snapshot_def caches_def)

lemma estimator_update_Ok:
  assumes "estimator_update cfg now st = Some (Ok (), st')"
  shows "\<exists>ad s. auction_data_at cfg now Now (est_world st) = (Ok ad, s) \<and> snapshot cfg ad st'"
  using assms
  by (auto simp: estimator_update_def pbind_eq_Some_Ok pstep_simps on_est_world_eq_Some apply_rounding_buffer_to_auction_data_def snapshot_def)

lemma pbind_eq_Some_Panic:
  "pbind m k st = Some (Panic, st') \<longleftrightarrow>
     m st = Some (Panic, st') \<or> (\<exists>a st1. m st = Some (Ok a, st1) \<and> k a st1 = Some (Panic, st'))"
  by (auto simp: pbind_def split: option.splits result.splits)

definition graphs :: "('g, 's) estimator \<Rightarrow> 'g pricegraph \<times> 'g pricegraph" where
  "graphs st = (pricegraph_raw st, pricegraph_with_rounding_buffer st)"

lemma update_infallible_graphs:
  assumes "update_infallible_price_source cfg pg st = Some (r, st')"
  shows "pricegraph_raw st' = pricegraph_raw st \<and> pricegraph_with_rounding_buffer st' = pricegraph_with_rounding_buffer st"
proof -
  have world: "graphs (st\<lparr>est_world := s\<rparr>) = graphs st" for st :: "('a, 'b) estimator" and s
    by (simp add: graphs_def)
  have "preserves graphs (update_infallible_price_source cfg pg)"
    unfolding update_infallible_price_source_def update_tokens_def update_cached_prices_def
    by (intro preserves_bind preserves_log preserves_err preserves_world [OF world] preserves_modify) (simp_all add: graphs_def)
  from preservesD [OF this assms] show ?thesis
    by (simp add: graphs_def)
qed

lemma estimator_update_Panic:
  assumes "estimator_update cfg now st = Some (Panic, st')"
  shows "pricegraph_with_rounding_buffer st' = pricegraph_with_rounding_buffer st \<and>
    (pricegraph_raw st' = pricegraph_raw st \<or>
     (\<exists>ad s. auction_data_at cfg now Now (est_world st) = (Ok ad, s) \<and>
        pricegraph_from_auction_data (cfg_platform cfg) ad [] = Some (Ok (pricegraph_raw st'))))"
  using assms unfolding estimator_update_def pbind_eq_Some_Panic apply_rounding_buffer_to_auction_data_def
  by (auto simp: pstep_simps on_est_world_eq_Some dest!: update_infallible_graphs)

text \<open>The service between two updates that succeed: it answers requests, and updates may fail.\<close>

inductive serving :: "('g, 's) estimator_config \<Rightarrow> ('g, 's) estimator \<Rightarrow> ('g, 's) estimator \<Rightarrow> bool" for cfg where
  serving_refl: "serving cfg st st"
| serving_markets: "serving cfg st st1 \<Longrightarrow> get_markets cfg now pair query st1 = Some (r1, st2) \<Longrightarrow> serving cfg st st2"
| serving_buy_amount: "serving cfg st st1 \<Longrightarrow> estimate_buy_amount cfg now tokens requested query st1 = Some (r2, st2) \<Longrightarrow> serving cfg st st2"
| serving_amounts: "serving cfg st st1 \<Longrightarrow> estimate_amounts_at_price cfg now tokens price query st1 = Some (r3, st2) \<Longrightarrow> serving cfg st st2"
| serving_best_ask: "serving cfg st st1 \<Longrightarrow> estimate_best_ask_price cfg now pair query st1 = Some (r4, st2) \<Longrightarrow> serving cfg st st2"
| serving_failed_update: "serving cfg st st1 \<Longrightarrow> estimator_update cfg now st1 = Some (Err e, st2) \<Longrightarrow> serving cfg st st2"

lemma serving_caches: "serving cfg st st' \<Longrightarrow> caches st' = caches st"
proof (induction rule: serving.induct)
  case (serving_failed_update st st1 now e st2)
  then show ?case
    using estimator_update_Err [of cfg now st1 e st2] by (auto simp: caches_def)
qed (metis preservesD handlers_read_only)+

text \<open>
  A sample service: its reader returns other auction data from the second read on.
\<close>

definition tradeable_order :: "address \<Rightarrow> u16 \<Rightarrow> u16 \<Rightarrow> order" where
  "tradeable_order u buy sell =
     \<lparr>oid = 0, account_id = u, buy_token = buy, sell_token = sell, numerator = 10 ^ 20, denominator = 10 ^ 20,
      remaining_sell_amount = 10 ^ 20, valid_from = 0, valid_until = 9\<rparr>"

definition first_auction :: auction_data where
  "first_auction = ([((1, 1), 10 ^ 21), ((2, 2), 10 ^ 21)], [tradeable_order 1 2 1, tradeable_order 2 1 2])"

definition changing_reading :: "nat orderbook_reading" where
  "changing_reading =
     \<lparr>reading_for_batch = (\<lambda>_ n. (Ok (if n = 0 then first_auction else ([], [])), Suc n)),
      reading_for_block = (\<lambda>_ n. (Ok ([], []), Suc n))\<rparr>"

definition sample_config :: "(adjacency, nat) estimator_config" where
  "sample_config =
     \<lparr>cfg_platform = list_platform, cfg_reader = changing_reading, extra_rounding_buffer_factor = Num 2,
      cfg_token_info = data_fetching [], external_price_sources = [], cfg_native_token = 1\<rparr>"

context price_platform
begin

lemma pricegraph_new_small:
  assumes "\<forall>el \<in> set elements. unat (pair_buy (el_pair el)) < 181 \<and> unat (pair_sell (el_pair el)) < 181"
  shows "\<exists>pg. pricegraph_new pf elements = Some (Ok pg)"
proof -
  obtain ob where ob: "from_elements pf elements = Ok ob" "orderbook_inv pf ob"
    "node_count (projection pf ob) = Suc (unat (Max (insert 0 (set (accepted_tokens elements)))))"
    by (rule from_elements_spec [of elements]) blast
  have "set (map snd (accepted_elements elements)) \<subseteq> set elements"
    by (auto simp: accepted_elements_def List.map_filter_def)
  then have "\<forall>t \<in> insert 0 (set (accepted_tokens elements)). unat t < 181"
    using assms by (fastforce simp: accepted_tokens_def)
  moreover have "Max (insert 0 (set (accepted_tokens elements))) \<in> insert 0 (set (accepted_tokens elements))"
    by (rule Max_in) simp_all
  ultimately have "node_count (projection pf ob) \<le> MAX_TOKENS"
    unfolding ob(3) MAX_TOKENS_def by fastforce
  from reduce_spec [OF ob(2) this] ob(1) show ?thesis
    by (auto simp: pricegraph_new_def from_orderbook_def)
qed

end

lemma sample_graph_built:
  assumes "\<forall>ord \<in> set orders. unat (buy_token ord) < 181 \<and> unat (sell_token ord) < 181"
  shows "\<exists>pg. pricegraph_from_auction_data list_platform (accounts, orders) [] = Some (Ok pg)"
  using lists.pricegraph_new_small [of "map (\<lambda>ord. to_element_with_accounts ord accounts) orders"] assms
  by (simp add: pricegraph_from_auction_data_def to_element_with_accounts_def to_element_def)

lemma buffered_tokens:
  assumes "apply_rounding_buffer prs factor (accounts, orders) = Ok (accounts', orders')"
  shows "\<forall>ord' \<in> set orders'. \<exists>ord \<in> set orders. buy_token ord' = buy_token ord \<and> sell_token ord' = sell_token ord"
proof -
  obtain bs where "orders' = map2 reduce_order bs orders"
    using apply_rounding_buffer_spec [OF assms] by blast
  then show ?thesis
    by (auto simp: reduce_order_def dest: set_zip_rightD)
qed

lemma sample_service_update:
  assumes "infallible_prices st = price_cache_default" "est_world st = 0"
  shows "\<exists>st'. estimator_update sample_config 0 st = Some (Ok (), st')"
proof -
  have small: "\<forall>ord \<in> set (snd first_auction). unat (buy_token ord) < 181 \<and> unat (sell_token ord) < 181"
    by (simp add: first_auction_def tradeable_order_def)
  obtain pg where pg: "pricegraph_from_auction_data list_platform first_auction [] = Some (Ok pg)"
    using sample_graph_built [OF small, of "fst first_auction"] by auto
  have "\<exists>accounts orders. apply_rounding_buffer (cached_price price_cache_default) (Num 2) first_auction =
      (Ok (accounts, orders) :: auction_data res)"
    using default_buffered [of "Num 2" "fst first_auction" "snd first_auction"] by simp
  then obtain accounts orders where buffered: "apply_rounding_buffer (cached_price price_cache_default) (Num 2) first_auction =
      (Ok (accounts, orders) :: auction_data res)"
    by blast
  obtain pg' where pg': "pricegraph_from_auction_data list_platform (accounts, orders) [] = Some (Ok pg')"
    using sample_graph_built [of orders accounts] buffered_tokens [of _ _ "fst first_auction" "snd first_auction"] buffered small by fastforce
  have ids: "all_ids (data_fetching []) s = (Ok [], s)" "get_token_infos (data_fetching []) [] s = (Ok [], s)" for s :: nat
    by (code_simp, code_simp)
  have avg: "average_price_sources [pricegraph_get_prices list_platform pg] [] s = Some (Ok [], s)" for s :: nat
    by (simp add: average_price_sources_def pricegraph_get_prices_def average_prices_def lossless_merge_def hm_collect_def)
  have "\<exists>st'. update_infallible_price_source sample_config pg (st\<lparr>est_world := 1\<rparr>) = Some (Ok (), st') \<and>
      infallible_prices st' = price_cache_default"
    using assms by (simp add: cache_update_tokens_def cache_update_prices_def price_cache_default_def hm_extend_def
      update_infallible_price_source_def update_tokens_def update_cached_prices_def sample_config_def
      ids avg pbind_def pmap_err_def on_est_world_def on_est_world_proc_def pmodify_def plog_def)
  moreover have "auction_data_at sample_config 0 Now 0 = (Ok first_auction, 1)"
    by (simp add: auction_data_at_def sample_config_def changing_reading_def batch_current_eq)
  ultimately show ?thesis
    using assms pg pg' buffered
    by (auto simp: estimator_update_def pbind_def on_est_world_def pcompute_def pmodify_def pget_def
      apply_rounding_buffer_to_auction_data_def sample_config_def)
qed

text \<open>
  C10: After an update that succeeded, and until the next one that does, whatever requests are answered in
  between and although these may read other auction data, the cached graphs are those of the auction data that
  the update read: the raw graph, and the graph with the rounding buffer for the cached prices taken off.  A
  request for the current time that ignores no account returns them and does not read the orderbook.  An
  update fails only when the orderbook cannot be read, and then changes none of the caches; an update that
  panics leaves the graph with the rounding buffer, and the raw graph unless it is already that of the
  auction data read.
\<close>

theorem graph_cache_coherent:
  "case estimator_update cfg now st of
     Some (Ok _, st1) \<Rightarrow> \<exists>ad s. auction_data_at cfg now Now (est_world st) = (Ok ad, s) \<and>
       (\<forall>st2. serving cfg st1 st2 \<longrightarrow> snapshot cfg ad st2 \<and>
          (\<forall>now' kind. estimator_pricegraph cfg now' Now [] kind st2 = Some (Ok (cached_pricegraph kind st2), st2)))
   | Some (Err e, st1) \<Rightarrow> caches st1 = caches st \<and> (\<exists>s. auction_data_at cfg now Now (est_world st) = (Err e, s))
   | Some (Panic, st1) \<Rightarrow> pricegraph_with_rounding_buffer st1 = pricegraph_with_rounding_buffer st \<and>
       (pricegraph_raw st1 = pricegraph_raw st \<or>
        (\<exists>ad s. auction_data_at cfg now Now (est_world st) = (Ok ad, s) \<and>
           pricegraph_from_auction_data (cfg_platform cfg) ad [] = Some (Ok (pricegraph_raw st1))))
   | None \<Rightarrow> True"
proof (cases "estimator_update cfg now st")
  case (Some u)
  obtain r st' where u: "u = (r, st')"
    by (cases u)
  show ?thesis
  proof (cases r)
    case (Ok v)
    with Some u obtain ad s where ad: "auction_data_at cfg now Now (est_world st) = (Ok ad, s)" "snapshot cfg ad st'"
      using estimator_update_Ok [of cfg now st st'] by auto
    have "snapshot cfg ad st2" if "serving cfg st' st2" for st2
      using ad(2) snapshot_caches [OF serving_caches [OF that]] by blast
    with Some u Ok ad(1) show ?thesis
      by (auto simp: estimator_pricegraph_def pget_def)
  next
    case (Err e)
    with Some u show ?thesis
      using estimator_update_Err [of cfg now st e st'] by (auto simp: caches_def)
  next
    case Panic
    with Some u show ?thesis
      using estimator_update_Panic [of cfg now st st'] by simp
  qed
qed simp

theorem graph_cache_coherent_witness:
  "\<exists>st st1. estimator_new sample_config 0 = Some (Ok st) \<and> estimator_update sample_config 0 st = Some (Ok (), st1) \<and>
     serving sample_config st1 st1 \<and> snapshot sample_config first_auction st1 \<and>
     estimator_pricegraph sample_config 400 Now [] RoundingEnabled st1 = Some (Ok (pricegraph_with_rounding_buffer st1), st1)"
proof -
  obtain st where st: "estimator_new sample_config 0 = Some (Ok st)" "infallible_prices st = price_cache_default" "est_world st = 0"
    using sample_graph_built [of "[]" "[]"] by (auto simp: estimator_new_def sample_config_def pricegraph_from_auction_data_def)
  obtain st1 where run: "estimator_update sample_config 0 st = Some (Ok (), st1)"
    using sample_service_update [OF st(2,3)] by blast
  have "auction_data_at sample_config 0 Now (est_world st) = (Ok first_auction, 1)"
    using st(3) by (simp add: auction_data_at_def sample_config_def changing_reading_def batch_current_eq)
  moreover have "serving sample_config st1 st1"
    by (rule serving_refl)
  ultimately show ?thesis
    using graph_cache_coherent [of sample_config 0 st] run st(1) by (auto simp: cached_pricegraph_def)
qed

end
