(* ===== verification/OptimizationSolver.thy ===== *)
theory OptimizationSolver
  imports PriceSources NaiveSolver
begin

text \<open>
  The optimisation price finder (\<open>services-core/src/price_finding/{optimization_price_finder,
  price_finder_interface}.rs\<close>, \<open>price_finding.rs\<close> and \<open>metrics/solver_metrics.rs\<close>): the instance that is
  written for an external solver, the command line of the solver, how its answer becomes a solution, and
  the statistics it reports.  The solver process, the file system and the JSON library are parameters.

  The lemmas show which balances an instance holds, that the answer is read from the file the solver
  was told to write, which prices reach the solution, and when the price finder cannot panic.
\<close>

section \<open>Statistics of the solver\<close>

text \<open>Values of the JSON library; \<open>'n\<close> stands for its numbers, whose conversions are parameters.\<close>

datatype 'n json_value = JNull | JBool bool | JNumber 'n | JString string | JArray "'n json_value list" |
  JObject "(string \<times> 'n json_value) list"

record 'n number_conversions =
  as_f64 :: "'n \<Rightarrow> f64 option"
  as_i64 :: "'n \<Rightarrow> int option"
  as_u64 :: "'n \<Rightarrow> u64 option"
  parse_f64 :: "string \<Rightarrow> f64 option"

record 'n solver_stats =
  obj_vals :: "(string \<times> 'n json_value) list"
  stats_solver :: "(string \<times> 'n json_value) list"

record solver_metrics =
  volume :: f64
  utility :: f64
  utility_disreg :: f64
  utility_disreg_touched :: f64
  fees :: f64
  orders_touched :: f64
  runtime :: f64
  runtime_preprocessing :: f64
  runtime_solving :: f64
  runtime_ring_finding :: f64
  runtime_validation :: f64
  nr_variables :: f64
  nr_bool_variables :: f64
  optimality_gap :: f64
  obj_val :: f64
  obj_val_sc :: f64
  interrupted :: u64

definition f64_of_int :: "int \<Rightarrow> f64" where
  "f64_of_int i = f64_round (of_int i)"

definition or_else :: "'a option \<Rightarrow> 'a option \<Rightarrow> 'a option" where
  "or_else x y = (case x of None \<Rightarrow> y | Some a \<Rightarrow> Some a)"

definition number_to_f64 :: "'n number_conversions \<Rightarrow> 'n \<Rightarrow> f64" where
  "number_to_f64 nc number =
     (case or_else (or_else (as_f64 nc number) (map_option f64_of_int (as_i64 nc number)))
         (map_option (\<lambda>n. f64_of_nat (unat n)) (as_u64 nc number)) of
        Some x \<Rightarrow> x | None \<Rightarrow> Zero False)"

definition f64_or_0 :: "'n number_conversions \<Rightarrow> (string \<times> 'n json_value) list \<Rightarrow> string \<Rightarrow> f64" where
  "f64_or_0 nc values key =
     (case hm_get values key of
        Some (JNumber number) \<Rightarrow> number_to_f64 nc number
      | Some (JString s) \<Rightarrow> (case parse_f64 nc s of Some x \<Rightarrow> x | None \<Rightarrow> Zero False)
      | _ \<Rightarrow> Zero False)"

definition handle_stats :: "'n number_conversions \<Rightarrow> 'n solver_stats \<Rightarrow> solver_metrics \<Rightarrow> solver_metrics" where
  "handle_stats nc stats m =
     \<lparr>volume = f64_or_0 nc (obj_vals stats) ''volume'',
      utility = f64_or_0 nc (obj_vals stats) ''utility'',
      utility_disreg = f64_or_0 nc (obj_vals stats) ''utility_disreg'',
      utility_disreg_touched = f64_or_0 nc (obj_vals stats) ''utility_disreg_touched'',
      fees = f64_or_0 nc (obj_vals stats) ''fees'',
      orders_touched = f64_or_0 nc (obj_vals stats) ''orders_touched'',
      runtime = f64_or_0 nc (stats_solver stats) ''runtime'',
      runtime_preprocessing = f64_or_0 nc (stats_solver stats) ''runtime_preprocessing'',
      runtime_solving = f64_or_0 nc (stats_solver stats) ''runtime_solving'',
      runtime_ring_finding = f64_or_0 nc (stats_solver stats) ''runtime_ring_finding'',
      runtime_validation = f64_or_0 nc (stats_solver stats) ''runtime_validation'',
      nr_variables = f64_or_0 nc (stats_solver stats) ''nr_variables'',
      nr_bool_variables = f64_or_0 nc (stats_solver stats) ''nr_bool_variables'',
      optimality_gap = f64_or_0 nc (stats_solver stats) ''optimality_gap'',
      obj_val = f64_or_0 nc (stats_solver stats) ''obj_val'',
      obj_val_sc = f64_or_0 nc (stats_solver stats) ''obj_val_sc'',
      interrupted = (if hm_get (stats_solver stats) ''exit_status'' = Some (JString ''interrupted'')
        then interrupted m + 1 else interrupted m)\<rparr>"

section \<open>The answer of the solver\<close>

record solver_executed_order =
  out_account_id :: address
  out_order_id :: u16
  exec_sell_amount :: u128
  exec_buy_amount :: u128

record 'n solver_output =
  output_orders :: "solver_executed_order list"
  output_prices :: "(u16 \<times> u128 option) list"
  output_stats :: "'n solver_stats"

definition output_executed_order :: "solver_executed_order \<Rightarrow> executed_order" where
  "output_executed_order ord =
     \<lparr>ex_account_id = out_account_id ord, ex_order_id = out_order_id ord,
      sell_amount = exec_sell_amount ord, buy_amount = exec_buy_amount ord\<rparr>"

definition into_solution :: "'n solver_output \<Rightarrow> solution \<times> 'n solver_stats" where
  "into_solution out =
     (let ps = hm_collect (filter (\<lambda>(_, price). 0 < price)
            (List.map_filter (\<lambda>(token, price). map_option (Pair token) price) (output_prices out)))
      in (\<lparr>prices = ps, executed_orders = map output_executed_order (output_orders out)\<rparr>, output_stats out))"

section \<open>The instance for the solver\<close>

record solver_fee =
  sf_token :: u16
  sf_ratio :: f64

record solver_order =
  so_account_id :: address
  so_sell_token :: u16
  so_buy_token :: u16
  so_sell_amount :: u128
  so_buy_amount :: u128
  so_order_id :: u16

type_synonym solver_accounts = "(address \<times> (u16 \<times> u256) list) list"

record solver_input =
  input_tokens :: tokens
  ref_token :: u16
  input_accounts :: solver_accounts
  input_orders :: "solver_order list"
  input_fee :: "solver_fee option"

definition solver_fee_from :: "fee \<Rightarrow> solver_fee" where
  "solver_fee_from f = \<lparr>sf_token = fee_token f, sf_ratio = fee_ratio f\<rparr>"

definition solver_order_from :: "order \<Rightarrow> solver_order res" where
  "solver_order_from ord =
     rmap (\<lambda>(buy, sell).
       \<lparr>so_account_id = account_id ord, so_sell_token = sell_token ord, so_buy_token = buy_token ord,
        so_sell_amount = sell, so_buy_amount = buy, so_order_id = oid ord\<rparr>)
       (compute_remaining_buy_sell_amounts ord)"

definition token_balances_of :: "account_state \<Rightarrow> order \<Rightarrow> (u16 \<times> u256) list \<Rightarrow> (u16 \<times> u256) list" where
  "token_balances_of st ord token_balances =
     fold (\<lambda>token token_balances.
       let balance = read_balance st token (account_id ord)
       in if 0 < balance then bt_insert token balance token_balances else token_balances)
       [buy_token ord, sell_token ord] token_balances"

definition serialize_balances :: "account_state \<Rightarrow> order list \<Rightarrow> solver_accounts" where
  "serialize_balances st orders =
     fold (\<lambda>ord accounts.
       let token_balances = (case map_of accounts (account_id ord) of Some m \<Rightarrow> m | None \<Rightarrow> [])
       in bt_insert (account_id ord) (token_balances_of st ord token_balances) accounts) orders []"

section \<open>The command line\<close>

datatype internal_optimizer = Scip | Gurobi

definition optimizer_to_argument :: "internal_optimizer \<Rightarrow> string" where
  "optimizer_to_argument opt = (case opt of Scip \<Rightarrow> ''SCIP'' | Gurobi \<Rightarrow> ''GUROBI'')"

datatype opt_model = MixedInteger | TwoStage

definition model_to_argument :: "opt_model \<Rightarrow> string" where
  "model_to_argument model = (case model of MixedInteger \<Rightarrow> ''mip'' | TwoStage \<Rightarrow> ''two_stage'')"

datatype solver_type = NaiveSolver | StandardSolver | OpenSolver | BestRingSolver

record command =
  cmd_program :: string
  cmd_current_dir :: "string option"
  cmd_args :: "string list"

definition solution_file :: "string \<Rightarrow> string" where
  "solution_file result_folder = result_folder @ ''06_solution_int_valid.json''"

definition open_solver_command :: "string \<Rightarrow> string \<Rightarrow> string \<Rightarrow> u128 \<Rightarrow> command" where
  "open_solver_command result_folder input_file time_limit min_avg_fee_per_order =
     \<lparr>cmd_program = ''gp_match'', cmd_current_dir = None,
      cmd_args =
        [input_file, ''--solution='' @ solution_file result_folder, ''--logging=WARNING'', ''--time-limit='' @ time_limit,
         ''--min-avg-fee-per-order='' @ show_nat (unat min_avg_fee_per_order), ''best-token-pair'']\<rparr>"

definition private_solver_command ::
    "string \<Rightarrow> string \<Rightarrow> string \<Rightarrow> u128 \<Rightarrow> opt_model \<Rightarrow> internal_optimizer \<Rightarrow> bool \<Rightarrow> command" where
  "private_solver_command result_folder input_file time_limit min_avg_fee_per_order model opt best_ring =
     \<lparr>cmd_program = ''python'', cmd_current_dir = Some ''/app/batchauctions'',
      cmd_args =
        [''-m'', ''src._run'', input_file, ''--outputDir='' @ result_folder, ''--logging=WARNING'', ''--timeLimit='' @ time_limit,
         ''--minAvgFeePerOrder='' @ show_nat (unat min_avg_fee_per_order), ''--optModel='' @ model_to_argument model,
         ''--solver='' @ optimizer_to_argument opt, ''--useExternalPrices''] @
        (if best_ring then [''--solveBestCycle''] else [])\<rparr>"

definition execute_command ::
    "solver_type \<Rightarrow> string \<Rightarrow> string \<Rightarrow> string \<Rightarrow> u128 \<Rightarrow> internal_optimizer \<Rightarrow> command res" where
  "execute_command solver result_folder input_file time_limit min_avg_fee_per_order opt =
     (case solver of
        OpenSolver \<Rightarrow> Ok (open_solver_command result_folder input_file time_limit min_avg_fee_per_order)
      | NaiveSolver \<Rightarrow> Panic
      | _ \<Rightarrow> Ok (private_solver_command result_folder input_file time_limit min_avg_fee_per_order TwoStage opt
               (solver = BestRingSolver)))"

section \<open>Running the solver\<close>

text \<open>The operating system: files and processes; a process is known by whether it succeeded.\<close>

record 's solver_os =
  os_create_dir_all :: "string \<Rightarrow> ('s, unit) effect"
  os_create_file :: "string \<Rightarrow> ('s, unit) effect"
  os_write_all :: "string \<Rightarrow> string \<Rightarrow> ('s, unit) effect"
  os_read_file :: "string \<Rightarrow> ('s, string) effect"
  os_output :: "command \<Rightarrow> ('s, bool) effect"

text \<open>\<open>Path::parent\<close>, for a path that does not end in a component \<open>.\<close>\<close>

definition path_parent :: "string \<Rightarrow> string option" where
  "path_parent path =
     (let r = dropWhile ((=) (CHR ''/'')) (rev path);
          d = dropWhile ((\<noteq>) (CHR ''/'')) r;
          p = dropWhile ((=) (CHR ''/'')) d
      in if r = [] then None
         else if p = [] \<and> d \<noteq> [] then Some ''/''
         else Some (rev p))"

text \<open>The capacity of a \<open>BufWriter\<close>: a shorter input is only written when the writer is dropped, and an
  error is then ignored.\<close>

definition BUFFER_SIZE :: nat where
  "BUFFER_SIZE = 8192"

definition eignore :: "('s, unit) effect \<Rightarrow> ('s, unit) effect" where
  "eignore m s = (case m s of (Err _, s) \<Rightarrow> (Ok (), s) | r \<Rightarrow> r)"

definition write_input :: "'s solver_os \<Rightarrow> string \<Rightarrow> string \<Rightarrow> ('s, unit) effect" where
  "write_input os input_file input =
     ebind (case path_parent input_file of Some parent \<Rightarrow> os_create_dir_all os parent | None \<Rightarrow> elift (Ok ())) (\<lambda>_.
     ebind (os_create_file os input_file) (\<lambda>_.
     if BUFFER_SIZE \<le> length input then os_write_all os input_file input
     else eignore (os_write_all os input_file input)))"

definition read_output :: "'s solver_os \<Rightarrow> string \<Rightarrow> ('s, string) effect" where
  "read_output os result_folder = os_read_file os (result_folder @ ''06_solution_int_valid.json'')"

text \<open>\<open>Duration::as_secs_f64\<close>, \<open>f64::round\<close> (ties away from zero) and \<open>as u64\<close>\<close>

definition as_secs_f64 :: "duration \<Rightarrow> f64" where
  "as_secs_f64 d =
     f64_add (f64_of_nat (d div 1000000000)) (f64_div (f64_of_nat (d mod 1000000000)) (Num 1000000000))"

fun f64_nearest :: "f64 \<Rightarrow> f64" where
  "f64_nearest (Num q) =
     (let n = \<lfloor>\<bar>q\<bar> + 1 / 2\<rfloor>
      in if n = 0 then Zero (q < 0) else Num (if q < 0 then - of_int n else of_int n))"
| "f64_nearest x = x"

fun f64_as_u64 :: "f64 \<Rightarrow> u64" where
  "f64_as_u64 NaN = 0"
| "f64_as_u64 (Inf s) = (if s then 0 else - 1)"
| "f64_as_u64 (Zero s) = 0"
| "f64_as_u64 (Num q) = (if q < 0 then 0 else if 2 ^ 64 \<le> q then - 1 else word_of_int \<lfloor>q\<rfloor>)"

definition execute ::
    "'s solver_os \<Rightarrow> solver_type \<Rightarrow> string \<Rightarrow> string \<Rightarrow> string \<Rightarrow> u128 \<Rightarrow> internal_optimizer \<Rightarrow> ('s, bool) effect" where
  "execute os solver result_folder input_file time_limit min_avg_fee_per_order opt =
     ebind (elift (execute_command solver result_folder input_file time_limit min_avg_fee_per_order opt)) (os_output os)"

definition run_solver ::
    "'s solver_os \<Rightarrow> string \<Rightarrow> string \<Rightarrow> string \<Rightarrow> solver_type \<Rightarrow> duration \<Rightarrow> u128 \<Rightarrow> internal_optimizer \<Rightarrow> ('s, string) effect" where
  "run_solver os input_file input result_folder solver time_limit min_avg_fee_per_order opt =
     ebind (effect_context (''error writing instance to '' @ input_file) (write_input os input_file input)) (\<lambda>_.
     ebind (os_create_dir_all os result_folder) (\<lambda>_.
     let time_limit = show_nat (unat (f64_as_u64 (f64_nearest (as_secs_f64 time_limit))))
     in ebind (execute os solver result_folder input_file time_limit min_avg_fee_per_order opt) (\<lambda>success.
        if \<not> success then elift (Err ''Solver execution failed'')
        else effect_context (''error reading solver output from '' @ result_folder) (read_output os result_folder))))"

section \<open>The price finder\<close>

type_synonym 's io = "string \<Rightarrow> string \<Rightarrow> string \<Rightarrow> solver_type \<Rightarrow> duration \<Rightarrow> u128 \<Rightarrow> internal_optimizer \<Rightarrow> ('s, string) effect"

type_synonym 's price_finder = "order list \<Rightarrow> account_state \<Rightarrow> duration \<Rightarrow> u128 \<Rightarrow> (string, 's \<times> solver_metrics, solution) proc"

text \<open>The libraries that the price finder calls: JSON, and the working directory and the calendar.\<close>

record ('s, 'n) finder_platform =
  to_json :: "solver_input \<Rightarrow> string res"
  from_json :: "string \<Rightarrow> 'n solver_output res"
  conversions :: "'n number_conversions"
  current_dir :: "('s, string) effect"
  format_date :: "system_time \<Rightarrow> string"
  to_rfc3339 :: "system_time \<Rightarrow> string"

record 's optimisation_price_finder =
  io_methods :: "'s io"
  opf_fee :: "fee option"
  opf_solver_type :: solver_type
  opf_price_oracle :: "order list \<Rightarrow> (string, 's, tokens) proc"
  opf_internal_optimizer :: internal_optimizer

definition optimisation_new ::
    "'s solver_os \<Rightarrow> fee option \<Rightarrow> solver_type \<Rightarrow> (order list \<Rightarrow> (string, 's, tokens) proc) \<Rightarrow> internal_optimizer \<Rightarrow>
     's optimisation_price_finder" where
  "optimisation_new os f solver oracle opt =
     \<lparr>io_methods = run_solver os, opf_fee = f, opf_solver_type = solver, opf_price_oracle = oracle, opf_internal_optimizer = opt\<rparr>"

definition show_int :: "int \<Rightarrow> string" where
  "show_int i = (if i < 0 then CHR ''-'' # show_nat (nat (- i)) else show_nat (nat i))"

definition solver_type_debug :: "solver_type \<Rightarrow> string" where
  "solver_type_debug solver =
     (case solver of NaiveSolver \<Rightarrow> ''NaiveSolver'' | StandardSolver \<Rightarrow> ''StandardSolver''
      | OpenSolver \<Rightarrow> ''OpenSolver'' | BestRingSolver \<Rightarrow> ''BestRingSolver'')"

definition deserialize_result :: "('s, 'n) finder_platform \<Rightarrow> string \<Rightarrow> (solution \<times> 'n solver_stats) res" where
  "deserialize_result pf result = rmap into_solution (from_json pf result)"

definition instance_name :: "('s, 'n) finder_platform \<Rightarrow> system_time \<Rightarrow> string" where
  "instance_name pf now =
     (let batch_id = bigint_div (now div 1000000000) 300 - 1
      in ''instance_'' @ show_int batch_id @ ''_'' @ to_rfc3339 pf now)"

definition instance_file :: "('s, 'n) finder_platform \<Rightarrow> system_time \<Rightarrow> string \<Rightarrow> string" where
  "instance_file pf now dir =
     (let input_folder = dir @ ''/instances/'' @ format_date pf now
      in input_folder @ ''/'' @ instance_name pf now @ ''.json'')"

definition instance_results :: "('s, 'n) finder_platform \<Rightarrow> system_time \<Rightarrow> string \<Rightarrow> string" where
  "instance_results pf now dir = dir @ ''/results/'' @ format_date pf now @ ''/'' @ instance_name pf now @ ''/''"

definition on_finder_world :: "(string, 's, 'a) proc \<Rightarrow> (string, 's \<times> solver_metrics, 'a) proc" where
  "on_finder_world m = (\<lambda>(s, metrics). map_option (\<lambda>(r, s). (r, (s, metrics))) (m s))"

definition returning :: "('s, 'a) effect \<Rightarrow> (string, 's, 'a) proc" where
  "returning m s = Some (m s)"

definition optimisation_find_prices ::
    "('s, 'n) finder_platform \<Rightarrow> 's optimisation_price_finder \<Rightarrow> system_time \<Rightarrow> 's price_finder" where
  "optimisation_find_prices pf finder now orders st time_limit min_avg_earned_fee =
     pbind (on_finder_world (opf_price_oracle finder orders)) (\<lambda>toks.
     pbind (plift (traverse solver_order_from orders)) (\<lambda>solver_orders.
     let input = \<lparr>input_tokens = toks, ref_token = 0, input_accounts = serialize_balances st orders,
           input_orders = solver_orders, input_fee = map_option solver_fee_from (opf_fee finder)\<rparr>
     in pbind (on_finder_world (returning (current_dir pf))) (\<lambda>dir.
        let input_file = instance_file pf now dir;
            result_folder = instance_results pf now dir;
            min_avg_fee = 2 * min_avg_earned_fee
        in pbind (on_finder_world (returning (effect_context (''error running '' @ solver_type_debug (opf_solver_type finder) @ '' solver'')
             (ebind (elift (to_json pf input)) (\<lambda>json.
              io_methods finder input_file json result_folder (opf_solver_type finder) time_limit min_avg_fee
                (opf_internal_optimizer finder)))))) (\<lambda>result.
           pbind (plift (map_err (\<lambda>_. ''error deserializing solver output'') (deserialize_result pf result))) (\<lambda>(sol, stats).
           pbind (pmodify (\<lambda>(s, metrics). (s, handle_stats (conversions pf) stats metrics))) (\<lambda>_.
           plift (Ok sol)))))))"

definition create_price_finder ::
    "('s, 'n) finder_platform \<Rightarrow> 's solver_os \<Rightarrow> system_time \<Rightarrow> fee option \<Rightarrow> solver_type \<Rightarrow>
     (order list \<Rightarrow> (string, 's, tokens) proc) \<Rightarrow> internal_optimizer \<Rightarrow> 's price_finder" where
  "create_price_finder pf os now f solver oracle opt =
     (if solver = NaiveSolver then (\<lambda>orders st time_limit min_avg_earned_fee. plift (find_prices f orders st))
      else optimisation_find_prices pf (optimisation_new os f solver oracle opt) now)"

section \<open>Prices of the solution\<close>

text \<open>
  The prices of a solution are the prices of the answer of the solver that are present and not zero, and
  nothing else; the executed orders are those of the answer, with their amounts.
\<close>

theorem solver_prices_kept:
  assumes "hm_wf (output_prices out)"
  shows "hm_get (prices (fst (into_solution out))) t =
      (case hm_get (output_prices out) t of Some (Some price) \<Rightarrow> if 0 < price then Some price else None | _ \<Rightarrow> None) \<and>
    list_all2 (\<lambda>ord ex. ex_account_id ex = out_account_id ord \<and> ex_order_id ex = out_order_id ord \<and>
      sell_amount ex = exec_sell_amount ord \<and> buy_amount ex = exec_buy_amount ord)
      (output_orders out) (executed_orders (fst (into_solution out)))"
proof -
  let ?kept = "\<lambda>m. filter (\<lambda>(_, price). 0 < price) (List.map_filter (\<lambda>(token, price). map_option (Pair token) price) m)"
  have keys: "fst ` set (?kept m) \<subseteq> fst ` set m" for m :: "(u16 \<times> u128 option) list"
    by (force simp: List.map_filter_def)
  have wf: "hm_wf m \<Longrightarrow> hm_wf (?kept m)" for m :: "(u16 \<times> u128 option) list"
  proof (induction m)
    case (Cons kv m)
    obtain k v where kv: "kv = (k, v)"
      by (cases kv)
    have "k \<notin> fst ` set (?kept m)" "hm_wf (?kept m)"
      using Cons keys [of m] by (auto simp: kv)
    then show ?case
      by (auto simp: kv map_filter_simps simp del: set_filter split: option.split)
  qed (simp add: map_filter_simps)
  have get: "hm_wf m \<Longrightarrow> hm_get (?kept m) t =
      (case hm_get m t of Some (Some price) \<Rightarrow> if 0 < price then Some price else None | _ \<Rightarrow> None)"
    for m :: "(u16 \<times> u128 option) list"
  proof (induction m)
    case (Cons kv m)
    obtain k v where kv: "kv = (k, v)"
      by (cases kv)
    have "hm_get m k = None"
      using Cons.prems by (simp add: kv map_of_eq_None_iff)
    then show ?case
      using Cons by (auto simp: kv map_filter_simps split: option.split)
  qed (simp add: map_filter_simps)
  have "list_all2 (\<lambda>ord ex. ex_account_id ex = out_account_id ord \<and> ex_order_id ex = out_order_id ord \<and>
      sell_amount ex = exec_sell_amount ord \<and> buy_amount ex = exec_buy_amount ord)
      (output_orders out) (executed_orders (fst (into_solution out)))"
    by (simp add: into_solution_def Let_def list_all2_conv_all_nth output_executed_order_def)
  then show ?thesis
    using get [OF assms] wf [OF assms] by (simp add: into_solution_def Let_def map_of_hm_collect_distinct)
qed

theorem solver_prices_kept_witness:
  "hm_get (prices (fst (into_solution
     \<lparr>output_orders = [], output_prices = [(0, Some 5), (1, None), (2, Some 0)],
      output_stats = \<lparr>obj_vals = [], stats_solver = []\<rparr> :: nat solver_stats\<rparr>))) 0 = Some 5"
  using solver_prices_kept [of "\<lparr>output_orders = [], output_prices = [(0, Some 5), (1, None), (2, Some 0)],
      output_stats = \<lparr>obj_vals = [], stats_solver = []\<rparr> :: nat solver_stats\<rparr>" 0] by simp

section \<open>Balances of the instance\<close>

lemma token_balances_of_spec:
  assumes "bt_wf m"
  shows "bt_wf (token_balances_of st ord m)"
    and "map_of (token_balances_of st ord m) t =
      (if (t = buy_token ord \<or> t = sell_token ord) \<and> 0 < read_balance st t (account_id ord)
       then Some (read_balance st t (account_id ord)) else map_of m t)"
  using assms by (auto simp: token_balances_of_def Let_def)

definition trades :: "address \<Rightarrow> u16 \<Rightarrow> order \<Rightarrow> bool" where
  "trades a t ord \<longleftrightarrow> account_id ord = a \<and> (t = buy_token ord \<or> t = sell_token ord)"

definition accounts_for :: "account_state \<Rightarrow> order list \<Rightarrow> solver_accounts \<Rightarrow> bool" where
  "accounts_for st orders accounts \<longleftrightarrow> bt_wf accounts \<and>
     (\<forall>a. case map_of accounts a of
        None \<Rightarrow> a \<notin> account_id ` set orders
      | Some m \<Rightarrow> a \<in> account_id ` set orders \<and> bt_wf m \<and>
          (\<forall>t. map_of m t = (if list_ex (trades a t) orders \<and> 0 < read_balance st t a then Some (read_balance st t a) else None)))"

lemma accounts_for_step:
  assumes "accounts_for st orders accounts"
  shows "accounts_for st (orders @ [ord])
    (bt_insert (account_id ord) (token_balances_of st ord (case map_of accounts (account_id ord) of Some m \<Rightarrow> m | None \<Rightarrow> [])) accounts)"
proof -
  let ?m = "case map_of accounts (account_id ord) of Some m \<Rightarrow> m | None \<Rightarrow> []"
  have acc: "bt_wf accounts" "case map_of accounts a of
        None \<Rightarrow> a \<notin> account_id ` set orders
      | Some m \<Rightarrow> a \<in> account_id ` set orders \<and> bt_wf m \<and>
          (\<forall>t. map_of m t = (if list_ex (trades a t) orders \<and> 0 < read_balance st t a then Some (read_balance st t a) else None))" for a
    using assms by (auto simp: accounts_for_def)
  have none: "\<not> list_ex (trades a t) orders" if "a \<notin> account_id ` set orders" for a t
    using that by (auto simp: list_ex_iff trades_def)
  have m: "bt_wf ?m" "map_of ?m t =
      (if list_ex (trades (account_id ord) t) orders \<and> 0 < read_balance st t (account_id ord)
       then Some (read_balance st t (account_id ord)) else None)" for t
    using acc(2) [of "account_id ord"] none by (auto split: option.splits)
  have "bt_wf (token_balances_of st ord ?m)" "map_of (token_balances_of st ord ?m) t =
      (if list_ex (trades (account_id ord) t) (orders @ [ord]) \<and> 0 < read_balance st t (account_id ord)
       then Some (read_balance st t (account_id ord)) else None)" for t
    using token_balances_of_spec [OF m(1), of st ord] m(2) by (auto simp: trades_def)
  moreover have "list_ex (trades a t) (orders @ [ord]) = list_ex (trades a t) orders" if "a \<noteq> account_id ord" for a t
    using that by (auto simp: trades_def)
  ultimately have "case map_of (bt_insert (account_id ord) (token_balances_of st ord ?m) accounts) a of
        None \<Rightarrow> a \<notin> account_id ` set (orders @ [ord])
      | Some m \<Rightarrow> a \<in> account_id ` set (orders @ [ord]) \<and> bt_wf m \<and>
          (\<forall>t. map_of m t = (if list_ex (trades a t) (orders @ [ord]) \<and> 0 < read_balance st t a then Some (read_balance st t a) else None))" for a
    using acc(1) acc(2) [of a] by (cases "a = account_id ord"; cases "map_of accounts a") simp_all
  then show ?thesis
    using acc(1) by (simp add: accounts_for_def)
qed

lemma serialize_balances_accounts: "accounts_for st orders (serialize_balances st orders)"
proof (induction orders rule: rev_induct)
  case Nil
  show ?case
    by (simp add: accounts_for_def serialize_balances_def)
next
  case (snoc ord orders)
  then show ?case
    using accounts_for_step [OF snoc] by (simp add: serialize_balances_def Let_def)
qed

text \<open>
  C38: An instance lists exactly the accounts that have an order, and of each account exactly the positive
  balances of the tokens that its orders buy or sell.
\<close>

theorem serialize_balances_correct:
  "bt_wf (serialize_balances st orders) \<and>
   (case map_of (serialize_balances st orders) a of
      None \<Rightarrow> a \<notin> account_id ` set orders
    | Some m \<Rightarrow> a \<in> account_id ` set orders \<and> bt_wf m \<and>
        map_of m t = (if list_ex (trades a t) orders \<and> 0 < read_balance st t a then Some (read_balance st t a) else None))"
proof -
  have accounts: "bt_wf (serialize_balances st orders)"
    "case map_of (serialize_balances st orders) a of
      None \<Rightarrow> a \<notin> account_id ` set orders
    | Some m \<Rightarrow> a \<in> account_id ` set orders \<and> bt_wf m \<and>
        (\<forall>t. map_of m t = (if list_ex (trades a t) orders \<and> 0 < read_balance st t a then Some (read_balance st t a) else None))"
    using serialize_balances_accounts [of st orders] unfolding accounts_for_def by simp_all
  then show ?thesis
    by (cases "map_of (serialize_balances st orders) a") simp_all
qed

section \<open>Running the solver\<close>

lemma ebind_eq_Ok: "ebind m f s = (Ok b, s') \<longleftrightarrow> (\<exists>a s1. m s = (Ok a, s1) \<and> f a s1 = (Ok b, s'))"
  by (cases "m s"; cases "fst (m s)") (auto simp: ebind_def)

lemma effect_context_eq_Ok: "effect_context msg m s = (Ok a, s') \<longleftrightarrow> m s = (Ok a, s')"
  by (cases "m s"; cases "fst (m s)") (auto simp: effect_context_def)

lemma effect_context_not_Panic: "fst (effect_context msg m s) = Panic \<longleftrightarrow> fst (m s) = Panic"
  by (cases "m s"; cases "fst (m s)") (auto simp: effect_context_def)

lemma ebind_not_Panic:
  assumes "fst (m s) \<noteq> Panic" "\<And>a s. fst (f a s) \<noteq> Panic"
  shows "fst (ebind m f s) \<noteq> Panic"
  using assms by (cases "m s"; cases "fst (m s)") (auto simp: ebind_def)

lemma eignore_eq_Ok: "eignore m s = (Ok (), s') \<longleftrightarrow> (\<exists>r. m s = (r, s') \<and> r \<noteq> Panic)"
  by (cases "m s"; cases "fst (m s)") (auto simp: eignore_def)

lemma write_input_Ok:
  assumes "write_input os input_file input s = (Ok (), s')"
  shows "\<exists>s0 s1 written. (case path_parent input_file of Some parent \<Rightarrow> os_create_dir_all os parent s | None \<Rightarrow> (Ok (), s)) = (Ok (), s0) \<and>
    os_create_file os input_file s0 = (Ok (), s1) \<and> os_write_all os input_file input s1 = (written, s') \<and>
    (written = Ok () \<or> (\<exists>e. written = Err e \<and> length input < BUFFER_SIZE))"
proof -
  obtain s0 s1 where s0: "(case path_parent input_file of Some parent \<Rightarrow> os_create_dir_all os parent | None \<Rightarrow> elift (Ok ())) s = (Ok (), s0)"
    and s1: "os_create_file os input_file s0 = (Ok (), s1)"
    and wr: "(if BUFFER_SIZE \<le> length input then os_write_all os input_file input
      else eignore (os_write_all os input_file input)) s1 = (Ok (), s')"
    using assms by (auto simp: write_input_def ebind_eq_Ok)
  obtain written where "os_write_all os input_file input s1 = (written, s')"
    "written = Ok () \<or> (\<exists>e. written = Err e \<and> length input < BUFFER_SIZE)"
    using wr by (cases "BUFFER_SIZE \<le> length input"; cases "fst (os_write_all os input_file input s1)") (auto simp: eignore_eq_Ok)
  with s0 s1 show ?thesis
    by (auto simp: elift_def split: option.splits)
qed

text \<open>
  C23: A run of the solver that returns an answer created the instance file and tried to write the instance to
  it; the write succeeded, unless the instance is shorter than the buffer of the writer, whose error is then
  ignored.  It started the solver with the instance file and the given minimal fee on the command line, saw it
  succeed, and returns the contents of the solution file of the results folder.  The command line of the open
  solver names this file, that of the private solvers only the results folder.
\<close>

theorem run_solver_correct:
  assumes "run_solver os input_file input result_folder solver limit fee opt s = (Ok answer, s')"
  shows "\<exists>time s0 s1 written s2 s3 s4 cmd.
    (case path_parent input_file of Some parent \<Rightarrow> os_create_dir_all os parent s | None \<Rightarrow> (Ok (), s)) = (Ok (), s0) \<and>
    os_create_file os input_file s0 = (Ok (), s1) \<and> os_write_all os input_file input s1 = (written, s2) \<and>
    (written = Ok () \<or> (\<exists>e. written = Err e \<and> length input < BUFFER_SIZE)) \<and>
    os_create_dir_all os result_folder s2 = (Ok (), s3) \<and>
    execute_command solver result_folder input_file time fee opt = Ok cmd \<and> os_output os cmd s3 = (Ok True, s4) \<and>
    os_read_file os (solution_file result_folder) s4 = (Ok answer, s') \<and>
    list_ex ((=) input_file) (cmd_args cmd) \<and>
    list_ex ((=) (if solver = OpenSolver then ''--solution='' @ solution_file result_folder else ''--outputDir='' @ result_folder)) (cmd_args cmd) \<and>
    list_ex ((=) ((if solver = OpenSolver then ''--min-avg-fee-per-order='' else ''--minAvgFeePerOrder='') @ show_nat (unat fee))) (cmd_args cmd)"
proof -
  let ?time = "show_nat (unat (f64_as_u64 (f64_nearest (as_secs_f64 limit))))"
  obtain s2 s3 s4 cmd where run: "write_input os input_file input s = (Ok (), s2)" "os_create_dir_all os result_folder s2 = (Ok (), s3)"
    "execute_command solver result_folder input_file ?time fee opt = Ok cmd" "os_output os cmd s3 = (Ok True, s4)"
    "os_read_file os (solution_file result_folder) s4 = (Ok answer, s')"
    using assms
    by (auto simp: run_solver_def Let_def ebind_eq_Ok effect_context_eq_Ok execute_def elift_def read_output_def solution_file_def
        split: if_splits)
  moreover have "list_ex ((=) input_file) (cmd_args cmd) \<and>
    list_ex ((=) (if solver = OpenSolver then ''--solution='' @ solution_file result_folder else ''--outputDir='' @ result_folder)) (cmd_args cmd) \<and>
    list_ex ((=) ((if solver = OpenSolver then ''--min-avg-fee-per-order='' else ''--minAvgFeePerOrder='') @ show_nat (unat fee))) (cmd_args cmd)"
    using run(3) by (cases solver) (auto simp: execute_command_def open_solver_command_def private_solver_command_def)
  ultimately show ?thesis
    using write_input_Ok [OF run(1)] by blast
qed

text \<open>Operating systems and libraries that report failures as errors.\<close>

definition os_calm :: "'s solver_os \<Rightarrow> bool" where
  "os_calm os \<longleftrightarrow>
     (\<forall>p s. fst (os_create_dir_all os p s) \<noteq> Panic) \<and> (\<forall>p s. fst (os_create_file os p s) \<noteq> Panic) \<and>
     (\<forall>p t s. fst (os_write_all os p t s) \<noteq> Panic) \<and> (\<forall>p s. fst (os_read_file os p s) \<noteq> Panic) \<and>
     (\<forall>c s. fst (os_output os c s) \<noteq> Panic)"

definition platform_calm :: "('s, 'n) finder_platform \<Rightarrow> bool" where
  "platform_calm pf \<longleftrightarrow>
     (\<forall>i. to_json pf i \<noteq> Panic) \<and> (\<forall>t. from_json pf t \<noteq> Panic) \<and> (\<forall>s. fst (current_dir pf s) \<noteq> Panic)"

lemma write_input_no_panic:
  assumes "os_calm os"
  shows "fst (write_input os input_file input s) \<noteq> Panic"
proof -
  have "fst (eignore (os_write_all os p t) s) \<noteq> Panic" for p t s
  proof -
    have "fst (os_write_all os p t s) \<noteq> Panic"
      using assms by (simp add: os_calm_def)
    then show ?thesis
      by (cases "os_write_all os p t s"; cases "fst (os_write_all os p t s)") (auto simp: eignore_def)
  qed
  then show ?thesis
    unfolding write_input_def using assms
    by (intro ebind_not_Panic) (auto simp: os_calm_def elift_def split: option.split)
qed

lemma run_solver_no_panic:
  assumes "os_calm os" "solver \<noteq> NaiveSolver"
  shows "fst (run_solver os input_file input result_folder solver limit fee opt s) \<noteq> Panic"
proof -
  have "execute_command solver result_folder input_file time fee opt \<noteq> Panic" for time
    using assms(2) by (cases solver) (simp_all add: execute_command_def)
  then have "fst (execute os solver result_folder input_file time fee opt s) \<noteq> Panic" for time s
    unfolding execute_def using assms(1) by (intro ebind_not_Panic) (auto simp: elift_def os_calm_def)
  then show ?thesis
    unfolding run_solver_def Let_def using assms(1) write_input_no_panic [OF assms(1)]
    by (intro ebind_not_Panic) (auto simp: effect_context_not_Panic os_calm_def elift_def read_output_def)
qed

lemma solver_order_from_Ok:
  assumes "list_all within_limits orders"
  shows "\<exists>solver_orders. traverse solver_order_from orders = Ok solver_orders"
proof -
  have "is_ok (traverse solver_order_from orders)"
  proof (rule traverse_Ok_all)
    fix ord
    assume "ord \<in> set orders"
    then have "remaining_sell_amount ord \<le> denominator ord"
      using assms by (simp add: list_all_iff within_limits_def)
    then obtain buy where "compute_remaining_buy_sell_amounts ord = (Ok (buy, remaining_sell_amount ord) :: (u128 \<times> u128) res)"
      unfolding compute_remaining_buy_sell_amounts_def using compute_remaining_amounts_Ok by metis
    then show "is_ok (solver_order_from ord)"
      by (simp add: solver_order_from_def)
  qed
  then show ?thesis
    by (cases "traverse solver_order_from orders") simp_all
qed

definition no_panic :: "('e, 's, 'a) proc \<Rightarrow> bool" where
  "no_panic m \<longleftrightarrow> (\<forall>s s'. m s \<noteq> Some (Panic, s'))"

lemma no_panic_bind:
  assumes "no_panic m" "\<And>a. no_panic (k a)"
  shows "no_panic (pbind m k)"
  unfolding no_panic_def
proof (intro allI notI)
  fix s s'
  assume run: "pbind m k s = Some (Panic, s')"
  have "m s \<noteq> None"
    using run by (cases "m s") (simp_all add: pbind_def)
  then obtain q s1 where q: "m s = Some (q, s1)"
    by auto
  show False
    using run q assms unfolding no_panic_def by (cases q) (auto simp: pbind_def)
qed

lemma no_panic_base:
  "r \<noteq> Panic \<Longrightarrow> no_panic (plift r)" "no_panic (pmodify g)"
  by (auto simp: no_panic_def plift_def pmodify_def)

lemma no_panic_world: "no_panic m \<Longrightarrow> no_panic (on_finder_world m)"
  by (auto simp: no_panic_def on_finder_world_def)

lemma no_panic_returning: "(\<And>s. fst (m s) \<noteq> Panic) \<Longrightarrow> no_panic (returning m)"
  unfolding no_panic_def returning_def by (metis fst_conv option.inject)

lemma map_err_eq_Panic: "map_err g r = Panic \<longleftrightarrow> r = Panic"
  by (cases r) simp_all

text \<open>
  C24: The price finder of any solver but the naive one does not panic on auction data: when the price oracle,
  the operating system and the libraries report their failures as errors, and no order has more left to sell
  than its limit, every failure is an error of the price finder.
\<close>

theorem created_finder_no_panic:
  assumes "solver \<noteq> NaiveSolver" "os_calm os" "platform_calm pf" "\<And>orders. no_panic (oracle orders)" "list_all within_limits orders"
  shows "no_panic (create_price_finder pf os now f solver oracle opt orders st limit fee)"
proof -
  obtain solver_orders where orders: "traverse solver_order_from orders = Ok solver_orders"
    using solver_order_from_Ok [OF assms(5)] by blast
  have calm: "to_json pf i \<noteq> Panic" "from_json pf t \<noteq> Panic" "fst (current_dir pf s) \<noteq> Panic" for i t s
    using assms(3) by (simp_all add: platform_calm_def)
  have answer: "deserialize_result pf t \<noteq> Panic" for t
    using calm(2) [of t] by (cases "from_json pf t") (simp_all add: deserialize_result_def)
  have io: "fst (ebind (elift (to_json pf i)) (\<lambda>json. run_solver os input_file json folder solver limit fee opt) s) \<noteq> Panic"
    for i input_file folder limit fee s
    by (intro ebind_not_Panic run_solver_no_panic assms) (simp add: elift_def calm)
  show ?thesis
    using assms(1) unfolding create_price_finder_def optimisation_find_prices_def optimisation_new_def orders Let_def case_prod_beta
    by (auto intro!: no_panic_bind no_panic_world no_panic_returning no_panic_base assms(4) calm
        simp: effect_context_not_Panic io map_err_eq_Panic answer orders)
qed

text \<open>A file system in memory with a solver that finds no trade.\<close>

definition sample_os :: "(string \<times> string) list solver_os" where
  "sample_os =
     \<lparr>os_create_dir_all = (\<lambda>_ files. (Ok (), files)), os_create_file = (\<lambda>p files. (Ok (), hm_insert p [] files)),
      os_write_all = (\<lambda>p t files. (Ok (), hm_insert p t files)), os_read_file = (\<lambda>p files. (ok_or (hm_get files p) ''not found'', files)),
      os_output = (\<lambda>cmd files. (Ok True, hm_insert ''r/06_solution_int_valid.json'' ''no trades'' files))\<rparr>"

definition sample_libraries :: "((string \<times> string) list, nat) finder_platform" where
  "sample_libraries =
     \<lparr>to_json = (\<lambda>_. Ok ''instance''),
      from_json = (\<lambda>_. Ok \<lparr>output_orders = [], output_prices = [], output_stats = \<lparr>obj_vals = [], stats_solver = []\<rparr>\<rparr>),
      conversions = \<lparr>as_f64 = (\<lambda>n. Some (f64_of_nat n)), as_i64 = (\<lambda>n. Some (int n)), as_u64 = (\<lambda>_. None), parse_f64 = (\<lambda>_. None)\<rparr>,
      current_dir = (\<lambda>files. (Ok ''.'', files)), format_date = (\<lambda>_. ''2020-01-01''), to_rfc3339 = (\<lambda>_. ''2020'')\<rparr>"

theorem run_solver_correct_witness:
  "\<exists>s' (cmd :: command) s3. run_solver sample_os ''i/in'' ''instance'' ''r/'' OpenSolver 1000000000 7 Scip [] = (Ok ''no trades'', s') \<and>
     os_read_file sample_os ''r/06_solution_int_valid.json'' s3 = (Ok ''no trades'', s') \<and>
     list_ex ((=) ''--solution=r/06_solution_int_valid.json'') (cmd_args cmd)"
proof -
  have "\<exists>s'. run_solver sample_os ''i/in'' ''instance'' ''r/'' OpenSolver 1000000000 7 Scip [] = (Ok ''no trades'', s')"
    by (simp add: run_solver_def Let_def ebind_def effect_context_def write_input_def path_parent_def sample_os_def execute_def elift_def
        execute_command_def read_output_def ok_or_def eignore_def BUFFER_SIZE_def)
  then obtain s' where run: "run_solver sample_os ''i/in'' ''instance'' ''r/'' OpenSolver 1000000000 7 Scip [] = (Ok ''no trades'', s')"
    by blast
  obtain s3 and cmd :: command where "os_read_file sample_os (solution_file ''r/'') s3 = (Ok ''no trades'', s')"
    "list_ex ((=) (if OpenSolver = OpenSolver then ''--solution='' @ solution_file ''r/'' else ''--outputDir='' @ ''r/'')) (cmd_args cmd)"
    using run_solver_correct [OF run] by blast
  with run show ?thesis
    by (auto simp: solution_file_def)
qed

theorem created_finder_no_panic_witness:
  "no_panic (create_price_finder sample_libraries sample_os 0 None OpenSolver (\<lambda>_. plift (Ok [])) Scip
     (snd sample_auction) (fst sample_auction) 1000000000 7) \<and> length (snd sample_auction) = 2"
proof
  have "os_calm sample_os"
    by (auto simp: os_calm_def sample_os_def ok_or_def split: option.split)
  moreover have "list_all within_limits (snd sample_auction)" "platform_calm sample_libraries"
    by (simp_all add: sample_auction_def sample_order_def within_limits_def platform_calm_def sample_libraries_def)
  ultimately show "no_panic (create_price_finder sample_libraries sample_os 0 None OpenSolver (\<lambda>_. plift (Ok [])) Scip
      (snd sample_auction) (fst sample_auction) 1000000000 7)"
    by (intro created_finder_no_panic) (simp_all add: no_panic_base)
qed (simp add: sample_auction_def)

end
