(* ===== verification/Spec2Isabelle.thy ===== *)
theory Spec2Isabelle
  imports EvmScheduler History SearchBatches PriceClients PriceEstimator OptimizationSolver
begin

text \<open>
  \<^bold>\<open>dex-services: a verification development.\<close>

  The repository holds the off-chain services of a batch auction exchange.  Traders place orders in
  a contract; time is divided into batches of five minutes; in the first four minutes after a
  batch solvers may submit a solution, that is prices and executed amounts.  The services follow
  the contract's events, rebuild the orderbook of a batch from them, look for a solution and
  submit it.  The sources are Rust; the paths below are under \<open>src/services-core/src\<close> unless they
  name another crate.

  \<^bold>\<open>The parts and how they interact.\<close>  A scheduler decides when to solve which batch and calls the
  driver.  The driver reads the auction of the batch from an orderbook reader, asks the economic
  viability for a minimum fee, lets a price finder compute a solution, and hands it to the
  submitter, which verifies it against the contract and sends the transaction.  The reader is a
  filter around the updating orderbook; the updating orderbook keeps a registry of contract events
  up to date with the chain (with the help of a cache of block timestamps) and folds the events
  into an orderbook state made of balances and orders.  \<open>pricegraph\<close> decodes the encoded orders into a
  graph whose nodes are tokens and whose edges are the cheapest orders, and answers price queries by
  searching for cheapest paths and filling them.  A price oracle combines configured prices, prices of
  external exchanges and prices of the order graph, with token information read through a cache; the
  viability and the instances for the external solvers use it.  The \<open>price-estimator\<close> service keeps two price
  graphs, one of them with the rounding buffer of the solvers taken off, and answers HTTP requests from them.

  \<^bold>\<open>Theories.\<close>
  \<^item> \<open>Prelude\<close>: machine integers, the result type with errors and panics, hash maps as association
    lists, effects on a state that survives errors, chunking; the locale \<open>fallible_machine\<close> for
    invariants of folds over events.
  \<^item> \<open>Numeric\<close> (\<open>util.rs\<close>, \<open>bigint_u256.rs\<close>): rounding-up division, checked narrowing, conversions
    between \<open>BigInt\<close> and \<open>U256\<close>.
  \<^item> \<open>Models\<close> (\<open>models/*.rs\<close>, \<open>time.rs\<close>): batches and their times, orders, account states, solutions,
    token ids.
  \<^item> \<open>Balance\<close> and \<open>StreamedOrder\<close> (\<open>orderbook/streamed/{balance,order}.rs\<close>): lazily settled balances and
    used amounts; each is shown to refine a ledger that books every change in its batch.
  \<^item> \<open>AuctionData\<close> (\<open>orderbook.rs\<close>, \<open>orderbook/util.rs\<close>, \<open>orderbook/filtered_orderbook.rs\<close>): canonical
    auction data, filters; the locales \<open>orderbook_reading\<close> and \<open>sound_orderbook_reading\<close>, the contract
    of a reader.
  \<^item> \<open>StreamedState\<close> (\<open>orderbook/streamed/state.rs\<close>): every event handler, the fold over events and
    the queries; the invariant of reachable states.
  \<^item> \<open>OrderedMap\<close>: the interface \<open>ordered_map\<close> of \<open>BTreeMap\<close> and its interpretation on sorted lists.
  \<^item> \<open>EventRegistry\<close> (\<open>history/events.rs\<close>), \<open>History\<close> (\<open>history.rs\<close>, \<open>history/batches.rs\<close>).
  \<^item> \<open>BlockTimestamps\<close> (\<open>orderbook/streamed/block_timestamp_reading.rs\<close>),
    \<open>UpdatingOrderbook\<close> (\<open>orderbook/streamed/updating_orderbook.rs\<close>): following the chain; the
    updating orderbook is an interpretation of the reader's contract.
  \<^item> \<open>SearchBatches\<close> (\<open>contracts/stablex_contract/search_batches.rs\<close>): the search for the last block
    of a batch.
  \<^item> \<open>AuctionElement\<close> (\<open>pricegraph/src/encoding.rs\<close>, \<open>contracts/stablex_auction_element.rs\<close>): both decoders
    of the packed orders; the locale \<open>fixed_codec\<close>.
  \<^item> \<open>F64\<close>: an executable model of 64-bit floating point numbers, used where the code computes with
    them.
  \<^item> \<open>NaiveSolver\<close> (\<open>price_finding/naive_solver.rs\<close>): the built-in price finder; the locale \<open>price_finding\<close>.
  \<^item> \<open>EconomicViability\<close> (\<open>economic_viability.rs\<close>), \<open>SolutionSubmission\<close> (\<open>solution_submission.rs\<close>,
    \<open>solution_submission/gas_price_stream.rs\<close>, \<open>contracts/stablex_contract.rs\<close>), \<open>Driver\<close>
    (\<open>driver/stablex_driver.rs\<close>; the locale \<open>auction_solving\<close> combines a sound reader with a price
    finder).
  \<^item> \<open>Scheduler\<close> and \<open>EvmScheduler\<close> (\<open>driver/scheduler.rs\<close>, \<open>driver/scheduler/{system,evm}.rs\<close>): the two
    schedulers, the first as a step relation over time.
  \<^item> \<open>GraphPaths\<close> and \<open>ShortestPaths\<close> (\<open>pricegraph/src/graph\<close>): cycles, subgraphs, and the Bellman-Ford search
    with and without a bound on the hops; the search is proved in a locale over the edge weights.
  \<^item> \<open>PriceScalars\<close> (\<open>pricegraph/src/{num,api}.rs\<close>, \<open>orderbook/{scalar,weight,flow}.rs\<close>) and \<open>PriceOrders\<close>
    (\<open>orderbook/{order,user}.rs\<close>): rates, weights and flows in floating point, orders per pair, balances.
  \<^item> \<open>PriceGraph\<close> (\<open>pricegraph/src/orderbook.rs\<close>, \<open>orderbook/{iter,reduced}.rs\<close>): building, searching, filling
    and reducing the order graph.  The logarithm, the conversions of 256 bit integers and the graph
    library are the parameter \<open>pf\<close>; \<open>PriceGraphInvariant\<close> has their contract, the locale \<open>price_platform\<close>,
    and the invariant of the orderbook, \<open>PricePlatform\<close> an interpretation that can be evaluated.
  \<^item> \<open>PriceReduction\<close>: overlaps are detected and removed.  \<open>PriceApi\<close> (\<open>pricegraph/src/lib.rs\<close>,
    \<open>api/{price_estimation,price_source,transitive_orderbook}.rs\<close>): the queries; \<open>PriceQueries\<close> and
    \<open>PriceMarkets\<close>: what they return.
  \<^item> \<open>TokenInfo\<close> (\<open>token_info.rs\<close>, \<open>token_info/*.rs\<close>): sources of token information and the cache in front of one;
    the locales \<open>token_source\<close> and \<open>reliable_token_source\<close>, the contract of a source.
  \<^item> \<open>PriceSources\<close> (\<open>price_estimation.rs\<close>, \<open>price_estimation/*.rs\<close>): the price sources, their averages and
    priorities, and the oracle; the locale \<open>price_source\<close>.  \<open>PriceClients\<close>
    (\<open>price_estimation/clients/*.rs\<close>): the clients of the exchanges, as interpretations of it.
  \<^item> \<open>OptimizationSolver\<close> (\<open>price_finding/{optimization_price_finder,price_finder_interface}.rs\<close>,
    \<open>price_finding.rs\<close>, \<open>metrics/solver_metrics.rs\<close>): instances, command lines, runs and answers of the external
    solvers.
  \<^item> \<open>EstimatorModels\<close> (\<open>price-estimator/src/{models,error}.rs\<close>, \<open>models/*.rs\<close>) and \<open>PriceEstimator\<close>
    (\<open>price-estimator/src/{orderbook,filter,solver_rounding_buffer,infallible_price_source,amounts_at_price}.rs\<close>):
    requests and results, the cached graphs and prices, the rounding buffer and the handlers.

  \<^bold>\<open>State and operations.\<close>  A struct is a record, an enum a datatype, one definition stands for one
  function.  A method that changes its object returns the new object; one that may fail returns a
  result whose constructors are \<open>Ok\<close>, \<open>Err\<close> and \<open>Panic\<close>.  Collaborators behind a trait (the node, the
  contract, clocks, estimators, the retrying transaction sender) are parameters: functions or
  records of functions, with answers indexed by the number of the question where they may differ
  from one question to the next.  Integers have their width and wrap around as in release builds.

  \<^bold>\<open>Loops.\<close>  Loops over collections are structural recursion.  Loops that may not end (the two loops
  of the block search, the polling loops of both schedulers, filling cycles and transitive orders of
  the order graph until none is left) are partial functions into options, and the theorems show that they return under stated conditions on the collaborators.  The
  scheduler theorem speaks of times before \<open>horizon\<close>, about \<open>2^55\<close> batches, where no timestamp of the
  code wraps.  Filling orders ends because every step deducts at least one unit from the balances held.
  The theorems on the order graph ask for at most 181 tokens: an order weighs at most \<open>2^112\<close>, and a
  search over n tokens can add up to \<open>n * n + 1\<close> weights, which then stays below the infinite weight
  \<open>2^127 - 1\<close>.

  \<^bold>\<open>What is shown.\<close>  The orderbook follows the chain across reorganisations up to the confirmation
  depth; balances and orders refine their ledgers; reachable states never panic and answer queries
  with exactly the valid orders; filters keep what they should; encodings round-trip and agree; the
  block search ends with the right block; solutions of the built-in solver respect limits,
  remaining amounts and balances when there is no fee, and satisfy the fee equation otherwise; the
  driver submits exactly verified solutions; the schedulers handle every batch once, in its time
  window.  The search over the order graph finds cheapest paths or a negative cycle; building an
  orderbook establishes, and filling paths keeps, the invariant that ties orders, balances and graph
  together; reducing it ends without negative cycles; price queries without a bound on the hops return,
  and are sums over the transitive orders up to a limit; a transitive orderbook consists of the ring
  trades of the market and of the transitive orders that remain within the spread; queries fail only
  along a path of orders whose rate is not representable.  The cache of token information behaves as a source and finds the
  lowest token of a symbol however its requests are scheduled; averages are exact below \<open>2^128\<close>;
  configured prices win; the orders of a market are aggregated by price.  An external solver is started
  with the instance file, after the instance was written or a short instance's write error was ignored; its answer is read from the file it was told to write, and the price finder
  turns every failure into an error.  The cached graphs of the price estimator are those of the auction data
  that the last successful update read, whatever requests read in between; the rounding buffer takes off
  what it should, and the handlers leave the caches alone.  Where the code departs from its comments or
  from its purpose a theorem or lemma shows the departure.

  \<^bold>\<open>Not modelled.\<close>  Input and output: reading and writing the registry file (bincode), JSON (serde),
  HTTP connections and the composition of \<open>warp\<close> filters around the handlers, logging, metrics other than the
  solver's, command line parsing, process startup; gas price estimators, which wrap a library; contract
  bindings, which are generated.  The file system, the solver processes, the JSON library, the
  calendar and the answers of the exchanges' HTTP services are parameters.  Futures that the code joins are
  run one after the other; only the concurrent requests of the token cache come in any order.  The range of \<open>SystemTime\<close> and \<open>Duration\<close> is unbounded.  The
  order of equal elements in unstable sorts, and of entries in hash maps, is one possible order; with the
  random seeds of the hash maps two price graphs of the same auction data may differ.  Debug assertions
  (the range of a weight among them) are left out, as in release builds; sleeps take exactly as long as
  asked for, and the node of the orderbook theorems answers for the timestamp of every block hash.  For
  queries with a bound on the hops only the search itself is treated.
\<close>

end
